(* ===== verification/Prelude.thy ===== *)
theory Prelude
  imports Main "HOL-Library.Word" "HOL-Library.Monad_Syntax" "HOL-Library.Multiset"
begin

text \<open>
  What every component of the MeDiE model shares: the C integer types and the conversions
  between them, checked signed arithmetic and checked array accesses, the POSIX error codes,
  counted loops, and the lemmas and hint collections about them.

  A C function whose execution may be undefined (a signed overflow, an access outside an
  array, a division by zero) is modelled by a function into \<open>'a option\<close>: \<open>None\<close> is
  undefined behaviour, never an error code. Error codes are ordinary values of the result.
\<close>

named_theorems c_conv \<open>conversions between C integer types on values in range\<close>
named_theorems arr_simps \<open>checked array reads and writes that succeed\<close>

section \<open>Integer types\<close>

type_synonym u8 = "8 word"
type_synonym u32 = "32 word"
type_synonym u64 = "64 word"

text \<open>A C \<open>int\<close> is a mathematical integer; \<open>int_ok\<close> says it is a value of the 32-bit type.\<close>

definition INT_MAX :: int where
  "INT_MAX = 2147483647"

definition INT_MIN :: int where
  "INT_MIN = - 2147483648"

definition int_ok :: "int \<Rightarrow> bool" where
  "int_ok x \<longleftrightarrow> INT_MIN \<le> x \<and> x \<le> INT_MAX"

text \<open>The result of a signed operation: undefined when it does not fit.\<close>

definition c_int :: "int \<Rightarrow> int option" where
  "c_int x = (if int_ok x then Some x else None)"

text \<open>
  Conversions: \<open>uint32_t\<close> to \<open>int\<close> keeps the bits (as gcc defines it), \<open>int\<close> to
  \<open>uint32_t\<close> is reduction modulo $2^{32}$ (as the language defines it).
\<close>

definition int_of_u32 :: "u32 \<Rightarrow> int" where
  "int_of_u32 w = sint w"

definition u32_of_int :: "int \<Rightarrow> u32" where
  "u32_of_int x = word_of_int x"

text \<open>\<open>a / b\<close> on \<open>int\<close> truncates towards zero and is undefined for \<open>b = 0\<close>.\<close>

definition c_div :: "int \<Rightarrow> int \<Rightarrow> int option" where
  "c_div a b = (if b = 0 then None else c_int (sgn a * sgn b * (\<bar>a\<bar> div \<bar>b\<bar>)))"

text \<open>\<open>abs\<close> of the standard library is undefined at \<open>INT_MIN\<close>.\<close>

definition c_abs :: "int \<Rightarrow> int option" where
  "c_abs x = c_int \<bar>x\<bar>"

lemma c_int_Some_iff [simp]: "c_int x = Some y \<longleftrightarrow> y = x \<and> int_ok x"
  by (auto simp: c_int_def)

lemma c_int_ok [c_conv]: "int_ok x \<Longrightarrow> c_int x = Some x"
  by simp

lemma int_ok_int_of_u32 [simp]: "int_ok (int_of_u32 w)"
proof -
  have "sint w < 2 ^ (LENGTH(32) - 1)" by (rule sint_lt)
  moreover have "- (2 ^ (LENGTH(32) - 1)) \<le> sint w" by (rule sint_ge)
  ultimately show ?thesis
    by (simp add: int_ok_def INT_MIN_def INT_MAX_def int_of_u32_def)
qed

lemma u32_of_int_of_u32 [simp]: "u32_of_int (int_of_u32 w) = w"
  by (simp add: u32_of_int_def int_of_u32_def)

lemma int_of_u32_of_int [c_conv]: "int_ok x \<Longrightarrow> int_of_u32 (u32_of_int x) = x"
  by (simp add: int_of_u32_def u32_of_int_def int_ok_def INT_MIN_def INT_MAX_def
      sint_sbintrunc' signed_take_bit_int_eq_self)

lemma uint_u32_of_int [c_conv]: "0 \<le> x \<Longrightarrow> int_ok x \<Longrightarrow> uint (u32_of_int x) = x"
  by (simp add: u32_of_int_def int_ok_def INT_MAX_def uint_word_of_int)

lemma unat_u32_of_int [c_conv]: "0 \<le> x \<Longrightarrow> int_ok x \<Longrightarrow> unat (u32_of_int x) = nat x"
  by (simp add: uint_u32_of_int unat_eq_nat_uint)

lemma u32_of_int_inj:
  "int_ok x \<Longrightarrow> int_ok y \<Longrightarrow> u32_of_int x = u32_of_int y \<longleftrightarrow> x = y"
  by (metis int_of_u32_of_int)

text \<open>A \<open>uint32_t\<close> below $2^{31}$ reads as the same number as an \<open>int\<close>.\<close>

lemma int_of_u32_small [c_conv]: "uint w \<le> INT_MAX \<Longrightarrow> int_of_u32 w = uint w"
proof -
  assume w: "uint w \<le> INT_MAX"
  then have ok: "int_ok (uint w)" by (simp add: int_ok_def INT_MAX_def INT_MIN_def order_trans [OF _ uint_ge_0])
  have "w = u32_of_int (uint w)" by (simp add: u32_of_int_def)
  then have "int_of_u32 w = int_of_u32 (u32_of_int (uint w))" by simp
  also have "\<dots> = uint w" by (rule int_of_u32_of_int [OF ok])
  finally show ?thesis .
qed

text \<open>A larger one reads as a negative number.\<close>

lemma int_of_u32_big: "INT_MAX < uint w \<Longrightarrow> int_of_u32 w = uint w - 4294967296"
proof -
  assume big: "INT_MAX < uint w"
  let ?x = "uint w - 4294967296"
  have lt: "uint w < 4294967296" using uint_lt2p [of w] by simp
  have "u32_of_int ?x = word_of_int (uint w) - word_of_int 4294967296"
    unfolding u32_of_int_def by (rule wi_hom_sub [symmetric])
  then have "u32_of_int ?x = w" by simp
  moreover have "int_ok ?x"
    using big lt by (simp add: int_ok_def INT_MAX_def INT_MIN_def)
  ultimately show ?thesis by (metis int_of_u32_of_int)
qed

lemma int_of_u32_neg_iff: "int_of_u32 w < 0 \<longleftrightarrow> INT_MAX < uint w"
proof (cases "INT_MAX < uint w")
  case True
  moreover have "uint w < 4294967296" using uint_lt2p [of w] by simp
  ultimately show ?thesis by (simp add: int_of_u32_big)
next
  case False
  then show ?thesis by (simp add: int_of_u32_small not_less)
qed

lemma less_unat_iff: "i < unat w \<longleftrightarrow> int i < uint w"
  by (simp only: uint_nat of_nat_less_iff)

lemma unat_le_iff: "unat w \<le> i \<longleftrightarrow> uint w \<le> int i"
  by (simp only: uint_nat of_nat_le_iff)

lemma unat_u32_less: "unat (w :: u32) < 4294967296"
proof -
  have "unat w < 2 ^ LENGTH(32)" by (rule unsigned_less)
  then show ?thesis by simp
qed

lemma unat_ucast_u32_u64 [simp]: "unat (ucast (w :: u32) :: u64) = unat w"
  by (simp add: unsigned_ucast_eq take_bit_nat_eq_self_iff order.strict_trans [OF unat_u32_less])

lemma unat_ucast_u64_u32: "unat (ucast (w :: u64) :: u32) = unat w mod 4294967296"
  by (simp add: unsigned_ucast_eq take_bit_eq_mod)

lemma unat_word_of_nat_u64: "n < 2 ^ 64 \<Longrightarrow> unat (word_of_nat n :: u64) = n"
  by (simp add: unat_of_nat)

section \<open>POSIX error codes (Linux)\<close>

definition EAGAIN :: int where
  "EAGAIN = 11"

definition ENOMEM :: int where
  "ENOMEM = 12"

definition EINVAL :: int where
  "EINVAL = 22"

definition EOVERFLOW :: int where
  "EOVERFLOW = 75"

definition EALREADY :: int where
  "EALREADY = 114"

lemmas errno_defs = EAGAIN_def ENOMEM_def EINVAL_def EOVERFLOW_def EALREADY_def

section \<open>Arrays\<close>

text \<open>An array is a list; reading or writing outside it is undefined behaviour.\<close>

definition rd :: "'a list \<Rightarrow> nat \<Rightarrow> 'a option" where
  "rd xs i = (if i < length xs then Some (xs ! i) else None)"

definition wr :: "'a list \<Rightarrow> nat \<Rightarrow> 'a \<Rightarrow> 'a list option" where
  "wr xs i x = (if i < length xs then Some (xs[i := x]) else None)"

text \<open>The same with an index of type \<open>int\<close>, which may be negative.\<close>

definition rdi :: "'a list \<Rightarrow> int \<Rightarrow> 'a option" where
  "rdi xs i = (if 0 \<le> i then rd xs (nat i) else None)"

definition wri :: "'a list \<Rightarrow> int \<Rightarrow> 'a \<Rightarrow> 'a list option" where
  "wri xs i x = (if 0 \<le> i then wr xs (nat i) x else None)"

lemma rd_Some_iff [simp]: "rd xs i = Some x \<longleftrightarrow> i < length xs \<and> x = xs ! i"
  by (auto simp: rd_def)

lemma wr_Some_iff [simp]: "wr xs i x = Some ys \<longleftrightarrow> i < length xs \<and> ys = xs[i := x]"
  by (auto simp: wr_def)

lemma rd_in [arr_simps]: "i < length xs \<Longrightarrow> rd xs i = Some (xs ! i)"
  by simp

lemma wr_in [arr_simps]: "i < length xs \<Longrightarrow> wr xs i x = Some (xs[i := x])"
  by simp

lemma rd_out [arr_simps]: "length xs \<le> i \<Longrightarrow> rd xs i = None"
  by (simp add: rd_def)

lemma wr_out [arr_simps]: "length xs \<le> i \<Longrightarrow> wr xs i x = None"
  by (simp add: wr_def)

lemma rdi_in [arr_simps]: "0 \<le> i \<Longrightarrow> nat i < length xs \<Longrightarrow> rdi xs i = Some (xs ! nat i)"
  by (simp add: rdi_def)

lemma wri_in [arr_simps]: "0 \<le> i \<Longrightarrow> nat i < length xs \<Longrightarrow> wri xs i x = Some (xs[nat i := x])"
  by (simp add: wri_def)

section \<open>Counted loops\<close>

text \<open>
  \<open>for (i = ...) s = body i s\<close>: the body is run for each index of the list in turn and
  undefined behaviour in one run is undefined behaviour of the loop.
\<close>

fun forM :: "'i list \<Rightarrow> ('i \<Rightarrow> 's \<Rightarrow> 's option) \<Rightarrow> 's \<Rightarrow> 's option" where
  "forM [] body s = Some s"
| "forM (i # is) body s = (case body i s of None \<Rightarrow> None | Some s' \<Rightarrow> forM is body s')"

lemma forM_append: "forM (xs @ ys) body s = Option.bind (forM xs body s) (forM ys body)"
  by (induction xs arbitrary: s) (auto split: option.splits)

text \<open>An invariant indexed by the number of rounds done.\<close>

lemma forM_upt_rule:
  assumes start: "P 0 s"
    and step: "\<And>i t. i < n \<Longrightarrow> P i t \<Longrightarrow> \<exists>t'. body i t = Some t' \<and> P (Suc i) t'"
  shows "\<exists>t. forM [0..<n] body s = Some t \<and> P n t"
  using step
proof (induction n)
  case 0
  then show ?case using start by simp
next
  case (Suc n)
  then obtain t where t: "forM [0..<n] body s = Some t" "P n t" by fastforce
  from Suc.prems [OF lessI t(2)] obtain t' where "body n t = Some t'" "P (Suc n) t'" by blast
  with t show ?case by (simp add: forM_append)
qed

lemma forM_upt_inv:
  assumes "forM [0..<n] body s = Some t" and "P s"
    and "\<And>i u u'. i < n \<Longrightarrow> P u \<Longrightarrow> body i u = Some u' \<Longrightarrow> P u'"
  shows "P t"
  using assms
proof (induction n arbitrary: t)
  case 0
  then show ?case by simp
next
  case (Suc n)
  from Suc.prems(1) obtain u where u: "forM [0..<n] body s = Some u" "body n u = Some t"
    by (auto simp: forM_append split: option.splits bind_splits)
  have "P u" using Suc.IH [OF u(1)] Suc.prems(2,3) less_SucI by blast
  then show ?case using Suc.prems(3) u(2) by blast
qed

text \<open>A loop that overwrites the array it visits, and folds something on the way.\<close>

lemma forM_upd_fold:
  assumes len: "length xs0 = n"
    and body: "\<And>i xs. i < n \<Longrightarrow> length xs = n \<Longrightarrow> xs ! i = xs0 ! i \<Longrightarrow>
      body i (xs, fold h [0..<i] a0) = Some (xs[i := f i], h i (fold h [0..<i] a0))"
  shows "forM [0..<n] body (xs0, a0) = Some (map f [0..<n], fold h [0..<n] a0)"
proof -
  define P where "P i s \<longleftrightarrow> (\<exists>xs. s = (xs, fold h [0..<i] a0) \<and> length xs = n \<and>
    (\<forall>j < n. xs ! j = (if j < i then f j else xs0 ! j)))" for i s
  have "\<exists>s. forM [0..<n] body (xs0, a0) = Some s \<and> P n s"
  proof (rule forM_upt_rule)
    show "P 0 (xs0, a0)" using len by (simp add: P_def)
  next
    fix i s
    assume i: "i < n" and "P i s"
    then obtain xs where s: "s = (xs, fold h [0..<i] a0)" and xs: "length xs = n"
      "\<forall>j < n. xs ! j = (if j < i then f j else xs0 ! j)" by (auto simp: P_def)
    have "body i s = Some (xs[i := f i], h i (fold h [0..<i] a0))"
      using body [OF i xs(1)] xs(2) i s by simp
    moreover have "P (Suc i) (xs[i := f i], h i (fold h [0..<i] a0))"
      using xs i by (auto simp: P_def nth_list_update less_Suc_eq)
    ultimately show "\<exists>t'. body i s = Some t' \<and> P (Suc i) t'" by blast
  qed
  then obtain xs where xs: "forM [0..<n] body (xs0, a0) = Some (xs, fold h [0..<n] a0)"
    "length xs = n" "\<forall>j < n. xs ! j = f j" by (auto simp: P_def)
  have "xs = map f [0..<n]" using xs by (intro nth_equalityI) auto
  with xs show ?thesis by simp
qed

lemma forM_upd:
  assumes len: "length xs0 = n"
    and body: "\<And>i xs. i < n \<Longrightarrow> length xs = n \<Longrightarrow> xs ! i = xs0 ! i \<Longrightarrow> body i xs = Some (xs[i := f i])"
  shows "forM [0..<n] body xs0 = Some (map f [0..<n])"
proof -
  define P where "P i xs \<longleftrightarrow> length xs = n \<and>
    (\<forall>j < n. xs ! j = (if j < i then f j else xs0 ! j))" for i xs
  have "\<exists>s. forM [0..<n] body xs0 = Some s \<and> P n s"
  proof (rule forM_upt_rule)
    show "P 0 xs0" using len by (simp add: P_def)
  next
    fix i xs
    assume i: "i < n" and "P i xs"
    then have "body i xs = Some (xs[i := f i])" "P (Suc i) (xs[i := f i])"
      using body [OF i] by (auto simp: P_def nth_list_update less_Suc_eq)
    then show "\<exists>t'. body i xs = Some t' \<and> P (Suc i) t'" by blast
  qed
  then obtain xs where xs: "forM [0..<n] body xs0 = Some xs" "length xs = n" "\<forall>j < n. xs ! j = f j"
    by (auto simp: P_def)
  have "xs = map f [0..<n]" using xs by (intro nth_equalityI) auto
  with xs show ?thesis by simp
qed

lemma fold_add_upt: "fold (\<lambda>i a. a + g i) [0..<n] (a :: 'a :: comm_monoid_add) = a + sum_list (map g [0..<n])"
  by (induction n) (simp_all add: add.assoc)

lemma fold_upd_upt: "i < length xs \<Longrightarrow> fold (\<lambda>i xs. xs[i := c]) [0..<n] xs ! i = (if i < n then c else xs ! i)"
  and length_fold_upd_upt [simp]: "length (fold (\<lambda>i xs. xs[i := c]) [0..<n] xs) = length xs"
  by (induction n) (auto simp: nth_list_update less_Suc_eq)

section \<open>Loops that may leave the function\<close>

text \<open>
  A round either goes on to the next one or leaves by \<open>return\<close> or \<open>goto\<close> to the error exit;
  the state as it was then is kept.
\<close>

datatype 's flow = Next (flow_state: 's) | Leave (flow_state: 's)

fun forE :: "'i list \<Rightarrow> ('i \<Rightarrow> 's \<Rightarrow> 's flow option) \<Rightarrow> 's \<Rightarrow> 's flow option" where
  "forE [] body s = Some (Next s)"
| "forE (i # is) body s = (case body i s of
      None \<Rightarrow> None
    | Some (Leave s') \<Rightarrow> Some (Leave s')
    | Some (Next s') \<Rightarrow> forE is body s')"

lemma forE_Next:
  "forM is body s = Some t \<Longrightarrow> (\<And>i u v. i \<in> set is \<Longrightarrow> body i u = Some v \<Longrightarrow> body' i u = Some (Next v)) \<Longrightarrow>
   forE is body' s = Some (Next t)"
  by (induction "is" arbitrary: s) (auto split: option.splits)

lemma forE_append: "forE (xs @ ys) body s = (case forE xs body s of
    None \<Rightarrow> None | Some (Leave s') \<Rightarrow> Some (Leave s') | Some (Next s') \<Rightarrow> forE ys body s')"
  by (induction xs arbitrary: s) (auto split: option.splits flow.splits)

lemma forE_upt_rule:
  assumes start: "P 0 s"
    and step: "\<And>i t. i < n \<Longrightarrow> P i t \<Longrightarrow> \<exists>t'. body i t = Some (Next t') \<and> P (Suc i) t'"
  shows "\<exists>t. forE [0..<n] body s = Some (Next t) \<and> P n t"
  using step
proof (induction n)
  case 0
  then show ?case using start by simp
next
  case (Suc n)
  then obtain t where t: "forE [0..<n] body s = Some (Next t)" "P n t" by fastforce
  from Suc.prems [OF lessI t(2)] obtain t' where "body n t = Some (Next t')" "P (Suc n) t'" by blast
  with t show ?case by (simp add: forE_append)
qed

lemma forM_mset_rule:
  assumes "P {#} s"
    and "\<And>i t js. i \<in> set is \<Longrightarrow> P js t \<Longrightarrow> js + {#i#} \<subseteq># mset is \<Longrightarrow> \<exists>t'. body i t = Some t' \<and> P (js + {#i#}) t'"
  shows "\<exists>t. forM is body s = Some t \<and> P (mset is) t"
proof -
  have "\<exists>t. forM ks body s = Some t \<and> P (mset ks) t" if "\<exists>zs. is = ks @ zs" for ks
    using that
  proof (induction ks rule: rev_induct)
    case Nil
    then show ?case using assms(1) by simp
  next
    case (snoc k ks)
    then obtain t where t: "forM ks body s = Some t" "P (mset ks) t" by auto
    have "k \<in> set is" "mset ks + {#k#} \<subseteq># mset is" using snoc.prems by auto
    from assms(2) [OF this(1) t(2) this(2)] t show ?case by (auto simp: forM_append)
  qed
  then show ?thesis by blast
qed

end
