(* ===== verification/Interfaces.thy ===== *)
theory Interfaces
  imports Prelude
begin

text \<open>
  The contracts between the components, as locales. A provider interprets them in its own
  theory, on the functions of the model; a client's lemma is proved once, from the laws.

  \<open>entry_table\<close>: a table of rows addressed by an index, as the manager, the servers and the
  clients use their lookup table.
\<close>

section \<open>Tables of rows\<close>

locale entry_table =
  fixes len :: "'t \<Rightarrow> nat"
    and get :: "'t \<Rightarrow> nat \<Rightarrow> 'r option"
    and upd :: "'t \<Rightarrow> nat \<Rightarrow> 'r \<Rightarrow> 't option"
    and inv :: "'t \<Rightarrow> bool"
    and ok :: "'r \<Rightarrow> bool"
  assumes get_total: "inv t \<Longrightarrow> i < len t \<Longrightarrow> \<exists>r. get t i = Some r"
    and upd_total: "inv t \<Longrightarrow> i < len t \<Longrightarrow> ok r \<Longrightarrow> \<exists>t'. upd t i r = Some t'"
    and upd_inv: "inv t \<Longrightarrow> i < len t \<Longrightarrow> ok r \<Longrightarrow> upd t i r = Some t' \<Longrightarrow> inv t'"
    and upd_len: "inv t \<Longrightarrow> i < len t \<Longrightarrow> ok r \<Longrightarrow> upd t i r = Some t' \<Longrightarrow> len t' = len t"
    and get_upd: "inv t \<Longrightarrow> i < len t \<Longrightarrow> ok r \<Longrightarrow> upd t i r = Some t' \<Longrightarrow> j < len t \<Longrightarrow>
      get t' j = (if j = i then Some r else get t j)"
begin

lemma get_upd_same:
  "inv t \<Longrightarrow> i < len t \<Longrightarrow> ok r \<Longrightarrow> upd t i r = Some t' \<Longrightarrow> get t' i = Some r"
  by (simp add: get_upd)

text \<open>
  A loop that visits every row once, replaces it by what \<open>decide\<close> says (if anything) and
  collects something about the old row: at the end every row is what was decided from its
  contents before the loop.
\<close>

lemma sweep:
  assumes inv: "inv t0"
    and ok: "\<And>i r r'. i < len t0 \<Longrightarrow> get t0 i = Some r \<Longrightarrow> decide i r = Some r' \<Longrightarrow> ok r'"
    and body: "\<And>i t x r. inv t \<Longrightarrow> len t = len t0 \<Longrightarrow> i < len t0 \<Longrightarrow> get t i = Some r \<Longrightarrow>
      get t0 i = Some r \<Longrightarrow>
      body i (t, x) = (case decide i r of None \<Rightarrow> Some (t, collect i r x)
        | Some r' \<Rightarrow> map_option (\<lambda>t'. (t', collect i r x)) (upd t i r'))"
  shows "\<exists>t. forM [0..<len t0] body (t0, x0)
      = Some (t, fold (\<lambda>i. collect i (the (get t0 i))) [0..<len t0] x0) \<and>
    inv t \<and> len t = len t0 \<and>
    (\<forall>i < len t0. get t i = (case decide i (the (get t0 i)) of None \<Rightarrow> get t0 i | Some r' \<Rightarrow> Some r'))"
proof -
  let ?new = "\<lambda>i. case decide i (the (get t0 i)) of None \<Rightarrow> get t0 i | Some r' \<Rightarrow> Some r'"
  define P where "P n s \<longleftrightarrow> (\<exists>t. s = (t, fold (\<lambda>i. collect i (the (get t0 i))) [0..<n] x0) \<and>
    inv t \<and> len t = len t0 \<and> (\<forall>i < len t0. get t i = (if i < n then ?new i else get t0 i)))" for n s
  have "\<exists>s. forM [0..<len t0] body (t0, x0) = Some s \<and> P (len t0) s"
  proof (rule forM_upt_rule)
    show "P 0 (t0, x0)" using inv by (simp add: P_def)
  next
    fix i s
    assume i: "i < len t0" and "P i s"
    then obtain t where s: "s = (t, fold (\<lambda>i. collect i (the (get t0 i))) [0..<i] x0)"
      and t: "inv t" "len t = len t0" "\<And>j. j < len t0 \<Longrightarrow> get t j = (if j < i then ?new j else get t0 j)"
      by (auto simp: P_def)
    obtain r where r: "get t0 i = Some r" using get_total [OF inv i] by blast
    with t(3) i have rt: "get t i = Some r" by simp
    note b = body [OF t(1,2) i rt r]
    show "\<exists>s'. body i s = Some s' \<and> P (Suc i) s'"
    proof (cases "decide i r")
      case None
      then show ?thesis using b s r t by (auto simp: P_def less_Suc_eq)
    next
      case (Some r')
      have okr: "ok r'" using ok [OF i r Some] .
      have i': "i < len t" using i t(2) by simp
      obtain t' where t': "upd t i r' = Some t'" using upd_total [OF t(1) i' okr] by blast
      have g: "get t' j = (if j < Suc i then ?new j else get t0 j)" if "j < len t0" for j
        using get_upd [OF t(1) i' okr t', of j] t(2,3) that Some r by auto
      show ?thesis
        using b s r Some t' g upd_inv [OF t(1) i' okr t'] upd_len [OF t(1) i' okr t'] t(2)
        by (auto simp: P_def)
    qed
  qed
  then show ?thesis by (force simp: P_def)
qed

text \<open>The same for a loop that may leave its function, when the accesses succeed.\<close>

lemma sweep_flow:
  assumes inv: "inv t0"
    and ok: "\<And>i r r'. i < len t0 \<Longrightarrow> get t0 i = Some r \<Longrightarrow> decide i r = Some r' \<Longrightarrow> ok r'"
    and body: "\<And>i t r. inv t \<Longrightarrow> len t = len t0 \<Longrightarrow> i < len t0 \<Longrightarrow> get t i = Some r \<Longrightarrow>
      get t0 i = Some r \<Longrightarrow>
      body i t = (case decide i r of None \<Rightarrow> Some (Next t) | Some r' \<Rightarrow> map_option Next (upd t i r'))"
  shows "\<exists>t. forE [0..<len t0] body t0 = Some (Next t) \<and> inv t \<and> len t = len t0 \<and>
    (\<forall>i < len t0. get t i = (case decide i (the (get t0 i)) of None \<Rightarrow> get t0 i | Some r' \<Rightarrow> Some r'))"
proof -
  let ?new = "\<lambda>i. case decide i (the (get t0 i)) of None \<Rightarrow> get t0 i | Some r' \<Rightarrow> Some r'"
  define P where "P n t \<longleftrightarrow> inv t \<and> len t = len t0 \<and>
    (\<forall>i < len t0. get t i = (if i < n then ?new i else get t0 i))" for n t
  have "\<exists>t. forE [0..<len t0] body t0 = Some (Next t) \<and> P (len t0) t"
  proof (rule forE_upt_rule)
    show "P 0 t0" using inv by (simp add: P_def)
  next
    fix i t
    assume i: "i < len t0" and P: "P i t"
    then have t: "inv t" "len t = len t0" "\<And>j. j < len t0 \<Longrightarrow> get t j = (if j < i then ?new j else get t0 j)"
      by (auto simp: P_def)
    obtain r where r: "get t0 i = Some r" using get_total [OF inv i] by blast
    with t(3) i have rt: "get t i = Some r" by simp
    note b = body [OF t(1,2) i rt r]
    show "\<exists>t'. body i t = Some (Next t') \<and> P (Suc i) t'"
    proof (cases "decide i r")
      case None
      then show ?thesis using b r t by (auto simp: P_def less_Suc_eq)
    next
      case (Some r')
      have okr: "ok r'" using ok [OF i r Some] .
      have i': "i < len t" using i t(2) by simp
      obtain t' where t': "upd t i r' = Some t'" using upd_total [OF t(1) i' okr] by blast
      have "get t' j = (if j < Suc i then ?new j else get t0 j)" if "j < len t0" for j
        using get_upd [OF t(1) i' okr t', of j] t(2,3) that Some r by auto
      then show ?thesis
        using b Some t' upd_inv [OF t(1) i' okr t'] upd_len [OF t(1) i' okr t'] t(2)
        by (auto simp: P_def)
    qed
  qed
  then show ?thesis by (auto simp: P_def)
qed

end

section \<open>Buffers of the last values\<close>

text \<open>A buffer of bounded capacity that forgets its oldest value when it is full.\<close>

definition last_n :: "nat \<Rightarrow> 'a list \<Rightarrow> 'a list" where
  "last_n n xs = drop (length xs - n) xs"

lemma length_last_n [simp]: "length (last_n n xs) = min n (length xs)"
  by (simp add: last_n_def)

lemma last_n_last_n_app: "last_n n (last_n n xs @ ys) = last_n n (xs @ ys)"
  by (cases "length xs \<le> n") (auto simp: last_n_def add.commute)

lemma last_n_long: "n \<le> length ys \<Longrightarrow> last_n n (xs @ ys) = last_n n ys"
  by (simp add: last_n_def)

locale window_buffer =
  fixes put :: "'q \<Rightarrow> 'v \<Rightarrow> 'q option"
    and reset :: "'q \<Rightarrow> 'q option"
    and mean :: "'q \<Rightarrow> 'm option"
    and cap :: "'q \<Rightarrow> nat"
    and contents :: "'q \<Rightarrow> 'v list"
    and inv :: "'q \<Rightarrow> bool"
    and avg :: "'v list \<Rightarrow> 'm"
  assumes put_ok: "inv q \<Longrightarrow> \<exists>q'. put q v = Some q' \<and> inv q' \<and> cap q' = cap q \<and>
      contents q' = last_n (cap q) (contents q @ [v])"
    and reset_ok: "inv q \<Longrightarrow> \<exists>q'. reset q = Some q' \<and> inv q' \<and> cap q' = cap q \<and> contents q' = []"
    and mean_ok: "inv q \<Longrightarrow> mean q = Some (avg (contents q))"
    and contents_cap: "inv q \<Longrightarrow> length (contents q) \<le> cap q"
begin

lemma last_n_contents: "inv q \<Longrightarrow> last_n (cap q) (contents q) = contents q"
  using contents_cap [of q] by (simp add: last_n_def)

lemma put_all:
  "inv q \<Longrightarrow> \<exists>q'. forM vs (\<lambda>v q. put q v) q = Some q' \<and> inv q' \<and> cap q' = cap q \<and>
     contents q' = last_n (cap q) (contents q @ vs)"
proof (induction vs arbitrary: q)
  case Nil
  then show ?case by (simp add: last_n_contents)
next
  case (Cons v vs)
  obtain q1 where q1: "put q v = Some q1" "inv q1" "cap q1 = cap q"
    "contents q1 = last_n (cap q) (contents q @ [v])" using put_ok [OF Cons.prems] by blast
  from Cons.IH [OF q1(2)] q1 show ?case by (auto simp: last_n_last_n_app)
qed

text \<open>Once \<open>cap\<close> values have been put, nothing is left of what was there before.\<close>

lemma mean_of_window:
  assumes "inv q" and "cap q \<le> length vs"
  shows "\<exists>q'. forM vs (\<lambda>v q. put q v) q = Some q' \<and> mean q' = Some (avg (last_n (cap q) vs))"
  using put_all [OF assms(1), of vs] mean_ok last_n_long [OF assms(2)] by force

end

section \<open>Access lists\<close>

text \<open>
  A list of access counters as the servers use it: one request counts one access of its entry;
  a redistribution of an entry forgets everything about it.
\<close>

locale access_list =
  fixes incr :: "'e \<Rightarrow> nat \<Rightarrow> 'e option"
    and forget :: "'e \<Rightarrow> nat \<Rightarrow> 'e option"
    and counter :: "'e \<Rightarrow> nat \<Rightarrow> u32"
    and len :: "'e \<Rightarrow> nat"
    and inv :: "'e \<Rightarrow> bool"
  assumes incr_ok: "inv e \<Longrightarrow> i < len e \<Longrightarrow> \<exists>e'. incr e i = Some e' \<and> inv e' \<and> len e' = len e \<and>
      (\<forall>j < len e. counter e' j = (if j = i then counter e i + 1 else counter e j))"
    and incr_out: "inv e \<Longrightarrow> len e \<le> i \<Longrightarrow> incr e i = None"
    and forget_ok: "inv e \<Longrightarrow> i < len e \<Longrightarrow> \<exists>e'. forget e i = Some e' \<and> inv e' \<and> len e' = len e \<and>
      (\<forall>j < len e. counter e' j = (if j = i then 0 else counter e j))"
begin

text \<open>A sequence of requests leaves in each counter the number of its requests, modulo $2^{32}$.\<close>

lemma incr_all:
  "inv e \<Longrightarrow> (\<forall>i \<in> set is. i < len e) \<Longrightarrow>
   \<exists>e'. forM is (\<lambda>i e. incr e i) e = Some e' \<and> inv e' \<and> len e' = len e \<and>
     (\<forall>j < len e. counter e' j = counter e j + word_of_nat (count_list is j))"
proof (induction "is" arbitrary: e)
  case Nil
  then show ?case by simp
next
  case (Cons i "is")
  obtain e1 where e1: "incr e i = Some e1" "inv e1" "len e1 = len e"
    "\<And>j. j < len e \<Longrightarrow> counter e1 j = (if j = i then counter e i + 1 else counter e j)"
    using incr_ok [of e i] Cons.prems by auto
  have "\<forall>k \<in> set is. k < len e1" using Cons.prems e1 by simp
  from Cons.IH [OF e1(2) this] e1 show ?case by (auto simp: add.assoc)
qed

lemma incr_then_forget:
  assumes "inv e" and "\<forall>i \<in> set is. i < len e" and "k < len e"
  shows "\<exists>e' e''. forM is (\<lambda>i e. incr e i) e = Some e' \<and> forget e' k = Some e'' \<and> counter e'' k = 0"
  using incr_all [OF assms(1,2)] forget_ok assms(3) by metis

end


section \<open>Threads\<close>

text \<open>
  Threads that share a state. A thread that cannot go on leaves the state as it is; one that can makes the state
  smaller. Then every fair schedule ends: as many rounds as the state is large, each giving every thread a turn in
  any order and number.
\<close>

locale scheduler =
  fixes step :: "'t \<Rightarrow> 's \<Rightarrow> 's option"
    and inv :: "'s \<Rightarrow> bool"
    and enabled :: "'t \<Rightarrow> 's \<Rightarrow> bool"
    and weight :: "'s \<Rightarrow> nat"
    and threads :: "'t set"
  assumes idle: "inv s \<Longrightarrow> t \<in> threads \<Longrightarrow> \<not> enabled t s \<Longrightarrow> step t s = Some s"
    and moves: "inv s \<Longrightarrow> t \<in> threads \<Longrightarrow> enabled t s \<Longrightarrow> \<exists>s'. step t s = Some s' \<and> inv s' \<and> weight s' < weight s"
begin

lemma one_turn: "inv s \<Longrightarrow> t \<in> threads \<Longrightarrow> \<exists>s'. step t s = Some s' \<and> inv s' \<and> weight s' \<le> weight s"
  using idle [of s t] moves [of s t] by (cases "enabled t s") force+

lemma turns: "inv s \<Longrightarrow> set ts \<subseteq> threads \<Longrightarrow> \<exists>s'. forM ts step s = Some s' \<and> inv s' \<and> weight s' \<le> weight s"
proof (induction ts arbitrary: s)
  case (Cons t ts)
  obtain s1 where s1: "step t s = Some s1" "inv s1" "weight s1 \<le> weight s" using one_turn [OF Cons.prems(1)] Cons.prems(2) by auto
  obtain s2 where "forM ts step s1 = Some s2" "inv s2" "weight s2 \<le> weight s1" using Cons.IH [OF s1(2)] Cons.prems(2) by auto
  with s1 show ?case by auto
qed simp

text \<open>The first thread of a schedule that can go on does so in the state at the beginning.\<close>

lemma turns_less:
  assumes "inv s" and "set ts \<subseteq> threads" and "t \<in> set ts" and "enabled t s"
  shows "\<exists>s'. forM ts step s = Some s' \<and> inv s' \<and> weight s' < weight s"
  using assms
proof (induction ts arbitrary: s)
  case (Cons u us)
  show ?case
  proof (cases "enabled u s")
    case True
    then obtain s1 where s1: "step u s = Some s1" "inv s1" "weight s1 < weight s" using moves [OF Cons.prems(1)] Cons.prems(2) by auto
    obtain s2 where "forM us step s1 = Some s2" "inv s2" "weight s2 \<le> weight s1" using turns [OF s1(2)] Cons.prems(2) by auto
    with s1 show ?thesis by auto
  next
    case False
    then have "step u s = Some s" "t \<in> set us" using idle [OF Cons.prems(1)] Cons.prems(2-) by auto
    then show ?thesis using Cons.IH [OF Cons.prems(1)] Cons.prems(2,4) by simp
  qed
qed simp

lemma fair_end:
  assumes "inv s" and "weight s \<le> length rounds" and "\<forall>r \<in> set rounds. set r = threads"
  shows "\<exists>s'. forM (concat rounds) step s = Some s' \<and> inv s' \<and> (\<forall>t \<in> threads. \<not> enabled t s')"
  using assms
proof (induction rounds arbitrary: s)
  case Nil
  then have "\<forall>t \<in> threads. \<not> enabled t s" using moves [of s] by force
  then show ?case using Nil by simp
next
  case (Cons r rs)
  have r: "set r = threads" using Cons.prems(3) by simp
  show ?case
  proof (cases "\<exists>t \<in> threads. enabled t s")
    case True
    then obtain s1 where s1: "forM r step s = Some s1" "inv s1" "weight s1 < weight s"
      using turns_less [OF Cons.prems(1)] r by blast
    obtain s2 where "forM (concat rs) step s1 = Some s2" "inv s2" "\<forall>t \<in> threads. \<not> enabled t s2"
      using Cons.IH [OF s1(2)] Cons.prems(2,3) s1(3) by auto
    with s1 show ?thesis by (auto simp: forM_append)
  next
    case False
    have stay: "forM ts step s = Some s" if "set ts \<subseteq> threads" for ts
      using that False idle [OF Cons.prems(1)] by (induction ts) auto
    have "set (concat (r # rs)) \<subseteq> threads" using Cons.prems(3) by auto
    from stay [OF this] False Cons.prems(1) show ?thesis by blast
  qed
qed

end

end
