(* ===== verification/Mlt.thy ===== *)
theory Mlt
  imports Interfaces
begin

text \<open>
  The metadata lookup table of \<open>include/mlt.h\<close> and \<open>src/mlt.c\<close>: for each entry the server
  in charge, a version number and a transfer flag. The interface locale \<open>entry_table\<close> states
  what the servers, the clients and the manager rely on; the table interprets it.

  The read-write lock has no state here (the operations are modelled one at a time); what its
  calls return is given by a \<open>lock_env\<close>, so that the early returns on a lock error are branches
  of the model. Results of \<open>calloc\<close> are arguments of \<open>mlt_init\<close>.
\<close>

section \<open>State\<close>

record mlt =
  id_srv :: "u32 list"
  n_ver :: "u32 list"
  mlt_state :: "u32 list"
  mlt_size :: u32

text \<open>What the \<open>pthread_rwlock\<close> calls return: 0 or an error number.\<close>

record lock_env =
  wrlock_rc :: int
  rdlock_rc :: int
  unlock_rc :: int

definition locks_work :: lock_env where
  "locks_work = \<lparr>wrlock_rc = 0, rdlock_rc = 0, unlock_rc = 0\<rparr>"

section \<open>Operations\<close>

text \<open>The loop of \<open>mlt_init\<close>: modulo placement, version 0, not in transfer.\<close>

definition mlt_fill :: "int \<Rightarrow> nat \<Rightarrow> mlt \<Rightarrow> mlt" where
  "mlt_fill nb_srv i t =
     t\<lparr>id_srv := (id_srv t)[i := u32_of_int (int i mod nb_srv)],
       n_ver := (n_ver t)[i := 0],
       mlt_state := (mlt_state t)[i := 0]\<rparr>"

text \<open>
  \<open>self\<close> says that the pointer is not NULL, \<open>m1\<close>, \<open>m2\<close>, \<open>m3\<close> that the three \<open>calloc\<close> calls
  return memory, \<open>lk\<close> is what \<open>pthread_rwlock_init\<close> returns.
\<close>

definition mlt_init ::
  "bool \<Rightarrow> bool \<Rightarrow> bool \<Rightarrow> int \<Rightarrow> bool \<Rightarrow> int \<Rightarrow> int \<Rightarrow> int \<times> mlt option" where
  "mlt_init m1 m2 m3 lk self sz nb_srv =
     (if \<not> self \<or> sz \<le> 0 \<or> nb_srv \<le> 0 then (- EINVAL, None)
      else if \<not> m1 then (- ENOMEM, None)
      else if \<not> m2 then (- ENOMEM, None)
      else if \<not> m3 then (- ENOMEM, None)
      else
        let n = nat sz; rc = - lk;
            t = \<lparr>id_srv = replicate n 0, n_ver = replicate n 0, mlt_state = replicate n 0,
                 mlt_size = u32_of_int sz\<rparr>
        in if rc \<noteq> 0 then (rc, None) else (0, Some (fold (mlt_fill nb_srv) [0..<n] t)))"

text \<open>
  \<open>None\<close> is an access outside the arrays: unlike the two functions after it,
  \<open>mlt_update_state\<close> does not compare the index with the size of the table.
\<close>

definition mlt_update_state ::
  "lock_env \<Rightarrow> mlt option \<Rightarrow> int \<Rightarrow> int \<Rightarrow> (int \<times> mlt option) option" where
  "mlt_update_state E self mlt_idx st =
     (case self of
        None \<Rightarrow> Some (- EINVAL, None)
      | Some t \<Rightarrow>
          if mlt_idx < 0 \<or> (st \<noteq> 0 \<and> st \<noteq> 1) then Some (- EINVAL, Some t)
          else if - wrlock_rc E \<noteq> 0 then Some (- wrlock_rc E, Some t)
          else do {
            states \<leftarrow> wri (mlt_state t) mlt_idx (u32_of_int st);
            Some (- unlock_rc E, Some (t\<lparr>mlt_state := states\<rparr>))
          })"

definition mlt_update_entry ::
  "lock_env \<Rightarrow> mlt option \<Rightarrow> int \<Rightarrow> int \<Rightarrow> int \<Rightarrow> int \<Rightarrow> (int \<times> mlt option) option" where
  "mlt_update_entry E self mlt_idx srv_idx ver st =
     (case self of
        None \<Rightarrow> Some (- EINVAL, None)
      | Some t \<Rightarrow>
          if mlt_idx < 0 \<or> srv_idx < 0 \<or> (st \<noteq> 0 \<and> st \<noteq> 1) then Some (- EINVAL, Some t)
          else if mlt_size t \<le> u32_of_int mlt_idx then Some (- EOVERFLOW, Some t)
          else if - wrlock_rc E \<noteq> 0 then Some (- wrlock_rc E, Some t)
          else do {
            ids \<leftarrow> wri (id_srv t) mlt_idx (u32_of_int srv_idx);
            vers \<leftarrow> wri (n_ver t) mlt_idx (u32_of_int ver);
            states \<leftarrow> wri (mlt_state t) mlt_idx (u32_of_int st);
            Some (- unlock_rc E, Some (t\<lparr>id_srv := ids, n_ver := vers, mlt_state := states\<rparr>))
          })"

text \<open>
  The three results are written through pointers: \<open>outs\<close> says that none of them is NULL, and
  the second component of the result is what they point to when the function wrote them.
\<close>

definition mlt_get_entry ::
  "lock_env \<Rightarrow> mlt option \<Rightarrow> int \<Rightarrow> bool \<Rightarrow> (int \<times> (int \<times> int \<times> int) option) option" where
  "mlt_get_entry E self mlt_idx outs =
     (case self of
        None \<Rightarrow> Some (- EINVAL, None)
      | Some t \<Rightarrow>
          if mlt_idx < 0 \<or> \<not> outs then Some (- EINVAL, None)
          else if mlt_size t \<le> u32_of_int mlt_idx then Some (- EOVERFLOW, None)
          else if - rdlock_rc E \<noteq> 0 then Some (- rdlock_rc E, None)
          else do {
            s \<leftarrow> rdi (id_srv t) mlt_idx;
            v \<leftarrow> rdi (n_ver t) mlt_idx;
            f \<leftarrow> rdi (mlt_state t) mlt_idx;
            Some (- unlock_rc E, Some (int_of_u32 s, int_of_u32 v, int_of_u32 f))
          })"

section \<open>Invariant\<close>

text \<open>The three columns have the length the size field announces, which fits in an \<open>int\<close>.\<close>

definition mlt_wf :: "mlt \<Rightarrow> bool" where
  "mlt_wf t \<longleftrightarrow> length (id_srv t) = unat (mlt_size t) \<and> length (n_ver t) = unat (mlt_size t) \<and>
     length (mlt_state t) = unat (mlt_size t) \<and> uint (mlt_size t) \<le> INT_MAX"

text \<open>The number of entries, the contents of a row as the code reads it, and which rows it can write.\<close>

definition mlt_len :: "mlt \<Rightarrow> nat" where
  "mlt_len t = unat (mlt_size t)"

definition mlt_row :: "mlt \<Rightarrow> nat \<Rightarrow> int \<times> int \<times> int" where
  "mlt_row t i = (int_of_u32 (id_srv t ! i), int_of_u32 (n_ver t ! i), int_of_u32 (mlt_state t ! i))"

fun row_ok :: "int \<times> int \<times> int \<Rightarrow> bool" where
  "row_ok (s, v, f) \<longleftrightarrow> 0 \<le> s \<and> int_ok s \<and> int_ok v \<and> (f = 0 \<or> f = 1)"

definition mlt_put :: "mlt \<Rightarrow> nat \<Rightarrow> int \<times> int \<times> int \<Rightarrow> mlt" where
  "mlt_put t i r = (case r of (s, v, f) \<Rightarrow>
     t\<lparr>id_srv := (id_srv t)[i := u32_of_int s], n_ver := (n_ver t)[i := u32_of_int v],
       mlt_state := (mlt_state t)[i := u32_of_int f]\<rparr>)"

lemma mlt_wf_len:
  "mlt_wf t \<Longrightarrow> length (id_srv t) = mlt_len t"
  "mlt_wf t \<Longrightarrow> length (n_ver t) = mlt_len t"
  "mlt_wf t \<Longrightarrow> length (mlt_state t) = mlt_len t"
  by (simp_all add: mlt_wf_def mlt_len_def)

lemma mlt_wf_idx:
  assumes "mlt_wf t" and "i < mlt_len t"
  shows "int_ok (int i)" and "\<not> mlt_size t \<le> u32_of_int (int i)"
proof -
  have i: "int i < uint (mlt_size t)" using assms(2) by (simp add: mlt_len_def less_unat_iff)
  with assms(1) show ok: "int_ok (int i)" by (simp add: mlt_wf_def int_ok_def INT_MIN_def)
  show "\<not> mlt_size t \<le> u32_of_int (int i)"
    using i uint_u32_of_int [OF _ ok] by (simp add: word_le_def)
qed

lemma mlt_wf_idx_out:
  assumes "mlt_wf t" and "mlt_len t \<le> i" and "int_ok (int i)"
  shows "mlt_size t \<le> u32_of_int (int i)"
  using assms uint_u32_of_int [of "int i"]
  by (simp add: word_le_def mlt_len_def unat_le_iff)

section \<open>Behaviour of each operation on a well-formed table\<close>

lemma mlt_get_in:
  assumes "mlt_wf t" and "i < mlt_len t" and "rdlock_rc E = 0"
  shows "mlt_get_entry E (Some t) (int i) True = Some (- unlock_rc E, Some (mlt_row t i))"
  using assms mlt_wf_idx [OF assms(1,2)]
  by (simp add: mlt_get_entry_def mlt_row_def rdi_in mlt_wf_len)

lemma mlt_get_out:
  assumes "mlt_wf t" and "mlt_len t \<le> i" and "int_ok (int i)"
  shows "mlt_get_entry E (Some t) (int i) True = Some (- EOVERFLOW, None)"
  using mlt_wf_idx_out [OF assms] by (simp add: mlt_get_entry_def)

lemma mlt_update_in:
  assumes "mlt_wf t" and "i < mlt_len t" and "wrlock_rc E = 0" and "row_ok (s, v, f)"
  shows "mlt_update_entry E (Some t) (int i) s v f = Some (- unlock_rc E, Some (mlt_put t i (s, v, f)))"
  using assms mlt_wf_idx [OF assms(1,2)]
  by (auto simp: mlt_update_entry_def mlt_put_def wri_in mlt_wf_len)

lemma mlt_update_state_in:
  assumes "mlt_wf t" and "i < mlt_len t" and "wrlock_rc E = 0" and "f = 0 \<or> f = 1"
  shows "mlt_update_state E (Some t) (int i) f =
    Some (- unlock_rc E, Some (t\<lparr>mlt_state := (mlt_state t)[i := u32_of_int f]\<rparr>))"
  using assms by (auto simp: mlt_update_state_def wri_in mlt_wf_len)

lemma mlt_put_len [simp]: "mlt_len (mlt_put t i r) = mlt_len t"
  by (cases r) (simp add: mlt_put_def mlt_len_def)

lemma mlt_put_wf [intro]: "mlt_wf t \<Longrightarrow> mlt_wf (mlt_put t i r)"
  by (cases r) (simp add: mlt_put_def mlt_wf_def)

lemma row_ok_flag: "f = 0 \<or> f = 1 \<Longrightarrow> int_ok f"
  by (auto simp: int_ok_def INT_MAX_def INT_MIN_def)

lemma mlt_row_put:
  assumes "mlt_wf t" and "j < mlt_len t" and "row_ok r"
  shows "mlt_row (mlt_put t i r) j = (if j = i then r else mlt_row t j)"
  using assms
  by (cases r) (auto simp: mlt_row_def mlt_put_def mlt_wf_len c_conv row_ok_flag nth_list_update)

lemma mlt_row_int_ok: "mlt_row t e = (s, v, f) \<Longrightarrow> int_ok s \<and> int_ok v \<and> int_ok f"
  by (auto simp: mlt_row_def)

section \<open>The table meets its contract\<close>

text \<open>
  The calls as the clients make them, with locks that work: a read and a write that return 0.
\<close>

definition mlt_lookup :: "mlt \<Rightarrow> nat \<Rightarrow> (int \<times> int \<times> int) option" where
  "mlt_lookup t i = (case mlt_get_entry locks_work (Some t) (int i) True of
     Some (rc, out) \<Rightarrow> if rc = 0 then out else None | None \<Rightarrow> None)"

definition mlt_store :: "mlt \<Rightarrow> nat \<Rightarrow> int \<times> int \<times> int \<Rightarrow> mlt option" where
  "mlt_store t i r = (case r of (s, v, f) \<Rightarrow>
     (case mlt_update_entry locks_work (Some t) (int i) s v f of
        Some (rc, out) \<Rightarrow> if rc = 0 then out else None | None \<Rightarrow> None))"

lemma mlt_lookup_in: "mlt_wf t \<Longrightarrow> i < mlt_len t \<Longrightarrow> mlt_lookup t i = Some (mlt_row t i)"
  by (simp add: mlt_lookup_def mlt_get_in locks_work_def)

lemma mlt_store_in:
  "mlt_wf t \<Longrightarrow> i < mlt_len t \<Longrightarrow> row_ok r \<Longrightarrow> mlt_store t i r = Some (mlt_put t i r)"
  by (cases r) (simp add: mlt_store_def mlt_update_in locks_work_def)

lemma mlt_lookup_put:
  "mlt_wf t \<Longrightarrow> j < mlt_len t \<Longrightarrow> row_ok r \<Longrightarrow>
   mlt_lookup (mlt_put t i r) j = Some (if j = i then r else mlt_row t j)"
  by (simp add: mlt_lookup_in mlt_row_put mlt_put_wf)

declare row_ok.simps [simp del]

interpretation mt: entry_table mlt_len mlt_lookup mlt_store mlt_wf row_ok
proof (unfold_locales, goal_cases)
  case (1 t i)
  then show ?case using mlt_lookup_in by blast
qed (auto simp: mlt_store_in mlt_lookup_put mlt_lookup_in)

section \<open>The table after \<open>mlt_init\<close>\<close>

lemma mlt_fill_loop:
  "length (id_srv (fold (mlt_fill nb) [0..<n] t)) = length (id_srv t)"
  "length (n_ver (fold (mlt_fill nb) [0..<n] t)) = length (n_ver t)"
  "length (mlt_state (fold (mlt_fill nb) [0..<n] t)) = length (mlt_state t)"
  "mlt_size (fold (mlt_fill nb) [0..<n] t) = mlt_size t"
  by (induction n) (simp_all add: mlt_fill_def)

lemma mlt_fill_rows:
  "i < length (id_srv t) \<Longrightarrow> id_srv (fold (mlt_fill nb) [0..<n] t) ! i =
     (if i < n then u32_of_int (int i mod nb) else id_srv t ! i)"
  "i < length (n_ver t) \<Longrightarrow> n_ver (fold (mlt_fill nb) [0..<n] t) ! i =
     (if i < n then 0 else n_ver t ! i)"
  "i < length (mlt_state t) \<Longrightarrow> mlt_state (fold (mlt_fill nb) [0..<n] t) ! i =
     (if i < n then 0 else mlt_state t ! i)"
  by (induction n) (auto simp: mlt_fill_def mlt_fill_loop nth_list_update less_Suc_eq)

lemma mlt_init_ok:
  assumes "0 < sz" and "sz \<le> INT_MAX" and "0 < nb"
  shows "\<exists>t. mlt_init True True True 0 True sz nb = (0, Some t) \<and> mlt_wf t \<and> mlt_len t = nat sz \<and>
    (\<forall>i < nat sz. id_srv t ! i = u32_of_int (int i mod nb) \<and> n_ver t ! i = 0 \<and> mlt_state t ! i = 0)"
proof -
  let ?n = "nat sz"
  define t0 where "t0 = \<lparr>id_srv = replicate ?n 0, n_ver = replicate ?n 0,
    mlt_state = replicate ?n (0::u32), mlt_size = u32_of_int sz\<rparr>"
  let ?t = "fold (mlt_fill nb) [0..<?n] t0"
  have ok: "int_ok sz" using assms by (simp add: int_ok_def INT_MIN_def)
  have init: "mlt_init True True True 0 True sz nb = (0, Some ?t)"
    using assms by (simp add: mlt_init_def t0_def Let_def)
  have "mlt_wf ?t" "mlt_len ?t = ?n"
    using assms ok
    by (simp_all add: mlt_wf_def mlt_len_def mlt_fill_loop t0_def unat_u32_of_int uint_u32_of_int)
  then show ?thesis using init by (simp add: mlt_fill_rows t0_def)
qed

section \<open>Properties\<close>

lemma mlt_row_of_init:
  assumes "0 < sz" and "sz \<le> INT_MAX" and "i < nat sz" and "0 < nb"
  shows "int_of_u32 (u32_of_int (int i mod nb)) = int i mod nb"
proof -
  have "0 \<le> int i mod nb" "int i mod nb \<le> int i" using assms by (simp_all add: zmod_le_nonneg_dividend)
  then have "int_ok (int i mod nb)" using assms unfolding int_ok_def INT_MIN_def by linarith
  then show ?thesis by (simp add: c_conv)
qed

text \<open>
  \<open>mlt_init\<close> with memory and a lock builds a well-formed table whose entry i is on server
  i modulo the number of servers, with version 0 and not in transfer.
\<close>

theorem init_places_modulo:
  assumes "0 < sz" and "sz \<le> INT_MAX" and "0 < nb"
  shows "\<exists>t. mlt_init True True True 0 True sz nb = (0, Some t) \<and> mlt_wf t \<and> mlt_len t = nat sz \<and>
    (\<forall>i < nat sz. mlt_row t i = (int i mod nb, 0, 0))"
  using mlt_init_ok [OF assms] mlt_row_of_init [OF assms(1,2) _ assms(3)]
  by (auto simp: mlt_row_def int_of_u32_def)

theorem init_places_modulo_witness:
  "\<exists>t. mlt_init True True True 0 True 5 2 = (0, Some t) \<and> mlt_wf t \<and> mlt_len t = nat 5 \<and>
    (\<forall>i < nat 5. mlt_row t i = (int i mod 2, 0, 0))"
  by (rule init_places_modulo) (simp_all add: INT_MAX_def)

lemma store_all:
  "mlt_wf t \<Longrightarrow> \<forall>(i, r) \<in> set us. i < mlt_len t \<and> row_ok r \<Longrightarrow>
   \<exists>t'. forM us (\<lambda>(i, r) t. mlt_store t i r) t = Some t' \<and> mlt_wf t' \<and> mlt_len t' = mlt_len t \<and>
     (\<forall>j < mlt_len t. mlt_row t' j = fold (\<lambda>(i, r) old. if i = j then r else old) us (mlt_row t j))"
proof (induction us arbitrary: t)
  case Nil
  then show ?case by simp
next
  case (Cons u us)
  obtain i r where u: "u = (i, r)" by (cases u)
  with Cons.prems have i: "i < mlt_len t" "row_ok r" by auto
  have "mlt_wf (mlt_put t i r)" "\<forall>(k, r') \<in> set us. k < mlt_len (mlt_put t i r) \<and> row_ok r'"
    using Cons.prems by (auto simp: mlt_put_wf)
  from Cons.IH [OF this] show ?case
    using u i Cons.prems(1) mlt_row_put [OF Cons.prems(1) _ i(2), of _ i]
    by (fastforce simp: mlt_store_in)
qed

text \<open>
  C33: the table implements a map from entries to rows: after any sequence of
  \<open>mlt_update_entry\<close> calls that succeed (\<open>mlt_store\<close>), \<open>mlt_get_entry\<close> gives for every entry the row
  of the last update of that entry, or its row before if there was none.
\<close>

theorem table_refines_map:
  assumes "mlt_wf t" and "\<forall>(i, r) \<in> set us. i < mlt_len t \<and> row_ok r"
  shows "\<exists>t'. forM us (\<lambda>(i, r) t. mlt_store t i r) t = Some t' \<and> mlt_wf t' \<and> mlt_len t' = mlt_len t \<and>
    (\<forall>j < mlt_len t. mlt_get_entry locks_work (Some t') (int j) True =
       Some (0, Some (fold (\<lambda>(i, r) old. if i = j then r else old) us (mlt_row t j))))"
  using store_all [OF assms] by (auto simp: mlt_get_in locks_work_def)

text \<open>
  \<open>mlt_get_entry\<close> and \<open>mlt_update_entry\<close> refuse an index beyond the table with
  \<open>-EOVERFLOW\<close> and change nothing; \<open>mlt_update_state\<close>, which has no such test, writes outside the
  array for the same index.
\<close>

theorem update_state_has_no_bound:
  assumes "mlt_wf t" and "mlt_len t \<le> i" and "int_ok (int i)" and "f = 0 \<or> f = 1" and "0 \<le> s"
  shows "mlt_get_entry locks_work (Some t) (int i) True = Some (- EOVERFLOW, None) \<and>
    mlt_update_entry locks_work (Some t) (int i) s v f = Some (- EOVERFLOW, Some t) \<and>
    mlt_update_state locks_work (Some t) (int i) f = None"
  using assms mlt_wf_idx_out [OF assms(1-3)] mlt_get_out [OF assms(1-3)]
  by (auto simp: mlt_update_entry_def mlt_update_state_def wri_def wr_def mlt_wf_len locks_work_def)

definition one_row :: mlt where
  "one_row = \<lparr>id_srv = [0], n_ver = [0], mlt_state = [0], mlt_size = 1\<rparr>"

lemma one_row_wf: "mlt_wf one_row" "mlt_len one_row = 1"
  by (simp_all add: one_row_def mlt_wf_def mlt_len_def INT_MAX_def)

theorem update_state_has_no_bound_witness:
  "mlt_get_entry locks_work (Some one_row) 1 True = Some (- EOVERFLOW, None) \<and>
   mlt_update_entry locks_work (Some one_row) 1 0 0 1 = Some (- EOVERFLOW, Some one_row) \<and>
   mlt_update_state locks_work (Some one_row) 1 1 = None"
  using update_state_has_no_bound [of one_row 1 1 0 0] by (simp add: one_row_wf int_ok_def INT_MIN_def INT_MAX_def)

theorem table_refines_map_witness:
  "\<exists>t'. forM [(0, (3, 1, 0)), (0, (2, 2, 1))] (\<lambda>(i, r) t. mlt_store t i r) one_row = Some t' \<and> mlt_wf t' \<and>
     mlt_len t' = mlt_len one_row \<and>
     (\<forall>j < mlt_len one_row. mlt_get_entry locks_work (Some t') (int j) True = Some (0, Some
        (fold (\<lambda>(i, r) old. if i = j then r else old) [(0, (3, 1, 0)), (0, (2, 2, 1))] (mlt_row one_row j))))"
  by (rule table_refines_map) (auto simp: one_row_wf row_ok.simps int_ok_def INT_MIN_def INT_MAX_def)

end
