(* ===== verification/Balance.thy ===== *)
theory Balance
  imports Prelude
begin

text \<open>
  The parts of the managers that choose what to move: \<open>manager_sort_subset\<close> and the two
  versions of \<open>manager_balance_load\<close>. Both versions are shown to compute one greedy choice,
  \<open>balance\<close>, of which the properties are proved once.
\<close>

section \<open>\<open>manager_sort_subset\<close>\<close>

text \<open>One comparison of the inner loop; the flag is the variable \<open>sorted\<close> of the code.\<close>

definition sort_subset_step :: "int list \<Rightarrow> nat \<Rightarrow> int list \<times> bool \<Rightarrow> (int list \<times> bool) option" where
  "sort_subset_step srvload j s = (case s of (sub, flag) \<Rightarrow> do {
     x \<leftarrow> rd sub j;
     lx \<leftarrow> rdi srvload x;
     ax \<leftarrow> c_abs lx;
     y \<leftarrow> rd sub (j + 1);
     ly \<leftarrow> rdi srvload y;
     ay \<leftarrow> c_abs ly;
     if ax < ay then do {
       sub \<leftarrow> wr sub j y;
       sub \<leftarrow> wr sub (j + 1) x;
       Some (sub, True)
     } else Some (sub, flag)
   })"

text \<open>The outer loop, from \<open>i = n - 1\<close> down to 0.\<close>

fun sort_subset_rounds :: "int list \<Rightarrow> nat \<Rightarrow> int list \<Rightarrow> int list option" where
  "sort_subset_rounds srvload 0 sub = Some sub"
| "sort_subset_rounds srvload (Suc i) sub = do {
     (sub, flag) \<leftarrow> forM [0..<i] (sort_subset_step srvload) (sub, False);
     if \<not> flag then Some sub else sort_subset_rounds srvload i sub
   }"

definition manager_sort_subset :: "int list \<Rightarrow> int list \<Rightarrow> int \<Rightarrow> int list option" where
  "manager_sort_subset sub srvload sz = sort_subset_rounds srvload (nat sz) sub"

subsection \<open>It sorts\<close>

abbreviation abs_load :: "int list \<Rightarrow> int \<Rightarrow> int" where
  "abs_load srvload x \<equiv> \<bar>srvload ! nat x\<bar>"

definition subset_ok :: "int list \<Rightarrow> int list \<Rightarrow> bool" where
  "subset_ok srvload xs \<longleftrightarrow> (\<forall>x \<in> set xs. 0 \<le> x \<and> nat x < length srvload \<and> int_ok (abs_load srvload x))"

definition same_prefix :: "nat \<Rightarrow> 'a list \<Rightarrow> 'a list \<Rightarrow> bool" where
  "same_prefix n xs ys \<longleftrightarrow> length ys = length xs \<and> mset (take n ys) = mset (take n xs) \<and> drop n ys = drop n xs"

lemma same_prefix_refl [simp]: "same_prefix n xs xs"
  by (simp add: same_prefix_def)

lemma same_prefix_trans: "same_prefix n xs ys \<Longrightarrow> same_prefix n ys zs \<Longrightarrow> same_prefix n xs zs"
  by (simp add: same_prefix_def)

lemma same_prefix_set: "same_prefix n xs ys \<Longrightarrow> set (take n ys) = set (take n xs)"
  unfolding same_prefix_def by (metis set_mset_mset)

lemma same_prefix_swap:
  assumes "i < n" and "j < n" and "n \<le> length xs"
  shows "same_prefix n xs (xs[i := xs ! j, j := xs ! i])"
proof -
  have "take n (xs[i := xs ! j, j := xs ! i]) = (take n xs)[i := take n xs ! j, j := take n xs ! i]"
    using assms by (simp add: take_update_swap)
  moreover have "mset ((take n xs)[i := take n xs ! j, j := take n xs ! i]) = mset (take n xs)"
    by (rule mset_swap) (use assms in simp_all)
  ultimately show ?thesis using assms by (simp add: same_prefix_def)
qed

text \<open>The elements from \<open>m\<close> on are in place: none is above an earlier one.\<close>

definition placed :: "int list \<Rightarrow> nat \<Rightarrow> nat \<Rightarrow> int list \<Rightarrow> bool" where
  "placed srvload n m xs \<longleftrightarrow> (\<forall>a b. a < b \<and> m \<le> b \<and> b < n \<longrightarrow>
     abs_load srvload (xs ! b) \<le> abs_load srvload (xs ! a))"

lemma sort_subset_step_ok:
  assumes ok: "subset_ok srvload (take n xs)" and n: "Suc j < n" "n \<le> length xs"
  shows "sort_subset_step srvload j (xs, f) =
    Some (if abs_load srvload (xs ! j) < abs_load srvload (xs ! Suc j)
      then (xs[j := xs ! Suc j, Suc j := xs ! j], True) else (xs, f))"
proof -
  have "xs ! j \<in> set (take n xs)" "xs ! Suc j \<in> set (take n xs)"
    using n by (auto simp: in_set_conv_nth intro: exI [of _ j] exI [of _ "Suc j"])
  with ok have "0 \<le> xs ! j" "nat (xs ! j) < length srvload" "int_ok (abs_load srvload (xs ! j))"
    "0 \<le> xs ! Suc j" "nat (xs ! Suc j) < length srvload" "int_ok (abs_load srvload (xs ! Suc j))"
    by (auto simp: subset_ok_def)
  then show ?thesis
    using n by (simp add: sort_subset_step_def rdi_in c_abs_def arr_simps c_conv)
qed

lemma sort_subset_pass:
  assumes ok: "subset_ok srvload (take n xs)" and i: "i < n" "n \<le> length xs"
    and placed: "placed srvload n (Suc i) xs"
  shows "\<exists>ys f. forM [0..<i] (sort_subset_step srvload) (xs, False) = Some (ys, f) \<and>
    same_prefix n xs ys \<and> placed srvload n i ys \<and> (\<not> f \<longrightarrow> placed srvload n 0 ys)"
proof -
  let ?k = "abs_load srvload"
  define P where "P j s \<longleftrightarrow> (\<exists>ys f. s = (ys, f) \<and> same_prefix n xs ys \<and> placed srvload n (Suc i) ys \<and>
    (\<forall>a < j. ?k (ys ! j) \<le> ?k (ys ! a)) \<and>
    (\<not> f \<longrightarrow> (\<forall>a b. a < b \<and> b \<le> j \<longrightarrow> ?k (ys ! b) \<le> ?k (ys ! a))))" for j s
  have "\<exists>s. forM [0..<i] (sort_subset_step srvload) (xs, False) = Some s \<and> P i s"
  proof (rule forM_upt_rule)
    show "P 0 (xs, False)" using placed by (auto simp: P_def)
  next
    fix j s
    assume j: "j < i" and "P j s"
    then obtain ys f where s: "s = (ys, f)" and ys: "same_prefix n xs ys" "placed srvload n (Suc i) ys"
      "\<forall>a < j. ?k (ys ! j) \<le> ?k (ys ! a)"
      "\<not> f \<longrightarrow> (\<forall>a b. a < b \<and> b \<le> j \<longrightarrow> ?k (ys ! b) \<le> ?k (ys ! a))" by (auto simp: P_def)
    have n: "Suc j < n" "j < n" "n \<le> length ys" using j i ys(1) by (auto simp: same_prefix_def)
    have ok': "subset_ok srvload (take n ys)" using ok same_prefix_set [OF ys(1)] by (simp add: subset_ok_def)
    note st = sort_subset_step_ok [OF ok' n(1,3), of f]
    show "\<exists>s'. sort_subset_step srvload j s = Some s' \<and> P (Suc j) s'"
    proof (cases "?k (ys ! j) < ?k (ys ! Suc j)")
      case True
      let ?zs = "ys[j := ys ! Suc j, Suc j := ys ! j]"
      have "same_prefix n xs ?zs"
        using same_prefix_trans [OF ys(1) same_prefix_swap [OF n(2,1,3)]] .
      moreover have "placed srvload n (Suc i) ?zs"
        using ys(2) j n by (auto simp: placed_def nth_list_update)
      moreover have "\<forall>a < Suc j. ?k (?zs ! Suc j) \<le> ?k (?zs ! a)"
        using ys(3) True n by (auto simp: nth_list_update less_Suc_eq)
      ultimately show ?thesis using st True s by (auto simp: P_def)
    next
      case False
      then have "?k (ys ! Suc j) \<le> ?k (ys ! j)" by simp
      then have "\<forall>a < Suc j. ?k (ys ! Suc j) \<le> ?k (ys ! a)"
        using ys(3) by (auto simp: less_Suc_eq)
      then show ?thesis using st False s ys by (auto simp: P_def le_Suc_eq)
    qed
  qed
  then obtain ys f where r: "forM [0..<i] (sort_subset_step srvload) (xs, False) = Some (ys, f)"
    "same_prefix n xs ys" "placed srvload n (Suc i) ys" "\<forall>a < i. ?k (ys ! i) \<le> ?k (ys ! a)"
    "\<not> f \<longrightarrow> (\<forall>a b. a < b \<and> b \<le> i \<longrightarrow> ?k (ys ! b) \<le> ?k (ys ! a))" by (auto simp: P_def)
  have "placed srvload n i ys" unfolding placed_def
  proof (intro allI impI)
    fix a b assume "a < b \<and> i \<le> b \<and> b < n"
    then show "?k (ys ! b) \<le> ?k (ys ! a)" using r(3,4) by (cases "b = i") (auto simp: placed_def)
  qed
  moreover have "placed srvload n 0 ys" if "\<not> f" unfolding placed_def
  proof (intro allI impI)
    fix a b assume "a < b \<and> 0 \<le> b \<and> b < n"
    then show "?k (ys ! b) \<le> ?k (ys ! a)" using r(3,5) that by (cases "b \<le> i") (auto simp: placed_def)
  qed
  ultimately show ?thesis using r(1,2) by blast
qed

lemma sort_subset_rounds_ok:
  "subset_ok srvload (take n xs) \<Longrightarrow> i \<le> n \<Longrightarrow> n \<le> length xs \<Longrightarrow> placed srvload n i xs \<Longrightarrow>
   \<exists>ys. sort_subset_rounds srvload i xs = Some ys \<and> same_prefix n xs ys \<and> placed srvload n 0 ys"
proof (induction i arbitrary: xs)
  case 0
  then show ?case by auto
next
  case (Suc i)
  obtain ys f where p: "forM [0..<i] (sort_subset_step srvload) (xs, False) = Some (ys, f)"
    "same_prefix n xs ys" "placed srvload n i ys" "\<not> f \<longrightarrow> placed srvload n 0 ys"
    using sort_subset_pass [of srvload n xs i] Suc.prems by auto
  show ?case
  proof (cases f)
    case True
    have "\<exists>zs. sort_subset_rounds srvload i ys = Some zs \<and> same_prefix n ys zs \<and> placed srvload n 0 zs"
      using Suc.IH [of ys] Suc.prems p same_prefix_set [OF p(2)] by (simp add: subset_ok_def same_prefix_def)
    then show ?thesis using p True same_prefix_trans [OF p(2)] by auto
  qed (use p in auto)
qed

lemma manager_sort_subset_ok:
  assumes "subset_ok srvload (take (nat sz) xs)" and "nat sz \<le> length xs"
  shows "\<exists>ys. manager_sort_subset xs srvload sz = Some ys \<and> same_prefix (nat sz) xs ys \<and>
    sorted_wrt (\<lambda>x y. abs_load srvload y \<le> abs_load srvload x) (take (nat sz) ys)"
proof -
  have "placed srvload (nat sz) (nat sz) xs" by (simp add: placed_def)
  then obtain ys where ys: "sort_subset_rounds srvload (nat sz) xs = Some ys" "same_prefix (nat sz) xs ys"
    "placed srvload (nat sz) 0 ys"
    using sort_subset_rounds_ok [OF assms(1) _ assms(2)] by blast
  then have "sorted_wrt (\<lambda>x y. abs_load srvload y \<le> abs_load srvload x) (take (nat sz) ys)"
    by (auto simp: sorted_wrt_iff_nth_less placed_def)
  with ys show ?thesis by (auto simp: manager_sort_subset_def)
qed

section \<open>\<open>manager_balance_load\<close>\<close>

text \<open>The local variables of the function; \<open>b_subset\<close> is the array the result is written to.\<close>

record balance_vars =
  b_idx :: int
  b_sum :: int
  b_last_index :: int
  b_subset :: "int list"

subsection \<open>On loads (\<open>manager_dh.c\<close>, \<open>manager_indedh.c\<close>)\<close>

text \<open>
  \<open>qsort(list, list_size, sizeof(int), comparator)\<close> with \<open>comparator(a, b) = b - a\<close>: the
  library may compare any two elements, so that the call is defined when no difference of two
  elements overflows, and then orders them from large to small.
\<close>

definition qsort_comparator :: "int list \<Rightarrow> int \<Rightarrow> int list option" where
  "qsort_comparator xs sz =
     (let n = nat sz; ys = take n xs in
      if n \<le> length xs \<and> (\<forall>a \<in> set ys. \<forall>b \<in> set ys. int_ok (b - a))
      then Some (rev (sort ys) @ drop n xs) else None)"

fun balance_loop_dh :: "int list \<Rightarrow> int \<Rightarrow> nat list \<Rightarrow> balance_vars \<Rightarrow> balance_vars option" where
  "balance_loop_dh xs goal_load [] b = Some b"
| "balance_loop_dh xs goal_load (i # is) b = do {
     x \<leftarrow> rd xs i;
     s \<leftarrow> c_int (b_sum b + x);
     if s \<le> goal_load then
       if x = 0 then Some b
       else do {
         sub \<leftarrow> wri (b_subset b) (b_idx b) x;
         balance_loop_dh xs goal_load is (b\<lparr>b_sum := s, b_subset := sub, b_idx := b_idx b + 1\<rparr>)
       }
     else balance_loop_dh xs goal_load is (b\<lparr>b_last_index := int i\<rparr>)
   }"

text \<open>The number of elements chosen, the array \<open>list\<close> (sorted in place) and the array \<open>subset\<close>.\<close>

definition manager_balance_load_dh ::
  "int \<Rightarrow> int list \<Rightarrow> int \<Rightarrow> int \<Rightarrow> int list \<Rightarrow> (int \<times> int list \<times> int list) option" where
  "manager_balance_load_dh current_load xs list_size goal_load sub = do {
     xs \<leftarrow> qsort_comparator xs list_size;
     b \<leftarrow> balance_loop_dh xs goal_load [0..<nat list_size]
       \<lparr>b_idx = 0, b_sum = current_load, b_last_index = -1, b_subset = sub\<rparr>;
     if b_last_index b \<noteq> -1 then do {
       x \<leftarrow> rdi xs (b_last_index b);
       s \<leftarrow> c_int (b_sum b + x);
       a \<leftarrow> c_abs s;
       a' \<leftarrow> c_abs (b_sum b);
       if a < a' then do {
         sub \<leftarrow> wri (b_subset b) (b_idx b) x;
         Some (b_idx b + 1, xs, sub)
       } else Some (b_idx b, xs, b_subset b)
     } else Some (b_idx b, xs, b_subset b)
   }"

subsection \<open>On indices of entries (\<open>manager_windowed.c\<close>, \<open>manager_v2_indedh.c\<close>)\<close>

text \<open>
  \<open>global_list\<close> is an array of \<open>uint32_t\<close>: sums and comparisons with it are unsigned. The call
  of \<open>manager_sort_subset\<close> passes it as an array of \<open>int\<close>.
\<close>

fun balance_loop_windowed ::
  "u32 list \<Rightarrow> int list \<Rightarrow> int \<Rightarrow> nat list \<Rightarrow> balance_vars \<Rightarrow> balance_vars option" where
  "balance_loop_windowed G xs goal_load [] b = Some b"
| "balance_loop_windowed G xs goal_load (i # is) b = do {
     x \<leftarrow> rd xs i;
     g \<leftarrow> rdi G x;
     let s = u32_of_int (b_sum b) + g;
     if s \<le> u32_of_int goal_load then
       if g = 0 then Some b
       else do {
         sub \<leftarrow> wri (b_subset b) (b_idx b) x;
         balance_loop_windowed G xs goal_load is
           (b\<lparr>b_sum := int_of_u32 s, b_subset := sub, b_idx := b_idx b + 1\<rparr>)
       }
     else balance_loop_windowed G xs goal_load is (b\<lparr>b_last_index := int i\<rparr>)
   }"

definition manager_balance_load_windowed ::
  "u32 list \<Rightarrow> int \<Rightarrow> int list \<Rightarrow> int \<Rightarrow> int \<Rightarrow> int list \<Rightarrow> (int \<times> int list \<times> int list) option" where
  "manager_balance_load_windowed G current_load xs list_size goal_load sub = do {
     xs \<leftarrow> manager_sort_subset xs (map int_of_u32 G) list_size;
     b \<leftarrow> balance_loop_windowed G xs goal_load [0..<nat list_size]
       \<lparr>b_idx = 0, b_sum = current_load, b_last_index = -1, b_subset = sub\<rparr>;
     if b_last_index b \<noteq> -1 then do {
       x \<leftarrow> rdi xs (b_last_index b);
       g \<leftarrow> rdi G x;
       a \<leftarrow> c_abs (int_of_u32 (u32_of_int (b_sum b) + g));
       a' \<leftarrow> c_abs (b_sum b);
       if a < a' then do {
         sub \<leftarrow> wri (b_subset b) (b_idx b) x;
         Some (b_idx b + 1, xs, sub)
       } else Some (b_idx b, xs, b_subset b)
     } else Some (b_idx b, xs, b_subset b)
   }"

section \<open>The greedy choice\<close>

text \<open>
  What both functions compute, over the candidates in the order of their weights \<open>w\<close>: take
  each candidate that does not exceed the goal, stop at weight 0, and at the end add the last
  refused candidate if that brings the sum closer to 0. The second component is the last
  refused candidate.
\<close>

fun greedy :: "('a \<Rightarrow> int) \<Rightarrow> int \<Rightarrow> int \<Rightarrow> 'a option \<Rightarrow> 'a list \<Rightarrow> 'a list \<times> 'a option" where
  "greedy w goal s r [] = ([], r)"
| "greedy w goal s r (x # xs) =
     (if s + w x \<le> goal then
        if w x = 0 then ([], r)
        else let (c, r') = greedy w goal (s + w x) r xs in (x # c, r')
      else greedy w goal s (Some x) xs)"

definition weight :: "('a \<Rightarrow> int) \<Rightarrow> 'a list \<Rightarrow> int" where
  "weight w xs = sum_list (map w xs)"

definition balance :: "('a \<Rightarrow> int) \<Rightarrow> int \<Rightarrow> int \<Rightarrow> 'a list \<Rightarrow> 'a list" where
  "balance w current goal xs =
     (case greedy w goal current None xs of
        (c, None) \<Rightarrow> c
      | (c, Some x) \<Rightarrow> if \<bar>current + weight w c + w x\<bar> < \<bar>current + weight w c\<bar> then c @ [x] else c)"

lemma weight_simps [simp]:
  "weight w [] = 0" "weight w (x # xs) = w x + weight w xs" "weight w (xs @ ys) = weight w xs + weight w ys"
  by (simp_all add: weight_def)

lemma greedy_mset:
  "greedy w goal s r xs = (c, r') \<Longrightarrow>
   mset c \<subseteq># mset xs \<and> (r' = r \<or> (\<exists>x. r' = Some x \<and> add_mset x (mset c) \<subseteq># mset xs))"
proof (induction w goal s r xs arbitrary: c r' rule: greedy.induct)
  case (1 w goal s r)
  then show ?case by simp
next
  case (2 w goal s r x xs)
  show ?case
  proof (cases "s + w x \<le> goal")
    case True
    show ?thesis
    proof (cases "w x = 0")
      case True
      with \<open>s + w x \<le> goal\<close> 2 show ?thesis by simp
    next
      case False
      obtain c1 where c1: "greedy w goal (s + w x) r xs = (c1, r')" "c = x # c1"
        using "2.prems" True False by (auto split: prod.splits)
      from "2.IH"(1) [OF True False c1(1)] c1(2) show ?thesis
        by (auto simp: add_mset_commute)
    qed
  next
    case False
    with "2.prems" have "greedy w goal s (Some x) xs = (c, r')" by simp
    from "2.IH"(2) [OF False this] show ?thesis
      by (auto intro: subset_mset.order_trans mset_subset_eq_add_right simp: subset_mset.le_iff_add)
  qed
qed

lemma greedy_sum:
  "greedy w goal s r xs = (c, r') \<Longrightarrow> (c = [] \<or> s + weight w c \<le> goal) \<and> (\<forall>x \<in> set c. w x \<noteq> 0)"
proof (induction w goal s r xs arbitrary: c r' rule: greedy.induct)
  case (2 w goal s r x xs)
  show ?case
  proof (cases "s + w x \<le> goal \<and> w x \<noteq> 0")
    case True
    then obtain c1 where c1: "greedy w goal (s + w x) r xs = (c1, r')" "c = x # c1"
      using "2.prems" by (auto split: prod.splits)
    from "2.IH"(1) [OF _ _ c1(1)] True c1(2) show ?thesis by (auto simp: add.assoc)
  next
    case False
    with 2 show ?thesis by (auto split: if_splits)
  qed
qed simp

text \<open>No candidate is taken twice.\<close>

lemma balance_mset: "mset (balance w current goal xs) \<subseteq># mset xs"
  using greedy_mset [of w goal current None xs]
  by (fastforce simp: balance_def split: prod.splits option.splits)

lemma balance_set: "x \<in> set (balance w current goal xs) \<Longrightarrow> x \<in> set xs"
  using balance_mset [of w current goal xs] by (meson mset_subset_eqD set_mset_mset in_multiset_in_set)

lemma balance_length: "length (balance w current goal xs) \<le> length xs"
  using size_mset_mono [OF balance_mset] by simp

text \<open>With weights that are not negative the sum only grows, and stays under the goal.\<close>

lemma weight_nonneg: "(\<And>x. x \<in> set xs \<Longrightarrow> 0 \<le> w x) \<Longrightarrow> 0 \<le> weight w xs"
  by (auto simp: weight_def intro!: sum_list_nonneg)

lemma greedy_in:
  assumes "greedy w goal s r xs = (c, r')"
  shows "set c \<subseteq> set xs" and "r' = r \<or> (\<exists>x \<in> set xs. r' = Some x)"
  using greedy_mset [OF assms] by (auto dest!: mset_subset_eqD [of _ "mset xs"])

lemma balance_nonneg:
  assumes w: "\<And>x. x \<in> set xs \<Longrightarrow> 0 \<le> w x" and cur: "0 \<le> current"
  shows "balance w current goal xs = fst (greedy w goal current None xs)"
proof -
  obtain c r where g: "greedy w goal current None xs = (c, r)" by fastforce
  have "0 \<le> weight w c" using greedy_in(1) [OF g] w by (intro weight_nonneg) auto
  moreover have "0 \<le> w x" if "r = Some x" for x using greedy_in(2) [OF g] that w by auto
  ultimately show ?thesis using g cur by (auto simp: balance_def split: option.splits)
qed

lemma balance_goal:
  assumes "\<And>x. x \<in> set xs \<Longrightarrow> 0 \<le> w x" and "0 \<le> current" and "current \<le> goal"
  shows "current + weight w (balance w current goal xs) \<le> goal"
    and "0 \<le> weight w (balance w current goal xs)"
proof -
  obtain c r where g: "greedy w goal current None xs = (c, r)" by fastforce
  show "current + weight w (balance w current goal xs) \<le> goal"
    using greedy_sum [OF g] assms g by (auto simp: balance_nonneg)
  show "0 \<le> weight w (balance w current goal xs)"
    using greedy_in(1) [OF g] assms g by (auto simp: balance_nonneg intro!: weight_nonneg)
qed

text \<open>Over candidates from large to small the choice is maximal.\<close>

lemma greedy_maximal:
  assumes "greedy w goal s r xs = (c, r')" and "\<forall>x \<in> set xs. 0 \<le> w x" and "sorted_wrt (\<lambda>x y. w y \<le> w x) xs"
    and "z \<in># mset xs - mset c"
  shows "w z = 0 \<or> goal < s + weight w c + w z"
  using assms
proof (induction w goal s r xs arbitrary: c r' rule: greedy.induct)
  case (1 w goal s r)
  then show ?case by simp
next
  case (2 w goal s r x xs)
  consider "s + w x \<le> goal" "w x = 0" | "s + w x \<le> goal" "w x \<noteq> 0" | "\<not> s + w x \<le> goal" by blast
  then show ?case
  proof cases
    case 1
    then have "\<forall>y \<in> set (x # xs). w y = 0" using "2.prems"(2,3) by (auto intro: antisym)
    moreover have "z \<in> set (x # xs)" using "2.prems"(4) in_diffD by fastforce
    ultimately show ?thesis by blast
  next
    case 2
    then obtain c1 where c1: "greedy w goal (s + w x) r xs = (c1, r')" "c = x # c1"
      using "2.prems"(1) by (auto split: prod.splits)
    have "z \<in># mset xs - mset c1" using "2.prems"(4) c1(2) by simp
    from "2.IH"(1) [OF 2 c1(1) _ _ this] "2.prems"(2,3) show ?thesis using c1(2) by (simp add: add.assoc)
  next
    case 3
    then have g: "greedy w goal s (Some x) xs = (c, r')" using "2.prems"(1) by simp
    have "0 \<le> weight w c" using greedy_in(1) [OF g] "2.prems"(2) by (intro weight_nonneg) auto
    moreover have "z = x \<or> z \<in># mset xs - mset c"
      using "2.prems"(4) by (auto simp: in_diff_count split: if_splits)
    ultimately show ?thesis
      using 3 "2.IH"(2) [OF 3 g] "2.prems"(2,3) by auto
  qed
qed

lemma balance_maximal:
  assumes "\<And>x. x \<in> set xs \<Longrightarrow> 0 \<le> w x" and "0 \<le> current" and "sorted_wrt (\<lambda>x y. w y \<le> w x) xs"
    and "z \<in># mset xs - mset (balance w current goal xs)"
  shows "w z = 0 \<or> goal < current + weight w (balance w current goal xs) + w z"
proof -
  obtain c r where g: "greedy w goal current None xs = (c, r)" by fastforce
  have "balance w current goal xs = c" using g assms(1,2) by (simp add: balance_nonneg)
  then show ?thesis using greedy_maximal [OF g _ assms(3)] assms(1,4) by auto
qed

lemma greedy_refused: "greedy w goal s r xs = (c, Some x) \<Longrightarrow> s \<le> goal \<Longrightarrow> r = Some x \<or> 0 < w x"
proof (induction w goal s r xs arbitrary: c rule: greedy.induct)
  case (2 w goal s r y xs)
  show ?case
  proof (cases "s + w y \<le> goal \<and> w y \<noteq> 0")
    case True
    then obtain c1 where "greedy w goal (s + w y) r xs = (c1, Some x)"
      using "2.prems"(1) by (auto split: prod.splits)
    then show ?thesis using "2.IH"(1) True by simp
  next
    case False
    then show ?thesis using 2 by (auto split: if_splits)
  qed
qed simp

text \<open>The last refused candidate is the smallest of those left that count.\<close>

lemma greedy_last:
  assumes "greedy w goal s r xs = (c, r')" and "\<forall>x \<in> set xs. 0 \<le> w x" and "sorted_wrt (\<lambda>x y. w y \<le> w x) xs"
    and "z \<in># mset xs - mset c" and "w z \<noteq> 0"
  shows "\<exists>x. r' = Some x \<and> w x \<le> w z"
  using assms
proof (induction w goal s r xs arbitrary: c r' rule: greedy.induct)
  case (1 w goal s r)
  then show ?case by simp
next
  case (2 w goal s r x xs)
  consider "s + w x \<le> goal" "w x = 0" | "s + w x \<le> goal" "w x \<noteq> 0" | "\<not> s + w x \<le> goal" by blast
  then show ?case
  proof cases
    case 1
    then have "\<forall>y \<in> set (x # xs). w y = 0" using "2.prems"(2,3) by (auto intro: antisym)
    moreover have "z \<in> set (x # xs)" using "2.prems"(4) in_diffD by fastforce
    ultimately show ?thesis using "2.prems"(5) by blast
  next
    case 2
    then obtain c1 where c1: "greedy w goal (s + w x) r xs = (c1, r')" "c = x # c1"
      using "2.prems"(1) by (auto split: prod.splits)
    have "z \<in># mset xs - mset c1" using "2.prems"(4) c1(2) by simp
    from "2.IH"(1) [OF 2 c1(1) _ _ this "2.prems"(5)] "2.prems"(2,3) show ?thesis by simp
  next
    case 3
    then have g: "greedy w goal s (Some x) xs = (c, r')" using "2.prems"(1) by simp
    have "z = x \<or> z \<in># mset xs - mset c" using "2.prems"(4) by (auto simp: in_diff_count split: if_splits)
    then show ?thesis
      using greedy_in(2) [OF g] "2.IH"(2) [OF 3 g _ _ _ "2.prems"(5)] "2.prems"(2,3) by auto
  qed
qed

text \<open>From a negative load towards 0: the distance to 0 does not grow.\<close>

lemma balance_towards_0:
  assumes "\<And>x. x \<in> set xs \<Longrightarrow> 0 \<le> w x" and "current \<le> 0"
  shows "\<bar>current + weight w (balance w current 0 xs)\<bar> \<le> \<bar>current\<bar>"
proof -
  obtain c r where g: "greedy w 0 current None xs = (c, r)" by fastforce
  have "0 \<le> weight w c" using greedy_in(1) [OF g] assms(1) by (intro weight_nonneg) auto
  moreover have "current + weight w c \<le> 0" using greedy_sum [OF g] assms(2) by auto
  ultimately have "\<bar>current + weight w c\<bar> \<le> \<bar>current\<bar>" by linarith
  then show ?thesis using g by (auto simp: balance_def add.assoc split: option.splits)
qed

lemma greedy_left:
  assumes "greedy w goal s None xs = (c, Some x)"
  shows "x \<in># mset xs - mset c"
proof -
  have "add_mset x (mset c) \<subseteq># mset xs" using greedy_mset [OF assms] by simp
  then have "count (mset c) x < count (mset xs) x" by (metis count_add_mset lessI less_le_trans mset_subset_eq_count)
  then show ?thesis by (simp add: in_diff_count)
qed

text \<open>Nor would one more candidate bring the load nearer to 0.\<close>

lemma balance_best:
  assumes w: "\<And>x. x \<in> set xs \<Longrightarrow> 0 \<le> w x" and cur: "current \<le> 0" and srt: "sorted_wrt (\<lambda>x y. w y \<le> w x) xs"
    and z: "z \<in># mset xs - mset (balance w current 0 xs)"
  shows "\<bar>current + weight w (balance w current 0 xs)\<bar> \<le> \<bar>current + weight w (balance w current 0 xs) + w z\<bar>"
proof -
  obtain c r where g: "greedy w 0 current None xs = (c, r)" by fastforce
  have W: "\<forall>x \<in> set xs. 0 \<le> w x" using w by blast
  have zw: "0 \<le> w z" using w z by (auto dest: in_diffD)
  let ?G = "current + weight w c"
  have G: "?G \<le> 0" using greedy_sum [OF g] cur by auto
  show ?thesis
  proof (cases "balance w current 0 xs = c \<and> w z \<noteq> 0")
    case True
    then have z': "z \<in># mset xs - mset c" using z by simp
    obtain x where x: "r = Some x" "w x \<le> w z" using greedy_last [OF g W srt z'] True by blast
    have "\<not> \<bar>?G + w x\<bar> < \<bar>?G\<bar>" using True g x(1) by (auto simp: balance_def split: if_splits)
    moreover have "x \<in># mset xs - mset c" by (rule greedy_left [OF g [unfolded x(1)]])
    then have "0 < ?G + w x"
      using greedy_maximal [OF g W srt] greedy_refused [OF g [unfolded x(1)] cur] by fastforce
    ultimately show ?thesis using True x(2) G by simp
  next
    case False
    then consider "w z = 0" | x where "balance w current 0 xs = c @ [x]" "r = Some x"
      using g by (auto simp: balance_def split: option.splits if_splits)
    then show ?thesis
    proof cases
      case 2
      have "x \<in># mset xs - mset c" by (rule greedy_left [OF g [unfolded 2(2)]])
      from greedy_maximal [OF g W srt this] have "w x = 0 \<or> 0 < ?G + w x" .
      moreover have "\<bar>?G + w x\<bar> < \<bar>?G\<bar>" using 2 g by (auto simp: balance_def split: if_splits)
      ultimately show ?thesis using 2(1) zw by auto
    qed simp
  qed
qed

section \<open>Both functions compute the greedy choice\<close>

text \<open>The index \<open>last_index\<close> and the refused candidate it stands for.\<close>

definition rel_last :: "int list \<Rightarrow> int \<Rightarrow> int option \<Rightarrow> bool" where
  "rel_last xs l r = (case r of None \<Rightarrow> l = -1 | Some x \<Rightarrow> 0 \<le> l \<and> nat l < length xs \<and> xs ! nat l = x)"

text \<open>The state after a loop that has added the choice \<open>c\<close> of total weight \<open>t\<close>.\<close>

definition extends :: "balance_vars \<Rightarrow> int list \<Rightarrow> int \<Rightarrow> balance_vars \<Rightarrow> bool" where
  "extends b c t b' \<longleftrightarrow> b_idx b' = b_idx b + int (length c) \<and> b_sum b' = b_sum b + t \<and>
     length (b_subset b') = length (b_subset b) \<and>
     take (nat (b_idx b')) (b_subset b') = take (nat (b_idx b)) (b_subset b) @ c"

lemma extends_refl [simp]: "extends b [] 0 b"
  by (simp add: extends_def)

lemma extends_last [simp]: "extends (b\<lparr>b_last_index := l\<rparr>) c t b' = extends b c t b'"
  by (simp add: extends_def)

lemma extends_step:
  assumes "extends (b\<lparr>b_sum := b_sum b + v, b_subset := (b_subset b)[nat (b_idx b) := x], b_idx := b_idx b + 1\<rparr>) c t b'"
    and "0 \<le> b_idx b" and "nat (b_idx b) < length (b_subset b)"
  shows "extends b (x # c) (v + t) b'"
proof -
  have "take (nat (b_idx b + 1)) ((b_subset b)[nat (b_idx b) := x]) = take (nat (b_idx b)) (b_subset b) @ [x]"
    using assms(2,3) by (simp add: nat_add_distrib take_Suc_conv_app_nth)
  with assms(1) show ?thesis by (auto simp: extends_def add.assoc)
qed

lemma balance_loop_dh_ok:
  assumes "greedy (\<lambda>x. x) goal (b_sum b) r (map ((!) xs) is) = (c, r')"
    and "\<forall>i \<in> set is. i < length xs \<and> 0 \<le> xs ! i \<and> goal + xs ! i \<le> INT_MAX"
    and "b_sum b \<le> goal" and "INT_MIN \<le> b_sum b"
    and "0 \<le> b_idx b" and "nat (b_idx b) + length is \<le> length (b_subset b)"
    and "rel_last xs (b_last_index b) r"
  shows "\<exists>b'. balance_loop_dh xs goal is b = Some b' \<and> extends b c (weight (\<lambda>x. x) c) b' \<and>
    rel_last xs (b_last_index b') r'"
  using assms
proof (induction "is" arbitrary: b r c)
  case Nil
  then show ?case by simp
next
  case (Cons i "is")
  let ?x = "xs ! i" and ?s = "b_sum b + xs ! i"
  have ok: "i < length xs" "0 \<le> ?x" "int_ok ?s" using Cons.prems(2,3,4) by (auto simp: int_ok_def)
  show ?case
  proof (cases "?s \<le> goal")
    case False
    have "\<exists>b'. balance_loop_dh xs goal is (b\<lparr>b_last_index := int i\<rparr>) = Some b' \<and>
      extends (b\<lparr>b_last_index := int i\<rparr>) c (weight (\<lambda>x. x) c) b' \<and> rel_last xs (b_last_index b') r'"
      by (rule Cons.IH [of _ "Some ?x"]) (use Cons.prems False ok in \<open>auto simp: rel_last_def\<close>)
    then show ?thesis using ok False by (simp add: arr_simps c_conv)
  next
    case True
    show ?thesis
    proof (cases "?x = 0")
      case True
      then show ?thesis using Cons.prems ok \<open>?s \<le> goal\<close> by (auto simp: arr_simps c_conv)
    next
      case False
      let ?b = "b\<lparr>b_sum := ?s, b_subset := (b_subset b)[nat (b_idx b) := ?x], b_idx := b_idx b + 1\<rparr>"
      obtain c1 where c1: "greedy (\<lambda>x. x) goal ?s r (map ((!) xs) is) = (c1, r')" "c = ?x # c1"
        using Cons.prems(1) True False by (auto split: prod.splits)
      have "\<exists>b'. balance_loop_dh xs goal is ?b = Some b' \<and> extends ?b c1 (weight (\<lambda>x. x) c1) b' \<and>
        rel_last xs (b_last_index b') r'"
        by (rule Cons.IH [of _ r]) (use Cons.prems True ok c1 in \<open>auto simp: nat_add_distrib\<close>)
      then obtain b' where b': "balance_loop_dh xs goal is ?b = Some b'"
        "extends ?b c1 (weight (\<lambda>x. x) c1) b'" "rel_last xs (b_last_index b') r'" by blast
      have "extends b (?x # c1) (?x + weight (\<lambda>x. x) c1) b'"
        by (rule extends_step [OF b'(2)]) (use Cons.prems in auto)
      then show ?thesis using b' c1 ok True False Cons.prems by (simp add: arr_simps c_conv wri_in)
    qed
  qed
qed

text \<open>The weight of an entry is its SAI.\<close>

definition sai_of :: "u32 list \<Rightarrow> int \<Rightarrow> int" where
  "sai_of G e = uint (G ! nat e)"

lemma sai_of_nonneg [simp]: "0 \<le> sai_of G e"
  by (simp add: sai_of_def)

text \<open>Unsigned arithmetic on values in range.\<close>

lemma u32_add_le:
  assumes "0 \<le> s" "s \<le> goal" "goal \<le> INT_MAX" and "uint g \<le> INT_MAX"
  shows "u32_of_int s + g \<le> u32_of_int goal \<longleftrightarrow> s + uint g \<le> goal"
    and "s + uint g \<le> goal \<Longrightarrow> int_of_u32 (u32_of_int s + g) = s + uint g"
proof -
  have ok: "int_ok s" "int_ok goal" using assms by (auto simp: int_ok_def INT_MIN_def)
  have "uint (u32_of_int s + g) = (s + uint g) mod 2 ^ 32"
    using assms ok by (simp add: uint_word_ariths uint_u32_of_int)
  also have "\<dots> = s + uint g" using assms by (intro mod_pos_pos_trivial) (auto simp: INT_MAX_def)
  finally have u: "uint (u32_of_int s + g) = s + uint g" .
  show "u32_of_int s + g \<le> u32_of_int goal \<longleftrightarrow> s + uint g \<le> goal"
    using u assms ok by (simp add: word_le_def uint_u32_of_int)
  show "int_of_u32 (u32_of_int s + g) = s + uint g" if "s + uint g \<le> goal"
    using u that assms by (simp add: int_of_u32_small)
qed

lemma balance_loop_windowed_ok:
  assumes "greedy (sai_of G) goal (b_sum b) r (map ((!) xs) is) = (c, r')"
    and "\<forall>i \<in> set is. i < length xs \<and> 0 \<le> xs ! i \<and> nat (xs ! i) < length G \<and> sai_of G (xs ! i) \<le> INT_MAX"
    and "0 \<le> b_sum b" and "b_sum b \<le> goal" and "goal \<le> INT_MAX"
    and "0 \<le> b_idx b" and "nat (b_idx b) + length is \<le> length (b_subset b)"
    and "rel_last xs (b_last_index b) r"
  shows "\<exists>b'. balance_loop_windowed G xs goal is b = Some b' \<and> extends b c (weight (sai_of G) c) b' \<and>
    rel_last xs (b_last_index b') r'"
  using assms
proof (induction "is" arbitrary: b r c)
  case Nil
  then show ?case by simp
next
  case (Cons i "is")
  let ?x = "xs ! i" and ?g = "G ! nat (xs ! i)" and ?s = "b_sum b + sai_of G (xs ! i)"
  have ok: "i < length xs" "0 \<le> ?x" "nat ?x < length G" "uint ?g \<le> INT_MAX"
    using Cons.prems(2) by (auto simp: sai_of_def)
  note ar = u32_add_le [OF Cons.prems(3,4,5) ok(4), folded sai_of_def]
  show ?case
  proof (cases "?s \<le> goal")
    case False
    have "\<exists>b'. balance_loop_windowed G xs goal is (b\<lparr>b_last_index := int i\<rparr>) = Some b' \<and>
      extends (b\<lparr>b_last_index := int i\<rparr>) c (weight (sai_of G) c) b' \<and> rel_last xs (b_last_index b') r'"
      by (rule Cons.IH [of _ "Some ?x"]) (use Cons.prems False ok in \<open>auto simp: rel_last_def\<close>)
    then show ?thesis using ok ar False by (simp add: arr_simps Let_def)
  next
    case True
    have z: "?g = 0 \<longleftrightarrow> sai_of G ?x = 0" by (simp add: sai_of_def uint_0_iff)
    show ?thesis
    proof (cases "?g = 0")
      case True
      have "greedy (sai_of G) goal (b_sum b) r (map ((!) xs) (i # is)) = ([], r)"
        using \<open>?s \<le> goal\<close> True z by simp
      with Cons.prems(1) have "c = []" "r' = r" by auto
      moreover have "balance_loop_windowed G xs goal (i # is) b = Some b"
        using ok ar \<open>?s \<le> goal\<close> True by (simp add: arr_simps Let_def)
      ultimately show ?thesis using Cons.prems(8) by simp
    next
      case False
      let ?b = "b\<lparr>b_sum := ?s, b_subset := (b_subset b)[nat (b_idx b) := ?x], b_idx := b_idx b + 1\<rparr>"
      obtain c1 where c1: "greedy (sai_of G) goal ?s r (map ((!) xs) is) = (c1, r')" "c = ?x # c1"
        using Cons.prems(1) True False z by (auto split: prod.splits)
      have "\<exists>b'. balance_loop_windowed G xs goal is ?b = Some b' \<and> extends ?b c1 (weight (sai_of G) c1) b' \<and>
        rel_last xs (b_last_index b') r'"
        by (rule Cons.IH [of _ r]) (use Cons.prems True ok c1 in \<open>auto simp: nat_add_distrib\<close>)
      then obtain b' where b': "balance_loop_windowed G xs goal is ?b = Some b'"
        "extends ?b c1 (weight (sai_of G) c1) b'" "rel_last xs (b_last_index b') r'" by blast
      have "extends b (?x # c1) (sai_of G ?x + weight (sai_of G) c1) b'"
        by (rule extends_step [OF b'(2)]) (use Cons.prems in auto)
      then show ?thesis using b' c1 ok ar True False Cons.prems by (simp add: arr_simps Let_def)
    qed
  qed
qed

text \<open>What a call of \<open>manager_balance_load\<close> gives: the choice is the first \<open>idx\<close> elements of \<open>subset\<close>.\<close>

definition chosen :: "int \<Rightarrow> int list \<Rightarrow> int list" where
  "chosen idx sub = take (nat idx) sub"

lemma map_nth_upt: "n \<le> length xs \<Longrightarrow> map ((!) xs) [0..<n] = take n xs"
  by (rule nth_equalityI) auto

lemma balance_load_windowed_sorted:
  assumes n: "nat sz \<le> length xs" "nat sz \<le> length sub"
    and es: "\<forall>e \<in> set (take (nat sz) xs). 0 \<le> e \<and> nat e < length G \<and> goal + sai_of G e \<le> INT_MAX"
    and goal: "0 \<le> cur" "cur \<le> goal" "goal \<le> INT_MAX"
  shows "\<exists>idx ys sub'. manager_balance_load_windowed G cur xs sz goal sub = Some (idx, ys, sub') \<and>
    same_prefix (nat sz) xs ys \<and> length sub' = length sub \<and> 0 \<le> idx \<and> idx \<le> int (nat sz) \<and>
    chosen idx sub' = balance (sai_of G) cur goal (take (nat sz) ys) \<and>
    sorted_wrt (\<lambda>x y. sai_of G y \<le> sai_of G x) (take (nat sz) ys)"
proof -
  let ?n = "nat sz" and ?G = "map int_of_u32 G"
  have "subset_ok ?G (take ?n xs)" unfolding subset_ok_def
  proof
    fix x assume "x \<in> set (take ?n xs)"
    with es goal have x: "0 \<le> x" "nat x < length G" "uint (G ! nat x) \<le> INT_MAX" by (auto simp: sai_of_def)
    then show "0 \<le> x \<and> nat x < length ?G \<and> int_ok (abs_load ?G x)"
      by (simp add: int_of_u32_small int_ok_def INT_MIN_def order_trans [OF _ uint_ge_0])
  qed
  then obtain ys where ys: "manager_sort_subset xs ?G sz = Some ys" "same_prefix ?n xs ys"
    "sorted_wrt (\<lambda>x y. abs_load ?G y \<le> abs_load ?G x) (take ?n ys)"
    using manager_sort_subset_ok n(1) by blast
  have "abs_load ?G x = sai_of G x" if "x \<in> set (take ?n ys)" for x
  proof -
    have "nat x < length G" "uint (G ! nat x) \<le> INT_MAX"
      using es goal that same_prefix_set [OF ys(2)] by (auto simp: sai_of_def)
    then show ?thesis by (simp add: int_of_u32_small sai_of_def)
  qed
  then have srt: "sorted_wrt (\<lambda>x y. sai_of G y \<le> sai_of G x) (take ?n ys)"
    using sorted_wrt_mono_rel [OF _ ys(3), of "\<lambda>x y. sai_of G y \<le> sai_of G x"] by simp
  have lys: "?n \<le> length ys" using ys(2) n(1) by (simp add: same_prefix_def)
  obtain c r where g: "greedy (sai_of G) goal cur None (take ?n ys) = (c, r)" by fastforce
  have es': "\<forall>e \<in> set (take ?n ys). 0 \<le> e \<and> nat e < length G \<and> goal + sai_of G e \<le> INT_MAX"
    using es same_prefix_set [OF ys(2)] by simp
  let ?b0 = "\<lparr>b_idx = 0, b_sum = cur, b_last_index = -1, b_subset = sub\<rparr>"
  have mem: "ys ! i \<in> set (take ?n ys)" if "i < ?n" for i
    using that lys by (auto simp: in_set_conv_nth intro: exI [of _ i])
  have "\<forall>i \<in> set [0..<?n]. i < length ys \<and> 0 \<le> ys ! i \<and> nat (ys ! i) < length G \<and> sai_of G (ys ! i) \<le> INT_MAX"
    using es' mem goal lys by fastforce
  then have "\<exists>b'. balance_loop_windowed G ys goal [0..<?n] ?b0 = Some b' \<and>
    extends ?b0 c (weight (sai_of G) c) b' \<and> rel_last ys (b_last_index b') r"
    by (intro balance_loop_windowed_ok [of _ _ _ None])
      (use g goal n lys in \<open>auto simp: map_nth_upt rel_last_def\<close>)
  then obtain b where b: "balance_loop_windowed G ys goal [0..<?n] ?b0 = Some b"
    "extends ?b0 c (weight (sai_of G) c) b" "rel_last ys (b_last_index b) r" by blast
  have c: "balance (sai_of G) cur goal (take ?n ys) = c" using g goal by (simp add: balance_nonneg)
  have cs: "set c \<subseteq> set (take ?n ys)" using greedy_in(1) [OF g] .
  have sum: "cur + weight (sai_of G) c \<le> goal" "0 \<le> weight (sai_of G) c"
    using balance_goal [of "take ?n ys" "sai_of G" cur goal] goal c by auto
  have b': "b_sum b = cur + weight (sai_of G) c" "b_idx b = int (length c)"
    "length (b_subset b) = length sub" "chosen (b_idx b) (b_subset b) = c"
    using b(2) by (auto simp: extends_def chosen_def)
  have len: "length c \<le> ?n" using balance_length [of "sai_of G" cur goal "take ?n ys"] c by simp
  have "manager_balance_load_windowed G cur xs sz goal sub = Some (b_idx b, ys, b_subset b)"
  proof (cases r)
    case None
    then show ?thesis using ys b by (simp add: manager_balance_load_windowed_def rel_last_def)
  next
    case (Some x)
    have "x \<in> set (take ?n ys)" using greedy_in(2) [OF g] Some by auto
    then have x: "0 \<le> x" "nat x < length G" "goal + uint (G ! nat x) \<le> INT_MAX"
      using es' by (auto simp: sai_of_def)
    obtain l where l: "b_last_index b = l" "0 \<le> l" "nat l < length ys" "ys ! nat l = x"
      using b(3) Some by (auto simp: rel_last_def)
    let ?s = "b_sum b" and ?g = "G ! nat x"
    have s: "0 \<le> ?s" "?s \<le> goal" using b'(1) sum goal by auto
    have u0: "0 \<le> uint ?g" by simp
    have "?s + uint ?g \<le> INT_MAX" "uint ?g \<le> INT_MAX" using s x goal by auto
    then have "int_of_u32 (u32_of_int ?s + ?g) = ?s + uint ?g"
      using u32_add_le(2) [of ?s "?s + uint ?g" ?g] s by simp
    moreover have "int_ok \<bar>?s + uint ?g\<bar>" "int_ok \<bar>?s\<bar>"
      using s \<open>?s + uint ?g \<le> INT_MAX\<close> goal u0 unfolding int_ok_def INT_MIN_def by linarith+
    moreover have "\<not> \<bar>?s + uint ?g\<bar> < \<bar>?s\<bar>" using s by simp
    ultimately show ?thesis
      using ys b l x by (simp add: manager_balance_load_windowed_def rdi_in c_abs_def c_conv)
  qed
  then show ?thesis using ys(2) b' c len srt by auto
qed

lemma balance_load_windowed_ok:
  assumes "nat sz \<le> length xs" "nat sz \<le> length sub"
    and "\<forall>e \<in> set (take (nat sz) xs). 0 \<le> e \<and> nat e < length G \<and> goal + sai_of G e \<le> INT_MAX"
    and "0 \<le> cur" "cur \<le> goal" "goal \<le> INT_MAX"
  shows "\<exists>idx ys sub'. manager_balance_load_windowed G cur xs sz goal sub = Some (idx, ys, sub') \<and>
    same_prefix (nat sz) xs ys \<and> length sub' = length sub \<and> 0 \<le> idx \<and> idx \<le> int (nat sz) \<and>
    chosen idx sub' = balance (sai_of G) cur goal (take (nat sz) ys)"
  using balance_load_windowed_sorted [OF assms] by blast

text \<open>The version on loads, from a load to fill (\<open>goal = 0\<close>) or up to a load to give (\<open>cur = 0\<close>).\<close>

lemma balance_load_dh_sorted:
  assumes n: "nat sz \<le> length xs" "nat sz \<le> length sub"
    and es: "\<forall>x \<in> set (take (nat sz) xs). 0 \<le> x \<and> goal + x \<le> INT_MAX"
    and goal: "cur \<le> goal" "0 \<le> goal" "INT_MIN < cur"
  shows "\<exists>idx ys sub'. manager_balance_load_dh cur xs sz goal sub = Some (idx, ys, sub') \<and>
    same_prefix (nat sz) xs ys \<and> length sub' = length sub \<and> 0 \<le> idx \<and> idx \<le> int (nat sz) \<and>
    chosen idx sub' = balance (\<lambda>x. x) cur goal (take (nat sz) ys) \<and>
    sorted_wrt (\<lambda>x y. y \<le> x) (take (nat sz) ys)"
proof -
  let ?n = "nat sz"
  let ?ys = "rev (sort (take ?n xs)) @ drop ?n xs"
  have "int_ok (b - a)" if "a \<in> set (take ?n xs)" "b \<in> set (take ?n xs)" for a b
  proof -
    have "0 \<le> a \<and> goal + a \<le> INT_MAX" "0 \<le> b \<and> goal + b \<le> INT_MAX" using es that by blast+
    then show ?thesis using goal by (simp add: int_ok_def INT_MIN_def INT_MAX_def)
  qed
  then have q: "qsort_comparator xs sz = Some ?ys"
    using n by (simp add: qsort_comparator_def Let_def)
  have sp: "same_prefix ?n xs ?ys" using n by (simp add: same_prefix_def)
  have lys: "?n \<le> length ?ys" using n(1) by simp
  have es': "\<forall>x \<in> set (take ?n ?ys). 0 \<le> x \<and> goal + x \<le> INT_MAX" using es same_prefix_set [OF sp] by metis
  have srt: "sorted_wrt (\<lambda>x y. y \<le> x) (take ?n ?ys)" using n(1) by (simp add: sorted_wrt_rev)
  define ys where "ys = ?ys"
  note q = q [folded ys_def] and sp = sp [folded ys_def] and lys = lys [folded ys_def] and es' = es' [folded ys_def]
    and srt = srt [folded ys_def]
  obtain c r where g: "greedy (\<lambda>x. x) goal cur None (take ?n ys) = (c, r)" by fastforce
  let ?b0 = "\<lparr>b_idx = 0, b_sum = cur, b_last_index = -1, b_subset = sub\<rparr>"
  have mem: "ys ! i \<in> set (take ?n ys)" if "i < ?n" for i
    using that lys by (auto simp: in_set_conv_nth intro: exI [of _ i])
  have "\<forall>i \<in> set [0..<?n]. i < length ys \<and> 0 \<le> ys ! i \<and> goal + ys ! i \<le> INT_MAX"
    using es' mem lys by fastforce
  then have "\<exists>b'. balance_loop_dh ys goal [0..<?n] ?b0 = Some b' \<and>
    extends ?b0 c (weight (\<lambda>x. x) c) b' \<and> rel_last ys (b_last_index b') r"
    by (intro balance_loop_dh_ok [of _ _ None])
      (use g goal n lys in \<open>auto simp: map_nth_upt rel_last_def\<close>)
  then obtain b where b: "balance_loop_dh ys goal [0..<?n] ?b0 = Some b"
    "extends ?b0 c (weight (\<lambda>x. x) c) b" "rel_last ys (b_last_index b) r" by blast
  have b': "b_sum b = cur + weight (\<lambda>x. x) c" "b_idx b = int (length c)"
    "length (b_subset b) = length sub" "chosen (b_idx b) (b_subset b) = c"
    using b(2) by (auto simp: extends_def chosen_def)
  have w: "0 \<le> weight (\<lambda>x. x) c" using greedy_in(1) [OF g] es' by (intro weight_nonneg) auto
  have s: "INT_MIN < b_sum b" "b_sum b \<le> goal" using b'(1) w goal greedy_sum [OF g] by auto
  show ?thesis
  proof (cases r)
    case None
    then have "manager_balance_load_dh cur xs sz goal sub = Some (b_idx b, ys, b_subset b)"
      using q b by (simp add: manager_balance_load_dh_def rel_last_def)
    moreover have "balance (\<lambda>x. x) cur goal (take ?n ys) = c" using g None by (simp add: balance_def)
    ultimately show ?thesis
      using sp srt b' balance_length [of "\<lambda>x. x" cur goal "take ?n ys"] by auto
  next
    case (Some x)
    let ?B = "balance (\<lambda>x. x) cur goal (take ?n ys)"
    have "x \<in> set (take ?n ys)" using greedy_in(2) [OF g] Some by auto
    then have x: "0 \<le> x" "goal + x \<le> INT_MAX" using es' by auto
    obtain l where l: "b_last_index b = l" "0 \<le> l" "nat l < length ys" "ys ! nat l = x"
      using b(3) Some by (auto simp: rel_last_def)
    have ok: "int_ok (b_sum b + x)" "int_ok \<bar>b_sum b + x\<bar>" "int_ok \<bar>b_sum b\<bar>"
      using s x goal by (auto simp: int_ok_def INT_MIN_def INT_MAX_def)
    have B: "?B = (if \<bar>b_sum b + x\<bar> < \<bar>b_sum b\<bar> then c @ [x] else c)"
      using g Some b'(1) by (simp add: balance_def)
    have len: "length ?B \<le> ?n" using balance_length [of "\<lambda>x. x" cur goal "take ?n ys"] by simp
    show ?thesis
    proof (cases "\<bar>b_sum b + x\<bar> < \<bar>b_sum b\<bar>")
      case True
      then have c: "length c < length (b_subset b)" using B len n(2) b'(3) by simp
      have "manager_balance_load_dh cur xs sz goal sub = Some (b_idx b + 1, ys, (b_subset b)[length c := x])"
        using q b l ok True b'(2) c by (simp add: manager_balance_load_dh_def arr_simps c_abs_def c_conv)
      moreover have "chosen (b_idx b + 1) ((b_subset b)[length c := x]) = c @ [x]"
        using b'(2,4) c by (simp add: chosen_def nat_add_distrib take_Suc_conv_app_nth)
      ultimately show ?thesis using sp srt b' B True len by auto
    next
      case False
      have "manager_balance_load_dh cur xs sz goal sub = Some (b_idx b, ys, b_subset b)"
        using q b l ok False by (simp add: manager_balance_load_dh_def arr_simps c_abs_def c_conv)
      then show ?thesis using sp srt b' B False len by auto
    qed
  qed
qed

lemma balance_load_dh_ok:
  assumes "nat sz \<le> length xs" "nat sz \<le> length sub"
    and "\<forall>x \<in> set (take (nat sz) xs). 0 \<le> x \<and> goal + x \<le> INT_MAX"
    and "cur \<le> goal" "0 \<le> goal" "INT_MIN < cur"
  shows "\<exists>idx ys sub'. manager_balance_load_dh cur xs sz goal sub = Some (idx, ys, sub') \<and>
    same_prefix (nat sz) xs ys \<and> length sub' = length sub \<and> 0 \<le> idx \<and> idx \<le> int (nat sz) \<and>
    chosen idx sub' = balance (\<lambda>x. x) cur goal (take (nat sz) ys)"
  using balance_load_dh_sorted [OF assms] by blast

section \<open>Properties\<close>

text \<open>
  \<open>manager_sort_subset\<close> is a sort: for indices inside \<open>srvload\<close> it permutes the first \<open>size\<close> elements
  of the subset so that the absolute loads they index decrease, and leaves the rest.
\<close>

theorem sort_subset_sorts:
  assumes "subset_ok srvload (take (nat sz) xs)" and "nat sz \<le> length xs"
  shows "\<exists>ys. manager_sort_subset xs srvload sz = Some ys \<and>
    mset (take (nat sz) ys) = mset (take (nat sz) xs) \<and> drop (nat sz) ys = drop (nat sz) xs \<and>
    sorted_wrt (\<lambda>x y. abs_load srvload y \<le> abs_load srvload x) (take (nat sz) ys)"
  using manager_sort_subset_ok [OF assms] by (auto simp: same_prefix_def)

theorem sort_subset_sorts_witness:
  "\<exists>ys. manager_sort_subset [0, 1, 2, 7] [3, -9, 5] 3 = Some ys \<and>
    mset (take (nat 3) ys) = mset (take (nat 3) [0, 1, 2, 7]) \<and> drop (nat 3) ys = drop (nat 3) [0, 1, 2, 7] \<and>
    sorted_wrt (\<lambda>x y. abs_load [3, -9, 5] y \<le> abs_load [3, -9, 5] x) (take (nat 3) ys)"
  by (rule sort_subset_sorts) (simp_all add: subset_ok_def int_ok_def INT_MIN_def INT_MAX_def)

text \<open>
  C28: the choice of entries by \<open>manager_balance_load\<close> of the windowed manager, from a load of 0 up to a
  goal: the chosen indices are candidates, none more often than it is there, their SAI do not exceed
  the goal in sum, and the choice is maximal: a candidate that is left has SAI 0 or would exceed it.
\<close>

theorem balance_windowed_is_maximal:
  assumes "nat sz \<le> length xs" "nat sz \<le> length sub"
    and "\<forall>e \<in> set (take (nat sz) xs). 0 \<le> e \<and> nat e < length G \<and> goal + sai_of G e \<le> INT_MAX"
    and "0 \<le> goal" "goal \<le> INT_MAX"
  shows "\<exists>idx ys sub'. manager_balance_load_windowed G 0 xs sz goal sub = Some (idx, ys, sub') \<and>
    mset (chosen idx sub') \<subseteq># mset (take (nat sz) xs) \<and> weight (sai_of G) (chosen idx sub') \<le> goal \<and>
    (\<forall>e \<in># mset (take (nat sz) xs) - mset (chosen idx sub').
       sai_of G e = 0 \<or> goal < weight (sai_of G) (chosen idx sub') + sai_of G e)"
proof -
  obtain idx ys sub' where r: "manager_balance_load_windowed G 0 xs sz goal sub = Some (idx, ys, sub')"
    "same_prefix (nat sz) xs ys" "chosen idx sub' = balance (sai_of G) 0 goal (take (nat sz) ys)"
    "sorted_wrt (\<lambda>x y. sai_of G y \<le> sai_of G x) (take (nat sz) ys)"
    using balance_load_windowed_sorted [OF assms(1-3), of 0] assms(4,5) by auto
  have m: "mset (take (nat sz) ys) = mset (take (nat sz) xs)" using r(2) by (simp add: same_prefix_def)
  have "mset (chosen idx sub') \<subseteq># mset (take (nat sz) xs)" using balance_mset [of "sai_of G" 0 goal] r(3) m by metis
  moreover have "weight (sai_of G) (chosen idx sub') \<le> goal"
    using balance_goal(1) [of _ "sai_of G" 0 goal] assms(4) r(3) by simp
  ultimately show ?thesis using r(1,3) balance_maximal [of _ "sai_of G" 0, OF _ _ r(4)] m by auto
qed

theorem balance_windowed_is_maximal_witness:
  "\<exists>idx ys sub'. manager_balance_load_windowed [4, 2, 3] 0 [0, 1, 2] 3 6 [0, 0, 0] = Some (idx, ys, sub') \<and>
    mset (chosen idx sub') \<subseteq># mset (take (nat 3) [0, 1, 2]) \<and> weight (sai_of [4, 2, 3]) (chosen idx sub') \<le> 6 \<and>
    (\<forall>e \<in># mset (take (nat 3) [0, 1, 2]) - mset (chosen idx sub').
       sai_of [4, 2, 3] e = 0 \<or> 6 < weight (sai_of [4, 2, 3]) (chosen idx sub') + sai_of [4, 2, 3] e)"
  by (rule balance_windowed_is_maximal) (simp_all add: sai_of_def INT_MAX_def)

text \<open>
  C40: the choice of \<open>manager_balance_load\<close> of the other managers in its two uses. For an idle server, whose
  relative load \<open>current\<close> is not above 0, with the overloaded servers as candidates and the goal 0: the chosen loads are among the
  candidates, none more often than it is there, the load they lead to is not further from 0 than before, and no
  candidate that is left would bring it nearer to 0. For the entries of an overloaded server, from 0 up to the load to
  give away: the chosen SAI do not exceed the goal in sum, and a candidate that is left has SAI 0 or would exceed it.
\<close>

theorem balance_dh_cannot_be_improved:
  assumes "nat sz \<le> length xs" "nat sz \<le> length sub"
    and "\<forall>x \<in> set (take (nat sz) xs). 0 \<le> x \<and> goal + x \<le> INT_MAX"
    and "INT_MIN < current" and "goal = 0 \<and> current \<le> 0 \<or> 0 < goal \<and> current = 0"
  shows "\<exists>idx ys sub'. manager_balance_load_dh current xs sz goal sub = Some (idx, ys, sub') \<and>
    mset (take (nat sz) ys) = mset (take (nat sz) xs) \<and>
    mset (chosen idx sub') \<subseteq># mset (take (nat sz) xs) \<and>
    (if goal = 0
     then \<bar>current + weight (\<lambda>x. x) (chosen idx sub')\<bar> \<le> \<bar>current\<bar> \<and>
       (\<forall>z \<in># mset (take (nat sz) xs) - mset (chosen idx sub').
          \<bar>current + weight (\<lambda>x. x) (chosen idx sub')\<bar> \<le> \<bar>current + weight (\<lambda>x. x) (chosen idx sub') + z\<bar>)
     else weight (\<lambda>x. x) (chosen idx sub') \<le> goal \<and>
       (\<forall>z \<in># mset (take (nat sz) xs) - mset (chosen idx sub').
          z = 0 \<or> goal < weight (\<lambda>x. x) (chosen idx sub') + z))"
proof -
  have g: "current \<le> goal" "0 \<le> goal" using assms(5) by auto
  obtain idx ys sub' where r: "manager_balance_load_dh current xs sz goal sub = Some (idx, ys, sub')"
    "same_prefix (nat sz) xs ys" "chosen idx sub' = balance (\<lambda>x. x) current goal (take (nat sz) ys)"
    "sorted_wrt (\<lambda>x y. y \<le> x) (take (nat sz) ys)"
    using balance_load_dh_sorted [OF assms(1-3) g assms(4)] by blast
  have m: "mset (take (nat sz) ys) = mset (take (nat sz) xs)" using r(2) by (simp add: same_prefix_def)
  have pos: "\<And>x. x \<in> set (take (nat sz) ys) \<Longrightarrow> 0 \<le> x" using assms(3) same_prefix_set [OF r(2)] by simp
  have sub: "mset (chosen idx sub') \<subseteq># mset (take (nat sz) xs)" using balance_mset [of "\<lambda>x. x" current goal] r(3) m by metis
  show ?thesis
  proof (cases "goal = 0")
    case True
    then show ?thesis
      using r m sub assms(5) balance_towards_0 [of "take (nat sz) ys" "\<lambda>x. x", OF pos]
        balance_best [of "take (nat sz) ys" "\<lambda>x. x", OF pos _ r(4)] by simp
  next
    case False
    then show ?thesis
      using r m sub assms(5) balance_goal(1) [of "take (nat sz) ys" "\<lambda>x. x" 0 goal, OF pos]
        balance_maximal [of "take (nat sz) ys" "\<lambda>x. x" 0, OF pos _ r(4)] by simp
  qed
qed

theorem balance_dh_cannot_be_improved_witness:
  "\<exists>idx ys sub'. manager_balance_load_dh (-5) [2, 4, 9] 3 0 [0, 0, 0] = Some (idx, ys, sub') \<and>
    mset (take (nat 3) ys) = mset (take (nat 3) [2, 4, 9]) \<and>
    mset (chosen idx sub') \<subseteq># mset (take (nat 3) [2, 4, 9]) \<and>
    (if (0 :: int) = 0
     then \<bar>-5 + weight (\<lambda>x. x) (chosen idx sub')\<bar> \<le> \<bar>-5\<bar> \<and>
       (\<forall>z \<in># mset (take (nat 3) [2, 4, 9]) - mset (chosen idx sub').
          \<bar>-5 + weight (\<lambda>x. x) (chosen idx sub')\<bar> \<le> \<bar>-5 + weight (\<lambda>x. x) (chosen idx sub') + z\<bar>)
     else weight (\<lambda>x. x) (chosen idx sub') \<le> 0 \<and>
       (\<forall>z \<in># mset (take (nat 3) [2, 4, 9]) - mset (chosen idx sub').
          z = 0 \<or> 0 < weight (\<lambda>x. x) (chosen idx sub') + z))"
  by (rule balance_dh_cannot_be_improved) (simp_all add: INT_MAX_def INT_MIN_def)

end
