(* ===== verification/Manager_Common.thy ===== *)
theory Manager_Common
  imports Mlt Balance
begin

text \<open>
  What the managers have in common: the environment of a call, the merge of the access lists
  the servers send, and the computation of the relative loads.
\<close>

section \<open>Environment and messages\<close>

text \<open>What the locks return, and whether the n-th allocation of a call succeeds.\<close>

record manager_env =
  m_lock :: lock_env
  m_alloc :: "nat \<Rightarrow> bool"

definition env_fine :: manager_env where
  "env_fine = \<lparr>m_lock = locks_work, m_alloc = (\<lambda>_. True)\<rparr>"

text \<open>\<open>w_factor\<close> of the \<open>protocol\<close> headers.\<close>

definition w_factor :: int where
  "w_factor = 1"

text \<open>\<open>mlt_get_entry\<close> as the managers use it: \<open>Some None\<close> when the return code is not 0.\<close>

definition mlt_read :: "lock_env \<Rightarrow> mlt \<Rightarrow> nat \<Rightarrow> (int \<times> int \<times> int) option option" where
  "mlt_read E t e = do {
     (rc, out) \<leftarrow> mlt_get_entry E (Some t) (int e) True;
     Some (if rc \<noteq> 0 then None else out)
   }"

text \<open>\<open>mlt_update_entry\<close> as the managers use it.\<close>

definition mlt_write :: "lock_env \<Rightarrow> mlt \<Rightarrow> nat \<Rightarrow> int \<Rightarrow> int \<Rightarrow> int \<Rightarrow> mlt flow option" where
  "mlt_write E t e srv ver st = do {
     (rc, out) \<leftarrow> mlt_update_entry E (Some t) (int e) srv ver st;
     t' \<leftarrow> out;
     Some (if rc \<noteq> 0 then Leave t' else Next t')
   }"

lemma mlt_read_in:
  "mlt_wf t \<Longrightarrow> e < mlt_len t \<Longrightarrow> mlt_read locks_work t e = Some (Some (mlt_row t e))"
  by (simp add: mlt_read_def mlt_get_in locks_work_def)

lemma mlt_write_in:
  "mlt_wf t \<Longrightarrow> e < mlt_len t \<Longrightarrow> row_ok (s, v, f) \<Longrightarrow>
   mlt_write locks_work t e s v f = Some (Next (mlt_put t e (s, v, f)))"
  by (simp add: mlt_write_def mlt_update_in locks_work_def)

section \<open>\<open>manager_merge_eacl\<close>\<close>

definition merge_step :: "u32 list \<Rightarrow> nat \<Rightarrow> u32 list \<Rightarrow> u32 list option" where
  "merge_step new_list i global_list = do {
     x \<leftarrow> rd new_list i;
     if x \<noteq> 0 then wr global_list i x else Some global_list
   }"

definition manager_merge_eacl :: "nat \<Rightarrow> u32 list \<Rightarrow> u32 list \<Rightarrow> u32 list option" where
  "manager_merge_eacl N new_list global_list = forM [0..<N] (merge_step new_list) global_list"

definition merged :: "nat \<Rightarrow> u32 list \<Rightarrow> u32 list \<Rightarrow> u32 list" where
  "merged N new old = map (\<lambda>i. if new ! i \<noteq> 0 then new ! i else old ! i) [0..<N]"

lemma merge_ok:
  assumes "length new = N" and "length old = N"
  shows "manager_merge_eacl N new old = Some (merged N new old)"
  unfolding manager_merge_eacl_def merged_def
proof (rule forM_upd)
  fix i xs
  assume i: "i < N" "length xs = N" "xs ! i = old ! i"
  then have "xs = xs[i := old ! i]" by (metis list_update_id)
  with i assms show "merge_step new i xs = Some (xs[i := if new ! i \<noteq> 0 then new ! i else old ! i])"
    by (auto simp: merge_step_def arr_simps)
qed (use assms in simp)

section \<open>Loads\<close>

text \<open>The sum of the load levels: an \<open>int\<close> to which \<open>uint32_t\<close> values are added.\<close>

definition sum_loads :: "u32 list \<Rightarrow> nat \<Rightarrow> int option" where
  "sum_loads all nb = forM [0..<nb] (\<lambda>i s. do {
     a \<leftarrow> rd all i;
     Some (int_of_u32 (u32_of_int s + a))
   }) 0"

lemma int_of_u32_add:
  assumes "int_ok (s + uint a)"
  shows "int_of_u32 (u32_of_int s + a) = s + uint a"
proof -
  have "u32_of_int s + a = u32_of_int (s + uint a)" by (simp add: u32_of_int_def wi_hom_add [symmetric])
  then show ?thesis using int_of_u32_of_int [OF assms] by simp
qed

lemma int_of_u32_sub:
  assumes "int_ok (s - uint a)"
  shows "int_of_u32 (u32_of_int s - a) = s - uint a"
proof -
  have "u32_of_int s - a = u32_of_int (s - uint a)" by (simp add: u32_of_int_def wi_hom_sub [symmetric])
  then show ?thesis using int_of_u32_of_int [OF assms] by simp
qed

lemma int_of_u32_diff:
  assumes "int_ok (uint a - s)"
  shows "int_of_u32 (a - u32_of_int s) = uint a - s"
proof -
  have "a - u32_of_int s = u32_of_int (uint a - s)" by (simp add: u32_of_int_def wi_hom_sub [symmetric])
  then show ?thesis using int_of_u32_of_int [OF assms] by simp
qed

text \<open>The sum of the levels of the first \<open>n\<close> servers.\<close>

definition load_total :: "u32 list \<Rightarrow> nat \<Rightarrow> int" where
  "load_total all n = sum_list (map (\<lambda>i. uint (all ! i)) [0..<n])"

lemma load_total_simps [simp]: "load_total all 0 = 0" "load_total all (Suc n) = load_total all n + uint (all ! n)"
  by (simp_all add: load_total_def)

lemma load_total_nonneg: "0 \<le> load_total all n"
  by (induction n) simp_all

lemma load_total_mono: "m \<le> n \<Longrightarrow> load_total all m \<le> load_total all n"
  by (induction n) (auto simp: le_Suc_eq intro: order_trans)

lemma uint_le_total: "i < n \<Longrightarrow> uint (all ! i) \<le> load_total all n"
  using load_total_mono [of "Suc i" n all] load_total_nonneg [of all i] by simp

lemma sum_loads_ok:
  assumes "nb \<le> length all" and "load_total all nb \<le> INT_MAX"
  shows "sum_loads all nb = Some (load_total all nb)"
proof -
  have "\<exists>s. sum_loads all nb = Some s \<and> s = load_total all nb"
    unfolding sum_loads_def
  proof (rule forM_upt_rule)
    fix i s
    assume i: "i < nb" and s: "s = load_total all i"
    have "0 \<le> load_total all (Suc i)" "load_total all (Suc i) \<le> INT_MAX"
      using load_total_nonneg [of all "Suc i"] load_total_mono [of "Suc i" nb all] i assms(2) by simp_all
    then have "int_ok (s + uint (all ! i))" using s by (simp add: int_ok_def INT_MIN_def)
    then show "\<exists>t'. (do { a \<leftarrow> rd all i; Some (int_of_u32 (u32_of_int s + a)) }) = Some t' \<and> t' = load_total all (Suc i)"
      using i s assms(1) by (simp add: arr_simps int_of_u32_add)
  qed simp
  then show ?thesis by simp
qed

lemma int_div_bounds:
  assumes "0 \<le> a" and "0 < b"
  shows "0 \<le> a div b" and "a div b \<le> (a :: int)"
  using assms zdiv_mono2 [of a 1 b] by (auto simp: pos_imp_zdiv_nonneg_iff)

text \<open>The load of a server relative to the mean.\<close>

definition rel_load :: "u32 list \<Rightarrow> nat \<Rightarrow> nat \<Rightarrow> int" where
  "rel_load all nb i = uint (all ! i) - load_total all nb div int nb"

lemma rel_load_bound:
  assumes "i < nb"
  shows "\<bar>rel_load all nb i\<bar> \<le> load_total all nb"
proof -
  have m: "0 \<le> load_total all nb div int nb" "load_total all nb div int nb \<le> load_total all nb"
    using assms int_div_bounds [OF load_total_nonneg, of "int nb" all nb] by auto
  have "0 \<le> uint (all ! i)" by simp
  with m uint_le_total [OF assms, of all] show ?thesis unfolding rel_load_def by linarith
qed

lemma c_div_pos: "0 \<le> a \<Longrightarrow> 0 < b \<Longrightarrow> a \<le> INT_MAX \<Longrightarrow> c_div a b = Some (a div b)"
proof -
  assume a: "0 \<le> a" "0 < b" "a \<le> INT_MAX"
  have "a div b \<le> a" "0 \<le> a div b" using a by (auto intro: int_div_bounds)
  then have "int_ok (a div b)" using a by (simp add: int_ok_def INT_MIN_def)
  then show ?thesis using a by (cases "a = 0") (auto simp: c_div_def sgn_if)
qed

definition loads :: "u32 list \<Rightarrow> nat \<Rightarrow> int list" where
  "loads all nb = map (rel_load all nb) [0..<nb]"

section \<open>State of a manager with epochs\<close>

text \<open>
  The static variables of \<open>manager_windowed.c\<close>, \<open>manager_v2_indedh.c\<close> and
  \<open>manager_indedh.c\<close>.
\<close>

record manager =
  global_list :: "u32 list"
  table :: mlt
  all_list :: "u32 list"
  mean_load :: u32
  epoch :: int
  epoch_processed :: int

text \<open>The server in charge of an entry.\<close>

definition owner :: "mlt \<Rightarrow> nat \<Rightarrow> int" where
  "owner t e = fst (mlt_row t e)"

text \<open>Servers in range, and version numbers that can still be incremented.\<close>

definition table_ok :: "int \<Rightarrow> mlt \<Rightarrow> bool" where
  "table_ok nb t \<longleftrightarrow> mlt_wf t \<and> (\<forall>e < mlt_len t. case mlt_row t e of (s, v, f) \<Rightarrow> 0 \<le> s \<and> s < nb \<and> v < INT_MAX)"

text \<open>
  The manager before a redistribution: \<open>N\<close> entries, \<open>nb\<close> servers, and loads whose sum, even
  with one more SAI added, is a value of type \<open>int\<close>.
\<close>

definition manager_ok :: "nat \<Rightarrow> nat \<Rightarrow> manager \<Rightarrow> bool" where
  "manager_ok N nb m \<longleftrightarrow> table_ok (int nb) (table m) \<and> mlt_len (table m) = N \<and>
     length (global_list m) = N \<and> length (all_list m) = nb \<and> 0 < nb \<and> int_ok (int nb) \<and>
     load_total (all_list m) nb \<le> INT_MAX \<and>
     (\<forall>e < N. load_total (all_list m) nb + uint (global_list m ! e) \<le> INT_MAX)"

text \<open>The servers above and below the mean.\<close>

definition large :: "int list \<Rightarrow> int set" where
  "large load0 = {s. 0 \<le> s \<and> nat s < length load0 \<and> 0 < load0 ! nat s}"

definition small :: "int list \<Rightarrow> int set" where
  "small load0 = {s. 0 \<le> s \<and> nat s < length load0 \<and> load0 ! nat s < 0}"

text \<open>An element overwritten by the last one of a prefix that then shrinks.\<close>

lemma drop_from_mset:
  assumes "i < Suc m" and "m < length xs"
  shows "mset (take m (xs[i := xs ! m])) + {#xs ! i#} = mset (take (Suc m) xs)"
proof (cases "i = m")
  case True
  then show ?thesis using assms by (simp add: take_Suc_conv_app_nth)
next
  case False
  then have i: "i < m" using assms by simp
  have "mset (take m (xs[i := xs ! m])) = add_mset (xs ! m) (mset (take m xs) - {#xs ! i#})"
    using i assms by (simp add: take_update_swap mset_update)
  moreover have "xs ! i \<in># mset (take m xs)"
    using i assms by (auto simp: in_set_conv_nth intro!: exI [of _ i])
  ultimately show ?thesis using assms by (simp add: take_Suc_conv_app_nth)
qed

lemma drop_from_set:
  assumes "int i < n" and "n \<le> int (length xs)"
  shows "set (take (nat (n - 1)) (xs[i := xs ! nat (n - 1)])) \<subseteq> set (take (nat n) xs)"
    and "distinct (take (nat n) xs) \<Longrightarrow> distinct (take (nat (n - 1)) (xs[i := xs ! nat (n - 1)]))"
proof -
  obtain m where m: "nat n = Suc m" "nat (n - 1) = m" "m < length xs" "i < Suc m"
    using assms by (intro that [of "nat (n - 1)"]) auto
  have ms: "mset (take (nat n) xs) = add_mset (xs ! i) (mset (take (nat (n - 1)) (xs[i := xs ! nat (n - 1)])))"
    using drop_from_mset [OF m(4,3)] m by simp
  then have "set_mset (mset (take (nat n) xs)) = insert (xs ! i) (set_mset (mset (take (nat (n - 1)) (xs[i := xs ! nat (n - 1)]))))"
    by simp
  then show "set (take (nat (n - 1)) (xs[i := xs ! nat (n - 1)])) \<subseteq> set (take (nat n) xs)" by auto
  assume "distinct (take (nat n) xs)"
  then have "\<And>a. count (mset (take (nat n) xs)) a \<le> 1" by (simp add: distinct_count_atmost_1)
  then have "\<And>a. count (mset (take (nat (n - 1)) (xs[i := xs ! nat (n - 1)]))) a \<le> 1"
    unfolding ms by (metis count_add_mset Suc_leD order_refl le_SucI)
  then show "distinct (take (nat (n - 1)) (xs[i := xs ! nat (n - 1)]))"
    by (simp add: distinct_count_atmost_1 le_Suc_eq)
qed

section \<open>Properties\<close>

text \<open>A table for the examples: the given servers, version 0, nothing in transfer.\<close>

definition demo_table :: "u32 list \<Rightarrow> mlt" where
  "demo_table ids = \<lparr>id_srv = ids, n_ver = map (\<lambda>_. 0) ids, mlt_state = map (\<lambda>_. 0) ids,
     mlt_size = word_of_nat (length ids)\<rparr>"

lemma merge_all:
  "\<forall>n \<in> set news. length n = N \<Longrightarrow> length old = N \<Longrightarrow>
   \<exists>g. forM news (\<lambda>n g. manager_merge_eacl N n g) old = Some g \<and> length g = N \<and>
     (\<forall>e < N. g ! e = last (old ! e # filter (\<lambda>x. x \<noteq> 0) (map (\<lambda>n. n ! e) news)))"
proof (induction news arbitrary: old)
  case Nil
  then show ?case by simp
next
  case (Cons n news)
  have m: "manager_merge_eacl N n old = Some (merged N n old)" using Cons.prems by (intro merge_ok) auto
  have "length (merged N n old) = N" by (simp add: merged_def)
  from Cons.IH [OF _ this] Cons.prems(1) obtain g where
    "forM news (\<lambda>n g. manager_merge_eacl N n g) (merged N n old) = Some g" "length g = N"
    "\<forall>e < N. g ! e = last (merged N n old ! e # filter (\<lambda>x. x \<noteq> 0) (map (\<lambda>n. n ! e) news))" by auto
  with m show ?case by (auto simp: merged_def)
qed

text \<open>
  The merge of the access lists that the servers send: after \<open>manager_merge_eacl\<close> of all of them
  the global SAI of an entry is the last value other than 0 that was sent for it; where all servers
  send 0 the value of an earlier round stays, although the entry is no longer accessed.
\<close>

theorem merge_keeps_last_nonzero:
  assumes "\<forall>n \<in> set news. length n = N" and "length old = N"
  shows "\<exists>g. forM news (\<lambda>n g. manager_merge_eacl N n g) old = Some g \<and>
    (\<forall>e < N. g ! e = last (old ! e # filter (\<lambda>x. x \<noteq> 0) (map (\<lambda>n. n ! e) news))) \<and>
    (\<forall>e < N. (\<forall>n \<in> set news. n ! e = 0) \<longrightarrow> g ! e = old ! e)"
proof -
  obtain g where g: "forM news (\<lambda>n g. manager_merge_eacl N n g) old = Some g"
    "\<forall>e < N. g ! e = last (old ! e # filter (\<lambda>x. x \<noteq> 0) (map (\<lambda>n. n ! e) news))"
    using merge_all [OF assms] by blast
  have "filter (\<lambda>x. x \<noteq> 0) (map (\<lambda>n. n ! e) news) = []" if "\<forall>n \<in> set news. n ! e = 0" for e
    using that by (auto simp: filter_empty_conv)
  then show ?thesis using g by (intro exI [of _ g]) auto
qed

theorem merge_keeps_last_nonzero_witness:
  "\<exists>g. forM [[7, 0, 0], [0, 2, 0]] (\<lambda>n g. manager_merge_eacl 3 n g) [1, 0, 5] = Some g \<and>
    (\<forall>e < 3. g ! e = last ([1, 0, 5] ! e # filter (\<lambda>x. x \<noteq> 0) (map (\<lambda>n. n ! e) [[7, 0, 0], [0, 2, 0]]))) \<and>
    (\<forall>e < 3. (\<forall>n \<in> set [[7 :: u32, 0, 0], [0, 2, 0]]. n ! e = 0) \<longrightarrow> g ! e = [1, 0, 5] ! e)"
  by (rule merge_keeps_last_nonzero) simp_all

end
