(* ===== verification/Manager_Protocol.thy ===== *)
theory Manager_Protocol
  imports Manager_Common
begin

text \<open>
  The main loop of the managers with epochs: the messages they receive and publish, the signal
  that starts an epoch, and the loop as a step function over events. The computation of the
  redistribution is a parameter, which each manager instantiates with its own
  \<open>manager_calculate_relab\<close>; the contract the loop relies on is the locale \<open>rebalancer\<close>.
\<close>

section \<open>Messages and initial state\<close>

text \<open>\<open>enum to_manager_msg\<close> and \<open>enum from_manager_msg\<close> with the frames that follow the type.\<close>

datatype to_manager_msg =
    HELP_MSG int
  | EACL_MSG int "u32 list" u32

datatype from_manager_msg =
    ASK_MSG int
  | MLT_MSG "u32 list" "u32 list" u32

text \<open>
  \<open>manager_init\<close>: \<open>mem\<close> says which of the two \<open>calloc\<close> calls succeed, \<open>pub_ok\<close> and \<open>pull_ok\<close>
  whether the sockets could be opened. \<open>epoch_processed\<close> is a static variable, initially 0,
  that the function does not assign.
\<close>

definition manager_init ::
  "nat \<Rightarrow> (int \<times> mlt option) \<Rightarrow> (nat \<Rightarrow> bool) \<Rightarrow> bool \<Rightarrow> bool \<Rightarrow> int \<Rightarrow> int \<times> manager option" where
  "manager_init N mlt_result mem pub_ok pull_ok nb =
     (let (rc, t) = mlt_result in
      if rc \<noteq> 0 then (-1, None)
      else if \<not> mem 0 then (-1, None)
      else if \<not> mem 1 then (-1, None)
      else if \<not> pub_ok then (-1, None)
      else if \<not> pull_ok then (-1, None)
      else (0, map_option (\<lambda>t. \<lparr>global_list = replicate N 0, table = t, all_list = replicate (nat nb) 0,
             mean_load = 0, epoch = 0, epoch_processed = 0\<rparr>) t))"

text \<open>The handler of \<open>SIGUSR2\<close>.\<close>

definition usrHandler2 :: "manager \<Rightarrow> manager option" where
  "usrHandler2 m = do { e \<leftarrow> c_int (epoch m + 1); Some (m\<lparr>epoch := e, epoch_processed := 0\<rparr>) }"

section \<open>The main loop\<close>

text \<open>
  Where the loop waits: for a first message, for the epoch of a help message that came early
  (the loop around \<open>sleep\<close>), or for the access lists of all servers. \<open>Halted\<close> is the return
  after a failed send.
\<close>

datatype pc = Waiting | Await_epoch int | Collecting nat | Halted

text \<open>
  What happens to the process: a message arrives in the queue of the socket, the signal is
  delivered, or the loop goes on (with sends that succeed or fail), which does nothing while the
  queue it reads is empty. \<open>Loop_null\<close> is a receive that gives \<open>NULL\<close>.
\<close>

datatype event = Arrive to_manager_msg | Sigusr2 | Loop bool | Loop_null

record main_state =
  ms_pc :: pc
  ms_man :: manager
  ms_in :: "to_manager_msg list"
  ms_out :: "from_manager_msg list"

text \<open>After the access lists: the redistribution, then the new table and the mean load.\<close>

definition main_relab :: "(manager \<Rightarrow> (int \<times> manager) option) \<Rightarrow> bool \<Rightarrow> main_state \<Rightarrow> main_state option" where
  "main_relab relab send_ok st = do {
     (rc, m) \<leftarrow> relab (ms_man st);
     let msg = MLT_MSG (id_srv (table m)) (n_ver (table m)) (mean_load m);
     Some (st\<lparr>ms_pc := Waiting, ms_man := m\<lparr>epoch_processed := 1\<rparr>,
              ms_out := (if send_ok then ms_out st @ [msg] else ms_out st)\<rparr>)
   }"

text \<open>The part after the check of the epoch of a help message.\<close>

definition main_help ::
  "(manager \<Rightarrow> (int \<times> manager) option) \<Rightarrow> nat \<Rightarrow> bool \<Rightarrow> main_state \<Rightarrow> main_state option" where
  "main_help relab nb send_ok st =
     (if epoch_processed (ms_man st) = 1 then Some (st\<lparr>ms_pc := Waiting\<rparr>)
      else if \<not> send_ok then Some (st\<lparr>ms_pc := Halted\<rparr>)
      else
        let st = st\<lparr>ms_out := ms_out st @ [ASK_MSG (epoch (ms_man st))], ms_pc := Collecting 0\<rparr> in
        if 0 < nb then Some st else main_relab relab send_ok st)"

definition main_collect ::
  "(manager \<Rightarrow> (int \<times> manager) option) \<Rightarrow> nat \<Rightarrow> nat \<Rightarrow> bool \<Rightarrow> nat \<Rightarrow> int \<Rightarrow> u32 list \<Rightarrow> u32 \<Rightarrow>
   main_state \<Rightarrow> main_state option" where
  "main_collect relab N nb send_ok nb_rcv rcv_id rcv_sai rcv_load st = do {
     let m = ms_man st;
     g \<leftarrow> manager_merge_eacl N rcv_sai (global_list m);
     a \<leftarrow> wri (all_list m) rcv_id rcv_load;
     let st = st\<lparr>ms_man := m\<lparr>global_list := g, all_list := a\<rparr>, ms_pc := Collecting (nb_rcv + 1)\<rparr>;
     if nb_rcv + 1 < nb then Some st else main_relab relab send_ok st
   }"

text \<open>A first message: anything but a help message is ignored, and so is an old one.\<close>

definition main_first ::
  "(manager \<Rightarrow> (int \<times> manager) option) \<Rightarrow> nat \<Rightarrow> bool \<Rightarrow> to_manager_msg \<Rightarrow> main_state \<Rightarrow> main_state option" where
  "main_first relab nb send_ok msg st =
     (case msg of
        EACL_MSG i sai ld \<Rightarrow> Some st
      | HELP_MSG rcv_epoch \<Rightarrow>
          if rcv_epoch < epoch (ms_man st) then Some st
          else if rcv_epoch > epoch (ms_man st) then Some (st\<lparr>ms_pc := Await_epoch rcv_epoch\<rparr>)
          else main_help relab nb send_ok st)"

definition main_loop ::
  "(manager \<Rightarrow> (int \<times> manager) option) \<Rightarrow> nat \<Rightarrow> nat \<Rightarrow> bool \<Rightarrow> main_state \<Rightarrow> main_state option" where
  "main_loop relab N nb send_ok st =
     (case ms_pc st of
        Halted \<Rightarrow> Some st
      | Await_epoch rcv_epoch \<Rightarrow>
          if epoch (ms_man st) < rcv_epoch then Some st else main_help relab nb send_ok st
      | Waiting \<Rightarrow>
          (case ms_in st of
             [] \<Rightarrow> Some st
           | msg # q \<Rightarrow> main_first relab nb send_ok msg (st\<lparr>ms_in := q\<rparr>))
      | Collecting nb_rcv \<Rightarrow>
          (case ms_in st of
             [] \<Rightarrow> Some st
           | HELP_MSG e # q \<Rightarrow> Some (st\<lparr>ms_in := q\<rparr>)
           | EACL_MSG rcv_id rcv_sai rcv_load # q \<Rightarrow>
               main_collect relab N nb send_ok nb_rcv rcv_id rcv_sai rcv_load (st\<lparr>ms_in := q\<rparr>)))"

fun main_step ::
  "(manager \<Rightarrow> (int \<times> manager) option) \<Rightarrow> nat \<Rightarrow> nat \<Rightarrow> event \<Rightarrow> main_state \<Rightarrow> main_state option" where
  "main_step relab N nb (Arrive msg) st = Some (st\<lparr>ms_in := ms_in st @ [msg]\<rparr>)"
| "main_step relab N nb Sigusr2 st = do { m \<leftarrow> usrHandler2 (ms_man st); Some (st\<lparr>ms_man := m\<rparr>) }"
| "main_step relab N nb Loop_null st = Some st"
| "main_step relab N nb (Loop send_ok) st = main_loop relab N nb send_ok st"

definition main_start :: "manager \<Rightarrow> main_state" where
  "main_start m = \<lparr>ms_pc = Waiting, ms_man = m, ms_in = [], ms_out = []\<rparr>"

definition main_run ::
  "(manager \<Rightarrow> (int \<times> manager) option) \<Rightarrow> nat \<Rightarrow> nat \<Rightarrow> event list \<Rightarrow> main_state \<Rightarrow> main_state option" where
  "main_run relab N nb evs st = forM evs (main_step relab N nb) st"

section \<open>At most one redistribution per epoch\<close>

fun is_ask :: "from_manager_msg \<Rightarrow> bool" where
  "is_ask (ASK_MSG e) = True"
| "is_ask (MLT_MSG a b c) = False"

definition asks :: "main_state \<Rightarrow> nat" where
  "asks st = length (filter is_ask (ms_out st))"

text \<open>A redistribution that leaves the epochs alone.\<close>

definition keeps_epoch :: "(manager \<Rightarrow> (int \<times> manager) option) \<Rightarrow> bool" where
  "keeps_epoch relab \<longleftrightarrow> (\<forall>m rc m'. relab m = Some (rc, m') \<longrightarrow>
     epoch m' = epoch m \<and> epoch_processed m' = epoch_processed m)"

definition may_ask :: "main_state \<Rightarrow> int" where
  "may_ask st = (case ms_pc st of Collecting k \<Rightarrow> 0 | Halted \<Rightarrow> 0
     | _ \<Rightarrow> if epoch_processed (ms_man st) = 1 then 0 else 1)"

definition asks_inv :: "main_state \<Rightarrow> bool" where
  "asks_inv st \<longleftrightarrow> int (asks st) + may_ask st \<le> epoch (ms_man st) + 1"

lemma main_relab_asks:
  assumes "keeps_epoch relab" and "main_relab relab ok st = Some st'"
    and "int (asks st) \<le> epoch (ms_man st) + 1"
  shows "asks_inv st'"
  using assms
  by (auto simp: main_relab_def asks_inv_def asks_def may_ask_def keeps_epoch_def Let_def split: bind_splits)

lemma main_help_asks:
  assumes k: "keeps_epoch relab" and s: "main_help relab nb ok st = Some st'"
    and inv: "int (asks st) + (if epoch_processed (ms_man st) = 1 then 0 else 1) \<le> epoch (ms_man st) + 1"
  shows "asks_inv st'"
proof -
  let ?st = "st\<lparr>ms_out := ms_out st @ [ASK_MSG (epoch (ms_man st))], ms_pc := Collecting 0\<rparr>"
  have a: "asks ?st = Suc (asks st)" by (simp add: asks_def)
  show ?thesis
    using s inv a main_relab_asks [OF k, of ok ?st st']
    by (auto simp: main_help_def Let_def asks_inv_def may_ask_def asks_def split: if_splits)
qed

lemma main_collect_asks:
  assumes k: "keeps_epoch relab" and s: "main_collect relab N nb ok n i sai ld st = Some st'"
    and inv: "int (asks st) \<le> epoch (ms_man st) + 1"
  shows "asks_inv st'"
proof -
  obtain g a where ga: "(let st1 = st\<lparr>ms_man := (ms_man st)\<lparr>global_list := g, all_list := a\<rparr>,
      ms_pc := Collecting (n + 1)\<rparr> in if n + 1 < nb then Some st1 else main_relab relab ok st1) = Some st'"
    using s by (auto simp: main_collect_def Let_def split: bind_splits)
  let ?st = "st\<lparr>ms_man := (ms_man st)\<lparr>global_list := g, all_list := a\<rparr>, ms_pc := Collecting (n + 1)\<rparr>"
  show ?thesis
    using ga inv main_relab_asks [OF k, of ok ?st st']
    by (auto simp: Let_def asks_inv_def may_ask_def asks_def split: if_splits)
qed

lemma main_loop_asks:
  assumes k: "keeps_epoch relab" and inv: "asks_inv st" and s: "main_loop relab N nb ok st = Some st'"
  shows "asks_inv st'"
proof (cases "ms_pc st")
  case Waiting
  show ?thesis
  proof (cases "ms_in st")
    case (Cons msg q)
    show ?thesis
      using s inv Cons Waiting main_help_asks [OF k, of nb ok "st\<lparr>ms_in := q\<rparr>" st']
      by (cases msg) (auto simp: main_loop_def main_first_def asks_inv_def may_ask_def asks_def split: if_splits)
  qed (use s inv Waiting in \<open>simp add: main_loop_def\<close>)
next
  case (Await_epoch e)
  then show ?thesis
    using s inv main_help_asks [OF k, of nb ok st st']
    by (auto simp: main_loop_def asks_inv_def may_ask_def split: if_splits)
next
  case (Collecting n)
  show ?thesis
  proof (cases "ms_in st")
    case (Cons msg q)
    show ?thesis
    proof (cases msg)
      case (EACL_MSG i sai ld)
      then have "main_collect relab N nb ok n i sai ld (st\<lparr>ms_in := q\<rparr>) = Some st'"
        using s Cons Collecting by (simp add: main_loop_def)
      from main_collect_asks [OF k this] inv Collecting show ?thesis
        by (simp add: asks_inv_def may_ask_def asks_def)
    qed (use s inv Cons Collecting in \<open>auto simp: main_loop_def asks_inv_def may_ask_def asks_def\<close>)
  qed (use s inv Collecting in \<open>simp add: main_loop_def\<close>)
qed (use s inv in \<open>simp add: main_loop_def\<close>)

lemma main_step_asks:
  assumes "keeps_epoch relab" and "asks_inv st" and "main_step relab N nb ev st = Some st'"
  shows "asks_inv st'"
proof (cases ev)
  case Sigusr2
  then show ?thesis
    using assms(2,3) by (auto simp: asks_inv_def may_ask_def asks_def usrHandler2_def split: if_splits bind_splits pc.splits)
next
  case (Loop ok)
  then show ?thesis using main_loop_asks [OF assms(1,2)] assms(3) by simp
qed (use assms(2,3) in \<open>auto simp: asks_inv_def may_ask_def asks_def split: pc.splits\<close>)

lemma main_run_asks:
  "keeps_epoch relab \<Longrightarrow> asks_inv st \<Longrightarrow> main_run relab N nb evs st = Some st' \<Longrightarrow> asks_inv st'"
  unfolding main_run_def
  by (induction evs arbitrary: st) (simp, force split: option.splits dest: main_step_asks)

section \<open>The contract of a redistribution\<close>

text \<open>
  Levels and SAI small enough that the sum over all servers, and one more, is an \<open>int\<close>; the
  version numbers are at most the number \<open>k\<close> of redistributions so far.
\<close>

definition level_ok :: "nat \<Rightarrow> u32 \<Rightarrow> bool" where
  "level_ok nb a \<longleftrightarrow> uint a \<le> INT_MAX div (int nb + 1)"

definition manager_inv :: "nat \<Rightarrow> nat \<Rightarrow> int \<Rightarrow> manager \<Rightarrow> bool" where
  "manager_inv N nb k m \<longleftrightarrow> mlt_wf (table m) \<and> mlt_len (table m) = N \<and>
     (\<forall>e < N. case mlt_row (table m) e of (s, v, f) \<Rightarrow> 0 \<le> s \<and> s < int nb \<and> v \<le> k) \<and>
     length (global_list m) = N \<and> length (all_list m) = nb \<and> 0 < nb \<and> int_ok (int nb) \<and>
     (\<forall>a \<in> set (all_list m). level_ok nb a) \<and> (\<forall>g \<in> set (global_list m). level_ok nb g)"

lemma load_total_le:
  assumes "\<And>i. i < n \<Longrightarrow> uint (all ! i) \<le> b"
  shows "load_total all n \<le> int n * b"
  using assms
proof (induction n)
  case (Suc n)
  have "load_total all n \<le> int n * b" "uint (all ! n) \<le> b" using Suc by auto
  then show ?case by (simp add: distrib_right)
qed simp

lemma manager_inv_ok:
  assumes inv: "manager_inv N nb k m" and k: "k < INT_MAX"
  shows "manager_ok N nb m"
proof -
  note inv' = inv [unfolded manager_inv_def]
  let ?B = "INT_MAX div (int nb + 1)"
  have lev: "uint (all_list m ! i) \<le> ?B" if "i < nb" for i
    using inv' that by (auto simp: level_ok_def)
  have g: "uint (global_list m ! e) \<le> ?B" if "e < N" for e
    using inv' that by (auto simp: level_ok_def)
  have t: "load_total (all_list m) nb \<le> int nb * ?B" by (rule load_total_le) (rule lev)
  have B: "(int nb + 1) * ?B \<le> INT_MAX" "0 \<le> ?B"
  proof -
    have "(int nb + 1) * ?B + INT_MAX mod (int nb + 1) = INT_MAX" by (rule mult_div_mod_eq)
    moreover have "0 \<le> INT_MAX mod (int nb + 1)" by (rule pos_mod_sign) simp
    ultimately show "(int nb + 1) * ?B \<le> INT_MAX" by linarith
    show "0 \<le> ?B" by (simp add: pos_imp_zdiv_nonneg_iff INT_MAX_def)
  qed
  have sum: "load_total (all_list m) nb + uint (global_list m ! e) \<le> INT_MAX" if "e < N" for e
    using t g [OF that] B(1) by (simp add: distrib_right)
  have "load_total (all_list m) nb \<le> INT_MAX" using t B by (simp add: distrib_right)
  moreover have "table_ok (int nb) (table m)"
    using inv' k by (fastforce simp: table_ok_def)
  ultimately show ?thesis using inv' sum by (simp add: manager_ok_def)
qed

lemma manager_inv_mono: "manager_inv N nb k m \<Longrightarrow> k \<le> k' \<Longrightarrow> manager_inv N nb k' m"
  by (fastforce simp: manager_inv_def)

text \<open>Messages with a server in range, an access list of the right length and levels in range.\<close>

fun msg_ok :: "nat \<Rightarrow> nat \<Rightarrow> to_manager_msg \<Rightarrow> bool" where
  "msg_ok N nb (HELP_MSG e) = True"
| "msg_ok N nb (EACL_MSG i sai ld) = (0 \<le> i \<and> i < int nb \<and> length sai = N \<and>
     (\<forall>g \<in> set sai. level_ok nb g) \<and> level_ok nb ld)"

fun event_ok :: "nat \<Rightarrow> nat \<Rightarrow> event \<Rightarrow> bool" where
  "event_ok N nb (Arrive msg) = msg_ok N nb msg"
| "event_ok N nb _ = True"

text \<open>A published table has one row per entry and names only existing servers.\<close>

fun out_ok :: "nat \<Rightarrow> nat \<Rightarrow> from_manager_msg \<Rightarrow> bool" where
  "out_ok N nb (ASK_MSG e) = True"
| "out_ok N nb (MLT_MSG ids vers mean) = (length ids = N \<and> length vers = N \<and>
     (\<forall>s \<in> set ids. 0 \<le> int_of_u32 s \<and> int_of_u32 s < int nb))"

definition main_inv :: "nat \<Rightarrow> nat \<Rightarrow> int \<Rightarrow> main_state \<Rightarrow> bool" where
  "main_inv N nb k st \<longleftrightarrow> manager_inv N nb k (ms_man st) \<and> 0 \<le> epoch (ms_man st) \<and> epoch (ms_man st) \<le> k \<and>
     (\<forall>msg \<in> set (ms_in st). msg_ok N nb msg) \<and> (\<forall>msg \<in> set (ms_out st). out_ok N nb msg)"

lemma manager_inv_merge:
  assumes inv: "manager_inv N nb k m" and msg: "msg_ok N nb (EACL_MSG i sai ld)"
  shows "manager_inv N nb k (m\<lparr>global_list := merged N sai (global_list m), all_list := (all_list m)[nat i := ld]\<rparr>)"
proof -
  have "level_ok nb a" if "a \<in> set ((all_list m)[nat i := ld])" for a
    using that inv msg set_update_subset_insert [of "all_list m" "nat i" ld] by (auto simp: manager_inv_def)
  moreover have "level_ok nb g" if "g \<in> set (merged N sai (global_list m))" for g
    using that inv msg by (auto simp: manager_inv_def merged_def split: if_splits)
  ultimately show ?thesis using inv by (simp add: manager_inv_def merged_def)
qed

text \<open>
  What the main loop relies on when it calls \<open>manager_calculate_relab\<close>.
\<close>

locale rebalancer =
  fixes relab :: "manager \<Rightarrow> (int \<times> manager) option"
    and N :: nat
    and nb :: nat
  assumes relab_ok: "manager_inv N nb k m \<Longrightarrow> k < INT_MAX \<Longrightarrow>
      \<exists>m'. relab m = Some (0, m') \<and> manager_inv N nb (k + 1) m' \<and> epoch m' = epoch m \<and>
        epoch_processed m' = epoch_processed m"
begin

lemma relab_step_ok:
  assumes inv: "main_inv N nb k st" and k: "k < INT_MAX"
  shows "\<exists>st'. main_relab relab ok st = Some st' \<and> main_inv N nb (k + 1) st'"
proof -
  obtain m' where m': "relab (ms_man st) = Some (0, m')" "manager_inv N nb (k + 1) m'"
    "epoch m' = epoch (ms_man st)" using relab_ok [of k "ms_man st"] inv k by (auto simp: main_inv_def)
  have "out_ok N nb (MLT_MSG (id_srv (table m')) (n_ver (table m')) x)" for x
    using m'(2) by (auto simp: manager_inv_def mlt_wf_len mlt_row_def in_set_conv_nth)
  then show ?thesis
    using inv m' by (auto simp: main_relab_def Let_def main_inv_def manager_inv_def)
qed

lemma help_ok:
  assumes inv: "main_inv N nb k st" and k: "k < INT_MAX"
  shows "\<exists>st'. main_help relab nb ok st = Some st' \<and> main_inv N nb (k + 1) st'"
proof -
  have "0 < nb" using inv by (simp add: main_inv_def manager_inv_def)
  then show ?thesis
    using inv manager_inv_mono [of N nb k "ms_man st" "k + 1"] by (auto simp: main_help_def Let_def main_inv_def)
qed

lemma collect_ok:
  assumes inv: "main_inv N nb k st" and k: "k < INT_MAX" and msg: "msg_ok N nb (EACL_MSG i sai ld)"
  shows "\<exists>st'. main_collect relab N nb ok n i sai ld st = Some st' \<and> main_inv N nb (k + 1) st'"
proof -
  let ?m = "ms_man st"
  let ?st = "st\<lparr>ms_man := ?m\<lparr>global_list := merged N sai (global_list ?m), all_list := (all_list ?m)[nat i := ld]\<rparr>,
    ms_pc := Collecting (n + 1)\<rparr>"
  have m: "manager_inv N nb k ?m" using inv by (simp add: main_inv_def)
  have inv1: "main_inv N nb k ?st" using inv manager_inv_merge [OF m msg] by (simp add: main_inv_def)
  have "0 \<le> i" "nat i < length (all_list ?m)" using m msg by (auto simp: manager_inv_def)
  then have w: "wri (all_list ?m) i ld = Some ((all_list ?m)[nat i := ld])" by (rule wri_in)
  have "main_collect relab N nb ok n i sai ld st = (if n + 1 < nb then Some ?st else main_relab relab ok ?st)"
    using m msg w by (simp add: main_collect_def merge_ok manager_inv_def Let_def)
  moreover have "main_inv N nb (k + 1) ?st"
    using inv1 manager_inv_mono [of N nb k "ms_man ?st" "k + 1"] by (simp add: main_inv_def)
  ultimately show ?thesis using relab_step_ok [OF inv1 k] by auto
qed

lemma step_ok:
  assumes inv: "main_inv N nb k st" and k: "k < INT_MAX" and ev: "event_ok N nb ev"
  shows "\<exists>st'. main_step relab N nb ev st = Some st' \<and> main_inv N nb (k + 1) st'"
proof -
  have same: "main_inv N nb (k + 1) st" using inv manager_inv_mono [of N nb k "ms_man st" "k + 1"] by (simp add: main_inv_def)
  have k0: "0 \<le> epoch (ms_man st)" "epoch (ms_man st) \<le> k" using inv by (auto simp: main_inv_def)
  show ?thesis
  proof (cases ev)
    case (Arrive msg)
    then show ?thesis using same ev by (simp add: main_inv_def)
  next
    case Sigusr2
    have "int_ok (epoch (ms_man st) + 1)" using k0 k by (simp add: int_ok_def INT_MIN_def)
    then show ?thesis
      using Sigusr2 same k0 inv by (auto simp: usrHandler2_def main_inv_def manager_inv_def c_conv)
  next
    case (Loop ok)
    show ?thesis
    proof (cases "ms_pc st")
      case Waiting
      show ?thesis
      proof (cases "ms_in st")
        case (Cons msg q)
        have "main_inv N nb k (st\<lparr>ms_in := q\<rparr>)" "main_inv N nb (k + 1) (st\<lparr>ms_in := q\<rparr>)"
          using inv same Cons by (auto simp: main_inv_def)
        then show ?thesis
          using Loop Waiting Cons help_ok [of k "st\<lparr>ms_in := q\<rparr>" ok] k
          by (cases msg) (auto simp: main_loop_def main_first_def main_inv_def)
      qed (use Loop Waiting same in \<open>simp add: main_loop_def\<close>)
    next
      case (Await_epoch e)
      then show ?thesis using Loop same help_ok [OF inv k, of ok] by (simp add: main_loop_def)
    next
      case (Collecting n)
      show ?thesis
      proof (cases "ms_in st")
        case (Cons msg q)
        have i: "main_inv N nb k (st\<lparr>ms_in := q\<rparr>)" "main_inv N nb (k + 1) (st\<lparr>ms_in := q\<rparr>)" "msg_ok N nb msg"
          using inv same Cons by (auto simp: main_inv_def)
        show ?thesis
        proof (cases msg)
          case (EACL_MSG i' sai ld)
          then show ?thesis
            using Loop Collecting Cons collect_ok [OF i(1) k, of i' sai ld ok n] i(3) by (simp add: main_loop_def)
        qed (use Loop Collecting Cons i(2) in \<open>simp add: main_loop_def\<close>)
      qed (use Loop Collecting same in \<open>simp add: main_loop_def\<close>)
    qed (use Loop same in \<open>simp add: main_loop_def\<close>)
  qed (use same in simp)
qed

lemma run_ok:
  "main_inv N nb k st \<Longrightarrow> k + int (length evs) \<le> INT_MAX \<Longrightarrow> \<forall>ev \<in> set evs. event_ok N nb ev \<Longrightarrow>
   \<exists>st'. main_run relab N nb evs st = Some st' \<and> main_inv N nb (k + int (length evs)) st'"
proof (induction evs arbitrary: k st)
  case Nil
  then show ?case by (simp add: main_run_def)
next
  case (Cons ev evs)
  obtain st1 where st1: "main_step relab N nb ev st = Some st1" "main_inv N nb (k + 1) st1"
    using step_ok [OF Cons.prems(1), of ev] Cons.prems(2,3) by auto
  have "\<exists>st'. main_run relab N nb evs st1 = Some st' \<and> main_inv N nb (k + 1 + int (length evs)) st'"
    by (rule Cons.IH [OF st1(2)]) (use Cons.prems in auto)
  with st1(1) show ?case by (simp add: main_run_def add.assoc)
qed

end

end
