(* ===== verification/Manager_Windowed.thy ===== *)
theory Manager_Windowed
  imports Manager_Protocol
begin

text \<open>
  \<open>manager_windowed.c\<close>, and \<open>manager_v2_indedh.c\<close>, which has the same code: the manager that
  redistributes entries from overloaded to idle servers. The local arrays of
  \<open>manager_calculate_relab\<close> are the fields of a record; an array of \<open>malloc\<close> starts with zeros
  in the model, and no element is read before it has been written.
\<close>

section \<open>Local variables\<close>

record relab =
  r_target :: "int list"
  r_load :: "int list"
  r_l :: "int list"
  r_nl :: int
  r_s :: "int list"
  r_ns :: int
  r_set :: "int list"
  r_srv :: "int list"
  r_nsrv :: int

section \<open>\<open>manager_calculate_relab\<close>\<close>

text \<open>The loop that finds the server of each entry.\<close>

definition relab_targets :: "lock_env \<Rightarrow> nat \<Rightarrow> mlt \<Rightarrow> relab \<Rightarrow> relab flow option" where
  "relab_targets E N t r = forE [0..<N] (\<lambda>e r. do {
     row \<leftarrow> mlt_read E t e;
     case row of
       None \<Rightarrow> Some (Leave r)
     | Some (srv, version, state) \<Rightarrow> do {
         target \<leftarrow> wr (r_target r) e srv;
         Some (Next (r\<lparr>r_target := target\<rparr>))
       }
   }) r"

text \<open>The loop that computes the relative loads and fills the two subsets.\<close>

definition relab_load_step :: "u32 list \<Rightarrow> int \<Rightarrow> int \<Rightarrow> nat \<Rightarrow> relab \<Rightarrow> relab option" where
  "relab_load_step all sum_all sum_w i r = do {
     p \<leftarrow> c_int (sum_all * w_factor);
     balanced \<leftarrow> c_div p sum_w;
     a \<leftarrow> rd all i;
     let v = int_of_u32 (a - u32_of_int balanced);
     load \<leftarrow> wr (r_load r) i v;
     let r = r\<lparr>r_load := load\<rparr>;
     if v > 0 then do {
       l \<leftarrow> wri (r_l r) (r_nl r) (int i);
       Some (r\<lparr>r_l := l, r_nl := r_nl r + 1\<rparr>)
     } else if v < 0 then do {
       s \<leftarrow> wri (r_s r) (r_ns r) (int i);
       Some (r\<lparr>r_s := s, r_ns := r_ns r + 1\<rparr>)
     } else Some r
   }"

text \<open>The entries of the server under consideration are added to \<open>subset_srv\<close>.\<close>

definition relab_fill :: "lock_env \<Rightarrow> nat \<Rightarrow> mlt \<Rightarrow> nat \<Rightarrow> relab \<Rightarrow> relab flow option" where
  "relab_fill E N t idx_in_l r = forE [0..<N] (\<lambda>e r. do {
     row \<leftarrow> mlt_read E t e;
     case row of
       None \<Rightarrow> Some (Leave r)
     | Some (srv, version, state) \<Rightarrow> do {
         l \<leftarrow> rd (r_l r) idx_in_l;
         if srv = l then do {
           es \<leftarrow> wri (r_srv r) (r_nsrv r) (int e);
           Some (Next (r\<lparr>r_srv := es, r_nsrv := r_nsrv r + 1\<rparr>))
         } else Some (Next r)
       }
   }) r"

text \<open>The chosen entries are given to the idle server.\<close>

definition relab_give_step :: "u32 list \<Rightarrow> nat \<Rightarrow> nat \<Rightarrow> nat \<Rightarrow> relab \<Rightarrow> relab option" where
  "relab_give_step G idx_in_l idx_in_s k r = do {
     e \<leftarrow> rd (r_set r) k;
     s \<leftarrow> rd (r_s r) idx_in_s;
     target \<leftarrow> wri (r_target r) e s;
     g \<leftarrow> rdi G e;
     ls \<leftarrow> rdi (r_load r) s;
     load \<leftarrow> wri (r_load r) s (int_of_u32 (u32_of_int ls + g));
     l \<leftarrow> rd (r_l r) idx_in_l;
     ll \<leftarrow> rdi load l;
     load \<leftarrow> wri load l (int_of_u32 (u32_of_int ll - g));
     Some (r\<lparr>r_target := target, r_load := load\<rparr>)
   }"

text \<open>The goal: the load to fill, or what the overloaded server can give if that is less.\<close>

definition relab_goal :: "nat \<Rightarrow> nat \<Rightarrow> relab \<Rightarrow> int option" where
  "relab_goal idx_in_l idx_in_s r = do {
     s \<leftarrow> rd (r_s r) idx_in_s;
     ls \<leftarrow> rdi (r_load r) s;
     a \<leftarrow> c_abs ls;
     l \<leftarrow> rd (r_l r) idx_in_l;
     ll \<leftarrow> rdi (r_load r) l;
     Some (if a < ll then a else ll)
   }"

definition relab_exchange :: "u32 list \<Rightarrow> nat \<Rightarrow> nat \<Rightarrow> relab \<Rightarrow> relab option" where
  "relab_exchange G idx_in_l idx_in_s r = do {
     goal \<leftarrow> relab_goal idx_in_l idx_in_s r;
     (size_set, es, chosen_set) \<leftarrow> manager_balance_load_windowed G 0 (r_srv r) (r_nsrv r) goal (r_set r);
     forM [0..<nat size_set] (relab_give_step G idx_in_l idx_in_s) (r\<lparr>r_srv := es, r_set := chosen_set\<rparr>)
   }"

text \<open>\<open>subset[idx] = subset[size - 1]; size--\<close>\<close>

definition drop_from :: "int list \<Rightarrow> int \<Rightarrow> nat \<Rightarrow> (int list \<times> int) option" where
  "drop_from xs sz idx = do {
     x \<leftarrow> rdi xs (sz - 1);
     xs \<leftarrow> wr xs idx x;
     Some (xs, sz - 1)
   }"

text \<open>The loop over the idle servers; it is left when the overloaded server has given enough.\<close>

fun relab_inner :: "u32 list \<Rightarrow> nat \<Rightarrow> nat list \<Rightarrow> relab \<Rightarrow> relab option" where
  "relab_inner G idx_in_l [] r = Some r"
| "relab_inner G idx_in_l (idx_in_s # is) r =
     (if \<not> int idx_in_s < r_ns r then Some r
      else do {
        r \<leftarrow> relab_exchange G idx_in_l idx_in_s r;
        s \<leftarrow> rd (r_s r) idx_in_s;
        ls \<leftarrow> rdi (r_load r) s;
        r \<leftarrow> (if ls \<ge> 0 then do {
               (xs, sz) \<leftarrow> drop_from (r_s r) (r_ns r) idx_in_s;
               Some (r\<lparr>r_s := xs, r_ns := sz\<rparr>)
             } else Some r);
        l \<leftarrow> rd (r_l r) idx_in_l;
        ll \<leftarrow> rdi (r_load r) l;
        if ll \<le> 0 then do {
          (xs, sz) \<leftarrow> drop_from (r_l r) (r_nl r) idx_in_l;
          Some (r\<lparr>r_l := xs, r_nl := sz\<rparr>)
        } else relab_inner G idx_in_l is r
      })"

text \<open>
  One round for an overloaded server. The sizes never grow, so that the indices below the
  size at the start are all a loop can visit; a round whose index has reached the size does
  nothing.
\<close>

definition relab_round :: "lock_env \<Rightarrow> nat \<Rightarrow> mlt \<Rightarrow> u32 list \<Rightarrow> nat \<Rightarrow> relab \<Rightarrow> relab flow option" where
  "relab_round E N t G idx_in_l r =
     (if \<not> int idx_in_l < r_nl r then Some (Next r)
      else do {
        f \<leftarrow> relab_fill E N t idx_in_l r;
        case f of
          Leave r \<Rightarrow> Some (Leave r)
        | Next r \<Rightarrow> do {
            s \<leftarrow> manager_sort_subset (r_s r) (r_load r) (r_ns r);
            r \<leftarrow> relab_inner G idx_in_l [0..<nat (r_ns r)] (r\<lparr>r_s := s\<rparr>);
            Some (Next r)
          }
      })"

text \<open>The table is updated where the server changes.\<close>

definition relab_update_step :: "lock_env \<Rightarrow> int list \<Rightarrow> nat \<Rightarrow> mlt \<Rightarrow> mlt flow option" where
  "relab_update_step E target e t = do {
     row \<leftarrow> mlt_read E t e;
     case row of
       None \<Rightarrow> Some (Leave t)
     | Some (srv, version, state) \<Rightarrow> do {
         new \<leftarrow> rd target e;
         if srv \<noteq> new then do {
           v \<leftarrow> c_int (version + 1);
           mlt_write E t e new v 0
         } else Some (Next t)
       }
   }"

definition relab_start :: "nat \<Rightarrow> nat \<Rightarrow> relab" where
  "relab_start N nb = \<lparr>r_target = replicate N 0, r_load = replicate nb 0, r_l = replicate nb 0, r_nl = 0,
     r_s = replicate nb 0, r_ns = 0, r_set = replicate N 0, r_srv = replicate N 0, r_nsrv = 0\<rparr>"

text \<open>The part after the allocations: the redistribution on the local variables.\<close>

definition relab_rounds :: "lock_env \<Rightarrow> nat \<Rightarrow> mlt \<Rightarrow> u32 list \<Rightarrow> relab \<Rightarrow> relab flow option" where
  "relab_rounds E N t G r = do {
     l \<leftarrow> manager_sort_subset (r_l r) (r_load r) (r_nl r);
     forE [0..<nat (r_nl r)] (relab_round E N t G) (r\<lparr>r_l := l\<rparr>)
   }"

definition manager_calculate_relab_windowed ::
  "manager_env \<Rightarrow> nat \<Rightarrow> int \<Rightarrow> manager \<Rightarrow> (int \<times> manager) option" where
  "manager_calculate_relab_windowed E N nb m =
     (let al = m_alloc E; L = m_lock E; n = nat nb in
      if \<not> al 0 then Some (-1, m)
      else do {
        f \<leftarrow> relab_targets L N (table m) (relab_start N n);
        case f of
          Leave r \<Rightarrow> Some (-1, m)
        | Next r \<Rightarrow>
            if \<not> al 1 \<or> \<not> al 2 then Some (-1, m)
            else do {
              sum_all \<leftarrow> sum_loads (all_list m) n;
              sum_w \<leftarrow> c_int (w_factor * nb);
              mean \<leftarrow> c_div sum_all nb;
              let m = m\<lparr>mean_load := u32_of_int mean\<rparr>;
              if \<not> al 3 then Some (-1, m)
              else do {
                r \<leftarrow> forM [0..<n] (relab_load_step (all_list m) sum_all sum_w) r;
                if \<not> al 4 \<or> \<not> al 5 then Some (-1, m)
                else do {
                  f \<leftarrow> relab_rounds L N (table m) (global_list m) r;
                  case f of
                    Leave r \<Rightarrow> Some (-1, m)
                  | Next r \<Rightarrow> do {
                      u \<leftarrow> forE [0..<N] (relab_update_step L (r_target r)) (table m);
                      case u of
                        Leave t \<Rightarrow> Some (-1, m\<lparr>table := t\<rparr>)
                      | Next t \<Rightarrow> Some (0, m\<lparr>table := t\<rparr>)
                    }
                }
              }
            }
      })"

text \<open>The process of \<open>manager_windowed.c\<close>.\<close>

definition manager_windowed_main :: "manager_env \<Rightarrow> nat \<Rightarrow> nat \<Rightarrow> event list \<Rightarrow> main_state \<Rightarrow> main_state option" where
  "manager_windowed_main E N nb = main_run (manager_calculate_relab_windowed E N (int nb)) N nb"

text \<open>
  \<open>manager_v2_indedh.c\<close> differs from \<open>manager_windowed.c\<close> in the headers it includes and in two
  blank lines.
\<close>

definition manager_calculate_relab_v2 ::
  "manager_env \<Rightarrow> nat \<Rightarrow> int \<Rightarrow> manager \<Rightarrow> (int \<times> manager) option" where
  "manager_calculate_relab_v2 = manager_calculate_relab_windowed"

definition manager_v2_main :: "manager_env \<Rightarrow> nat \<Rightarrow> nat \<Rightarrow> event list \<Rightarrow> main_state \<Rightarrow> main_state option" where
  "manager_v2_main E N nb = main_run (manager_calculate_relab_v2 E N (int nb)) N nb"

section \<open>Invariant of the redistribution\<close>

text \<open>
  The servers in the two subsets, the entries collected so far, and the servers that were over
  and under the mean at the start (their loads then are \<open>load0\<close>).
\<close>

abbreviation act_l :: "relab \<Rightarrow> int list" where
  "act_l r \<equiv> take (nat (r_nl r)) (r_l r)"

abbreviation act_s :: "relab \<Rightarrow> int list" where
  "act_s r \<equiv> take (nat (r_ns r)) (r_s r)"

abbreviation act_srv :: "relab \<Rightarrow> int list" where
  "act_srv r \<equiv> take (nat (r_nsrv r)) (r_srv r)"

text \<open>A load stays between where it started and the mean.\<close>

definition towards_mean :: "int list \<Rightarrow> int list \<Rightarrow> bool" where
  "towards_mean load0 load \<longleftrightarrow> length load = length load0 \<and>
     (\<forall>i < length load0. (0 \<le> load0 ! i \<longrightarrow> 0 \<le> load ! i \<and> load ! i \<le> load0 ! i) \<and>
       (load0 ! i \<le> 0 \<longrightarrow> load0 ! i \<le> load ! i \<and> load ! i \<le> 0))"

definition relab_shape :: "nat \<Rightarrow> nat \<Rightarrow> relab \<Rightarrow> bool" where
  "relab_shape N nb r \<longleftrightarrow> length (r_target r) = N \<and> length (r_load r) = nb \<and> length (r_l r) = nb \<and>
     length (r_s r) = nb \<and> length (r_set r) = N \<and> length (r_srv r) = N \<and>
     0 \<le> r_nl r \<and> r_nl r \<le> int nb \<and> 0 \<le> r_ns r \<and> r_ns r \<le> int nb \<and> 0 \<le> r_nsrv r \<and> r_nsrv r \<le> int N"

text \<open>
  \<open>own e\<close> is the server of entry \<open>e\<close> in the table, \<open>V\<close> the overloaded servers that have been
  considered: the entries collected are exactly theirs, each once.
\<close>

definition relab_inv :: "nat \<Rightarrow> nat \<Rightarrow> (nat \<Rightarrow> int) \<Rightarrow> int list \<Rightarrow> int set \<Rightarrow> relab \<Rightarrow> bool" where
  "relab_inv N nb own load0 V r \<longleftrightarrow> relab_shape N nb r \<and>
     distinct (act_l r) \<and> set (act_l r) \<subseteq> large load0 \<and> set (act_s r) \<subseteq> small load0 \<and>
     towards_mean load0 (r_load r) \<and> sum_list (r_load r) = sum_list load0 \<and>
     distinct (act_srv r) \<and> set (act_srv r) = int ` {e. e < N \<and> own e \<in> V} \<and> V \<subseteq> large load0 \<and>
     (\<forall>e < N. r_target r ! e = own e \<or> (own e \<in> large load0 \<and> r_target r ! e \<in> small load0))"

text \<open>What the loops rely on: the table, and sums that fit.\<close>

definition relab_ctx :: "nat \<Rightarrow> nat \<Rightarrow> mlt \<Rightarrow> u32 list \<Rightarrow> int list \<Rightarrow> bool" where
  "relab_ctx N nb t G load0 \<longleftrightarrow> mlt_wf t \<and> mlt_len t = N \<and> length G = N \<and> length load0 = nb \<and>
     (\<forall>i < nb. \<bar>load0 ! i\<bar> \<le> INT_MAX) \<and> (\<forall>e < N. \<forall>i < nb. \<bar>load0 ! i\<bar> + uint (G ! e) \<le> INT_MAX)"

lemma relab_ctx_read:
  "relab_ctx N nb t G load0 \<Longrightarrow> e < N \<Longrightarrow>
   mlt_read locks_work t e = Some (Some (owner t e, fst (snd (mlt_row t e)), snd (snd (mlt_row t e))))"
  by (simp add: relab_ctx_def mlt_read_in owner_def)

lemma towards_mean_bound:
  "towards_mean load0 load \<Longrightarrow> i < length load0 \<Longrightarrow> \<bar>load ! i\<bar> \<le> \<bar>load0 ! i\<bar>"
  unfolding towards_mean_def by (cases "0 \<le> load0 ! i") force+

lemma small_large_disjoint: "s \<in> small load0 \<Longrightarrow> l \<in> large load0 \<Longrightarrow> s \<noteq> l"
  by (auto simp: small_def large_def)

subsection \<open>Collecting the entries of a server\<close>

lemma collected_bound:
  assumes "distinct xs" and "set xs \<subseteq> int ` {e. e < N}"
  shows "length xs \<le> N"
proof -
  have "card (set xs) \<le> card (int ` {e. e < N})" by (rule card_mono) (use assms in auto)
  moreover have "card (int ` {e. e < N}) = N" by (simp add: card_image)
  ultimately show ?thesis using distinct_card [OF assms(1)] by simp
qed

lemma relab_fill_ok:
  assumes ctx: "relab_ctx N nb t G load0"
    and inv: "relab_inv N nb (owner t) load0 V r"
    and idx: "int idx < r_nl r" and new: "r_l r ! idx \<notin> V"
  shows "\<exists>r'. relab_fill locks_work N t idx r = Some (Next r') \<and>
    relab_inv N nb (owner t) load0 (insert (r_l r ! idx) V) r' \<and>
    r_l r' = r_l r \<and> r_nl r' = r_nl r \<and> r_ns r' = r_ns r \<and> r_s r' = r_s r \<and> r_load r' = r_load r"
proof -
  let ?l = "r_l r ! idx"
  note inv' = inv [unfolded relab_inv_def relab_shape_def]
  have lt: "idx < length (r_l r)" using inv' idx by auto
  have mem: "?l \<in> set (act_l r)" using inv' idx lt by (auto simp: in_set_conv_nth intro!: exI [of _ idx])
  define P where "P k r' \<longleftrightarrow> (\<exists>es n. r' = r\<lparr>r_srv := es, r_nsrv := n\<rparr> \<and> length es = N \<and> 0 \<le> n \<and> n \<le> int N \<and>
    distinct (take (nat n) es) \<and>
    set (take (nat n) es) = int ` {e. e < N \<and> (owner t e \<in> V \<or> (e < k \<and> owner t e = ?l))})" for k r'
  have "\<exists>r'. relab_fill locks_work N t idx r = Some (Next r') \<and> P N r'"
    unfolding relab_fill_def
  proof (rule forE_upt_rule)
    show "P 0 r" using inv' unfolding P_def by (intro exI [of _ "r_srv r"] exI [of _ "r_nsrv r"]) auto
  next
    fix k r'
    assume k: "k < N" and "P k r'"
    then obtain es n where r': "r' = r\<lparr>r_srv := es, r_nsrv := n\<rparr>" and es: "length es = N" "0 \<le> n" "n \<le> int N"
      "distinct (take (nat n) es)"
      "set (take (nat n) es) = int ` {e. e < N \<and> (owner t e \<in> V \<or> (e < k \<and> owner t e = ?l))}"
      by (auto simp: P_def)
    show "\<exists>t'. (do {
       row \<leftarrow> mlt_read locks_work t k;
       case row of
         None \<Rightarrow> Some (Leave r')
       | Some (srv, version, state) \<Rightarrow> do {
           l \<leftarrow> rd (r_l r') idx;
           if srv = l then do {
             es \<leftarrow> wri (r_srv r') (r_nsrv r') (int k);
             Some (Next (r'\<lparr>r_srv := es, r_nsrv := r_nsrv r' + 1\<rparr>))
           } else Some (Next r')
         }
       }) = Some (Next t') \<and> P (Suc k) t'"
    proof (cases "owner t k = ?l")
      case False
      then have "P (Suc k) r'"
        using r' es unfolding P_def by (intro exI [of _ es] exI [of _ n]) (auto simp: less_Suc_eq)
      then show ?thesis using False relab_ctx_read [OF ctx k] r' lt by (simp add: arr_simps)
    next
      case True
      have fresh: "int k \<notin> set (take (nat n) es)" using es(5) True new by auto
      then have "distinct (int k # take (nat n) es)" using es(4) by simp
      then have "length (int k # take (nat n) es) \<le> N"
        by (rule collected_bound) (use es(5) k in auto)
      then have n: "nat n < length es" using es by simp
      let ?es = "es[nat n := int k]"
      have tk: "take (nat (n + 1)) ?es = take (nat n) es @ [int k]"
        using n es(2) by (simp add: nat_add_distrib take_Suc_conv_app_nth)
      have "P (Suc k) (r\<lparr>r_srv := ?es, r_nsrv := n + 1\<rparr>)"
        unfolding P_def
        by (intro exI [of _ ?es] exI [of _ "n + 1"])
          (use es n tk fresh k True in \<open>auto simp: less_Suc_eq\<close>)
      then show ?thesis
        using True relab_ctx_read [OF ctx k] r' lt n es(2) by (auto simp: arr_simps)
    qed
  qed
  then obtain r' es n where r': "relab_fill locks_work N t idx r = Some (Next r')"
    "r' = r\<lparr>r_srv := es, r_nsrv := n\<rparr>" "length es = N" "0 \<le> n" "n \<le> int N" "distinct (take (nat n) es)"
    "set (take (nat n) es) = int ` {e. e < N \<and> (owner t e \<in> V \<or> (e < N \<and> owner t e = ?l))}"
    by (auto simp: P_def)
  have "relab_inv N nb (owner t) load0 (insert ?l V) r'"
    using inv' r' mem by (auto simp: relab_inv_def relab_shape_def)
  with r' show ?thesis by auto
qed

subsection \<open>Giving entries\<close>

lemma sum_list_upd: "i < length xs \<Longrightarrow> sum_list (xs[i := x]) = sum_list xs - xs ! i + (x :: int)"
  by (induction xs arbitrary: i) (auto split: nat.splits)

lemma towards_mean_move:
  assumes tm: "towards_mean load0 load" and s: "s \<in> small load0" and l: "l \<in> large load0"
    and w: "0 \<le> w" "w \<le> \<bar>load ! nat s\<bar>" "w \<le> load ! nat l"
  shows "towards_mean load0 (load[nat s := load ! nat s + w, nat l := load ! nat l - w])"
    and "sum_list (load[nat s := load ! nat s + w, nat l := load ! nat l - w]) = sum_list load"
proof -
  note tm' = tm [unfolded towards_mean_def]
  have sl: "nat s < length load" "nat l < length load" "nat s \<noteq> nat l" "load0 ! nat s < 0" "0 < load0 ! nat l"
    using s l tm' by (auto simp: small_def large_def)
  have ls: "load0 ! nat s \<le> load ! nat s" "load ! nat s \<le> 0" using tm' sl by auto
  have ll: "load ! nat l \<le> load0 ! nat l" using tm' sl by auto
  show "towards_mean load0 (load[nat s := load ! nat s + w, nat l := load ! nat l - w])"
    using tm' sl ls ll w unfolding towards_mean_def by (auto simp: nth_list_update)
  show "sum_list (load[nat s := load ! nat s + w, nat l := load ! nat l - w]) = sum_list load"
    using sl by (simp add: sum_list_upd)
qed

lemma weight_take: "(\<And>x. x \<in> set xs \<Longrightarrow> 0 \<le> w x) \<Longrightarrow> weight w (take k xs) \<le> weight w xs"
proof -
  assume w: "\<And>x. x \<in> set xs \<Longrightarrow> 0 \<le> w x"
  have "0 \<le> weight w (drop k xs)" by (rule weight_nonneg) (auto dest: in_set_dropD intro: w)
  moreover have "weight w xs = weight w (take k xs) + weight w (drop k xs)"
    by (simp flip: weight_simps(3))
  ultimately show ?thesis by simp
qed

lemma act_in:
  assumes "relab_inv N nb own load0 V r"
  shows "int i < r_nl r \<Longrightarrow> i < length (r_l r) \<and> r_l r ! i \<in> large load0"
    and "int i < r_ns r \<Longrightarrow> i < length (r_s r) \<and> r_s r ! i \<in> small load0"
proof -
  note inv' = assms [unfolded relab_inv_def relab_shape_def]
  show "i < length (r_l r) \<and> r_l r ! i \<in> large load0" if "int i < r_nl r"
  proof -
    have i: "i < nat (r_nl r)" "i < length (r_l r)" using that inv' by auto
    then have "r_l r ! i \<in> set (act_l r)" by (auto simp: in_set_conv_nth intro!: exI [of _ i])
    then show ?thesis using inv' i by auto
  qed
  show "i < length (r_s r) \<and> r_s r ! i \<in> small load0" if "int i < r_ns r"
  proof -
    have i: "i < nat (r_ns r)" "i < length (r_s r)" using that inv' by auto
    then have "r_s r ! i \<in> set (act_s r)" by (auto simp: in_set_conv_nth intro!: exI [of _ i])
    then show ?thesis using inv' i by auto
  qed
qed

lemma relab_give_ok:
  assumes ctx: "relab_ctx N nb t G load0" and inv: "relab_inv N nb own load0 V r"
    and il: "int il < r_nl r" and is': "int is < r_ns r"
    and C: "chosen n (r_set r) = C" "0 \<le> n" "n \<le> int (length (r_set r))" "set C \<subseteq> int ` {e. e < N \<and> own e \<in> V}"
    and W: "weight (sai_of G) C \<le> \<bar>r_load r ! nat (r_s r ! is)\<bar>" "weight (sai_of G) C \<le> r_load r ! nat (r_l r ! il)"
  shows "\<exists>r'. forM [0..<nat n] (relab_give_step G il is) r = Some r' \<and> relab_inv N nb own load0 V r' \<and>
    r_l r' = r_l r \<and> r_nl r' = r_nl r \<and> r_s r' = r_s r \<and> r_ns r' = r_ns r"
proof -
  let ?s = "r_s r ! is" and ?l = "r_l r ! il" and ?w = "weight (sai_of G)"
  let ?load = "\<lambda>w. (r_load r)[nat ?s := r_load r ! nat ?s + w, nat ?l := r_load r ! nat ?l - w]"
  note inv' = inv [unfolded relab_inv_def relab_shape_def]
  note s = act_in(2) [OF inv is'] and l = act_in(1) [OF inv il]
  have tm: "towards_mean load0 (r_load r)" using inv' by blast
  have lenC: "length C = nat n" using C by (auto simp: chosen_def)
  have nth: "r_set r ! k = C ! k" "k < length (r_set r)" if "k < nat n" for k
    using C that by (auto simp: chosen_def)
  have sl: "nat ?s < length (r_load r)" "nat ?l < length (r_load r)" "0 \<le> ?s" "0 \<le> ?l" "nat ?s \<noteq> nat ?l"
    using s l tm by (auto simp: small_def large_def towards_mean_def)
  have bounds: "\<bar>load0 ! i\<bar> \<le> INT_MAX" if "i < length load0" for i using ctx that by (auto simp: relab_ctx_def)
  have w: "0 \<le> ?w (take k C)" "?w (take k C) \<le> ?w C" for k
    by (auto intro!: weight_nonneg weight_take)
  have tmk: "towards_mean load0 (?load (?w (take k C)))" for k
    using towards_mean_move(1) [OF tm _ _ w(1)] s l w(2) [of k] W by (meson order_trans)
  have okk: "int_ok (?load (?w (take k C)) ! i)" if "i < length (r_load r)" for k i
  proof -
    have "i < length load0" using that tm by (simp add: towards_mean_def)
    from towards_mean_bound [OF tmk this, of k] bounds [OF this] show ?thesis
      unfolding int_ok_def INT_MIN_def INT_MAX_def by linarith
  qed
  define P where "P k r' \<longleftrightarrow> (\<exists>tg. r' = r\<lparr>r_target := tg, r_load := ?load (?w (take k C))\<rparr> \<and> length tg = N \<and>
    (\<forall>e < N. tg ! e = r_target r ! e \<or> (own e \<in> V \<and> tg ! e = ?s)))" for k r'
  have "\<exists>r'. forM [0..<nat n] (relab_give_step G il is) r = Some r' \<and> P (nat n) r'"
  proof (rule forM_upt_rule)
    show "P 0 r" using inv' unfolding P_def by (intro exI [of _ "r_target r"]) auto
  next
    fix k r'
    assume k: "k < nat n" and "P k r'"
    then obtain tg where r': "r' = r\<lparr>r_target := tg, r_load := ?load (?w (take k C))\<rparr>" and tg: "length tg = N"
      "\<forall>e < N. tg ! e = r_target r ! e \<or> (own e \<in> V \<and> tg ! e = ?s)" by (auto simp: P_def)
    let ?g = "G ! nat (C ! k)"
    have "C ! k \<in> set C" using k lenC by simp
    then obtain e where e: "C ! k = int e" "e < N" "own e \<in> V" using C(4) by auto
    have wk: "?w (take (Suc k) C) = ?w (take k C) + uint ?g"
      using k lenC by (simp add: take_Suc_conv_app_nth sai_of_def)
    have a: "int_of_u32 (u32_of_int (r_load r ! nat ?s + ?w (take k C)) + ?g) = r_load r ! nat ?s + ?w (take (Suc k) C)"
      using okk [of "nat ?s" "Suc k"] sl wk by (simp add: int_of_u32_add nth_list_update add.assoc)
    have b: "int_of_u32 (u32_of_int (r_load r ! nat ?l - ?w (take k C)) - ?g) = r_load r ! nat ?l - ?w (take (Suc k) C)"
      using okk [of "nat ?l" "Suc k"] sl wk by (simp add: int_of_u32_sub nth_list_update algebra_simps)
    have G: "nat (C ! k) < length G" using ctx e by (simp add: relab_ctx_def)
    let ?r = "r\<lparr>r_target := tg[e := ?s], r_load := ?load (?w (take (Suc k) C))\<rparr>"
    have "relab_give_step G il is k r' = Some ?r"
      using nth [OF k] s l sl e tg G a b r' by (simp add: relab_give_step_def arr_simps nth_list_update list_update_swap)
    moreover have "P (Suc k) ?r"
      using tg e unfolding P_def by (intro exI [of _ "tg[e := ?s]"]) (auto simp: nth_list_update)
    ultimately show "\<exists>t'. relab_give_step G il is k r' = Some t' \<and> P (Suc k) t'" by blast
  qed
  then obtain r' tg where r': "forM [0..<nat n] (relab_give_step G il is) r = Some r'"
    "r' = r\<lparr>r_target := tg, r_load := ?load (?w C)\<rparr>" "length tg = N"
    "\<forall>e < N. tg ! e = r_target r ! e \<or> (own e \<in> V \<and> tg ! e = ?s)" using lenC by (auto simp: P_def)
  have "towards_mean load0 (?load (?w C))" "sum_list (?load (?w C)) = sum_list (r_load r)"
    using towards_mean_move [OF tm _ _ w(1) [of "length C"]] s l W by auto
  moreover have "\<forall>e < N. tg ! e = own e \<or> (own e \<in> large load0 \<and> tg ! e \<in> small load0)"
    using r'(4) inv' s by (metis subsetD)
  ultimately have "relab_inv N nb own load0 V r'"
    using inv' r'(2,3) by (simp add: relab_inv_def relab_shape_def)
  with r' show ?thesis by auto
qed

lemma relab_exchange_ok:
  assumes ctx: "relab_ctx N nb t G load0" and inv: "relab_inv N nb own load0 V r"
    and il: "int il < r_nl r" and is': "int is < r_ns r"
  shows "\<exists>r'. relab_exchange G il is r = Some r' \<and> relab_inv N nb own load0 V r' \<and>
    r_l r' = r_l r \<and> r_nl r' = r_nl r \<and> r_s r' = r_s r \<and> r_ns r' = r_ns r"
proof -
  let ?s = "r_s r ! is" and ?l = "r_l r ! il"
  let ?ls = "r_load r ! nat ?s" and ?ll = "r_load r ! nat ?l"
  define goal where "goal = (if \<bar>?ls\<bar> < ?ll then \<bar>?ls\<bar> else ?ll)"
  note inv' = inv [unfolded relab_inv_def relab_shape_def]
  note s = act_in(2) [OF inv is'] and l = act_in(1) [OF inv il]
  have tm: "towards_mean load0 (r_load r)" using inv' by blast
  have sl: "nat ?s < length load0" "nat ?l < length load0" "0 \<le> ?s" "0 \<le> ?l" "0 < load0 ! nat ?l"
    "length (r_load r) = length load0" "length load0 = nb"
    using s l tm ctx by (auto simp: small_def large_def towards_mean_def relab_ctx_def)
  have b: "\<bar>?ls\<bar> \<le> \<bar>load0 ! nat ?s\<bar>" "\<bar>load0 ! nat ?s\<bar> \<le> INT_MAX"
    using towards_mean_bound [OF tm sl(1)] ctx sl by (auto simp: relab_ctx_def)
  have ll: "0 \<le> ?ll" using tm sl by (auto simp: towards_mean_def)
  have g: "0 \<le> goal" "goal \<le> \<bar>?ls\<bar>" "goal \<le> ?ll" using ll by (auto simp: goal_def)
  have "int_ok \<bar>?ls\<bar>" using b by (simp add: int_ok_def INT_MIN_def)
  then have goal: "relab_goal il is r = Some goal"
    using s l sl by (simp add: relab_goal_def arr_simps c_abs_def c_conv goal_def)
  have es: "\<forall>e \<in> set (act_srv r). 0 \<le> e \<and> nat e < length G \<and> goal + sai_of G e \<le> INT_MAX"
  proof
    fix e assume "e \<in> set (act_srv r)"
    then obtain k where k: "e = int k" "k < N" using inv' by auto
    have "\<bar>load0 ! nat ?s\<bar> + uint (G ! k) \<le> INT_MAX" using ctx k sl by (simp add: relab_ctx_def)
    then have "goal + uint (G ! k) \<le> INT_MAX" using g b by linarith
    with k ctx show "0 \<le> e \<and> nat e < length G \<and> goal + sai_of G e \<le> INT_MAX"
      by (simp add: sai_of_def relab_ctx_def)
  qed
  have "\<exists>idx ys sub. manager_balance_load_windowed G 0 (r_srv r) (r_nsrv r) goal (r_set r) = Some (idx, ys, sub) \<and>
    same_prefix (nat (r_nsrv r)) (r_srv r) ys \<and> length sub = length (r_set r) \<and> 0 \<le> idx \<and>
    idx \<le> int (nat (r_nsrv r)) \<and> chosen idx sub = balance (sai_of G) 0 goal (take (nat (r_nsrv r)) ys)"
    by (rule balance_load_windowed_ok) (use inv' es g b in auto)
  then obtain n ys sub where bal:
    "manager_balance_load_windowed G 0 (r_srv r) (r_nsrv r) goal (r_set r) = Some (n, ys, sub)"
    "same_prefix (nat (r_nsrv r)) (r_srv r) ys" "length sub = length (r_set r)" "0 \<le> n" "n \<le> int (nat (r_nsrv r))"
    "chosen n sub = balance (sai_of G) 0 goal (take (nat (r_nsrv r)) ys)" by blast
  let ?C = "balance (sai_of G) 0 goal (take (nat (r_nsrv r)) ys)"
  let ?r = "r\<lparr>r_srv := ys, r_set := sub\<rparr>"
  have pre: "length ys = N" "set (take (nat (r_nsrv r)) ys) = set (act_srv r)"
    "distinct (take (nat (r_nsrv r)) ys)"
    using bal(2) inv' same_prefix_set [OF bal(2)]
    by (auto simp: same_prefix_def dest!: mset_eq_imp_distinct_iff)
  have inv2: "relab_inv N nb own load0 V ?r"
    using inv' pre bal(3) by (simp add: relab_inv_def relab_shape_def)
  have W: "weight (sai_of G) ?C \<le> goal"
    using balance_goal(1) [of "take (nat (r_nsrv r)) ys" "sai_of G" 0 goal] g by simp
  have "\<exists>r'. forM [0..<nat n] (relab_give_step G il is) ?r = Some r' \<and> relab_inv N nb own load0 V r' \<and>
    r_l r' = r_l ?r \<and> r_nl r' = r_nl ?r \<and> r_s r' = r_s ?r \<and> r_ns r' = r_ns ?r"
  proof (rule relab_give_ok [OF ctx inv2 _ _ _ bal(4)])
    show "chosen n (r_set ?r) = ?C" using bal(6) by simp
    show "set ?C \<subseteq> int ` {e. e < N \<and> own e \<in> V}"
      using pre(2) inv' by (auto dest!: balance_set)
    show "n \<le> int (length (r_set ?r))" using bal(3,5) inv' by auto
  qed (use il is' W g in auto)
  with goal bal(1) show ?thesis by (auto simp: relab_exchange_def)
qed

subsection \<open>The loops\<close>

lemma drop_from_ok:
  assumes "int i < n" and "n \<le> int (length xs)"
  shows "drop_from xs n i = Some (xs[i := xs ! nat (n - 1)], n - 1)"
  using assms by (simp add: drop_from_def rdi_in wr_in)

lemma relab_inv_drop_s:
  assumes "relab_inv N nb own load0 V r" and "int i < r_ns r"
  shows "relab_inv N nb own load0 V (r\<lparr>r_s := (r_s r)[i := r_s r ! nat (r_ns r - 1)], r_ns := r_ns r - 1\<rparr>)"
  using assms drop_from_set(1) [of i "r_ns r" "r_s r"]
  by (auto simp: relab_inv_def relab_shape_def)

lemma relab_inv_drop_l:
  assumes "relab_inv N nb own load0 V r" and "int i < r_nl r"
  shows "relab_inv N nb own load0 V (r\<lparr>r_l := (r_l r)[i := r_l r ! nat (r_nl r - 1)], r_nl := r_nl r - 1\<rparr>)"
  using assms drop_from_set [of i "r_nl r" "r_l r"]
  by (auto simp: relab_inv_def relab_shape_def)

text \<open>After the idle servers: the subset of the overloaded ones is as before or has lost the current one.\<close>

definition same_or_dropped :: "nat \<Rightarrow> relab \<Rightarrow> relab \<Rightarrow> bool" where
  "same_or_dropped il r r' \<longleftrightarrow> (r_l r' = r_l r \<and> r_nl r' = r_nl r) \<or>
     (r_l r' = (r_l r)[il := r_l r ! nat (r_nl r - 1)] \<and> r_nl r' = r_nl r - 1)"

lemma relab_inner_ok:
  assumes ctx: "relab_ctx N nb t G load0"
  shows "relab_inv N nb own load0 V r \<Longrightarrow> int il < r_nl r \<Longrightarrow>
    \<exists>r'. relab_inner G il is r = Some r' \<and> relab_inv N nb own load0 V r' \<and> same_or_dropped il r r'"
proof (induction "is" arbitrary: r)
  case Nil
  then show ?case by (simp add: same_or_dropped_def)
next
  case (Cons i "is")
  show ?case
  proof (cases "int i < r_ns r")
    case False
    then show ?thesis using Cons.prems by (simp add: same_or_dropped_def)
  next
    case True
    obtain r1 where r1: "relab_exchange G il i r = Some r1" "relab_inv N nb own load0 V r1"
      "r_l r1 = r_l r" "r_nl r1 = r_nl r" "r_s r1 = r_s r" "r_ns r1 = r_ns r"
      using relab_exchange_ok [OF ctx Cons.prems True] by blast
    note inv1 = r1(2) [unfolded relab_inv_def relab_shape_def]
    have i1: "int i < r_ns r1" "int il < r_nl r1" using True Cons.prems r1 by auto
    note s = act_in(2) [OF r1(2) i1(1)] and l = act_in(1) [OF r1(2) i1(2)]
    have len: "length (r_load r1) = length load0" using inv1 by (simp add: towards_mean_def)
    define r2 where "r2 = (if 0 \<le> r_load r1 ! nat (r_s r1 ! i)
      then r1\<lparr>r_s := (r_s r1)[i := r_s r1 ! nat (r_ns r1 - 1)], r_ns := r_ns r1 - 1\<rparr> else r1)"
    have inv2: "relab_inv N nb own load0 V r2"
      using r1(2) relab_inv_drop_s [OF r1(2) i1(1)] by (simp add: r2_def)
    have eq2: "r_l r2 = r_l r" "r_nl r2 = r_nl r" "r_load r2 = r_load r1" by (auto simp: r2_def r1)
    have step: "relab_inner G il (i # is) r =
      (if r_load r1 ! nat (r_l r1 ! il) \<le> 0
       then Some (r2\<lparr>r_l := (r_l r2)[il := r_l r2 ! nat (r_nl r2 - 1)], r_nl := r_nl r2 - 1\<rparr>)
       else relab_inner G il is r2)"
      using True r1(1) s l len inv1 i1 eq2 r1(3,4)
      by (auto simp: arr_simps small_def large_def drop_from_ok r2_def)
    show ?thesis
    proof (cases "r_load r1 ! nat (r_l r1 ! il) \<le> 0")
      case True
      then show ?thesis
        using step relab_inv_drop_l [OF inv2, of il] eq2 Cons.prems(2) by (simp add: same_or_dropped_def)
    next
      case False
      obtain r' where "relab_inner G il is r2 = Some r'" "relab_inv N nb own load0 V r'" "same_or_dropped il r2 r'"
        using Cons.IH [OF inv2] eq2 Cons.prems(2) by auto
      with step False eq2 show ?thesis by (simp add: same_or_dropped_def)
    qed
  qed
qed

text \<open>The invariant of the outer loop: the servers from the current index on have not been considered.\<close>

definition outer_inv :: "nat \<Rightarrow> nat \<Rightarrow> (nat \<Rightarrow> int) \<Rightarrow> int list \<Rightarrow> nat \<Rightarrow> relab \<Rightarrow> bool" where
  "outer_inv N nb own load0 i r \<longleftrightarrow> (\<exists>V. relab_inv N nb own load0 V r \<and>
     (\<forall>k. i \<le> k \<and> int k < r_nl r \<longrightarrow> r_l r ! k \<notin> V))"

lemma relab_inv_sorted_s:
  assumes "relab_inv N nb own load0 V r" and "same_prefix (nat (r_ns r)) (r_s r) s"
  shows "relab_inv N nb own load0 V (r\<lparr>r_s := s\<rparr>)"
  using assms same_prefix_set [OF assms(2)]
  by (simp add: relab_inv_def relab_shape_def same_prefix_def)

lemma subset_ok_loads:
  assumes "towards_mean load0 load" and "\<forall>i < length load0. \<bar>load0 ! i\<bar> \<le> INT_MAX"
    and "\<forall>x \<in> set xs. 0 \<le> x \<and> nat x < length load0"
  shows "subset_ok load xs"
  unfolding subset_ok_def
proof
  fix x assume "x \<in> set xs"
  with assms(3) have x: "0 \<le> x" "nat x < length load0" by auto
  have "\<bar>load ! nat x\<bar> \<le> INT_MAX"
    using towards_mean_bound [OF assms(1) x(2)] assms(2) x(2) by fastforce
  with x assms(1) show "0 \<le> x \<and> nat x < length load \<and> int_ok (abs_load load x)"
    by (simp add: int_ok_def INT_MIN_def towards_mean_def)
qed

lemma relab_round_ok:
  assumes ctx: "relab_ctx N nb t G load0" and inv: "outer_inv N nb (owner t) load0 i r"
  shows "\<exists>r'. relab_round locks_work N t G i r = Some (Next r') \<and> outer_inv N nb (owner t) load0 (Suc i) r'"
proof (cases "int i < r_nl r")
  case False
  then have "relab_round locks_work N t G i r = Some (Next r)" by (simp add: relab_round_def)
  moreover have "outer_inv N nb (owner t) load0 (Suc i) r" using inv False by (auto simp: outer_inv_def)
  ultimately show ?thesis by blast
next
  case True
  from inv obtain V where V: "relab_inv N nb (owner t) load0 V r"
    "\<And>k. i \<le> k \<Longrightarrow> int k < r_nl r \<Longrightarrow> r_l r ! k \<notin> V" by (auto simp: outer_inv_def)
  let ?V = "insert (r_l r ! i) V"
  obtain r1 where r1: "relab_fill locks_work N t i r = Some (Next r1)"
    "relab_inv N nb (owner t) load0 ?V r1" "r_l r1 = r_l r" "r_nl r1 = r_nl r"
    using relab_fill_ok [OF ctx V(1) True V(2) [OF order_refl True]] by blast
  note inv1 = r1(2) [unfolded relab_inv_def relab_shape_def]
  have so: "subset_ok (r_load r1) (act_s r1)"
    by (rule subset_ok_loads) (use inv1 ctx in \<open>auto simp: relab_ctx_def small_def\<close>)
  have "nat (r_ns r1) \<le> length (r_s r1)" using inv1 by (simp add: nat_le_iff)
  with so obtain s where s: "manager_sort_subset (r_s r1) (r_load r1) (r_ns r1) = Some s"
    "same_prefix (nat (r_ns r1)) (r_s r1) s"
    using manager_sort_subset_ok by blast
  obtain r2 where r2: "relab_inner G i [0..<nat (r_ns r1)] (r1\<lparr>r_s := s\<rparr>) = Some r2"
    "relab_inv N nb (owner t) load0 ?V r2" "same_or_dropped i r r2"
    using relab_inner_ok [OF ctx relab_inv_sorted_s [OF r1(2) s(2)], of i "[0..<nat (r_ns r1)]"] True r1(3,4)
    by (auto simp: same_or_dropped_def)
  have d: "distinct (act_l r)" "r_nl r \<le> int (length (r_l r))"
    using V(1) by (auto simp: relab_inv_def relab_shape_def)
  have new: "r_l r2 ! k \<notin> ?V" if k: "Suc i \<le> k" "int k < r_nl r2" for k
  proof -
    have k': "int k < r_nl r" "r_l r2 ! k = r_l r ! k"
      using r2(3) k by (auto simp: same_or_dropped_def)
    have "act_l r ! k \<noteq> act_l r ! i"
      using d k(1) k'(1) True by (subst nth_eq_iff_index_eq) auto
    then have "r_l r ! k \<noteq> r_l r ! i" using k'(1) True by simp
    then show ?thesis using V(2) [of k] k k' by simp
  qed
  then have "outer_inv N nb (owner t) load0 (Suc i) r2"
    using r2(2) unfolding outer_inv_def by (intro exI [of _ ?V]) auto
  then show ?thesis using True r1(1) s(1) r2(1) by (simp add: relab_round_def)
qed

lemma relab_rounds_ok:
  assumes ctx: "relab_ctx N nb t G load0" and inv: "relab_inv N nb (owner t) load0 {} r"
  shows "\<exists>r'. relab_rounds locks_work N t G r = Some (Next r') \<and> (\<exists>V. relab_inv N nb (owner t) load0 V r')"
proof -
  note inv' = inv [unfolded relab_inv_def relab_shape_def]
  have so: "subset_ok (r_load r) (act_l r)"
    by (rule subset_ok_loads) (use inv' ctx in \<open>auto simp: relab_ctx_def large_def\<close>)
  have "nat (r_nl r) \<le> length (r_l r)" using inv' by (simp add: nat_le_iff)
  with so obtain l where l: "manager_sort_subset (r_l r) (r_load r) (r_nl r) = Some l"
    "same_prefix (nat (r_nl r)) (r_l r) l"
    using manager_sort_subset_ok by blast
  have "distinct (take (nat (r_nl r)) l)"
    using l(2) inv' by (auto simp: same_prefix_def dest!: mset_eq_imp_distinct_iff)
  then have "relab_inv N nb (owner t) load0 {} (r\<lparr>r_l := l\<rparr>)"
    using inv' l(2) same_prefix_set [OF l(2)] by (simp add: relab_inv_def relab_shape_def same_prefix_def)
  then have start: "outer_inv N nb (owner t) load0 0 (r\<lparr>r_l := l\<rparr>)" by (auto simp: outer_inv_def)
  have "\<exists>r'. forE [0..<nat (r_nl r)] (relab_round locks_work N t G) (r\<lparr>r_l := l\<rparr>) = Some (Next r') \<and>
    outer_inv N nb (owner t) load0 (nat (r_nl r)) r'"
    by (rule forE_upt_rule [where P = "outer_inv N nb (owner t) load0", OF start]) (rule relab_round_ok [OF ctx])
  then show ?thesis using l(1) by (auto simp: relab_rounds_def outer_inv_def)
qed

subsection \<open>The start and the update of the table\<close>

lemma relab_targets_ok:
  assumes t: "mlt_wf t" "mlt_len t = N"
  shows "relab_targets locks_work N t (relab_start N nb) =
    Some (Next ((relab_start N nb)\<lparr>r_target := map (owner t) [0..<N]\<rparr>))"
proof -
  define P where "P k r \<longleftrightarrow> (\<exists>tg. r = (relab_start N nb)\<lparr>r_target := tg\<rparr> \<and> length tg = N \<and>
    (\<forall>e < k. tg ! e = owner t e))" for k r
  have "\<exists>r. relab_targets locks_work N t (relab_start N nb) = Some (Next r) \<and> P N r"
    unfolding relab_targets_def
  proof (rule forE_upt_rule)
    show "P 0 (relab_start N nb)"
      unfolding P_def by (intro exI [of _ "replicate N 0"]) (simp add: relab_start_def)
  next
    fix k r
    assume k: "k < N" and "P k r"
    then obtain tg where r: "r = (relab_start N nb)\<lparr>r_target := tg\<rparr>" "length tg = N" "\<forall>e < k. tg ! e = owner t e"
      by (auto simp: P_def)
    have "P (Suc k) ((relab_start N nb)\<lparr>r_target := tg[k := owner t k]\<rparr>)"
      using r k unfolding P_def by (intro exI [of _ "tg[k := owner t k]"]) (auto simp: less_Suc_eq)
    moreover have "mlt_read locks_work t k = Some (Some (mlt_row t k))" using mlt_read_in t k by simp
    ultimately show "\<exists>t'. (do {
       row \<leftarrow> mlt_read locks_work t k;
       case row of
         None \<Rightarrow> Some (Leave r)
       | Some (srv, version, state) \<Rightarrow> do {
           target \<leftarrow> wr (r_target r) k srv;
           Some (Next (r\<lparr>r_target := target\<rparr>))
         }
       }) = Some (Next t') \<and> P (Suc k) t'"
      using r k by (auto simp: owner_def arr_simps split: prod.splits)
  qed
  then obtain r tg where r: "relab_targets locks_work N t (relab_start N nb) = Some (Next r)"
    "r = (relab_start N nb)\<lparr>r_target := tg\<rparr>" "length tg = N" "\<forall>e < N. tg ! e = owner t e"
    by (auto simp: P_def)
  have "tg = map (owner t) [0..<N]" using r(3,4) by (intro nth_equalityI) auto
  with r show ?thesis by simp
qed

lemma relab_load_loop_ok:
  assumes all: "length all = nb" "0 < nb" "load_total all nb \<le> INT_MAX" "int_ok (int nb)"
    and r0: "relab_shape N nb r0" "r_nl r0 = 0" "r_ns r0 = 0"
  shows "\<exists>r. forM [0..<nb] (relab_load_step all (load_total all nb) (w_factor * int nb)) r0 = Some r \<and>
    relab_shape N nb r \<and> r_load r = loads all nb \<and> distinct (act_l r) \<and>
    set (act_l r) \<subseteq> large (loads all nb) \<and> set (act_s r) \<subseteq> small (loads all nb) \<and>
    r_target r = r_target r0 \<and> r_nsrv r = r_nsrv r0"
proof -
  let ?f = "rel_load all nb" and ?L = "loads all nb"
  define P where "P k r \<longleftrightarrow> relab_shape N nb r \<and> (\<forall>i < k. r_load r ! i = ?f i) \<and> distinct (act_l r) \<and>
    r_nl r \<le> int k \<and> r_ns r \<le> int k \<and>
    set (act_l r) \<subseteq> large ?L \<inter> {x. x < int k} \<and> set (act_s r) \<subseteq> small ?L \<and>
    r_target r = r_target r0 \<and> r_nsrv r = r_nsrv r0" for k r
  have "\<exists>r. forM [0..<nb] (relab_load_step all (load_total all nb) (w_factor * int nb)) r0 = Some r \<and> P nb r"
  proof (rule forM_upt_rule)
    show "P 0 r0" using r0 by (simp add: P_def)
  next
    fix k r
    assume k: "k < nb" and P: "P k r"
    note P' = P [unfolded P_def relab_shape_def]
    have sum: "int_ok (load_total all nb)" using all load_total_nonneg [of all nb] by (simp add: int_ok_def INT_MIN_def)
    have f: "int_ok (?f k)" using rel_load_bound [OF k, of all] all(3)
      unfolding int_ok_def INT_MIN_def INT_MAX_def by linarith
    then have v: "int_of_u32 (all ! k - u32_of_int (load_total all nb div int nb)) = ?f k"
      by (simp add: int_of_u32_diff rel_load_def)
    have d: "c_div (load_total all nb) (int nb) = Some (load_total all nb div int nb)"
      using c_div_pos [OF load_total_nonneg] all by simp
    note base = k P' all(1,2) sum v d
    show "\<exists>r'. relab_load_step all (load_total all nb) (w_factor * int nb) k r = Some r' \<and> P (Suc k) r'"
    proof (cases "?f k > 0")
      case True
      have n: "nat (r_nl r) < length (r_l r)" using P' k by auto
      let ?r = "r\<lparr>r_load := (r_load r)[k := ?f k], r_l := (r_l r)[nat (r_nl r) := int k], r_nl := r_nl r + 1\<rparr>"
      have "take (nat (r_nl r + 1)) ((r_l r)[nat (r_nl r) := int k]) = act_l r @ [int k]"
        using P' n by (simp add: nat_add_distrib take_Suc_conv_app_nth)
      moreover have "int k \<in> large ?L" using True k by (simp add: large_def loads_def)
      ultimately have "P (Suc k) ?r"
        using P' k unfolding P_def relab_shape_def by (auto simp: nth_list_update less_Suc_eq)
      moreover have "relab_load_step all (load_total all nb) (w_factor * int nb) k r = Some ?r"
        using base n True by (simp add: relab_load_step_def w_factor_def c_conv arr_simps Let_def)
      ultimately show ?thesis by blast
    next
      case False
      show ?thesis
      proof (cases "?f k < 0")
        case True
        have n: "nat (r_ns r) < length (r_s r)" using P' k by auto
        let ?r = "r\<lparr>r_load := (r_load r)[k := ?f k], r_s := (r_s r)[nat (r_ns r) := int k], r_ns := r_ns r + 1\<rparr>"
        have "take (nat (r_ns r + 1)) ((r_s r)[nat (r_ns r) := int k]) = act_s r @ [int k]"
          using P' n by (simp add: nat_add_distrib take_Suc_conv_app_nth)
        moreover have "int k \<in> small ?L" using True k by (simp add: small_def loads_def)
        ultimately have "P (Suc k) ?r"
          using P' k unfolding P_def relab_shape_def by (auto simp: nth_list_update less_Suc_eq)
        moreover have "relab_load_step all (load_total all nb) (w_factor * int nb) k r = Some ?r"
          using base n True False by (simp add: relab_load_step_def w_factor_def c_conv arr_simps Let_def)
        ultimately show ?thesis by blast
      next
        case 2: False
        let ?r = "r\<lparr>r_load := (r_load r)[k := ?f k]\<rparr>"
        have "P (Suc k) ?r"
          using P' k unfolding P_def relab_shape_def by (auto simp: nth_list_update less_Suc_eq)
        moreover have "relab_load_step all (load_total all nb) (w_factor * int nb) k r = Some ?r"
          using base 2 False by (simp add: relab_load_step_def w_factor_def c_conv arr_simps Let_def)
        ultimately show ?thesis by blast
      qed
    qed
  qed
  then obtain r where r: "forM [0..<nb] (relab_load_step all (load_total all nb) (w_factor * int nb)) r0 = Some r" "P nb r"
    by blast
  have "r_load r = ?L"
    using r(2) by (intro nth_equalityI) (auto simp: P_def relab_shape_def loads_def)
  with r show ?thesis by (auto simp: P_def)
qed

definition relab_decide :: "int list \<Rightarrow> nat \<Rightarrow> int \<times> int \<times> int \<Rightarrow> (int \<times> int \<times> int) option" where
  "relab_decide target e r = (case r of (s, v, f) \<Rightarrow> if s \<noteq> target ! e then Some (target ! e, v + 1, 0) else None)"

lemma relab_update_ok:
  assumes t: "table_ok nb t" "mlt_len t = N" "int_ok nb"
    and tg: "length target = N" "\<forall>e < N. 0 \<le> target ! e \<and> target ! e < nb"
  shows "\<exists>t'. forE [0..<N] (relab_update_step locks_work target) t = Some (Next t') \<and> mlt_wf t' \<and>
    mlt_len t' = N \<and> (\<forall>e < N. mlt_row t' e = (case relab_decide target e (mlt_row t e) of
      None \<Rightarrow> mlt_row t e | Some r \<Rightarrow> r))"
proof -
  have wf: "mlt_wf t" using t by (simp add: table_ok_def)
  have ok: "row_ok r'" if "e < mlt_len t" "mlt_lookup t e = Some r" "relab_decide target e r = Some r'" for e r r'
  proof -
    obtain s v f where r: "r = (s, v, f)" by (cases r)
    have row: "mlt_row t e = (s, v, f)" using that wf r by (simp add: mlt_lookup_in)
    then have "int_ok v" "v < INT_MAX" using mlt_row_int_ok [OF row] t(1) that(1) by (auto simp: table_ok_def)
    moreover have "int_ok (target ! e)" "0 \<le> target ! e"
      using tg that(1) t(2,3) by (auto simp: int_ok_def INT_MIN_def)
    ultimately show ?thesis
      using that(3) r by (auto simp: relab_decide_def row_ok.simps int_ok_def split: if_splits)
  qed
  have "\<exists>t'. forE [0..<mlt_len t] (relab_update_step locks_work target) t = Some (Next t') \<and> mlt_wf t' \<and>
    mlt_len t' = mlt_len t \<and> (\<forall>e < mlt_len t. mlt_lookup t' e =
      (case relab_decide target e (the (mlt_lookup t e)) of None \<Rightarrow> mlt_lookup t e | Some r \<Rightarrow> Some r))"
  proof (rule mt.sweep_flow [where decide = "relab_decide target"])
    fix e u r
    assume u: "mlt_wf u" "mlt_len u = mlt_len t" "e < mlt_len t" "mlt_lookup u e = Some r" "mlt_lookup t e = Some r"
    obtain s v f where r: "r = (s, v, f)" by (cases r)
    have row: "mlt_row u e = (s, v, f)" using u r by (simp add: mlt_lookup_in)
    have v: "int_ok (v + 1)"
      using mlt_row_int_ok [OF row] t(1) u wf r by (auto simp: table_ok_def mlt_lookup_in int_ok_def)
    show "relab_update_step locks_work target e u =
      (case relab_decide target e r of None \<Rightarrow> Some (Next u) | Some r' \<Rightarrow> map_option Next (mlt_store u e r'))"
    proof (cases "s = target ! e")
      case True
      then show ?thesis
        using u r row tg(1) t(2) by (simp add: relab_update_step_def relab_decide_def mlt_read_in arr_simps)
    next
      case False
      then have d: "relab_decide target e r = Some (target ! e, v + 1, 0)" by (simp add: relab_decide_def r)
      have "row_ok (target ! e, v + 1, 0)" by (rule ok [OF u(3,5) d])
      then show ?thesis
        using u r row tg(1) t(2) False v d
        by (simp add: relab_update_step_def mlt_read_in arr_simps c_conv mlt_write_in mlt_store_in)
    qed
  qed (use wf ok in auto)
  then obtain t' where t': "forE [0..<mlt_len t] (relab_update_step locks_work target) t = Some (Next t')"
    "mlt_wf t'" "mlt_len t' = mlt_len t"
    "\<And>e. e < mlt_len t \<Longrightarrow> mlt_lookup t' e =
      (case relab_decide target e (the (mlt_lookup t e)) of None \<Rightarrow> mlt_lookup t e | Some r \<Rightarrow> Some r)" by blast
  have "mlt_row t' e = (case relab_decide target e (mlt_row t e) of None \<Rightarrow> mlt_row t e | Some r \<Rightarrow> r)"
    if "e < N" for e
    using t'(4) [of e] t'(2,3) that t(2) wf by (simp add: mlt_lookup_in split: option.splits)
  with t' t(2) show ?thesis by auto
qed

section \<open>The redistribution\<close>

lemma relab_all_ok:
  assumes m: "manager_ok N nb m"
  shows "\<exists>r r'. forM [0..<nb] (relab_load_step (all_list m) (load_total (all_list m) nb) (w_factor * int nb))
      ((relab_start N nb)\<lparr>r_target := map (owner (table m)) [0..<N]\<rparr>) = Some r \<and>
    relab_rounds locks_work N (table m) (global_list m) r = Some (Next r') \<and>
    (\<exists>V. relab_inv N nb (owner (table m)) (loads (all_list m) nb) V r')"
proof -
  let ?L = "loads (all_list m) nb" and ?t = "table m"
  let ?r0 = "(relab_start N nb)\<lparr>r_target := map (owner ?t) [0..<N]\<rparr>"
  note m' = m [unfolded manager_ok_def]
  have b: "\<bar>?L ! i\<bar> \<le> load_total (all_list m) nb" if "i < nb" for i
    using rel_load_bound [OF that, of "all_list m"] that by (simp add: loads_def)
  have ctx: "relab_ctx N nb ?t (global_list m) ?L"
    unfolding relab_ctx_def
  proof (intro conjI allI impI)
    fix e i assume "e < N" "i < nb"
    then have "\<bar>?L ! i\<bar> \<le> load_total (all_list m) nb"
      "load_total (all_list m) nb + uint (global_list m ! e) \<le> INT_MAX" using b m' by blast+
    then show "\<bar>?L ! i\<bar> + uint (global_list m ! e) \<le> INT_MAX" by linarith
  next
    fix i assume "i < nb"
    then have "\<bar>?L ! i\<bar> \<le> load_total (all_list m) nb" "load_total (all_list m) nb \<le> INT_MAX" using b m' by blast+
    then show "\<bar>?L ! i\<bar> \<le> INT_MAX" by linarith
  qed (use m' in \<open>simp_all add: table_ok_def loads_def\<close>)
  have r0: "relab_shape N nb ?r0" "r_nl ?r0 = 0" "r_ns ?r0 = 0" "r_target ?r0 = map (owner ?t) [0..<N]" "r_nsrv ?r0 = 0"
    by (simp_all add: relab_shape_def relab_start_def)
  have all: "length (all_list m) = nb" "0 < nb" "load_total (all_list m) nb \<le> INT_MAX" "int_ok (int nb)"
    using m' by blast+
  obtain r where r: "forM [0..<nb] (relab_load_step (all_list m) (load_total (all_list m) nb) (w_factor * int nb)) ?r0 = Some r"
    "relab_shape N nb r" "r_load r = ?L" "distinct (act_l r)" "set (act_l r) \<subseteq> large ?L" "set (act_s r) \<subseteq> small ?L"
    "r_target r = r_target ?r0" "r_nsrv r = r_nsrv ?r0"
    using relab_load_loop_ok [OF all r0(1,2,3)] by blast
  note r = r [unfolded r0(4,5)]
  have "relab_inv N nb (owner ?t) ?L {} r"
    using r by (simp add: relab_inv_def towards_mean_def)
  from relab_rounds_ok [OF ctx this] r(1) show ?thesis by blast
qed

lemma manager_calculate_relab_windowed_ok:
  assumes m: "manager_ok N nb m"
  shows "\<exists>m'. manager_calculate_relab_windowed env_fine N (int nb) m = Some (0, m') \<and>
    m' = m\<lparr>mean_load := u32_of_int (load_total (all_list m) nb div int nb), table := table m'\<rparr> \<and>
    mlt_wf (table m') \<and> mlt_len (table m') = N \<and>
    (\<forall>e < N. mlt_row (table m') e = mlt_row (table m) e \<or>
       (\<exists>s v f s'. mlt_row (table m) e = (s, v, f) \<and> mlt_row (table m') e = (s', v + 1, 0) \<and>
          0 \<le> s' \<and> s' < int nb \<and> 0 < rel_load (all_list m) nb (nat s) \<and> rel_load (all_list m) nb (nat s') < 0))"
proof -
  let ?L = "loads (all_list m) nb" and ?t = "table m"
  note m' = m [unfolded manager_ok_def]
  have wf: "mlt_wf ?t" "mlt_len ?t = N" using m' by (auto simp: table_ok_def)
  obtain r r' V where r: "forM [0..<nb] (relab_load_step (all_list m) (load_total (all_list m) nb) (w_factor * int nb))
      ((relab_start N nb)\<lparr>r_target := map (owner ?t) [0..<N]\<rparr>) = Some r"
    "relab_rounds locks_work N ?t (global_list m) r = Some (Next r')"
    and inv: "relab_inv N nb (owner ?t) ?L V r'" using relab_all_ok [OF m] by blast
  note inv' = inv [unfolded relab_inv_def relab_shape_def]
  have tlen: "length (r_target r') = N" and inv_tg: "\<forall>e < N. r_target r' ! e = owner ?t e \<or>
      (owner ?t e \<in> large ?L \<and> r_target r' ! e \<in> small ?L)" using inv' by blast+
  have own: "0 \<le> owner ?t e \<and> owner ?t e < int nb" if "e < N" for e
    using m' that by (cases "mlt_row ?t e") (force simp: table_ok_def owner_def)
  have tg: "\<forall>e < N. 0 \<le> r_target r' ! e \<and> r_target r' ! e < int nb"
  proof (intro allI impI)
    fix e assume e: "e < N"
    then have "r_target r' ! e = owner ?t e \<or> r_target r' ! e \<in> small ?L" using inv_tg by blast
    then show "0 \<le> r_target r' ! e \<and> r_target r' ! e < int nb"
      using own [OF e] by (auto simp: small_def loads_def)
  qed
  have tok: "table_ok (int nb) ?t" and nb: "int_ok (int nb)" using m' by blast+
  obtain t' where t': "forE [0..<N] (relab_update_step locks_work (r_target r')) ?t = Some (Next t')" "mlt_wf t'"
    "mlt_len t' = N" "\<And>e. e < N \<Longrightarrow> mlt_row t' e = (case relab_decide (r_target r') e (mlt_row ?t e) of
      None \<Rightarrow> mlt_row ?t e | Some r \<Rightarrow> r)"
    using relab_update_ok [OF tok wf(2) nb tlen tg] by blast
  let ?m = "m\<lparr>mean_load := u32_of_int (load_total (all_list m) nb div int nb), table := t'\<rparr>"
  have sums: "sum_loads (all_list m) nb = Some (load_total (all_list m) nb)"
    by (rule sum_loads_ok) (use m' in simp_all)
  have mean: "c_div (load_total (all_list m) nb) (int nb) = Some (load_total (all_list m) nb div int nb)"
    by (rule c_div_pos) (use m' load_total_nonneg in auto)
  have w: "c_int (w_factor * int nb) = Some (w_factor * int nb)" using m' by (simp add: w_factor_def)
  note tgs = relab_targets_ok [OF wf, of nb]
  have run: "manager_calculate_relab_windowed env_fine N (int nb) m = Some (0, ?m)"
    unfolding manager_calculate_relab_windowed_def env_fine_def Let_def
    using tgs sums mean w r t'(1) by (simp add: c_conv)
  moreover have "mlt_row t' e = mlt_row ?t e \<or>
      (\<exists>s v f s'. mlt_row ?t e = (s, v, f) \<and> mlt_row t' e = (s', v + 1, 0) \<and> 0 \<le> s' \<and> s' < int nb \<and>
        0 < rel_load (all_list m) nb (nat s) \<and> rel_load (all_list m) nb (nat s') < 0)" if e: "e < N" for e
  proof -
    obtain s v f where row: "mlt_row ?t e = (s, v, f)" by (cases "mlt_row ?t e")
    then have o: "owner ?t e = s" by (simp add: owner_def)
    show ?thesis
    proof (cases "s = r_target r' ! e")
      case True
      then show ?thesis using t'(4) [OF e] row by (simp add: relab_decide_def)
    next
      case False
      then have "s \<in> large ?L" "r_target r' ! e \<in> small ?L" using inv_tg e o by metis+
      then show ?thesis
        using t'(4) [OF e] row False by (auto simp: relab_decide_def large_def small_def loads_def)
    qed
  qed
  ultimately show ?thesis using t'(2,3) by (intro exI [of _ ?m]) simp
qed

section \<open>The manager meets the contract of its main loop\<close>

lemma relab_keeps_inv:
  assumes inv: "manager_inv N nb k m" and k: "k < INT_MAX"
  shows "\<exists>m'. manager_calculate_relab_windowed env_fine N (int nb) m = Some (0, m') \<and>
    manager_inv N nb (k + 1) m' \<and> epoch m' = epoch m \<and> epoch_processed m' = epoch_processed m"
proof -
  obtain m' where m': "manager_calculate_relab_windowed env_fine N (int nb) m = Some (0, m')"
    "m' = m\<lparr>mean_load := u32_of_int (load_total (all_list m) nb div int nb), table := table m'\<rparr>"
    "mlt_wf (table m')" "mlt_len (table m') = N"
    "\<And>e. e < N \<Longrightarrow> mlt_row (table m') e = mlt_row (table m) e \<or>
       (\<exists>s v f s'. mlt_row (table m) e = (s, v, f) \<and> mlt_row (table m') e = (s', v + 1, 0) \<and>
          0 \<le> s' \<and> s' < int nb \<and> 0 < rel_load (all_list m) nb (nat s) \<and> rel_load (all_list m) nb (nat s') < 0)"
    using manager_calculate_relab_windowed_ok [OF manager_inv_ok [OF inv k]] by blast
  have eq: "global_list m' = global_list m" "all_list m' = all_list m" "epoch m' = epoch m"
    "epoch_processed m' = epoch_processed m" by (subst m'(2), simp)+
  have "case mlt_row (table m') e of (s, v, f) \<Rightarrow> 0 \<le> s \<and> s < int nb \<and> v \<le> k + 1" if e: "e < N" for e
    using m'(5) [OF e] inv e by (fastforce simp: manager_inv_def)
  then have "manager_inv N nb (k + 1) m'" using inv m'(3,4) eq by (simp add: manager_inv_def)
  with m'(1) eq show ?thesis by blast
qed

interpretation rw: rebalancer "manager_calculate_relab_windowed env_fine N (int nb)" N nb for N nb
  by unfold_locales (rule relab_keeps_inv)

interpretation rv2: rebalancer "manager_calculate_relab_v2 env_fine N (int nb)" N nb for N nb
  by unfold_locales (simp add: manager_calculate_relab_v2_def relab_keeps_inv)

section \<open>Properties\<close>

text \<open>A small instance, on which the properties are applied: four entries, two servers.\<close>

definition demo_manager :: manager where
  "demo_manager = \<lparr>global_list = [5, 1, 3, 0], table = demo_table [0, 1, 0, 1], all_list = [8, 1],
     mean_load = 0, epoch = 0, epoch_processed = 0\<rparr>"

lemma demo_manager_inv: "manager_inv 4 2 0 demo_manager"
  by code_simp

text \<open>
  C6. With sums in range, the redistribution of \<open>manager_windowed.c\<close> reads and writes inside its
  arrays, returns 0 and publishes the mean load; an entry keeps its row, or it moves from a server
  above the mean to an existing server below the mean, its version grows by one and its flag is 0.
\<close>

lemma calculate_relab_windowed_moves:
  assumes "manager_ok N nb m"
  shows "\<exists>m'. manager_calculate_relab_windowed env_fine N (int nb) m = Some (0, m') \<and>
    m' = m\<lparr>mean_load := u32_of_int (load_total (all_list m) nb div int nb), table := table m'\<rparr> \<and>
    mlt_wf (table m') \<and> mlt_len (table m') = N \<and>
    (\<forall>e < N. mlt_row (table m') e = mlt_row (table m) e \<or>
       (\<exists>s v f s'. mlt_row (table m) e = (s, v, f) \<and> mlt_row (table m') e = (s', v + 1, 0) \<and>
          0 \<le> s' \<and> s' < int nb \<and> 0 < rel_load (all_list m) nb (nat s) \<and> rel_load (all_list m) nb (nat s') < 0))"
  using assms by (rule manager_calculate_relab_windowed_ok)

lemma calculate_relab_windowed_moves_witness:
  "\<exists>m'. manager_calculate_relab_windowed env_fine 4 2 demo_manager = Some (0, m') \<and> mlt_len (table m') = 4"
  using calculate_relab_windowed_moves [OF manager_inv_ok [OF demo_manager_inv]] by (auto simp: INT_MAX_def)

text \<open>
  C27. The accounting of the redistribution: the loads the function works with keep their sum,
  a server above the mean never falls below it and a server below never rises above it.
\<close>

lemma relab_accounting:
  assumes "manager_ok N nb m"
  shows "\<exists>r r'. forM [0..<nb] (relab_load_step (all_list m) (load_total (all_list m) nb) (w_factor * int nb))
      ((relab_start N nb)\<lparr>r_target := map (owner (table m)) [0..<N]\<rparr>) = Some r \<and>
    relab_rounds locks_work N (table m) (global_list m) r = Some (Next r') \<and>
    towards_mean (loads (all_list m) nb) (r_load r') \<and>
    sum_list (r_load r') = sum_list (loads (all_list m) nb)"
  using relab_all_ok [OF assms] by (auto simp: relab_inv_def)

lemma relab_accounting_witness:
  "\<exists>r r'. relab_rounds locks_work 4 (table demo_manager) (global_list demo_manager) r = Some (Next r') \<and>
    sum_list (r_load r') = sum_list (loads (all_list demo_manager) 2)"
  using relab_accounting [OF manager_inv_ok [OF demo_manager_inv]] by (auto simp: INT_MAX_def)

text \<open>One overloaded server with a single entry and two idle ones.\<close>

definition single_entry :: manager where
  "single_entry = \<lparr>global_list = [2], table = demo_table [0], all_list = [9, 0, 0],
     mean_load = 0, epoch = 0, epoch_processed = 0\<rparr>"

text \<open>
  An entry that has been given stays in \<open>subset_srv\<close> and can be given again: with one entry
  of SAI 2 on a server 6 above the mean, both idle servers are accounted 2 and the overloaded one
  is accounted 4 less, while the entry goes to the second of them only.
\<close>

lemma entry_given_twice:
  "map_option (\<lambda>f. (r_target (flow_state f), r_load (flow_state f)))
     (Option.bind (forM [0..<3] (relab_load_step (all_list single_entry) 9 3)
        ((relab_start 1 3)\<lparr>r_target := [0]\<rparr>))
      (relab_rounds locks_work 1 (table single_entry) (global_list single_entry)))
   = Some ([2], [2, -1, -1])"
  by code_simp

text \<open>
  When an idle server is full it is replaced by the last one, which the loop then skips: with
  two entries of SAI 3 on a server 6 above the mean and two servers 3 below, only one entry moves.
\<close>

lemma idle_server_skipped:
  "map_option (\<lambda>(rc, m). (rc, id_srv (table m)))
     (manager_calculate_relab_windowed env_fine 2 3
        \<lparr>global_list = [3, 3], table = demo_table [0, 0], all_list = [9, 0, 0],
         mean_load = 0, epoch = 0, epoch_processed = 0\<rparr>)
   = Some (0, [1, 0])"
  by code_simp

text \<open>
  The process of \<open>manager_windowed.c\<close> has no undefined behaviour, whatever the order of
  messages, signals and failed sends, as long as the messages hold servers in range and levels
  whose sum is an \<open>int\<close>; its table stays well formed and every table it publishes names only
  existing servers.
\<close>

lemma windowed_main_safe:
  assumes "manager_inv N nb 0 m" and "epoch m = 0"
    and "\<forall>ev \<in> set evs. event_ok N nb ev" and "int (length evs) \<le> INT_MAX"
  shows "\<exists>st. manager_windowed_main env_fine N nb evs (main_start m) = Some st \<and>
    manager_inv N nb (int (length evs)) (ms_man st) \<and> (\<forall>msg \<in> set (ms_out st). out_ok N nb msg)"
proof -
  have "main_inv N nb 0 (main_start m)" using assms(1,2) by (simp add: main_inv_def main_start_def)
  from rw.run_ok [OF this _ assms(3)] assms(4) show ?thesis
    by (auto simp: manager_windowed_main_def main_inv_def)
qed

definition demo_events :: "event list" where
  "demo_events = [Arrive (HELP_MSG 0), Loop True, Sigusr2, Arrive (EACL_MSG 0 [5, 0, 3, 0] 8), Loop True,
     Arrive (EACL_MSG 1 [0, 1, 0, 0] 1), Loop True, Arrive (HELP_MSG 1), Loop True]"

lemma windowed_main_safe_witness:
  "\<exists>st. manager_windowed_main env_fine 4 2 demo_events (main_start demo_manager) = Some st \<and>
     manager_inv 4 2 9 (ms_man st)"
proof -
  have "\<forall>ev \<in> set demo_events. event_ok 4 2 ev" "int (length demo_events) = 9" "epoch demo_manager = 0"
    by code_simp+
  with windowed_main_safe [OF demo_manager_inv, of demo_events] show ?thesis by (auto simp: INT_MAX_def)
qed

text \<open>
  The manager asks for the access lists at most once per epoch: in every run, the number of
  requests published is at most the number of the epoch plus one.
\<close>

lemma windowed_asks_once_per_epoch:
  assumes "epoch m = 0" and "manager_windowed_main E N nb evs (main_start m) = Some st"
  shows "int (length (filter is_ask (ms_out st))) \<le> epoch (ms_man st) + 1"
proof -
  have k: "keeps_epoch (manager_calculate_relab_windowed E N (int nb))"
    by (auto simp: keeps_epoch_def manager_calculate_relab_windowed_def Let_def
        split: if_splits bind_splits flow.splits)
  have "asks_inv (main_start m)"
    using assms(1) by (simp add: asks_inv_def may_ask_def asks_def main_start_def)
  from main_run_asks [OF k this] assms(2) have "asks_inv st" by (simp add: manager_windowed_main_def)
  then show ?thesis by (auto simp: asks_inv_def asks_def may_ask_def split: pc.splits if_splits)
qed

lemma windowed_asks_once_per_epoch_witness:
  "\<exists>st. manager_windowed_main env_fine 4 2 demo_events (main_start demo_manager) = Some st \<and>
     int (length (filter is_ask (ms_out st))) \<le> epoch (ms_man st) + 1"
proof -
  obtain st where "manager_windowed_main env_fine 4 2 demo_events (main_start demo_manager) = Some st"
    by (cases "manager_windowed_main env_fine 4 2 demo_events (main_start demo_manager)") (code_simp, blast)
  moreover have "epoch demo_manager = 0" by code_simp
  ultimately show ?thesis using windowed_asks_once_per_epoch by blast
qed

text \<open>
  An epoch that starts while the manager collects the access lists is lost: the end of the
  redistribution marks the new epoch as processed, and the help message of that epoch is dropped
  without a request (one request is published although the epoch is 1).
\<close>

lemma epoch_lost_during_collection:
  "map_option (\<lambda>st. (ms_pc st, epoch (ms_man st), epoch_processed (ms_man st), ms_in st, filter is_ask (ms_out st)))
     (manager_windowed_main env_fine 4 2 demo_events (main_start demo_manager))
   = Some (Waiting, 1, 1, [], [ASK_MSG 0])"
  by code_simp

end
