(* ===== verification/Relab_Loads.thy ===== *)
theory Relab_Loads
  imports Manager_Protocol
begin

text \<open>
  The redistribution of \<open>manager_dh.c\<close> and \<open>manager_indedh.c\<close>: every overloaded server gives
  its surplus to one idle server. The functions below are the part of
  \<open>manager_calculate_relab\<close> that the two files share, from the relative loads on.
\<close>

section \<open>The code\<close>

text \<open>
  \<open>d_l\<close> holds loads, \<open>d_s\<close> indices of servers, \<open>d_target\<close> the server each server gives to,
  \<open>d_c\<close> the loads chosen for one idle server.
\<close>

record relab_dh =
  d_load :: "int list"
  d_l :: "int list"
  d_nl :: int
  d_s :: "int list"
  d_ns :: int
  d_target :: "int list"
  d_c :: "int list"

text \<open>The index of the first element that is equal to the value, or -1.\<close>

fun find_index_from :: "int \<Rightarrow> int list \<Rightarrow> nat list \<Rightarrow> int option" where
  "find_index_from v xs [] = Some (-1)"
| "find_index_from v xs (i # is) = do { x \<leftarrow> rd xs i; if x = v then Some (int i) else find_index_from v xs is }"

definition find_index :: "int \<Rightarrow> int list \<Rightarrow> int \<Rightarrow> int option" where
  "find_index v xs list_size = find_index_from v xs [0..<nat list_size]"

text \<open>A server goes into the subset of its sign.\<close>

definition classify :: "nat \<Rightarrow> int \<Rightarrow> relab_dh \<Rightarrow> relab_dh option" where
  "classify i v r = do {
     load \<leftarrow> wr (d_load r) i v;
     let r = r\<lparr>d_load := load\<rparr>;
     if v > 0 then do {
       l \<leftarrow> wri (d_l r) (d_nl r) v;
       Some (r\<lparr>d_l := l, d_nl := d_nl r + 1\<rparr>)
     } else if v < 0 then do {
       s \<leftarrow> wri (d_s r) (d_ns r) (int i);
       Some (r\<lparr>d_s := s, d_ns := d_ns r + 1\<rparr>)
     } else Some r
   }"

text \<open>The loop that removes one load from \<open>subset_l\<close>; it is left after the first match.\<close>

fun remove_load :: "int \<Rightarrow> nat list \<Rightarrow> relab_dh \<Rightarrow> relab_dh option" where
  "remove_load v [] r = Some r"
| "remove_load v (i # is) r = do {
     x \<leftarrow> rd (d_l r) i;
     if x = v then do {
       y \<leftarrow> rdi (d_l r) (d_nl r - 1);
       l \<leftarrow> wr (d_l r) i y;
       Some (r\<lparr>d_l := l, d_nl := d_nl r - 1\<rparr>)
     } else remove_load v is r
   }"

definition assign_step :: "nat \<Rightarrow> int \<Rightarrow> nat \<Rightarrow> relab_dh \<Rightarrow> relab_dh option" where
  "assign_step nb s k r = do {
     c \<leftarrow> rd (d_c r) k;
     index \<leftarrow> find_index c (d_load r) (int nb);
     target \<leftarrow> wri (d_target r) index s;
     let r = r\<lparr>d_target := target\<rparr>;
     remove_load c [0..<nat (d_nl r)] r
   }"

definition assign_idle :: "nat \<Rightarrow> nat \<Rightarrow> relab_dh \<Rightarrow> relab_dh option" where
  "assign_idle nb srv_in_s r = do {
     s \<leftarrow> rd (d_s r) srv_in_s;
     ls \<leftarrow> rdi (d_load r) s;
     (size_c, l, c) \<leftarrow> manager_balance_load_dh ls (d_l r) (d_nl r) 0 (d_c r);
     forM [0..<nat size_c] (assign_step nb s) (r\<lparr>d_l := l, d_c := c\<rparr>)
   }"

text \<open>Which idle server receives from which overloaded ones.\<close>

definition assign_targets :: "nat \<Rightarrow> relab_dh \<Rightarrow> relab_dh option" where
  "assign_targets nb r =
     forM [0..<nat (d_ns r)] (assign_idle nb)
       (r\<lparr>d_target := map int [0..<nb], d_c := replicate (nat (d_nl r)) 0\<rparr>)"

text \<open>The SAI of the entries of a server, collected in \<open>subset_srv\<close>.\<close>

definition server_sai ::
  "lock_env \<Rightarrow> nat \<Rightarrow> mlt \<Rightarrow> u32 list \<Rightarrow> int \<Rightarrow> (int list \<times> int) flow option" where
  "server_sai E N t G current_srv = forE [0..<N] (\<lambda>e (xs, n). do {
     row \<leftarrow> mlt_read E t e;
     case row of
       None \<Rightarrow> Some (Leave (xs, n))
     | Some (srv, version, state) \<Rightarrow>
         if srv = current_srv then do {
           g \<leftarrow> rd G e;
           xs \<leftarrow> wri xs n (int_of_u32 g);
           Some (Next (xs, n + 1))
         } else Some (Next (xs, n))
   }) (replicate N 0, 0)"

text \<open>Every entry of the server with this SAI goes to the target.\<close>

definition move_step :: "lock_env \<Rightarrow> u32 list \<Rightarrow> int \<Rightarrow> int \<Rightarrow> int \<Rightarrow> nat \<Rightarrow> mlt \<Rightarrow> mlt flow option" where
  "move_step E G current_srv target sai e t = do {
     g \<leftarrow> rd G e;
     if g = u32_of_int sai then do {
       row \<leftarrow> mlt_read E t e;
       case row of
         None \<Rightarrow> Some (Leave t)
       | Some (srv, version, state) \<Rightarrow>
           if srv = current_srv then do {
             v \<leftarrow> c_int (version + 1);
             mlt_write E t e target v 0
           } else Some (Next t)
     } else Some (Next t)
   }"

definition move_sai :: "lock_env \<Rightarrow> nat \<Rightarrow> u32 list \<Rightarrow> int \<Rightarrow> int \<Rightarrow> int list \<Rightarrow> nat \<Rightarrow> mlt \<Rightarrow> mlt flow option" where
  "move_sai E N G current_srv target xs k t = do {
     sai \<leftarrow> rd xs k;
     forE [0..<N] (move_step E G current_srv target sai) t
   }"

text \<open>What one overloaded server gives; \<open>al\<close> says whether the two allocations succeed.\<close>

definition move_server ::
  "manager_env \<Rightarrow> nat \<Rightarrow> u32 list \<Rightarrow> relab_dh \<Rightarrow> nat \<Rightarrow> mlt \<Rightarrow> mlt flow option" where
  "move_server E N G r current_srv t = do {
     ld \<leftarrow> rd (d_load r) current_srv;
     target \<leftarrow> rd (d_target r) current_srv;
     if ld > 0 \<and> target \<noteq> int current_srv then
       if \<not> m_alloc E 10 then Some (Leave t)
       else do {
         f \<leftarrow> server_sai (m_lock E) N t G (int current_srv);
         case f of
           Leave s \<Rightarrow> Some (Leave t)
         | Next (subset_srv, size_srv) \<Rightarrow>
             if \<not> m_alloc E 11 then Some (Leave t)
             else do {
               (size_sai, subset_srv, subset_sai) \<leftarrow>
                 manager_balance_load_dh 0 subset_srv size_srv ld (replicate (nat size_srv) 0);
               forE [0..<nat size_sai] (move_sai (m_lock E) N G (int current_srv) target subset_sai) t
             }
       }
     else Some (Next t)
   }"

text \<open>From the relative loads to the updated table.\<close>

definition relab_tail ::
  "manager_env \<Rightarrow> nat \<Rightarrow> nat \<Rightarrow> u32 list \<Rightarrow> mlt \<Rightarrow> relab_dh \<Rightarrow> mlt flow option" where
  "relab_tail E N nb G t r =
     (if \<not> m_alloc E 4 then Some (Leave t)
      else if \<not> m_alloc E 5 then Some (Leave t)
      else do {
        r \<leftarrow> assign_targets nb r;
        forE [0..<nb] (move_server E N G r) t
      })"

definition relab_dh_start :: "nat \<Rightarrow> relab_dh" where
  "relab_dh_start nb = \<lparr>d_load = replicate nb 0, d_l = replicate nb 0, d_nl = 0, d_s = replicate nb 0,
     d_ns = 0, d_target = [], d_c = []\<rparr>"

section \<open>Finding and removing a load\<close>

lemma find_index_from_ok:
  "v \<in> (!) xs ` set is \<Longrightarrow> (\<forall>i \<in> set is. i < length xs) \<Longrightarrow>
   \<exists>i \<in> set is. find_index_from v xs is = Some (int i) \<and> xs ! i = v"
  by (induction "is") (auto simp: arr_simps)

lemma find_index_ok:
  assumes "v \<in> set xs" and "length xs = nb"
  shows "\<exists>i < nb. find_index v xs (int nb) = Some (int i) \<and> xs ! i = v"
proof -
  have "v \<in> (!) xs ` set [0..<nb]" using assms by (auto simp: in_set_conv_nth)
  from find_index_from_ok [OF this] assms(2) show ?thesis by (auto simp: find_index_def)
qed

text \<open>The value that is not there is found at -1, outside the array.\<close>

lemma find_index_none: "v \<notin> set xs \<Longrightarrow> find_index v xs (int (length xs)) = Some (-1)"
proof -
  assume v: "v \<notin> set xs"
  have "(\<forall>i \<in> set is. i < length xs) \<Longrightarrow> find_index_from v xs is = Some (-1)" for "is"
    using v by (induction "is") (auto simp: arr_simps in_set_conv_nth)
  then show ?thesis by (simp add: find_index_def)
qed

abbreviation live_l :: "relab_dh \<Rightarrow> int list" where
  "live_l r \<equiv> take (nat (d_nl r)) (d_l r)"

lemma remove_load_ok:
  assumes "\<forall>i \<in> set is. int i < d_nl r" and "d_nl r \<le> int (length (d_l r))"
  shows "\<exists>l n. remove_load v is r = Some (r\<lparr>d_l := l, d_nl := n\<rparr>) \<and> length l = length (d_l r) \<and>
    n \<le> d_nl r \<and> (0 \<le> d_nl r \<longrightarrow> 0 \<le> n) \<and> set (take (nat n) l) \<subseteq> set (live_l r)"
  using assms
proof (induction "is")
  case Nil
  then show ?case by (intro exI [of _ "d_l r"] exI [of _ "d_nl r"]) simp
next
  case (Cons i "is")
  then have i: "i < length (d_l r)" "int i < d_nl r" by auto
  show ?case
  proof (cases "d_l r ! i = v")
    case True
    have "set (take (nat (d_nl r - 1)) ((d_l r)[i := d_l r ! nat (d_nl r - 1)])) \<subseteq> set (live_l r)"
      using drop_from_set(1) [OF i(2) Cons.prems(2)] .
    then show ?thesis
      using True i Cons.prems(2)
      by (intro exI [of _ "(d_l r)[i := d_l r ! nat (d_nl r - 1)]"] exI [of _ "d_nl r - 1"])
        (simp add: arr_simps)
  next
    case False
    then show ?thesis using Cons i by (simp add: arr_simps)
  qed
qed

section \<open>Which server gives to which\<close>

text \<open>
  The invariant of the assignment, for the loads \<open>load0\<close>: the subsets hold positive loads of
  servers and idle servers, and a server gives to itself or, above the mean, to an idle one.
\<close>

definition target_ok :: "int list \<Rightarrow> int list \<Rightarrow> bool" where
  "target_ok load0 tg \<longleftrightarrow> length tg = length load0 \<and>
     (\<forall>i < length load0. tg ! i = int i \<or> (0 < load0 ! i \<and> tg ! i \<in> small load0))"

definition assign_inv :: "int list \<Rightarrow> relab_dh \<Rightarrow> bool" where
  "assign_inv load0 r \<longleftrightarrow> d_load r = load0 \<and> length (d_s r) = length load0 \<and>
     0 \<le> d_ns r \<and> d_ns r \<le> int (length load0) \<and> set (take (nat (d_ns r)) (d_s r)) \<subseteq> small load0 \<and>
     0 \<le> d_nl r \<and> d_nl r \<le> int (length (d_l r)) \<and> d_nl r \<le> int (length (d_c r)) \<and>
     (\<forall>x \<in> set (live_l r). 0 < x \<and> x \<in> set load0) \<and> target_ok load0 (d_target r)"

lemma assign_step_ok:
  assumes inv: "assign_inv load0 r" and s: "s \<in> small load0" and k: "k < length (d_c r)"
    and c: "0 < d_c r ! k" "d_c r ! k \<in> set load0"
  shows "\<exists>r'. assign_step (length load0) s k r = Some r' \<and> assign_inv load0 r' \<and> d_c r' = d_c r \<and>
    d_s r' = d_s r \<and> d_ns r' = d_ns r"
proof -
  note inv' = inv [unfolded assign_inv_def]
  obtain i where i: "i < length load0" "find_index (d_c r ! k) load0 (int (length load0)) = Some (int i)"
    "load0 ! i = d_c r ! k" using find_index_ok [OF c(2)] by auto
  let ?r = "r\<lparr>d_target := (d_target r)[i := s]\<rparr>"
  have idx: "\<forall>i \<in> set [0..<nat (d_nl ?r)]. int i < d_nl ?r" by (simp add: zless_nat_eq_int_zless)
  have cap: "d_nl ?r \<le> int (length (d_l ?r))" using inv' by simp
  obtain l n where rem: "remove_load (d_c r ! k) [0..<nat (d_nl ?r)] ?r = Some (?r\<lparr>d_l := l, d_nl := n\<rparr>)"
    "length l = length (d_l r)" "n \<le> d_nl r" "0 \<le> n" "set (take (nat n) l) \<subseteq> set (live_l r)"
    using remove_load_ok [OF idx cap, of "d_c r ! k"] inv' by auto
  have "assign_step (length load0) s k r = Some (?r\<lparr>d_l := l, d_nl := n\<rparr>)"
    using inv' k i rem(1) by (simp add: assign_step_def arr_simps target_ok_def)
  moreover have "assign_inv load0 (?r\<lparr>d_l := l, d_nl := n\<rparr>)"
    using inv' i rem c s by (auto simp: assign_inv_def target_ok_def nth_list_update)
  ultimately show ?thesis by auto
qed

lemma assign_idle_ok:
  assumes inv: "assign_inv load0 r" and bound: "\<forall>i < length load0. \<bar>load0 ! i\<bar> \<le> INT_MAX"
    and k: "int k < d_ns r"
  shows "\<exists>r'. assign_idle (length load0) k r = Some r' \<and> assign_inv load0 r' \<and> d_ns r' = d_ns r"
proof -
  note inv' = inv [unfolded assign_inv_def]
  let ?n = "nat (d_nl r)"
  have kl: "k < length (d_s r)" "k < nat (d_ns r)" using inv' k by auto
  have "d_s r ! k \<in> set (take (nat (d_ns r)) (d_s r))" using kl by (auto simp: in_set_conv_nth intro!: exI [of _ k])
  then have s: "d_s r ! k \<in> small load0" using inv' by blast
  let ?s = "d_s r ! k"
  have ls: "load0 ! nat ?s < 0" "- INT_MAX \<le> load0 ! nat ?s" "0 \<le> ?s" "nat ?s < length load0"
    using s bound by (auto simp: small_def abs_le_iff)
  have in_bound: "x \<le> INT_MAX" if "x \<in> set load0" for x
    using bound that by (force simp: in_set_conv_nth abs_le_iff)
  have "\<exists>idx ys sub. manager_balance_load_dh (load0 ! nat ?s) (d_l r) (d_nl r) 0 (d_c r) = Some (idx, ys, sub) \<and>
    same_prefix ?n (d_l r) ys \<and> length sub = length (d_c r) \<and> 0 \<le> idx \<and> idx \<le> int ?n \<and>
    chosen idx sub = balance (\<lambda>x. x) (load0 ! nat ?s) 0 (take ?n ys)"
    by (rule balance_load_dh_ok) (use inv' ls in_bound in \<open>auto simp: INT_MAX_def INT_MIN_def nat_le_iff\<close>)
  then obtain idx ys sub where b: "manager_balance_load_dh (load0 ! nat ?s) (d_l r) (d_nl r) 0 (d_c r) = Some (idx, ys, sub)"
    "same_prefix ?n (d_l r) ys" "length sub = length (d_c r)" "0 \<le> idx" "idx \<le> int ?n"
    "chosen idx sub = balance (\<lambda>x. x) (load0 ! nat ?s) 0 (take ?n ys)" by blast
  let ?r = "r\<lparr>d_l := ys, d_c := sub\<rparr>"
  have inv1: "assign_inv load0 ?r"
    using inv' b(2,3) same_prefix_set [OF b(2)] by (simp add: assign_inv_def same_prefix_def)
  have c: "0 < sub ! j \<and> sub ! j \<in> set load0 \<and> j < length sub" if "j < nat idx" for j
  proof -
    have len: "j < length sub" using that b(3,5) inv' by auto
    then have "sub ! j \<in> set (chosen idx sub)"
      using that by (auto simp: chosen_def in_set_conv_nth intro!: exI [of _ j])
    then have "sub ! j \<in> set (live_l r)"
      using b(6) balance_set same_prefix_set [OF b(2)] by metis
    then show ?thesis using inv' len by blast
  qed
  have "\<exists>r'. forM [0..<nat idx] (assign_step (length load0) ?s) ?r = Some r' \<and>
    (assign_inv load0 r' \<and> d_c r' = sub \<and> d_ns r' = d_ns r)"
  proof (rule forM_upt_rule [where P = "\<lambda>j r'. assign_inv load0 r' \<and> d_c r' = sub \<and> d_ns r' = d_ns r"])
    fix j r' assume "j < nat idx" "assign_inv load0 r' \<and> d_c r' = sub \<and> d_ns r' = d_ns r"
    then show "\<exists>t'. assign_step (length load0) ?s j r' = Some t' \<and> assign_inv load0 t' \<and> d_c t' = sub \<and> d_ns t' = d_ns r"
      using assign_step_ok [of load0 r' ?s j] s c [of j] by fastforce
  qed (use inv1 in simp)
  then show ?thesis using b(1) kl ls inv' by (auto simp: assign_idle_def arr_simps)
qed

text \<open>The state after the loop over the servers: the loads and the two subsets.\<close>

definition classified :: "int list \<Rightarrow> relab_dh \<Rightarrow> bool" where
  "classified load0 r \<longleftrightarrow> d_load r = load0 \<and> length (d_s r) = length load0 \<and> length (d_l r) = length load0 \<and>
     0 \<le> d_ns r \<and> d_ns r \<le> int (length load0) \<and> set (take (nat (d_ns r)) (d_s r)) \<subseteq> small load0 \<and>
     0 \<le> d_nl r \<and> d_nl r \<le> int (length load0) \<and> (\<forall>x \<in> set (live_l r). 0 < x \<and> x \<in> set load0)"

lemma assign_targets_ok:
  assumes c: "classified load0 r" and bound: "\<forall>i < length load0. \<bar>load0 ! i\<bar> \<le> INT_MAX"
  shows "\<exists>r'. assign_targets (length load0) r = Some r' \<and> d_load r' = load0 \<and> target_ok load0 (d_target r')"
proof -
  let ?r = "r\<lparr>d_target := map int [0..<length load0], d_c := replicate (nat (d_nl r)) 0\<rparr>"
  have start: "assign_inv load0 ?r" using c by (simp add: classified_def assign_inv_def target_ok_def)
  have "\<exists>r'. forM [0..<nat (d_ns r)] (assign_idle (length load0)) ?r = Some r' \<and>
    (assign_inv load0 r' \<and> d_ns r' = d_ns r)"
  proof (rule forM_upt_rule [where P = "\<lambda>j r'. assign_inv load0 r' \<and> d_ns r' = d_ns r"])
    fix j r' assume j: "j < nat (d_ns r)" and r': "assign_inv load0 r' \<and> d_ns r' = d_ns r"
    then have "int j < d_ns r'" by (simp add: zless_nat_eq_int_zless)
    from assign_idle_ok [OF _ bound this] r'
    show "\<exists>t'. assign_idle (length load0) j r' = Some t' \<and> assign_inv load0 t' \<and> d_ns t' = d_ns r" by auto
  qed (use start in simp)
  then show ?thesis by (auto simp: assign_targets_def assign_inv_def)
qed

text \<open>\<open>classify\<close> over all servers.\<close>

lemma classify_loop_ok:
  assumes step: "\<And>i r. i < nb \<Longrightarrow> body i r = classify i (f i) r"
  shows "\<exists>r. forM [0..<nb] body (relab_dh_start nb) = Some r \<and> classified (map f [0..<nb]) r"
proof -
  let ?L = "map f [0..<nb]"
  define P where "P k r \<longleftrightarrow> length (d_load r) = nb \<and> length (d_l r) = nb \<and> length (d_s r) = nb \<and>
    (\<forall>i < k. d_load r ! i = f i) \<and> 0 \<le> d_nl r \<and> d_nl r \<le> int k \<and> 0 \<le> d_ns r \<and> d_ns r \<le> int k \<and>
    (\<forall>x \<in> set (live_l r). 0 < x \<and> x \<in> set ?L) \<and> set (take (nat (d_ns r)) (d_s r)) \<subseteq> small ?L" for k r
  have "\<exists>r. forM [0..<nb] body (relab_dh_start nb) = Some r \<and> P nb r"
  proof (rule forM_upt_rule)
    show "P 0 (relab_dh_start nb)" by (simp add: P_def relab_dh_start_def)
  next
    fix k r
    assume k: "k < nb" and P: "P k r"
    note P' = P [unfolded P_def]
    have v: "f k \<in> set ?L" using k by auto
    consider "0 < f k" | "f k < 0" | "f k = 0" by linarith
    then show "\<exists>r'. body k r = Some r' \<and> P (Suc k) r'"
    proof cases
      case 1
      have n: "nat (d_nl r) < length (d_l r)" using P' k by auto
      let ?r = "r\<lparr>d_load := (d_load r)[k := f k], d_l := (d_l r)[nat (d_nl r) := f k], d_nl := d_nl r + 1\<rparr>"
      have "take (nat (d_nl r + 1)) ((d_l r)[nat (d_nl r) := f k]) = live_l r @ [f k]"
        using P' n by (simp add: nat_add_distrib take_Suc_conv_app_nth)
      then have "P (Suc k) ?r"
        using P' k v 1 unfolding P_def by (auto simp: nth_list_update less_Suc_eq)
      moreover have "body k r = Some ?r" using step [OF k] P' k n 1 by (simp add: classify_def arr_simps)
      ultimately show ?thesis by blast
    next
      case 2
      have n: "nat (d_ns r) < length (d_s r)" using P' k by auto
      let ?r = "r\<lparr>d_load := (d_load r)[k := f k], d_s := (d_s r)[nat (d_ns r) := int k], d_ns := d_ns r + 1\<rparr>"
      have "take (nat (d_ns r + 1)) ((d_s r)[nat (d_ns r) := int k]) = take (nat (d_ns r)) (d_s r) @ [int k]"
        using P' n by (simp add: nat_add_distrib take_Suc_conv_app_nth)
      moreover have "int k \<in> small ?L" using 2 k by (simp add: small_def)
      ultimately have "P (Suc k) ?r"
        using P' k unfolding P_def by (auto simp: nth_list_update less_Suc_eq)
      moreover have "body k r = Some ?r" using step [OF k] P' k n 2 by (simp add: classify_def arr_simps)
      ultimately show ?thesis by blast
    next
      case 3
      let ?r = "r\<lparr>d_load := (d_load r)[k := f k]\<rparr>"
      have "P (Suc k) ?r" using P' k unfolding P_def by (auto simp: nth_list_update less_Suc_eq)
      moreover have "body k r = Some ?r" using step [OF k] P' k 3 by (simp add: classify_def arr_simps)
      ultimately show ?thesis by blast
    qed
  qed
  then obtain r where r: "forM [0..<nb] body (relab_dh_start nb) = Some r" "P nb r" by blast
  have "d_load r = ?L" using r(2) by (intro nth_equalityI) (auto simp: P_def)
  with r show ?thesis by (simp add: P_def classified_def)
qed

section \<open>Moving the entries\<close>

text \<open>
  A row is unchanged, or its entry has moved once: from a server above the mean to one below,
  with the next version number.
\<close>

definition moved :: "int list \<Rightarrow> int \<times> int \<times> int \<Rightarrow> int \<times> int \<times> int \<Rightarrow> bool" where
  "moved load0 row row' \<longleftrightarrow> row' = row \<or> (case row of (s, v, f) \<Rightarrow>
     \<exists>s'. row' = (s', v + 1, 0) \<and> s \<in> large load0 \<and> s' \<in> small load0)"

definition move_inv :: "nat \<Rightarrow> int list \<Rightarrow> mlt \<Rightarrow> mlt \<Rightarrow> bool" where
  "move_inv N load0 t0 t \<longleftrightarrow> mlt_wf t \<and> mlt_len t = N \<and>
     (\<forall>e < N. moved load0 (mlt_row t0 e) (mlt_row t e))"

definition move_ctx :: "nat \<Rightarrow> int list \<Rightarrow> u32 list \<Rightarrow> mlt \<Rightarrow> bool" where
  "move_ctx N load0 G t0 \<longleftrightarrow> table_ok (int (length load0)) t0 \<and> mlt_len t0 = N \<and> length G = N \<and>
     int_ok (int (length load0)) \<and> (\<forall>i < length load0. \<bar>load0 ! i\<bar> \<le> INT_MAX) \<and>
     (\<forall>e < N. \<forall>i < length load0. \<bar>load0 ! i\<bar> + uint (G ! e) \<le> INT_MAX)"

lemma small_row: "s \<in> small load0 \<Longrightarrow> int_ok (int (length load0)) \<Longrightarrow> 0 \<le> s \<and> int_ok s"
  by (auto simp: small_def int_ok_def INT_MIN_def)

lemma move_step_ok:
  assumes ctx: "move_ctx N load0 G t0" and inv: "move_inv N load0 t0 t" and e: "e < N"
    and cs: "cs \<in> large load0" and tg: "tg \<in> small load0"
  shows "\<exists>t'. move_step locks_work G cs tg sai e t = Some (Next t') \<and> move_inv N load0 t0 t'"
proof -
  obtain s v f where row: "mlt_row t e = (s, v, f)" by (cases "mlt_row t e")
  have wf: "mlt_wf t" "e < mlt_len t" "e < length G" using inv ctx e by (auto simp: move_inv_def move_ctx_def)
  show ?thesis
  proof (cases "G ! e = u32_of_int sai \<and> s = cs")
    case False
    then show ?thesis using wf row inv by (auto simp: move_step_def arr_simps mlt_read_in)
  next
    case True
    have disj: "cs \<notin> small load0" using cs by (auto simp: large_def small_def)
    moreover have "moved load0 (mlt_row t0 e) (cs, v, f)"
      using inv e row True by (auto simp: move_inv_def)
    ultimately have row0: "mlt_row t0 e = (cs, v, f)"
      by (cases "mlt_row t0 e") (auto simp: moved_def)
    have v: "int_ok (v + 1)"
      using ctx e row0 mlt_row_int_ok [OF row] by (auto simp: move_ctx_def table_ok_def int_ok_def)
    have ok: "row_ok (tg, v + 1, 0)"
      using small_row [OF tg] ctx v by (simp add: row_ok.simps move_ctx_def)
    have "move_step locks_work G cs tg sai e t = Some (Next (mlt_put t e (tg, v + 1, 0)))"
      using wf row True v ok by (simp add: move_step_def arr_simps mlt_read_in mlt_write_in c_conv)
    moreover have "move_inv N load0 t0 (mlt_put t e (tg, v + 1, 0))"
      using inv row0 cs tg ok by (auto simp: move_inv_def mlt_row_put moved_def)
    ultimately show ?thesis by blast
  qed
qed

lemma server_sai_ok:
  assumes ctx: "move_ctx N load0 G t0" and inv: "move_inv N load0 t0 t"
    and g: "i < length load0" "goal = \<bar>load0 ! i\<bar>"
  shows "\<exists>xs n. server_sai locks_work N t G cs = Some (Next (xs, n)) \<and> length xs = N \<and> 0 \<le> n \<and> n \<le> int N \<and>
    (\<forall>x \<in> set (take (nat n) xs). 0 \<le> x \<and> goal + x \<le> INT_MAX)"
proof -
  define P where "P k s \<longleftrightarrow> (\<exists>xs n. s = (xs, n) \<and> length xs = N \<and> 0 \<le> n \<and> n \<le> int k \<and>
    (\<forall>x \<in> set (take (nat n) xs). 0 \<le> x \<and> goal + x \<le> INT_MAX))" for k s
  have "\<exists>s. server_sai locks_work N t G cs = Some (Next s) \<and> P N s"
    unfolding server_sai_def
  proof (rule forE_upt_rule)
    show "P 0 (replicate N 0, 0)" by (simp add: P_def)
  next
    fix e s
    assume e: "e < N" and "P e s"
    then obtain xs n where s: "s = (xs, n)" and xs: "length xs = N" "0 \<le> n" "n \<le> int e"
      "\<forall>x \<in> set (take (nat n) xs). 0 \<le> x \<and> goal + x \<le> INT_MAX" by (auto simp: P_def)
    obtain sv v f where row: "mlt_row t e = (sv, v, f)" by (cases "mlt_row t e")
    have rd: "mlt_read locks_work t e = Some (Some (sv, v, f))" "e < length G"
      using inv ctx e row by (auto simp: move_inv_def move_ctx_def mlt_read_in)
    have gb: "goal + uint (G ! e) \<le> INT_MAX" "uint (G ! e) \<le> INT_MAX"
    proof -
      show "goal + uint (G ! e) \<le> INT_MAX" using ctx e g by (simp add: move_ctx_def)
      moreover have "0 \<le> goal" using g by simp
      ultimately show "uint (G ! e) \<le> INT_MAX" by linarith
    qed
    have n: "nat n < length xs" using xs e by simp
    have "take (nat (n + 1)) (xs[nat n := uint (G ! e)]) = take (nat n) xs @ [uint (G ! e)]"
      using n xs(2) by (simp add: nat_add_distrib take_Suc_conv_app_nth)
    then have P1: "P (Suc e) (xs[nat n := uint (G ! e)], n + 1)" using xs gb by (auto simp: P_def)
    have P0: "P (Suc e) (xs, n)" using xs by (auto simp: P_def)
    show "\<exists>t'. (case s of (xs, n) \<Rightarrow> do {
       row \<leftarrow> mlt_read locks_work t e;
       case row of
         None \<Rightarrow> Some (Leave (xs, n))
       | Some (srv, version, state) \<Rightarrow>
           if srv = cs then do {
             g \<leftarrow> rd G e;
             xs \<leftarrow> wri xs n (int_of_u32 g);
             Some (Next (xs, n + 1))
           } else Some (Next (xs, n))
       }) = Some (Next t') \<and> P (Suc e) t'"
      using rd s n xs P0 P1 gb by (cases "sv = cs") (auto simp: arr_simps int_of_u32_small)
  qed
  then show ?thesis by (auto simp: P_def)
qed

lemma move_server_ok:
  assumes ctx: "move_ctx N load0 G t0" and inv: "move_inv N load0 t0 t"
    and r: "d_load r = load0" "target_ok load0 (d_target r)" and cs: "cs < length load0"
  shows "\<exists>t'. move_server env_fine N G r cs t = Some (Next t') \<and> move_inv N load0 t0 t'"
proof -
  let ?tg = "d_target r ! cs" and ?ld = "load0 ! cs"
  have len: "length (d_target r) = length load0" using r by (simp add: target_ok_def)
  show ?thesis
  proof (cases "0 < ?ld \<and> ?tg \<noteq> int cs")
    case False
    then have "move_server env_fine N G r cs t = Some (Next t)"
      using r cs len by (auto simp: move_server_def arr_simps)
    then show ?thesis using inv by blast
  next
    case True
    then have tg: "?tg \<in> small load0" and lg: "int cs \<in> large load0"
      using r(2) cs by (auto simp: target_ok_def large_def)
    obtain xs n where xs: "server_sai locks_work N t G (int cs) = Some (Next (xs, n))" "length xs = N" "0 \<le> n" "n \<le> int N"
      "\<forall>x \<in> set (take (nat n) xs). 0 \<le> x \<and> ?ld + x \<le> INT_MAX"
      using server_sai_ok [OF ctx inv cs refl, of "int cs"] True by auto
    have "\<exists>idx ys sub. manager_balance_load_dh 0 xs n ?ld (replicate (nat n) 0) = Some (idx, ys, sub) \<and>
      same_prefix (nat n) xs ys \<and> length sub = length (replicate (nat n) (0 :: int)) \<and> 0 \<le> idx \<and> idx \<le> int (nat n) \<and>
      chosen idx sub = balance (\<lambda>x. x) 0 ?ld (take (nat n) ys)"
      by (rule balance_load_dh_ok) (use xs True in \<open>auto simp: INT_MIN_def\<close>)
    then obtain idx ys sub where b: "manager_balance_load_dh 0 xs n ?ld (replicate (nat n) 0) = Some (idx, ys, sub)"
      "length sub = nat n" "idx \<le> int (nat n)" by auto
    have "\<exists>t'. forE [0..<nat idx] (move_sai locks_work N G (int cs) ?tg sub) t = Some (Next t') \<and> move_inv N load0 t0 t'"
    proof (rule forE_upt_rule [where P = "\<lambda>_. move_inv N load0 t0"])
      fix k u assume k: "k < nat idx" and u: "move_inv N load0 t0 u"
      have "\<exists>t'. forE [0..<N] (move_step locks_work G (int cs) ?tg (sub ! k)) u = Some (Next t') \<and> move_inv N load0 t0 t'"
        by (rule forE_upt_rule [where P = "\<lambda>_. move_inv N load0 t0"], rule u, rule move_step_ok [OF ctx _ _ lg tg])
      moreover have "k < length sub" using k b by (simp split: if_splits)
      ultimately show "\<exists>t'. move_sai locks_work N G (int cs) ?tg sub k u = Some (Next t') \<and> move_inv N load0 t0 t'"
        by (simp add: move_sai_def arr_simps)
    qed (rule inv)
    then show ?thesis
      using True r cs len xs(1) b(1) by (auto simp: move_server_def arr_simps env_fine_def)
  qed
qed

lemma relab_tail_ok:
  assumes ctx: "move_ctx N load0 G t0" and r: "classified load0 r" and nb: "nb = length load0"
  shows "\<exists>t'. relab_tail env_fine N nb G t0 r = Some (Next t') \<and> move_inv N load0 t0 t'"
proof -
  have bound: "\<forall>i < length load0. \<bar>load0 ! i\<bar> \<le> INT_MAX" using ctx by (simp add: move_ctx_def)
  obtain r' where r': "assign_targets (length load0) r = Some r'" "d_load r' = load0" "target_ok load0 (d_target r')"
    using assign_targets_ok [OF r bound] by blast
  have start: "move_inv N load0 t0 t0" using ctx by (simp add: move_inv_def move_ctx_def table_ok_def moved_def)
  have "\<exists>t'. forE [0..<length load0] (move_server env_fine N G r') t0 = Some (Next t') \<and> move_inv N load0 t0 t'"
    by (rule forE_upt_rule [where P = "\<lambda>_. move_inv N load0 t0"], rule start, rule move_server_ok [OF ctx _ r'(2,3)])
  then show ?thesis using r'(1) nb by (simp add: relab_tail_def env_fine_def)
qed

end
