(* ===== verification/Manager_Indedh.thy ===== *)
theory Manager_Indedh
  imports Relab_Loads
begin

text \<open>
  \<open>manager_indedh.c\<close>: the main loop with epochs of \<open>Manager_Protocol\<close>, with a redistribution
  that computes the loads from the levels the servers send.
\<close>

section \<open>The code\<close>

definition indedh_load_step :: "u32 list \<Rightarrow> int \<Rightarrow> int \<Rightarrow> nat \<Rightarrow> relab_dh \<Rightarrow> relab_dh option" where
  "indedh_load_step all sum_all sum_w i r = do {
     p \<leftarrow> c_int (sum_all * w_factor);
     balanced \<leftarrow> c_div p sum_w;
     a \<leftarrow> rd all i;
     classify i (int_of_u32 (a - u32_of_int balanced)) r
   }"

definition manager_calculate_relab_indedh ::
  "manager_env \<Rightarrow> nat \<Rightarrow> int \<Rightarrow> manager \<Rightarrow> (int \<times> manager) option" where
  "manager_calculate_relab_indedh E N nb m = do {
     let n = nat nb;
     sum_all \<leftarrow> sum_loads (all_list m) n;
     sum_w \<leftarrow> c_int (w_factor * nb);
     mean \<leftarrow> c_div sum_all nb;
     let m = m\<lparr>mean_load := u32_of_int mean\<rparr>;
     if \<not> m_alloc E 1 \<or> \<not> m_alloc E 2 \<or> \<not> m_alloc E 3 then Some (-1, m)
     else do {
       r \<leftarrow> forM [0..<n] (indedh_load_step (all_list m) sum_all sum_w) (relab_dh_start n);
       u \<leftarrow> relab_tail E N n (global_list m) (table m) r;
       case u of
         Leave t \<Rightarrow> Some (-1, m\<lparr>table := t\<rparr>)
       | Next t \<Rightarrow> Some (0, m\<lparr>table := t\<rparr>)
     }
   }"

definition manager_indedh_main :: "manager_env \<Rightarrow> nat \<Rightarrow> nat \<Rightarrow> event list \<Rightarrow> main_state \<Rightarrow> main_state option" where
  "manager_indedh_main E N nb = main_run (manager_calculate_relab_indedh E N (int nb)) N nb"

section \<open>The redistribution\<close>

lemma loads_length [simp]: "length (loads all nb) = nb"
  by (simp add: loads_def)

lemma loads_bound: "i < nb \<Longrightarrow> \<bar>loads all nb ! i\<bar> \<le> load_total all nb"
  using rel_load_bound by (simp add: loads_def)

lemma manager_ok_move_ctx:
  assumes "manager_ok N nb m"
  shows "move_ctx N (loads (all_list m) nb) (global_list m) (table m)"
proof -
  note m = assms [unfolded manager_ok_def]
  have "\<bar>loads (all_list m) nb ! i\<bar> + uint (global_list m ! e) \<le> INT_MAX" if "e < N" "i < nb" for e i
    using loads_bound [OF that(2), of "all_list m"] m that(1) by fastforce
  moreover have "\<bar>loads (all_list m) nb ! i\<bar> \<le> INT_MAX" if "i < nb" for i
    using loads_bound [OF that, of "all_list m"] m by linarith
  ultimately show ?thesis using m by (simp add: move_ctx_def)
qed

lemma indedh_loads_ok:
  assumes "manager_ok N nb m"
  shows "\<exists>r. forM [0..<nb] (indedh_load_step (all_list m) (load_total (all_list m) nb) (w_factor * int nb))
      (relab_dh_start nb) = Some r \<and> classified (loads (all_list m) nb) r"
  unfolding loads_def
proof (rule classify_loop_ok)
  fix i r assume i: "i < nb"
  note m = assms [unfolded manager_ok_def]
  let ?all = "all_list m" and ?T = "load_total (all_list m) nb"
  have sum: "int_ok ?T" using m load_total_nonneg [of ?all nb] by (simp add: int_ok_def INT_MIN_def)
  have "int_ok (rel_load ?all nb i)"
    using rel_load_bound [OF i, of ?all] m unfolding int_ok_def INT_MIN_def INT_MAX_def by linarith
  then have "int_of_u32 (?all ! i - u32_of_int (?T div int nb)) = rel_load ?all nb i"
    by (simp add: int_of_u32_diff rel_load_def)
  moreover have "c_div ?T (int nb) = Some (?T div int nb)"
    by (rule c_div_pos) (use m load_total_nonneg in auto)
  moreover have "i < length ?all" using m i by simp
  ultimately show "indedh_load_step ?all ?T (w_factor * int nb) i r = classify i (rel_load ?all nb i) r"
    using sum by (simp add: indedh_load_step_def w_factor_def arr_simps c_conv)
qed

lemma manager_calculate_relab_indedh_ok:
  assumes ok: "manager_ok N nb m"
  shows "\<exists>m'. manager_calculate_relab_indedh env_fine N (int nb) m = Some (0, m') \<and>
    m' = m\<lparr>mean_load := u32_of_int (load_total (all_list m) nb div int nb), table := table m'\<rparr> \<and>
    move_inv N (loads (all_list m) nb) (table m) (table m')"
proof -
  note m = ok [unfolded manager_ok_def]
  obtain r where r: "forM [0..<nb] (indedh_load_step (all_list m) (load_total (all_list m) nb) (w_factor * int nb))
      (relab_dh_start nb) = Some r" "classified (loads (all_list m) nb) r" using indedh_loads_ok [OF ok] by blast
  obtain t' where t': "relab_tail env_fine N nb (global_list m) (table m) r = Some (Next t')"
    "move_inv N (loads (all_list m) nb) (table m) t'"
    using relab_tail_ok [OF manager_ok_move_ctx [OF ok] r(2)] by auto
  have sums: "sum_loads (all_list m) nb = Some (load_total (all_list m) nb)"
    by (rule sum_loads_ok) (use m in simp_all)
  have mean: "c_div (load_total (all_list m) nb) (int nb) = Some (load_total (all_list m) nb div int nb)"
    by (rule c_div_pos) (use m load_total_nonneg in auto)
  have w: "c_int (w_factor * int nb) = Some (w_factor * int nb)" using m by (simp add: w_factor_def)
  let ?m = "m\<lparr>mean_load := u32_of_int (load_total (all_list m) nb div int nb), table := t'\<rparr>"
  have al: "m_alloc env_fine = (\<lambda>_. True)" by (simp add: env_fine_def)
  have "manager_calculate_relab_indedh env_fine N (int nb) m = Some (0, ?m)"
    unfolding manager_calculate_relab_indedh_def Let_def
    using sums mean w r(1) t'(1) al by (simp add: c_conv)
  with t'(2) show ?thesis by (intro exI [of _ ?m]) simp
qed

lemma indedh_keeps_inv:
  assumes inv: "manager_inv N nb k m" and k: "k < INT_MAX"
  shows "\<exists>m'. manager_calculate_relab_indedh env_fine N (int nb) m = Some (0, m') \<and>
    manager_inv N nb (k + 1) m' \<and> epoch m' = epoch m \<and> epoch_processed m' = epoch_processed m"
proof -
  obtain m' where m': "manager_calculate_relab_indedh env_fine N (int nb) m = Some (0, m')"
    "m' = m\<lparr>mean_load := u32_of_int (load_total (all_list m) nb div int nb), table := table m'\<rparr>"
    "move_inv N (loads (all_list m) nb) (table m) (table m')"
    using manager_calculate_relab_indedh_ok [OF manager_inv_ok [OF inv k]] by blast
  have eq: "global_list m' = global_list m" "all_list m' = all_list m" "epoch m' = epoch m"
    "epoch_processed m' = epoch_processed m" by (subst m'(2), simp)+
  have "case mlt_row (table m') e of (s, v, f) \<Rightarrow> 0 \<le> s \<and> s < int nb \<and> v \<le> k + 1" if e: "e < N" for e
  proof -
    obtain s v f where row: "mlt_row (table m) e = (s, v, f)" by (cases "mlt_row (table m) e")
    then have "0 \<le> s" "s < int nb" "v \<le> k" using inv e by (auto simp: manager_inv_def)
    moreover have "moved (loads (all_list m) nb) (s, v, f) (mlt_row (table m') e)"
      using m'(3) e row by (auto simp: move_inv_def)
    ultimately show ?thesis by (auto simp: moved_def small_def)
  qed
  then have "manager_inv N nb (k + 1) m'" using inv m'(3) eq by (simp add: manager_inv_def move_inv_def)
  with m'(1) eq show ?thesis by blast
qed

interpretation ri: rebalancer "manager_calculate_relab_indedh env_fine N (int nb)" N nb for N nb
  by unfold_locales (rule indedh_keeps_inv)

section \<open>Properties\<close>

definition demo_manager_indedh :: manager where
  "demo_manager_indedh = \<lparr>global_list = [5, 1, 3, 0], table = demo_table [0, 1, 0, 1], all_list = [8, 1],
     mean_load = 0, epoch = 0, epoch_processed = 0\<rparr>"

lemma demo_manager_indedh_inv: "manager_inv 4 2 0 demo_manager_indedh"
  by code_simp

text \<open>
  C25: with sums in range, the redistribution of \<open>manager_indedh.c\<close> stays inside its arrays, returns 0,
  publishes the mean load and changes the table: an entry keeps its row, or it moves from a server
  above the mean to an existing server below it, with the next version number and the flag 0.
\<close>

theorem calculate_relab_indedh_moves:
  assumes "manager_ok N nb m"
  shows "\<exists>m'. manager_calculate_relab_indedh env_fine N (int nb) m = Some (0, m') \<and>
    m' = m\<lparr>mean_load := u32_of_int (load_total (all_list m) nb div int nb), table := table m'\<rparr> \<and>
    mlt_wf (table m') \<and> mlt_len (table m') = N \<and>
    (\<forall>e < N. moved (loads (all_list m) nb) (mlt_row (table m) e) (mlt_row (table m') e))"
  using manager_calculate_relab_indedh_ok [OF assms] by (auto simp: move_inv_def)

theorem calculate_relab_indedh_moves_witness:
  "\<exists>m'. manager_calculate_relab_indedh env_fine 4 (int 2) demo_manager_indedh = Some (0, m') \<and> mlt_len (table m') = 4"
  using calculate_relab_indedh_moves [OF manager_inv_ok [OF demo_manager_indedh_inv]] by (auto simp: INT_MAX_def)

text \<open>
  \<open>find_index\<close> confuses servers with equal loads: two servers 4 above the mean and two 4 below,
  each overloaded one with two entries of SAI 4: both idle servers are to be served, one by each of
  the overloaded ones, but both times the first is found. It gives everything away, to one server;
  the other overloaded server gives nothing and the other idle one stays empty.
\<close>

theorem equal_loads_are_confused:
  "map_option (\<lambda>(rc, m). (rc, id_srv (table m))) (manager_calculate_relab_indedh env_fine 5 4
     \<lparr>global_list = [4, 4, 4, 4, 0], table = demo_table [0, 0, 1, 1, 2], all_list = [8, 8, 0, 0],
      mean_load = 0, epoch = 0, epoch_processed = 0\<rparr>)
   = Some (0, [3, 3, 1, 1, 2])"
  by code_simp

text \<open>
  The process of \<open>manager_indedh.c\<close> has no undefined behaviour, whatever the order of messages,
  signals and failed sends, as long as the messages hold servers in range and levels whose sum is an
  \<open>int\<close>; its table stays well formed and every table it publishes names only existing servers.
\<close>

theorem indedh_main_safe:
  assumes "manager_inv N nb 0 m" and "epoch m = 0"
    and "\<forall>ev \<in> set evs. event_ok N nb ev" and "int (length evs) \<le> INT_MAX"
  shows "\<exists>st. manager_indedh_main env_fine N nb evs (main_start m) = Some st \<and>
    manager_inv N nb (int (length evs)) (ms_man st) \<and> (\<forall>msg \<in> set (ms_out st). out_ok N nb msg)"
proof -
  have "main_inv N nb 0 (main_start m)" using assms(1,2) by (simp add: main_inv_def main_start_def)
  from ri.run_ok [OF this _ assms(3)] assms(4) show ?thesis
    by (auto simp: manager_indedh_main_def main_inv_def)
qed

theorem indedh_main_safe_witness:
  "\<exists>st. manager_indedh_main env_fine 4 2 [Arrive (HELP_MSG 0), Loop True, Sigusr2, Arrive (EACL_MSG 0 [5, 0, 3, 0] 8),
     Loop True] (main_start demo_manager_indedh) = Some st \<and> manager_inv 4 2 5 (ms_man st)"
proof -
  let ?evs = "[Arrive (HELP_MSG 0), Loop True, Sigusr2, Arrive (EACL_MSG 0 [5, 0, 3, 0] 8), Loop True]"
  have "\<forall>ev \<in> set ?evs. event_ok 4 2 ev" "epoch demo_manager_indedh = 0" by code_simp+
  with indedh_main_safe [OF demo_manager_indedh_inv, of ?evs] show ?thesis by (auto simp: INT_MAX_def)
qed

end
