(* ===== verification/Manager_Dh.thy ===== *)
theory Manager_Dh
  imports Relab_Loads
begin

text \<open>
  \<open>manager_dh.c\<close>: a redistribution at every \<open>SIGUSR2\<close>. The servers send their access lists only,
  and the load of a server is the sum of the SAI of its entries.
\<close>

section \<open>State\<close>

record manager_dh =
  dh_global_list :: "u32 list"
  dh_table :: mlt
  update_needed :: int

definition usrHandler2_dh :: "manager_dh \<Rightarrow> manager_dh" where
  "usrHandler2_dh m = m\<lparr>update_needed := 1\<rparr>"

definition manager_init_dh ::
  "nat \<Rightarrow> (int \<times> mlt option) \<Rightarrow> bool \<Rightarrow> bool \<Rightarrow> bool \<Rightarrow> int \<times> manager_dh option" where
  "manager_init_dh N mlt_result mem pub_ok pull_ok =
     (let (rc, t) = mlt_result in
      if rc \<noteq> 0 then (-1, None)
      else if \<not> mem then (-1, None)
      else if \<not> pub_ok then (-1, None)
      else if \<not> pull_ok then (-1, None)
      else (0, map_option (\<lambda>t. \<lparr>dh_global_list = replicate N 0, dh_table = t, update_needed = 0\<rparr>) t))"

section \<open>\<open>manager_calculate_relab\<close>\<close>

text \<open>The loop that sums the SAI per server; the sums are of type \<open>int\<close>, the SAI unsigned.\<close>

definition dh_sums :: "lock_env \<Rightarrow> nat \<Rightarrow> mlt \<Rightarrow> u32 list \<Rightarrow> nat \<Rightarrow> (int list \<times> int) flow option" where
  "dh_sums E N t G nb = forE [0..<N] (\<lambda>e (all, sum_all). do {
     row \<leftarrow> mlt_read E t e;
     case row of
       None \<Rightarrow> Some (Leave (all, sum_all))
     | Some (srv, version, state) \<Rightarrow> do {
         g \<leftarrow> rd G e;
         a \<leftarrow> rdi all srv;
         all \<leftarrow> wri all srv (int_of_u32 (u32_of_int a + g));
         Some (Next (all, int_of_u32 (u32_of_int sum_all + g)))
       }
   }) (replicate nb 0, 0)"

definition dh_load_step :: "int list \<Rightarrow> int \<Rightarrow> int \<Rightarrow> nat \<Rightarrow> relab_dh \<Rightarrow> relab_dh option" where
  "dh_load_step all sum_all sum_w i r = do {
     p \<leftarrow> c_int (sum_all * w_factor);
     balanced \<leftarrow> c_div p sum_w;
     a \<leftarrow> rd all i;
     v \<leftarrow> c_int (a - balanced);
     classify i v r
   }"

definition manager_calculate_relab_dh ::
  "manager_env \<Rightarrow> nat \<Rightarrow> int \<Rightarrow> manager_dh \<Rightarrow> (int \<times> manager_dh) option" where
  "manager_calculate_relab_dh E N nb m =
     (let n = nat nb in
      if \<not> m_alloc E 0 then Some (-1, m)
      else do {
        f \<leftarrow> dh_sums (m_lock E) N (dh_table m) (dh_global_list m) n;
        case f of
          Leave s \<Rightarrow> Some (-1, m)
        | Next (all, sum_all) \<Rightarrow> do {
            sum_w \<leftarrow> c_int (w_factor * nb);
            if \<not> m_alloc E 1 \<or> \<not> m_alloc E 2 \<or> \<not> m_alloc E 3 then Some (-1, m)
            else do {
              r \<leftarrow> forM [0..<n] (dh_load_step all sum_all sum_w) (relab_dh_start n);
              u \<leftarrow> relab_tail E N n (dh_global_list m) (dh_table m) r;
              case u of
                Leave t \<Rightarrow> Some (-1, m\<lparr>dh_table := t\<rparr>)
              | Next t \<Rightarrow> Some (0, m\<lparr>dh_table := t\<rparr>)
            }
          }
      })"

section \<open>The main loop\<close>

text \<open>
  One round: nothing happens until the signal; then one packet per server is received (\<open>None\<close>
  when the receive gives \<open>NULL\<close>, which counts as a packet), and the table is published. The
  message holds the columns of servers and of versions, not the flags.
\<close>

definition dh_round ::
  "manager_env \<Rightarrow> nat \<Rightarrow> nat \<Rightarrow> bool \<Rightarrow> u32 list option list \<Rightarrow> manager_dh \<Rightarrow>
   (manager_dh \<times> (u32 list \<times> u32 list) option) option" where
  "dh_round E N nb_srv send_ok packets m =
     (if update_needed m = 0 then Some (m, None)
      else do {
        g \<leftarrow> forM [0..<nb_srv] (\<lambda>i g. do {
               p \<leftarrow> rd packets i;
               case p of None \<Rightarrow> Some g | Some sai \<Rightarrow> manager_merge_eacl N sai g
             }) (dh_global_list m);
        (rc, m) \<leftarrow> manager_calculate_relab_dh E N (int nb_srv) (m\<lparr>dh_global_list := g\<rparr>);
        Some (m\<lparr>update_needed := 0\<rparr>,
              if send_ok then Some (id_srv (dh_table m), n_ver (dh_table m)) else None)
      })"

section \<open>The redistribution\<close>

text \<open>The sum of the SAI of the entries below \<open>k\<close> that server \<open>i\<close> holds, and its relative load.\<close>

definition srv_sum :: "mlt \<Rightarrow> u32 list \<Rightarrow> nat \<Rightarrow> nat \<Rightarrow> int" where
  "srv_sum t G k i = sum_list (map (\<lambda>e. if owner t e = int i then uint (G ! e) else 0) [0..<k])"

definition dh_loads :: "mlt \<Rightarrow> u32 list \<Rightarrow> nat \<Rightarrow> nat \<Rightarrow> int list" where
  "dh_loads t G N nb = map (\<lambda>i. srv_sum t G N i - load_total G N div int nb) [0..<nb]"

definition manager_dh_ok :: "nat \<Rightarrow> nat \<Rightarrow> manager_dh \<Rightarrow> bool" where
  "manager_dh_ok N nb m \<longleftrightarrow> table_ok (int nb) (dh_table m) \<and> mlt_len (dh_table m) = N \<and>
     length (dh_global_list m) = N \<and> 0 < nb \<and> int_ok (int nb) \<and> load_total (dh_global_list m) N \<le> INT_MAX \<and>
     (\<forall>e < N. load_total (dh_global_list m) N + uint (dh_global_list m ! e) \<le> INT_MAX)"

lemma srv_sum_simps [simp]: "srv_sum t G 0 i = 0"
  "srv_sum t G (Suc k) i = srv_sum t G k i + (if owner t k = int i then uint (G ! k) else 0)"
  by (simp_all add: srv_sum_def)

lemma srv_sum_bounds: "0 \<le> srv_sum t G k i" "srv_sum t G k i \<le> load_total G k"
  by (induction k) (auto intro: add_nonneg_nonneg add_mono order_trans)

lemma dh_sums_ok:
  assumes t: "table_ok (int nb) t" "mlt_len t = N" "length G = N" "load_total G N \<le> INT_MAX"
  shows "dh_sums locks_work N t G nb = Some (Next (map (srv_sum t G N) [0..<nb], load_total G N))"
proof -
  define P where "P k s \<longleftrightarrow> (\<exists>all. s = (all, load_total G k) \<and> length all = nb \<and> (\<forall>i < nb. all ! i = srv_sum t G k i))"
    for k s
  have "\<exists>s. dh_sums locks_work N t G nb = Some (Next s) \<and> P N s"
    unfolding dh_sums_def
  proof (rule forE_upt_rule)
    show "P 0 (replicate nb 0, 0)" by (simp add: P_def)
  next
    fix e s
    assume e: "e < N" and "P e s"
    then obtain all where s: "s = (all, load_total G e)" and all: "length all = nb" "\<forall>i < nb. all ! i = srv_sum t G e i"
      by (auto simp: P_def)
    obtain sv v f where row: "mlt_row t e = (sv, v, f)" by (cases "mlt_row t e")
    then have o: "owner t e = sv" by (simp add: owner_def)
    have sv: "0 \<le> sv" "sv < int nb" using t(1,2) e row by (auto simp: table_ok_def)
    have rd: "mlt_read locks_work t e = Some (Some (sv, v, f))"
      using t(1,2) e row by (simp add: table_ok_def mlt_read_in)
    have up: "load_total G (Suc e) \<le> INT_MAX" using load_total_mono [of "Suc e" N G] e t(4) by linarith
    have eq: "srv_sum t G (Suc e) (nat sv) = srv_sum t G e (nat sv) + uint (G ! e)" using sv o by simp
    have "srv_sum t G (Suc e) (nat sv) \<le> INT_MAX" "0 \<le> srv_sum t G (Suc e) (nat sv)"
      using srv_sum_bounds [of t G "Suc e" "nat sv"] up by linarith+
    then have a: "int_of_u32 (u32_of_int (srv_sum t G e (nat sv)) + G ! e) = srv_sum t G (Suc e) (nat sv)"
      using eq by (subst int_of_u32_add) (auto simp: int_ok_def INT_MIN_def)
    have b: "int_of_u32 (u32_of_int (load_total G e) + G ! e) = load_total G (Suc e)"
      using up load_total_nonneg [of G "Suc e"] by (subst int_of_u32_add) (auto simp: int_ok_def INT_MIN_def)
    have "P (Suc e) (all[nat sv := srv_sum t G (Suc e) (nat sv)], load_total G (Suc e))"
      unfolding P_def
      by (intro exI [of _ "all[nat sv := srv_sum t G (Suc e) (nat sv)]"])
        (use all o sv in \<open>auto simp: nth_list_update\<close>)
    then show "\<exists>t'. (case s of (all, sum_all) \<Rightarrow> do {
       row \<leftarrow> mlt_read locks_work t e;
       case row of
         None \<Rightarrow> Some (Leave (all, sum_all))
       | Some (srv, version, state) \<Rightarrow> do {
           g \<leftarrow> rd G e;
           a \<leftarrow> rdi all srv;
           all \<leftarrow> wri all srv (int_of_u32 (u32_of_int a + g));
           Some (Next (all, int_of_u32 (u32_of_int sum_all + g)))
         }
       }) = Some (Next t') \<and> P (Suc e) t'"
      using s rd sv e t(3) all a b by (simp add: arr_simps nat_less_iff)
  qed
  then obtain all where all: "dh_sums locks_work N t G nb = Some (Next (all, load_total G N))"
    "length all = nb" "\<forall>i < nb. all ! i = srv_sum t G N i" by (auto simp: P_def)
  have "all = map (srv_sum t G N) [0..<nb]" using all(2,3) by (intro nth_equalityI) auto
  with all show ?thesis by simp
qed

lemma dh_loads_bound:
  assumes "i < nb"
  shows "\<bar>srv_sum t G N i - load_total G N div int nb\<bar> \<le> load_total G N"
  using srv_sum_bounds [of t G N i] int_div_bounds [OF load_total_nonneg [of G N], of "int nb"] assms by auto

lemma manager_calculate_relab_dh_ok:
  assumes ok: "manager_dh_ok N nb m"
  shows "\<exists>m'. manager_calculate_relab_dh env_fine N (int nb) m = Some (0, m') \<and>
    m' = m\<lparr>dh_table := dh_table m'\<rparr> \<and>
    move_inv N (dh_loads (dh_table m) (dh_global_list m) N nb) (dh_table m) (dh_table m')"
proof -
  let ?t = "dh_table m" and ?G = "dh_global_list m"
  let ?T = "load_total ?G N" and ?L = "dh_loads ?t ?G N nb"
  note m = ok [unfolded manager_dh_ok_def]
  have bound: "\<bar>?L ! i\<bar> \<le> ?T" if "i < nb" for i using dh_loads_bound [OF that] that by (simp add: dh_loads_def)
  have len: "length ?L = nb" by (simp add: dh_loads_def)
  have "\<bar>?L ! i\<bar> + uint (?G ! e) \<le> INT_MAX" if "e < N" "i < nb" for e i
    using bound [OF that(2)] m that(1) by fastforce
  moreover have "\<bar>?L ! i\<bar> \<le> INT_MAX" if "i < nb" for i using bound [OF that] m by linarith
  ultimately have ctx: "move_ctx N ?L ?G ?t" using m len by (simp add: move_ctx_def)
  have sums: "dh_sums locks_work N ?t ?G nb = Some (Next (map (srv_sum ?t ?G N) [0..<nb], ?T))"
    by (rule dh_sums_ok) (use m in simp_all)
  have "\<exists>r. forM [0..<nb] (dh_load_step (map (srv_sum ?t ?G N) [0..<nb]) ?T (w_factor * int nb)) (relab_dh_start nb) = Some r \<and>
    classified ?L r"
    unfolding dh_loads_def
  proof (rule classify_loop_ok)
    fix i r assume i: "i < nb"
    have "int_ok ?T" using m load_total_nonneg [of ?G N] by (simp add: int_ok_def INT_MIN_def)
    moreover have "c_div ?T (int nb) = Some (?T div int nb)"
      by (rule c_div_pos) (use m load_total_nonneg in auto)
    moreover have "int_ok (srv_sum ?t ?G N i - ?T div int nb)"
      using dh_loads_bound [OF i, of ?t ?G N] m unfolding int_ok_def INT_MIN_def INT_MAX_def by linarith
    ultimately show "dh_load_step (map (srv_sum ?t ?G N) [0..<nb]) ?T (w_factor * int nb) i r =
      classify i (srv_sum ?t ?G N i - ?T div int nb) r"
      using i by (simp add: dh_load_step_def w_factor_def arr_simps c_conv)
  qed
  then obtain r where r: "forM [0..<nb] (dh_load_step (map (srv_sum ?t ?G N) [0..<nb]) ?T (w_factor * int nb)) (relab_dh_start nb) = Some r"
    "classified ?L r" by blast
  obtain t' where t': "relab_tail env_fine N nb ?G ?t r = Some (Next t')" "move_inv N ?L ?t t'"
    using relab_tail_ok [OF ctx r(2)] len by auto
  have w: "c_int (w_factor * int nb) = Some (w_factor * int nb)" using m by (simp add: w_factor_def)
  have al: "m_alloc env_fine = (\<lambda>_. True)" "m_lock env_fine = locks_work" by (simp_all add: env_fine_def)
  have "manager_calculate_relab_dh env_fine N (int nb) m = Some (0, m\<lparr>dh_table := t'\<rparr>)"
    unfolding manager_calculate_relab_dh_def Let_def
    using sums w r(1) t'(1) al by (simp add: c_conv)
  with t'(2) show ?thesis by (intro exI [of _ "m\<lparr>dh_table := t'\<rparr>"]) simp
qed

section \<open>Properties\<close>

text \<open>
  C18: with sums in range, the redistribution of \<open>manager_dh.c\<close> stays inside its arrays, returns 0 and
  changes the table only: an entry keeps its row, or it moves from a server whose summed SAI is above
  the mean to an existing server below the mean, with the next version number and the flag 0.
\<close>

theorem calculate_relab_dh_moves:
  assumes "manager_dh_ok N nb m"
  shows "\<exists>m'. manager_calculate_relab_dh env_fine N (int nb) m = Some (0, m') \<and>
    m' = m\<lparr>dh_table := dh_table m'\<rparr> \<and> mlt_wf (dh_table m') \<and> mlt_len (dh_table m') = N \<and>
    (\<forall>e < N. moved (dh_loads (dh_table m) (dh_global_list m) N nb) (mlt_row (dh_table m) e) (mlt_row (dh_table m') e))"
  using manager_calculate_relab_dh_ok [OF assms] by (auto simp: move_inv_def)

definition demo_manager_dh :: manager_dh where
  "demo_manager_dh = \<lparr>dh_global_list = [4, 2, 1], dh_table = demo_table [0, 0, 1], update_needed = 1\<rparr>"

lemma demo_manager_dh_ok: "manager_dh_ok 3 2 demo_manager_dh"
  by code_simp

theorem calculate_relab_dh_moves_witness:
  "\<exists>m'. manager_calculate_relab_dh env_fine 3 (int 2) demo_manager_dh = Some (0, m') \<and> mlt_len (dh_table m') = 3"
  using calculate_relab_dh_moves [OF demo_manager_dh_ok] by blast

text \<open>
  Entries with equal SAI move together: a server with four entries of SAI 2 and an idle one have
  loads 4 above and 4 below the mean, so that two entries should move, but the loop that gives the
  chosen SAI away gives every entry with that SAI, and the roles of the servers are exchanged.
\<close>

theorem equal_entries_move_together:
  "map_option (\<lambda>(rc, m). (rc, id_srv (dh_table m))) (manager_calculate_relab_dh env_fine 4 2
     \<lparr>dh_global_list = [2, 2, 2, 2], dh_table = demo_table [0, 0, 0, 0], update_needed = 1\<rparr>)
   = Some (0, [1, 1, 1, 1])"
  by code_simp

end
