(* ===== verification/Manager_Dh_Main.thy ===== *)
theory Manager_Dh_Main
  imports Manager_Dh
begin

text \<open>
  The process of \<open>manager_dh.c\<close>: its main loop as steps over arriving packets, the signal and turns of the loop.
\<close>

section \<open>The code\<close>

text \<open>
  The loop sleeps while \<open>update_needed\<close> is 0; then it receives one packet per server.
\<close>

datatype dh_pc = Sleeping | Receiving nat

record dh_main =
  dm_pc :: dh_pc
  dm_man :: manager_dh
  dm_in :: "u32 list list"
  dm_out :: "(u32 list \<times> u32 list) list"

text \<open>
  A packet arrives, the signal is delivered, the loop goes on (with a send that works or fails),
  or a receive gives \<open>NULL\<close>, which counts as a packet.
\<close>

datatype dh_event = Dh_arrive "u32 list" | Dh_signal | Dh_loop bool | Dh_null bool

definition dh_publish :: "manager_env \<Rightarrow> nat \<Rightarrow> nat \<Rightarrow> bool \<Rightarrow> dh_main \<Rightarrow> dh_main option" where
  "dh_publish E N nb_srv send_ok st = do {
     (rc, m) \<leftarrow> manager_calculate_relab_dh E N (int nb_srv) (dm_man st);
     Some (st\<lparr>dm_pc := Sleeping, dm_man := m\<lparr>update_needed := 0\<rparr>,
       dm_out := (if send_ok then dm_out st @ [(id_srv (dh_table m), n_ver (dh_table m))] else dm_out st)\<rparr>)
   }"

definition dh_received :: "manager_env \<Rightarrow> nat \<Rightarrow> nat \<Rightarrow> bool \<Rightarrow> nat \<Rightarrow> dh_main \<Rightarrow> dh_main option" where
  "dh_received E N nb_srv send_ok nb_rcv st =
     (let st = st\<lparr>dm_pc := Receiving nb_rcv\<rparr>
      in if nb_rcv < nb_srv then Some st else dh_publish E N nb_srv send_ok st)"

definition dh_turn :: "manager_env \<Rightarrow> nat \<Rightarrow> nat \<Rightarrow> bool \<Rightarrow> dh_main \<Rightarrow> dh_main option" where
  "dh_turn E N nb_srv send_ok st =
     (case dm_pc st of
        Sleeping \<Rightarrow> if update_needed (dm_man st) = 0 then Some st else dh_received E N nb_srv send_ok 0 st
      | Receiving nb_rcv \<Rightarrow>
          (case dm_in st of
             [] \<Rightarrow> Some st
           | sai # q \<Rightarrow> do {
               g \<leftarrow> manager_merge_eacl N sai (dh_global_list (dm_man st));
               dh_received E N nb_srv send_ok (nb_rcv + 1) (st\<lparr>dm_man := (dm_man st)\<lparr>dh_global_list := g\<rparr>, dm_in := q\<rparr>)
             }))"

fun dh_step :: "manager_env \<Rightarrow> nat \<Rightarrow> nat \<Rightarrow> dh_event \<Rightarrow> dh_main \<Rightarrow> dh_main option" where
  "dh_step E N nb (Dh_arrive sai) st = Some (st\<lparr>dm_in := dm_in st @ [sai]\<rparr>)"
| "dh_step E N nb Dh_signal st = Some (st\<lparr>dm_man := usrHandler2_dh (dm_man st)\<rparr>)"
| "dh_step E N nb (Dh_loop send_ok) st = dh_turn E N nb send_ok st"
| "dh_step E N nb (Dh_null send_ok) st =
     (case dm_pc st of Sleeping \<Rightarrow> Some st | Receiving nb_rcv \<Rightarrow> dh_received E N nb send_ok (nb_rcv + 1) st)"

definition dh_main_start :: "manager_dh \<Rightarrow> dh_main" where
  "dh_main_start m = \<lparr>dm_pc = Sleeping, dm_man = m, dm_in = [], dm_out = []\<rparr>"

definition manager_dh_main :: "manager_env \<Rightarrow> nat \<Rightarrow> nat \<Rightarrow> dh_event list \<Rightarrow> dh_main \<Rightarrow> dh_main option" where
  "manager_dh_main E N nb_srv evs st = forM evs (dh_step E N nb_srv) st"

section \<open>The invariant\<close>

text \<open>SAI small enough that the sum over all entries, and one more, is an \<open>int\<close>.\<close>

definition sai_ok :: "nat \<Rightarrow> u32 list \<Rightarrow> bool" where
  "sai_ok N ws \<longleftrightarrow> length ws = N \<and> (\<forall>g \<in> set ws. uint g \<le> INT_MAX div (int N + 1))"

definition dh_inv :: "nat \<Rightarrow> nat \<Rightarrow> int \<Rightarrow> manager_dh \<Rightarrow> bool" where
  "dh_inv N nb k m \<longleftrightarrow> mlt_wf (dh_table m) \<and> mlt_len (dh_table m) = N \<and>
     (\<forall>e < N. case mlt_row (dh_table m) e of (s, v, f) \<Rightarrow> 0 \<le> s \<and> s < int nb \<and> v \<le> k) \<and>
     sai_ok N (dh_global_list m) \<and> 0 < nb \<and> int_ok (int nb)"

definition dh_main_inv :: "nat \<Rightarrow> nat \<Rightarrow> int \<Rightarrow> dh_main \<Rightarrow> bool" where
  "dh_main_inv N nb k st \<longleftrightarrow> dh_inv N nb k (dm_man st) \<and> (\<forall>ws \<in> set (dm_in st). sai_ok N ws) \<and>
     (\<forall>(ids, vers) \<in> set (dm_out st). out_ok N nb (MLT_MSG ids vers 0))"

lemma dh_inv_mono: "dh_inv N nb k m \<Longrightarrow> k \<le> k' \<Longrightarrow> dh_inv N nb k' m"
  by (fastforce simp: dh_inv_def)

lemma dh_inv_ok:
  assumes inv: "dh_inv N nb k m" and k: "k < INT_MAX"
  shows "manager_dh_ok N nb m"
proof -
  note inv' = inv [unfolded dh_inv_def sai_ok_def]
  let ?B = "INT_MAX div (int N + 1)" and ?G = "dh_global_list m"
  have g: "uint (?G ! e) \<le> ?B" if "e < N" for e using inv' that by auto
  have t: "load_total ?G N \<le> int N * ?B" by (rule load_total_le) (rule g)
  have B: "(int N + 1) * ?B \<le> INT_MAX"
  proof -
    have "(int N + 1) * ?B + INT_MAX mod (int N + 1) = INT_MAX" by (rule mult_div_mod_eq)
    moreover have "0 \<le> INT_MAX mod (int N + 1)" by (rule pos_mod_sign) simp
    ultimately show ?thesis by linarith
  qed
  have "0 \<le> ?B" by (simp add: pos_imp_zdiv_nonneg_iff INT_MAX_def)
  then have "load_total ?G N \<le> INT_MAX" "\<forall>e < N. load_total ?G N + uint (?G ! e) \<le> INT_MAX"
    using t B g by (auto simp: distrib_right intro: order_trans [OF add_mono])
  moreover have "table_ok (int nb) (dh_table m)" using inv' k by (fastforce simp: table_ok_def)
  ultimately show ?thesis using inv' by (simp add: manager_dh_ok_def)
qed

lemma sai_ok_merged: "sai_ok N ws \<Longrightarrow> sai_ok N gs \<Longrightarrow> sai_ok N (merged N ws gs)"
  by (auto simp: sai_ok_def merged_def)

lemma relab_dh_keeps:
  assumes inv: "dh_inv N nb k m" and k: "k < INT_MAX"
  shows "\<exists>m'. manager_calculate_relab_dh env_fine N (int nb) m = Some (0, m') \<and> dh_inv N nb (k + 1) m' \<and>
    update_needed m' = update_needed m \<and>
    out_ok N nb (MLT_MSG (id_srv (dh_table m')) (n_ver (dh_table m')) 0)"
proof -
  let ?L = "dh_loads (dh_table m) (dh_global_list m) N nb"
  obtain m' where m': "manager_calculate_relab_dh env_fine N (int nb) m = Some (0, m')" "m' = m\<lparr>dh_table := dh_table m'\<rparr>"
    "move_inv N ?L (dh_table m) (dh_table m')"
    using manager_calculate_relab_dh_ok [OF dh_inv_ok [OF inv k]] by blast
  have len: "length ?L = nb" by (simp add: dh_loads_def)
  have rows: "case mlt_row (dh_table m') e of (s, v, f) \<Rightarrow> 0 \<le> s \<and> s < int nb \<and> v \<le> k + 1" if "e < N" for e
  proof -
    have "moved ?L (mlt_row (dh_table m) e) (mlt_row (dh_table m') e)" using m'(3) that by (simp add: move_inv_def)
    moreover have "case mlt_row (dh_table m) e of (s, v, f) \<Rightarrow> 0 \<le> s \<and> s < int nb \<and> v \<le> k" using inv that by (simp add: dh_inv_def)
    ultimately show ?thesis using len by (auto simp: moved_def small_def)
  qed
  have g: "dh_global_list m' = dh_global_list m" "update_needed m' = update_needed m" using arg_cong [OF m'(2)] by (metis manager_dh.select_convs manager_dh.surjective manager_dh.update_convs(2))+
  have inv': "dh_inv N nb (k + 1) m'" using inv m'(3) rows g(1) by (simp add: dh_inv_def move_inv_def)
  have "out_ok N nb (MLT_MSG (id_srv (dh_table m')) (n_ver (dh_table m')) 0)"
    using inv' by (auto simp: dh_inv_def mlt_wf_len mlt_row_def in_set_conv_nth)
  with m'(1) g(2) inv' show ?thesis by blast
qed

lemma dh_received_ok:
  assumes inv: "dh_main_inv N nb k st" and k: "k < INT_MAX"
  shows "\<exists>st'. dh_received env_fine N nb ok j st = Some st' \<and> dh_main_inv N nb (k + 1) st'"
proof (cases "j < nb")
  case True
  then show ?thesis using inv dh_inv_mono [of N nb k "dm_man st" "k + 1"] by (simp add: dh_received_def dh_main_inv_def)
next
  case False
  obtain m' where m': "manager_calculate_relab_dh env_fine N (int nb) (dm_man st) = Some (0, m')" "dh_inv N nb (k + 1) m'"
    "out_ok N nb (MLT_MSG (id_srv (dh_table m')) (n_ver (dh_table m')) 0)"
    using relab_dh_keeps [of N nb k "dm_man st"] inv k by (auto simp: dh_main_inv_def)
  then show ?thesis using False inv
    by (auto simp: dh_received_def dh_publish_def dh_main_inv_def dh_inv_def Let_def)
qed

fun dh_event_ok :: "nat \<Rightarrow> dh_event \<Rightarrow> bool" where
  "dh_event_ok N (Dh_arrive ws) = sai_ok N ws"
| "dh_event_ok N _ = True"

lemma dh_step_ok:
  assumes inv: "dh_main_inv N nb k st" and k: "k < INT_MAX" and ev: "dh_event_ok N ev"
  shows "\<exists>st'. dh_step env_fine N nb ev st = Some st' \<and> dh_main_inv N nb (k + 1) st'"
proof -
  have same: "dh_main_inv N nb (k + 1) st" using inv dh_inv_mono [of N nb k "dm_man st" "k + 1"] by (simp add: dh_main_inv_def)
  show ?thesis
  proof (cases ev)
    case (Dh_arrive ws)
    then show ?thesis using same ev by (simp add: dh_main_inv_def)
  next
    case Dh_signal
    then show ?thesis using same by (simp add: dh_main_inv_def dh_inv_def usrHandler2_dh_def)
  next
    case (Dh_loop ok)
    show ?thesis
    proof (cases "dm_pc st")
      case Sleeping
      then show ?thesis using Dh_loop same dh_received_ok [OF inv k, of ok 0] by (simp add: dh_turn_def)
    next
      case (Receiving j)
      show ?thesis
      proof (cases "dm_in st")
        case Nil
        then show ?thesis using Dh_loop Receiving same by (simp add: dh_turn_def)
      next
        case (Cons ws q)
        let ?g = "merged N ws (dh_global_list (dm_man st))"
        let ?st = "st\<lparr>dm_man := (dm_man st)\<lparr>dh_global_list := ?g\<rparr>, dm_in := q\<rparr>"
        have s: "sai_ok N ws" "sai_ok N (dh_global_list (dm_man st))" using inv Cons by (simp_all add: dh_main_inv_def dh_inv_def)
        then have "manager_merge_eacl N ws (dh_global_list (dm_man st)) = Some ?g" by (simp add: sai_ok_def merge_ok)
        moreover have "dh_main_inv N nb k ?st" using inv Cons sai_ok_merged [OF s] by (simp add: dh_main_inv_def dh_inv_def)
        ultimately show ?thesis using Dh_loop Receiving Cons dh_received_ok [OF _ k, of N nb ?st ok "j + 1"] by (simp add: dh_turn_def)
      qed
    qed
  next
    case (Dh_null ok)
    then show ?thesis using same dh_received_ok [OF inv k, of ok] by (cases "dm_pc st") simp_all
  qed
qed

lemma dh_run_ok:
  "dh_main_inv N nb k st \<Longrightarrow> k + int (length evs) \<le> INT_MAX \<Longrightarrow> \<forall>ev \<in> set evs. dh_event_ok N ev \<Longrightarrow>
    \<exists>st'. manager_dh_main env_fine N nb evs st = Some st' \<and> dh_main_inv N nb (k + int (length evs)) st'"
  unfolding manager_dh_main_def
proof (induction evs arbitrary: st k)
  case (Cons ev evs)
  obtain st1 where "dh_step env_fine N nb ev st = Some st1" "dh_main_inv N nb (k + 1) st1"
    using dh_step_ok [OF Cons.prems(1)] Cons.prems(2,3) by auto
  then show ?case using Cons.IH [of "k + 1" st1] Cons.prems(2,3) by (simp add: add.assoc)
qed simp

section \<open>Rounds\<close>

text \<open>Once the loop receives, the packets of all servers bring it to the end of the round.\<close>

definition dh_packets :: "bool \<Rightarrow> u32 list list \<Rightarrow> dh_event list" where
  "dh_packets ok ls = concat (map (\<lambda>l. [Dh_arrive l, Dh_loop ok]) ls)"

lemma dh_receive_rounds:
  "dm_pc st = Receiving j \<Longrightarrow> dm_in st = [] \<Longrightarrow> j + length ls = nb \<Longrightarrow> 0 < length ls \<Longrightarrow>
   manager_dh_main E N nb (dh_packets ok ls) st = do {
     g \<leftarrow> forM ls (manager_merge_eacl N) (dh_global_list (dm_man st));
     dh_publish E N nb ok (st\<lparr>dm_pc := Receiving nb, dm_man := (dm_man st)\<lparr>dh_global_list := g\<rparr>\<rparr>)
   }"
  unfolding manager_dh_main_def dh_packets_def
proof (induction ls arbitrary: st j)
  case (Cons l ls)
  let ?step = "\<lambda>st g. st\<lparr>dm_pc := Receiving (j + 1), dm_man := (dm_man st)\<lparr>dh_global_list := g\<rparr>\<rparr>"
  have one: "forM [Dh_arrive l, Dh_loop ok] (dh_step E N nb) st = do {
      g \<leftarrow> manager_merge_eacl N l (dh_global_list (dm_man st));
      if j + 1 < nb then Some (?step st g) else dh_publish E N nb ok (?step st g)
    }"
    using Cons.prems(1,2) by (cases "manager_merge_eacl N l (dh_global_list (dm_man st))"; cases st)
      (simp_all add: dh_turn_def dh_received_def Let_def split: option.splits)
  show ?case
  proof (cases ls)
    case Nil
    then have "j + 1 = nb" using Cons.prems(3) by simp
    then show ?thesis using one Nil by (simp add: forM_append del: forM.simps) (simp split: option.splits)
  next
    case (Cons l' ls')
    then have "j + 1 < nb" using Cons.prems(3) by simp
    moreover have "forM (concat (map (\<lambda>l. [Dh_arrive l, Dh_loop ok]) ls)) (dh_step E N nb) (?step st g) = do {
        g \<leftarrow> forM ls (manager_merge_eacl N) g;
        dh_publish E N nb ok (st\<lparr>dm_pc := Receiving nb, dm_man := (dm_man st)\<lparr>dh_global_list := g\<rparr>\<rparr>)
      }" for g
      using Cons.IH [of "?step st g" "j + 1"] Cons.prems(2,3) Cons by simp
    ultimately show ?thesis using one
      by (cases "manager_merge_eacl N l (dh_global_list (dm_man st))")
        (simp_all add: forM_append del: forM.simps, simp_all split: option.splits)
  qed
qed simp

text \<open>The redistribution neither reads nor writes \<open>update_needed\<close>.\<close>

lemma relab_dh_ignores_signal:
  "manager_calculate_relab_dh E N nb (m\<lparr>update_needed := u\<rparr>) =
   map_option (\<lambda>(rc, m). (rc, m\<lparr>update_needed := u\<rparr>)) (manager_calculate_relab_dh E N nb m)"
  by (auto simp: manager_calculate_relab_dh_def Let_def c_conv split: bind_splits flow.splits option.splits prod.splits)

lemma dh_publish_ignores_signal:
  "dh_publish E N nb ok (st\<lparr>dm_man := (dm_man st)\<lparr>update_needed := u\<rparr>\<rparr>) = dh_publish E N nb ok st"
  by (simp add: dh_publish_def relab_dh_ignores_signal split: bind_splits option.splits prod.splits)


section \<open>Properties\<close>

lemma merges_ok:
  "\<forall>l \<in> set ls. sai_ok N l \<Longrightarrow> sai_ok N G \<Longrightarrow>
    forM ls (manager_merge_eacl N) G = Some (fold (merged N) ls G) \<and> sai_ok N (fold (merged N) ls G)"
proof (induction ls arbitrary: G)
  case (Cons l ls)
  then have "manager_merge_eacl N l G = Some (merged N l G)" by (simp add: sai_ok_def merge_ok)
  with Cons show ?case by (simp add: sai_ok_merged)
qed simp

text \<open>
  C17: after \<open>SIGUSR2\<close>, and with one access list from every server, the loop of \<open>manager_dh.c\<close> reaches the end of
  its round: it merges the lists in the order of arrival, moves entries from servers above the mean to
  servers below it, publishes the new table and waits for the next signal.
\<close>

theorem dh_round_completes:
  assumes inv: "dh_main_inv N nb k st" and k: "k < INT_MAX" and st: "dm_pc st = Sleeping" "dm_in st = []"
    and ls: "length ls = nb" "\<forall>l \<in> set ls. sai_ok N l"
  shows "\<exists>st'. manager_dh_main env_fine N nb (Dh_signal # Dh_loop ok # dh_packets True ls) st = Some st' \<and>
    dm_pc st' = Sleeping \<and> dm_in st' = [] \<and> update_needed (dm_man st') = 0 \<and>
    dh_global_list (dm_man st') = fold (merged N) ls (dh_global_list (dm_man st)) \<and>
    dm_out st' = dm_out st @ [(id_srv (dh_table (dm_man st')), n_ver (dh_table (dm_man st')))] \<and>
    (\<forall>e < N. moved (dh_loads (dh_table (dm_man st)) (dh_global_list (dm_man st')) N nb)
       (mlt_row (dh_table (dm_man st)) e) (mlt_row (dh_table (dm_man st')) e))"
proof -
  let ?m = "dm_man st"
  define m where "m = ?m\<lparr>update_needed := 1\<rparr>"
  define g where "g = fold (merged N) ls (dh_global_list ?m)"
  define m1 where "m1 = m\<lparr>dh_global_list := g\<rparr>"
  let ?st = "st\<lparr>dm_pc := Receiving 0, dm_man := m\<rparr>"
  have i: "dh_inv N nb k ?m" using inv by (simp add: dh_main_inv_def)
  then have nb: "0 < nb" "sai_ok N (dh_global_list ?m)" by (auto simp: dh_inv_def)
  have g: "forM ls (manager_merge_eacl N) (dh_global_list ?m) = Some g" "sai_ok N g"
    using merges_ok [OF ls(2) nb(2)] by (simp_all add: g_def)
  have i1: "dh_inv N nb k m1" using i g(2) by (simp add: dh_inv_def m1_def m_def)
  obtain m2 where m2: "manager_calculate_relab_dh env_fine N (int nb) m1 = Some (0, m2)" "m2 = m1\<lparr>dh_table := dh_table m2\<rparr>"
    "move_inv N (dh_loads (dh_table m1) (dh_global_list m1) N nb) (dh_table m1) (dh_table m2)"
    using manager_calculate_relab_dh_ok [OF dh_inv_ok [OF i1 k]] by blast
  have m2': "dh_global_list m2 = g" using arg_cong [OF m2(2), of dh_global_list] by (simp add: m1_def)
  have "manager_dh_main env_fine N nb (Dh_signal # Dh_loop ok # dh_packets True ls) st =
    manager_dh_main env_fine N nb (dh_packets True ls) ?st"
    using st nb(1) by (cases st) (simp add: manager_dh_main_def usrHandler2_dh_def dh_turn_def dh_received_def m_def)
  also have "\<dots> = dh_publish env_fine N nb True (?st\<lparr>dm_pc := Receiving nb, dm_man := m1\<rparr>)"
    by (subst dh_receive_rounds [where j = 0]) (use st ls nb g in \<open>simp_all add: m_def m1_def\<close>)
  also have "\<dots> = Some (st\<lparr>dm_pc := Sleeping, dm_man := m2\<lparr>update_needed := 0\<rparr>,
      dm_out := dm_out st @ [(id_srv (dh_table m2), n_ver (dh_table m2))]\<rparr>)"
    using m2(1) by (simp add: dh_publish_def)
  finally show ?thesis using st m2(3) m2' by (simp add: move_inv_def g_def m1_def m_def)
qed

definition demo_dh_main :: dh_main where
  "demo_dh_main = dh_main_start (demo_manager_dh\<lparr>update_needed := 0\<rparr>)"

theorem dh_round_completes_witness:
  "\<exists>st'. manager_dh_main env_fine 3 2 (Dh_signal # Dh_loop True # dh_packets True [[0, 5, 0], [0, 0, 2]]) demo_dh_main = Some st' \<and>
    dm_pc st' = Sleeping \<and> dh_global_list (dm_man st') = [4, 5, 2]"
proof -
  have "dh_main_inv 3 2 0 demo_dh_main" "dm_pc demo_dh_main = Sleeping" "dm_in demo_dh_main = []"
    "\<forall>l \<in> set [[0, 5, 0], [0, 0, 2]]. sai_ok 3 l"
    "fold (merged 3) [[0, 5, 0], [0, 0, 2]] (dh_global_list (dm_man demo_dh_main)) = [4, 5, 2]" by code_simp+
  with dh_round_completes [of 3 2 0 demo_dh_main "[[0, 5, 0], [0, 0, 2]]" True] show ?thesis
    by (auto simp: INT_MAX_def)
qed

text \<open>
  A signal that arrives while the manager waits for access lists has no effect: the round in progress ends in the
  same state as without the signal, and no round follows.
\<close>

theorem dh_signal_lost_while_receiving:
  assumes "dm_pc st = Receiving j" and "dm_in st = []" and "j + length ls = nb" and "0 < length ls"
  shows "manager_dh_main E N nb (Dh_signal # dh_packets ok ls) st = manager_dh_main E N nb (dh_packets ok ls) st"
proof -
  let ?st = "st\<lparr>dm_man := (dm_man st)\<lparr>update_needed := 1\<rparr>\<rparr>"
  have swap: "(dm_man st)\<lparr>update_needed := 1, dh_global_list := g\<rparr> = (dm_man st)\<lparr>dh_global_list := g, update_needed := 1\<rparr>" for g
    by (cases "dm_man st") simp
  have pub: "dh_publish E N nb ok (st\<lparr>dm_pc := Receiving nb, dm_man := (dm_man st)\<lparr>update_needed := 1, dh_global_list := g\<rparr>\<rparr>) =
      dh_publish E N nb ok (st\<lparr>dm_pc := Receiving nb, dm_man := (dm_man st)\<lparr>dh_global_list := g\<rparr>\<rparr>)" for g
    unfolding swap using dh_publish_ignores_signal [where u = 1 and st = "st\<lparr>dm_pc := Receiving nb, dm_man := (dm_man st)\<lparr>dh_global_list := g\<rparr>\<rparr>"] by simp
  have "manager_dh_main E N nb (Dh_signal # dh_packets ok ls) st = manager_dh_main E N nb (dh_packets ok ls) ?st"
    by (simp add: manager_dh_main_def usrHandler2_dh_def)
  also have "\<dots> = do {
      g \<leftarrow> forM ls (manager_merge_eacl N) (dh_global_list (dm_man st));
      dh_publish E N nb ok (st\<lparr>dm_pc := Receiving nb, dm_man := (dm_man st)\<lparr>update_needed := 1, dh_global_list := g\<rparr>\<rparr>)
    }"
    by (subst dh_receive_rounds [where j = j]) (use assms in simp_all)
  also have "\<dots> = manager_dh_main E N nb (dh_packets ok ls) st"
    unfolding pub by (subst dh_receive_rounds [where j = j]) (use assms in simp_all)
  finally show ?thesis .
qed

theorem dh_signal_lost_while_receiving_witness:
  "manager_dh_main env_fine 3 2 [Dh_signal, Dh_arrive [0, 0, 2], Dh_loop True] (demo_dh_main\<lparr>dm_pc := Receiving 1\<rparr>) =
   manager_dh_main env_fine 3 2 [Dh_arrive [0, 0, 2], Dh_loop True] (demo_dh_main\<lparr>dm_pc := Receiving 1\<rparr>)"
  using dh_signal_lost_while_receiving [of "demo_dh_main\<lparr>dm_pc := Receiving 1\<rparr>" 1 "[[0, 0, 2]]" 2 env_fine 3 True]
  by (simp add: dh_packets_def demo_dh_main_def dh_main_start_def)

text \<open>
  A receive that fails counts as the list of a server: with two servers and one failed receive the table is published
  from one list, and the list of the other server stays in the socket for the next round.
\<close>

lemma failed_receive_counts:
  "map_option (\<lambda>st. (dm_pc st, dm_in st, length (dm_out st)))
     (manager_dh_main env_fine 3 2 [Dh_signal, Dh_loop True, Dh_arrive [0, 5, 0], Dh_loop True, Dh_null True, Dh_arrive [0, 0, 2]] demo_dh_main)
   = Some (Sleeping, [[0, 0, 2]], 1)"
  by code_simp

end
