(* ===== verification/C_Strings.thy ===== *)
theory C_Strings
  imports Prelude
begin

text \<open>
  The functions of the C library by which the programs read their configuration, the list of
  hosts and the trace of requests: \<open>fgets\<close>, \<open>strchr\<close> on the end of a line, \<open>strtok\<close> on a
  comma, \<open>strstr\<close> and \<open>atoi\<close>. A string is the list of its characters before the terminator; a
  file open for reading is the list of the characters not read yet.
\<close>

section \<open>Strings in buffers\<close>

text \<open>A C string holds no NUL; the reader of a buffer stops at the first one.\<close>

definition c_string :: "string \<Rightarrow> bool" where
  "c_string s \<longleftrightarrow> CHR 0x00 \<notin> set s"

definition up_to_nul :: "string \<Rightarrow> string" where
  "up_to_nul s = takeWhile (\<lambda>c. c \<noteq> CHR 0x00) s"

lemma up_to_nul_app: "c_string s \<Longrightarrow> up_to_nul (s @ CHR 0x00 # t) = s"
  by (subst up_to_nul_def, subst takeWhile_append2) (auto simp: c_string_def)

lemma c_string_simps [simp]:
  "c_string []" "c_string (c # s) \<longleftrightarrow> c \<noteq> CHR 0x00 \<and> c_string s" "c_string (s @ t) \<longleftrightarrow> c_string s \<and> c_string t"
  by (auto simp: c_string_def)

lemma c_string_concat: "c_string (concat ss) \<longleftrightarrow> (\<forall>s \<in> set ss. c_string s)"
  by (induction ss) auto

section \<open>Lines of a file\<close>

abbreviation newline :: char where
  "newline \<equiv> CHR 0x0A"

fun read_line :: "nat \<Rightarrow> string \<Rightarrow> string \<times> string" where
  "read_line 0 s = ([], s)"
| "read_line (Suc n) [] = ([], [])"
| "read_line (Suc n) (c # s) =
     (if c = newline then ([c], s) else case read_line n s of (l, s') \<Rightarrow> (c # l, s'))"

text \<open>\<open>fgets (buf, n, f)\<close>: at most \<open>n - 1\<close> characters, \<open>NULL\<close> at the end of the file.\<close>

definition fgets :: "nat \<Rightarrow> string \<Rightarrow> (string \<times> string) option" where
  "fgets n s = (if s = [] then None else Some (read_line (n - 1) s))"

text \<open>\<open>strchr (s, '\n')\<close>, and the newline found is overwritten by the terminator.\<close>

definition chop :: "string \<Rightarrow> string" where
  "chop s = takeWhile (\<lambda>c. c \<noteq> newline) s"

lemma read_line_length: "read_line n s = (l, s') \<Longrightarrow> length s = length l + length s'"
  by (induction n s arbitrary: l s' rule: read_line.induct) (auto split: if_splits prod.splits)

lemma read_line_less: "read_line (Suc n) (c # s) = (l, s') \<Longrightarrow> length s' < length (c # s)"
  by (auto dest: read_line_length split: if_splits prod.splits)

lemma fgets_less: "fgets (Suc (Suc n)) s = Some (l, s') \<Longrightarrow> length s' < length s"
  by (cases s) (auto simp: fgets_def dest: read_line_length split: if_splits prod.splits)

lemma read_line_short:
  "length l \<le> n \<Longrightarrow> newline \<notin> set l \<Longrightarrow> read_line (Suc n) (l @ newline # s) = (l @ [newline], s)"
proof (induction l arbitrary: n)
  case (Cons c l)
  then show ?case by (cases n) auto
qed simp

lemma read_line_long:
  "n < length l \<Longrightarrow> newline \<notin> set l \<Longrightarrow> read_line n (l @ s) = (take n l, drop n l @ s)"
proof (induction l arbitrary: n)
  case (Cons c l)
  then show ?case by (cases n) auto
qed simp

text \<open>A line that fits is read whole, and one that does not is read in pieces.\<close>

lemma fgets_line:
  assumes "length l + 2 \<le> n" and "newline \<notin> set l"
  shows "fgets n (l @ newline # s) = Some (l @ [newline], s)"
proof -
  obtain m where "n - 1 = Suc m" "length l \<le> m" using assms(1) by (cases "n - 1") auto
  then show ?thesis using read_line_short [of l m s] assms(2) by (simp add: fgets_def)
qed

lemma fgets_piece:
  assumes "n \<le> length l" and "newline \<notin> set l" and "0 < n"
  shows "fgets n (l @ s) = Some (take (n - 1) l, drop (n - 1) l @ s)"
  using read_line_long [of "n - 1" l s] assms by (auto simp: fgets_def)

lemma chop_line [simp]: "newline \<notin> set l \<Longrightarrow> chop (l @ newline # s) = l"
  by (subst chop_def, subst takeWhile_append2) auto

lemma chop_id [simp]: "newline \<notin> set l \<Longrightarrow> chop l = l"
  by (auto simp: chop_def takeWhile_eq_all_conv)

text \<open>A text file with the given lines.\<close>

definition text_file :: "string list \<Rightarrow> string" where
  "text_file ls = concat (map (\<lambda>l. l @ [newline]) ls)"

lemma text_file_simps [simp]: "text_file [] = []" "text_file (l # ls) = l @ newline # text_file ls"
  by (simp_all add: text_file_def)

lemma text_file_empty [simp]: "text_file ls = [] \<longleftrightarrow> ls = []"
  by (cases ls) simp_all

section \<open>Tokens\<close>

text \<open>
  \<open>strtok\<close> with one delimiter: the token and where the next call goes on. A token that the end
  of the string terminates leaves nothing.
\<close>

definition strtok :: "char \<Rightarrow> string \<Rightarrow> (string \<times> string) option" where
  "strtok d s =
     (case dropWhile (\<lambda>c. c = d) s of
        [] \<Rightarrow> None
      | c # t \<Rightarrow> Some (takeWhile (\<lambda>c. c \<noteq> d) (c # t), drop 1 (dropWhile (\<lambda>c. c \<noteq> d) (c # t))))"

lemma strtok_less: "strtok d s = Some (t, s') \<Longrightarrow> length s' < length s"
proof -
  assume "strtok d s = Some (t, s')"
  then obtain u where u: "dropWhile (\<lambda>c. c = d) s = u" "u \<noteq> []" "s' = drop 1 (dropWhile (\<lambda>c. c \<noteq> d) u)"
    by (cases "dropWhile (\<lambda>c. c = d) s") (simp_all add: strtok_def)
  have "length u \<le> length s" unfolding u(1) [symmetric] by (rule length_dropWhile_le)
  moreover have "length (dropWhile (\<lambda>c. c \<noteq> d) u) \<le> length u" by (rule length_dropWhile_le)
  ultimately show ?thesis using u(2,3) by (cases u) auto
qed

text \<open>The tokens of \<open>for (t = strtok (s, d); t != NULL; t = strtok (NULL, d))\<close>.\<close>

function tokens :: "char \<Rightarrow> string \<Rightarrow> string list" where
  "tokens d s = (case strtok d s of None \<Rightarrow> [] | Some (t, s') \<Rightarrow> t # tokens d s')"
  by pat_completeness auto
termination
  by (relation "measure (\<lambda>(d, s). length s)") (auto dest: strtok_less)

declare tokens.simps [simp del]

text \<open>A name that \<open>strtok\<close> gives back whole.\<close>

definition token_ok :: "char \<Rightarrow> string \<Rightarrow> bool" where
  "token_ok d t \<longleftrightarrow> t \<noteq> [] \<and> d \<notin> set t"

lemma strtok_delim [simp]: "strtok d (d # s) = strtok d s"
  by (simp add: strtok_def)

lemma strtok_token:
  assumes "token_ok d t"
  shows "strtok d (t @ d # s) = Some (t, s)" and "strtok d t = Some (t, [])"
proof -
  obtain c u where t: "t = c # u" "c \<noteq> d" "d \<notin> set u" using assms by (cases t) (auto simp: token_ok_def)
  have tw: "takeWhile (\<lambda>c. c \<noteq> d) (u @ d # s) = u" "dropWhile (\<lambda>c. c \<noteq> d) (u @ d # s) = d # s"
    using t(3) by (induction u) auto
  have tw': "takeWhile (\<lambda>c. c \<noteq> d) u = u" "dropWhile (\<lambda>c. c \<noteq> d) u = []"
    using t(3) by (induction u) auto
  show "strtok d (t @ d # s) = Some (t, s)" "strtok d t = Some (t, [])"
    using t(1,2) by (simp_all add: strtok_def tw tw' del: dropWhile_eq_Nil_conv)
qed

lemma tokens_Nil [simp]: "tokens d [] = []"
  by (simp add: tokens.simps [of d "[]"] strtok_def)

lemma tokens_delim [simp]: "tokens d (d # s) = tokens d s"
  by (simp add: tokens.simps [of d "d # s"] tokens.simps [of d s])

lemma tokens_token: "token_ok d t \<Longrightarrow> tokens d (t @ d # s) = t # tokens d s"
  by (simp add: tokens.simps [of d "t @ d # s"] strtok_token)

lemma tokens_last: "token_ok d t \<Longrightarrow> tokens d t = [t]"
  by (simp add: tokens.simps [of d t] strtok_token)

text \<open>Strings joined with a delimiter in front of each come back as they were.\<close>

definition joined :: "char \<Rightarrow> string list \<Rightarrow> string" where
  "joined d ts = concat (map (\<lambda>t. d # t) ts)"

lemma joined_simps [simp]: "joined d [] = []" "joined d (t # ts) = d # t @ joined d ts"
  and joined_app: "joined d (ts @ us) = joined d ts @ joined d us"
  by (simp_all add: joined_def)

lemma tokens_joined: "(\<forall>t \<in> set ts. token_ok d t) \<Longrightarrow> tokens d (joined d ts) = ts"
proof (induction ts)
  case (Cons t ts)
  show ?case
  proof (cases ts)
    case (Cons u us)
    then show ?thesis using Cons.IH Cons.prems tokens_token [of d t "u @ joined d us"] by simp
  qed (use Cons.prems in \<open>simp add: tokens_last\<close>)
qed simp

lemma length_joined: "length (joined d ts) = sum_list (map (\<lambda>t. Suc (length t)) ts)"
  by (induction ts) auto

section \<open>Numbers\<close>

text \<open>\<open>strstr\<close> and \<open>strchr\<close>: the rest of the string from the place found.\<close>

fun strstr :: "string \<Rightarrow> string \<Rightarrow> string option" where
  "strstr [] p = (if p = [] then Some [] else None)"
| "strstr (c # s) p = (if take (length p) (c # s) = p then Some (c # s) else strstr s p)"

definition strchr :: "string \<Rightarrow> char \<Rightarrow> string option" where
  "strchr s d = (case dropWhile (\<lambda>c. c \<noteq> d) s of [] \<Rightarrow> None | t \<Rightarrow> Some t)"

definition digit :: "char \<Rightarrow> bool" where
  "digit c \<longleftrightarrow> 48 \<le> (of_char c :: int) \<and> (of_char c :: int) \<le> 57"

definition digits_value :: "string \<Rightarrow> int" where
  "digits_value s = foldl (\<lambda>n c. 10 * n + (of_char c - 48)) 0 (takeWhile digit s)"

definition blank :: "char \<Rightarrow> bool" where
  "blank c \<longleftrightarrow> c = CHR '' '' \<or> (9 \<le> (of_char c :: int) \<and> (of_char c :: int) \<le> 13)"

text \<open>\<open>atoi\<close>: undefined when the number is not an \<open>int\<close>, 0 when there is none.\<close>

definition atoi :: "string \<Rightarrow> int option" where
  "atoi s =
     (let s = dropWhile blank s in
      case s of
        [] \<Rightarrow> Some 0
      | c # t \<Rightarrow> c_int (if c = CHR ''-'' then - digits_value t
                        else if c = CHR ''+'' then digits_value t else digits_value (c # t)))"

text \<open>The conversion \<open>%d\<close>.\<close>

fun dec_nat :: "nat \<Rightarrow> string" where
  "dec_nat n = (if n < 10 then [char_of (48 + n)] else dec_nat (n div 10) @ [char_of (48 + n mod 10)])"

declare dec_nat.simps [simp del]

definition dec :: "int \<Rightarrow> string" where
  "dec n = (if n < 0 then CHR ''-'' # dec_nat (nat (- n)) else dec_nat (nat n))"

lemma of_char_digit: "n < 10 \<Longrightarrow> (of_char (char_of (48 + n :: nat)) :: int) = 48 + int n"
proof -
  assume "n < 10"
  then have "(of_char (char_of (48 + n)) :: nat) = 48 + n" by simp
  then have "int (of_char (char_of (48 + n))) = int (48 + n)" by (rule arg_cong)
  then show ?thesis by (metis of_nat_of_char of_nat_add of_nat_numeral)
qed

lemma dec_nat_digits: "c \<in> set (dec_nat n) \<Longrightarrow> digit c"
proof (induction n rule: dec_nat.induct)
  case (1 n)
  show ?case
  proof (cases "n < 10")
    case True
    then show ?thesis using 1 of_char_digit [of n] by (simp add: dec_nat.simps [of n] digit_def)
  next
    case False
    have "n mod 10 < 10" by simp
    then show ?thesis using False 1 of_char_digit [of "n mod 10"]
      by (auto simp: dec_nat.simps [of n] digit_def)
  qed
qed

lemma dec_nat_value: "foldl (\<lambda>n c. 10 * n + (of_char c - 48)) 0 (dec_nat n) = int n"
proof (induction n rule: dec_nat.induct)
  case (1 n)
  show ?case
  proof (cases "n < 10")
    case True
    then show ?thesis using of_char_digit [of n] by (simp add: dec_nat.simps [of n])
  next
    case False
    have "n mod 10 < 10" by simp
    then have "(of_char (char_of (48 + n mod 10)) :: int) = 48 + int (n mod 10)" by (rule of_char_digit)
    moreover have "10 * int (n div 10) + int (n mod 10) = int n" by presburger
    ultimately show ?thesis using 1 False by (simp add: dec_nat.simps [of n])
  qed
qed

lemma dec_nat_Nil [simp]: "dec_nat n \<noteq> []"
  by (subst dec_nat.simps) simp

lemma digits_value_dec: "s = [] \<or> \<not> digit (hd s) \<Longrightarrow> digits_value (dec_nat n @ s) = int n"
proof -
  assume s: "s = [] \<or> \<not> digit (hd s)"
  have "takeWhile digit (dec_nat n @ s) = dec_nat n @ takeWhile digit s"
    by (rule takeWhile_append2) (rule dec_nat_digits)
  moreover have "takeWhile digit s = []" using s by (cases s) auto
  ultimately show ?thesis using dec_nat_value by (simp add: digits_value_def)
qed

lemma digit_plain: "digit c \<Longrightarrow> \<not> blank c \<and> c \<noteq> CHR ''-'' \<and> c \<noteq> CHR ''+'' \<and> c \<noteq> newline \<and> c \<noteq> CHR 0x00 \<and> c \<noteq> CHR ''=''"
  by (auto simp: digit_def blank_def)

text \<open>A number printed and read again.\<close>

lemma atoi_dec:
  assumes "0 \<le> n" "n \<le> INT_MAX" and s: "s = [] \<or> \<not> digit (hd s)"
  shows "atoi (dec n @ s) = Some n"
proof -
  obtain c t where ct: "dec_nat (nat n) = c # t" by (cases "dec_nat (nat n)") auto
  have c: "digit c" using dec_nat_digits [of c "nat n"] ct by simp
  have "digits_value ((c # t) @ s) = n" using digits_value_dec [OF s, of "nat n"] ct assms(1) by simp
  then show ?thesis using assms(1,2) digit_plain [OF c] ct
    by (simp add: atoi_def dec_def c_conv int_ok_def INT_MIN_def)
qed

end
