(* ===== verification/Manager_Start.thy ===== *)
theory Manager_Start
  imports Manager_Windowed Manager_Indedh Manager_Dh_Main C_Strings
begin

text \<open>
  The four managers as programs: \<open>main\<close> from the command line on. The argument is the number of servers; a start
  that succeeds establishes the invariants on which the loops run.
\<close>

section \<open>The code\<close>

text \<open>How far a program is: it has ended with an exit code, or it is in its loop, which it never leaves.\<close>

datatype 's program = Exited int | Running 's

text \<open>
  \<open>main\<close>, the same in the four files up to the loop: \<open>argv\<close> holds the arguments after the name of the program.
  That a handler could not be installed is only reported.
\<close>

definition manager_program ::
  "(int \<Rightarrow> int \<times> 'm option) \<Rightarrow> (nat \<Rightarrow> 'm \<Rightarrow> 's option) \<Rightarrow> string list \<Rightarrow> 's program option" where
  "manager_program init loop argv =
     (case argv of
        [] \<Rightarrow> Some (Exited (-1))
      | nb_srv # _ \<Rightarrow> do {
          nb_srv \<leftarrow> atoi nb_srv;
          let (rc, m) = init nb_srv;
          if rc \<noteq> 0 then Some (Exited (-1))
          else do { m \<leftarrow> m; st \<leftarrow> loop (nat nb_srv) m; Some (Running st) }
        })"

text \<open>What the system gives at the start: memory and the lock of the table, the arrays, the two sockets.\<close>

record start_env =
  se_table :: "int \<Rightarrow> int \<times> mlt option"
  se_mem :: "nat \<Rightarrow> bool"
  se_pub :: bool
  se_pull :: bool

definition start_fine :: "nat \<Rightarrow> start_env" where
  "start_fine N = \<lparr>se_table = mlt_init True True True 0 True (int N), se_mem = (\<lambda>_. True), se_pub = True, se_pull = True\<rparr>"

definition init_epochs :: "nat \<Rightarrow> start_env \<Rightarrow> int \<Rightarrow> int \<times> manager option" where
  "init_epochs N V nb = manager_init N (se_table V nb) (se_mem V) (se_pub V) (se_pull V) nb"

definition manager_windowed_program :: "manager_env \<Rightarrow> nat \<Rightarrow> start_env \<Rightarrow> event list \<Rightarrow> string list \<Rightarrow> main_state program option" where
  "manager_windowed_program E N V evs = manager_program (init_epochs N V) (\<lambda>nb m. manager_windowed_main E N nb evs (main_start m))"

definition manager_v2_program :: "manager_env \<Rightarrow> nat \<Rightarrow> start_env \<Rightarrow> event list \<Rightarrow> string list \<Rightarrow> main_state program option" where
  "manager_v2_program E N V evs = manager_program (init_epochs N V) (\<lambda>nb m. manager_v2_main E N nb evs (main_start m))"

definition manager_indedh_program :: "manager_env \<Rightarrow> nat \<Rightarrow> start_env \<Rightarrow> event list \<Rightarrow> string list \<Rightarrow> main_state program option" where
  "manager_indedh_program E N V evs = manager_program (init_epochs N V) (\<lambda>nb m. manager_indedh_main E N nb evs (main_start m))"

definition manager_dh_program :: "manager_env \<Rightarrow> nat \<Rightarrow> start_env \<Rightarrow> dh_event list \<Rightarrow> string list \<Rightarrow> dh_main program option" where
  "manager_dh_program E N V evs = manager_program
     (\<lambda>nb. manager_init_dh N (se_table V nb) (se_mem V 0) (se_pub V) (se_pull V))
     (\<lambda>nb m. manager_dh_main E N nb evs (dh_main_start m))"

section \<open>A start that succeeds\<close>

lemma start_table:
  assumes "0 < N" "int N \<le> INT_MAX" "0 < nb" "int nb \<le> INT_MAX"
  obtains t where "se_table (start_fine N) (int nb) = (0, Some t)" "mlt_wf t" "mlt_len t = N"
    "\<And>e. e < N \<Longrightarrow> mlt_row t e = (int (e mod nb), 0, 0)"
proof -
  obtain t where "mlt_init True True True 0 True (int N) (int nb) = (0, Some t)" "mlt_wf t" "mlt_len t = N"
    "\<And>e. e < N \<Longrightarrow> mlt_row t e = (int (e mod nb), 0, 0)"
    using mlt_init_ok [of "int N" "int nb"] mlt_row_of_init [of "int N" _ "int nb"] assms
    by (auto simp: mlt_row_def int_of_u32_def zmod_int)
  then show thesis using that by (simp add: start_fine_def)
qed

lemma init_epochs_ok:
  assumes N: "0 < N" "int N \<le> INT_MAX" and nb: "0 < nb" "int nb \<le> INT_MAX"
  obtains m where "init_epochs N (start_fine N) (int nb) = (0, Some m)" "main_inv N nb 0 (main_start m)"
    "\<And>e. e < N \<Longrightarrow> mlt_row (table m) e = (int (e mod nb), 0, 0)" "epoch m = 0"
proof -
  obtain t where t: "se_table (start_fine N) (int nb) = (0, Some t)" "mlt_wf t" "mlt_len t = N"
    "\<And>e. e < N \<Longrightarrow> mlt_row t e = (int (e mod nb), 0, 0)" using start_table [OF N nb] by blast
  define m where "m = \<lparr>global_list = replicate N 0, table = t, all_list = replicate nb 0, mean_load = 0, epoch = 0, epoch_processed = 0\<rparr>"
  have "init_epochs N (start_fine N) (int nb) = (0, Some m)"
    using t(1) by (simp add: init_epochs_def manager_init_def m_def) (simp add: start_fine_def)
  moreover have "main_inv N nb 0 (main_start m)"
    using t nb by (auto simp: main_inv_def main_start_def manager_inv_def m_def level_ok_def int_ok_def INT_MIN_def INT_MAX_def pos_imp_zdiv_nonneg_iff)
  ultimately show ?thesis using that t(4) by (simp add: m_def)
qed

lemma init_dh_ok:
  assumes N: "0 < N" "int N \<le> INT_MAX" and nb: "0 < nb" "int nb \<le> INT_MAX"
  obtains m where "manager_init_dh N (se_table (start_fine N) (int nb)) True True True = (0, Some m)"
    "dh_main_inv N nb 0 (dh_main_start m)"
proof -
  obtain t where t: "se_table (start_fine N) (int nb) = (0, Some t)" "mlt_wf t" "mlt_len t = N"
    "\<And>e. e < N \<Longrightarrow> mlt_row t e = (int (e mod nb), 0, 0)" using start_table [OF N nb] by blast
  define m where "m = \<lparr>dh_global_list = replicate N 0, dh_table = t, update_needed = 0\<rparr>"
  have "manager_init_dh N (se_table (start_fine N) (int nb)) True True True = (0, Some m)"
    using t(1) by (simp add: manager_init_dh_def m_def)
  moreover have "dh_main_inv N nb 0 (dh_main_start m)"
    using t nb by (auto simp: dh_main_inv_def dh_main_start_def dh_inv_def m_def sai_ok_def int_ok_def INT_MIN_def INT_MAX_def pos_imp_zdiv_nonneg_iff)
  ultimately show ?thesis using that by blast
qed

section \<open>Properties\<close>

text \<open>
  C22: \<open>manager_dh.c\<close> from its start, with the number of servers as its argument, and whatever the order of lists of small SAI, failed
  receives, signals and failed sends: no undefined behaviour, and every published table has as many rows as
  there are entries and names existing servers only.
\<close>

theorem dh_program_safe:
  assumes N: "0 < N" "int N \<le> INT_MAX" and nb: "0 < nb" "int nb \<le> INT_MAX"
    and evs: "\<forall>ev \<in> set evs. dh_event_ok N ev" "int (length evs) \<le> INT_MAX"
  shows "\<exists>st. manager_dh_program env_fine N (start_fine N) evs [dec (int nb)] = Some (Running st) \<and>
    (\<forall>(ids, vers) \<in> set (dm_out st). out_ok N nb (MLT_MSG ids vers 0))"
proof -
  obtain m where m: "manager_init_dh N (se_table (start_fine N) (int nb)) True True True = (0, Some m)"
    "dh_main_inv N nb 0 (dh_main_start m)" using init_dh_ok [OF N nb] by blast
  obtain st where st: "manager_dh_main env_fine N nb evs (dh_main_start m) = Some st" "dh_main_inv N nb (int (length evs)) st"
    using dh_run_ok [OF m(2) _ evs(1)] evs(2) by auto
  have "atoi (dec (int nb)) = Some (int nb)" using atoi_dec [of "int nb" "[]"] nb by simp
  then have "manager_dh_program env_fine N (start_fine N) evs [dec (int nb)] = Some (Running st)"
    using m(1) st(1) by (simp add: manager_dh_program_def manager_program_def) (simp add: start_fine_def)
  with st(2) show ?thesis by (simp add: dh_main_inv_def)
qed

theorem dh_program_safe_witness:
  "\<exists>st. manager_dh_program env_fine 3 (start_fine 3) [Dh_signal, Dh_loop True, Dh_arrive [4, 0, 2], Dh_loop True, Dh_null True] [dec (int 2)] =
    Some (Running st) \<and> (\<forall>(ids, vers) \<in> set (dm_out st). out_ok 3 2 (MLT_MSG ids vers 0))"
proof -
  let ?evs = "[Dh_signal, Dh_loop True, Dh_arrive [4, 0, 2], Dh_loop True, Dh_null True]"
  have "\<forall>ev \<in> set ?evs. dh_event_ok 3 ev" by code_simp
  with dh_program_safe [of 3 2 ?evs] show ?thesis by (simp add: INT_MAX_def)
qed

text \<open>
  Without an argument, or with one that is no positive number, all four managers end with the exit code -1 before
  they open a socket.
\<close>

theorem managers_refuse_no_servers:
  assumes "argv = [] \<or> (\<exists>a as nb. argv = a # as \<and> atoi a = Some nb \<and> nb \<le> 0)"
  shows "manager_windowed_program E N (start_fine N) evs argv = Some (Exited (-1)) \<and>
    manager_v2_program E N (start_fine N) evs argv = Some (Exited (-1)) \<and>
    manager_indedh_program E N (start_fine N) evs argv = Some (Exited (-1)) \<and>
    manager_dh_program E N (start_fine N) dh_evs argv = Some (Exited (-1))"
  using assms by (auto simp: manager_windowed_program_def manager_v2_program_def manager_indedh_program_def manager_dh_program_def
      manager_program_def init_epochs_def manager_init_def manager_init_dh_def start_fine_def mlt_init_def EINVAL_def)

theorem managers_refuse_no_servers_witness:
  "manager_windowed_program env_fine 3 (start_fine 3) [] [''0''] = Some (Exited (-1))"
proof -
  have "atoi ''0'' = Some 0" by code_simp
  then show ?thesis using managers_refuse_no_servers [of "[''0'']" env_fine 3 "[]" "[]"] by simp
qed

text \<open>
  C7: the three managers with epochs, from their start, with the number of servers as the argument and for any order of well-formed messages,
  signals and failed sends: no undefined behaviour, and every published table names existing servers only.
\<close>

theorem epoch_programs_safe:
  assumes N: "0 < N" "int N \<le> INT_MAX" and nb: "0 < nb" "int nb \<le> INT_MAX"
    and evs: "\<forall>ev \<in> set evs. event_ok N nb ev" "int (length evs) \<le> INT_MAX"
    and P: "P \<in> {manager_windowed_program, manager_v2_program, manager_indedh_program}"
  shows "\<exists>st. P env_fine N (start_fine N) evs [dec (int nb)] = Some (Running st) \<and>
    manager_inv N nb (int (length evs)) (ms_man st) \<and> (\<forall>msg \<in> set (ms_out st). out_ok N nb msg)"
proof -
  obtain m where m: "init_epochs N (start_fine N) (int nb) = (0, Some m)" "main_inv N nb 0 (main_start m)"
    using init_epochs_ok [OF N nb] by blast
  note runs = rw.run_ok [OF m(2) _ evs(1)] ri.run_ok [OF m(2) _ evs(1)]
  have a: "atoi (dec (int nb)) = Some (int nb)" using atoi_dec [of "int nb" "[]"] nb by simp
  show ?thesis using P runs a m(1) evs(2)
    by (auto simp: manager_windowed_program_def manager_v2_program_def manager_indedh_program_def manager_program_def
        manager_windowed_main_def manager_v2_main_def manager_calculate_relab_v2_def manager_indedh_main_def main_inv_def)
qed

theorem epoch_programs_safe_witness:
  "\<exists>st. manager_windowed_program env_fine 4 (start_fine 4) demo_events [dec (int 2)] = Some (Running st) \<and>
    manager_inv 4 2 9 (ms_man st)"
proof -
  have "\<forall>ev \<in> set demo_events. event_ok 4 2 ev" "int (length demo_events) = 9" by code_simp+
  with epoch_programs_safe [of 4 2 demo_events manager_windowed_program] show ?thesis by (auto simp: INT_MAX_def)
qed

end
