(* ===== verification/Load_Sort.thy ===== *)
theory Load_Sort
  imports Prelude
begin

text \<open>
  \<open>cut\<close> and \<open>load_args_sort\<close>, the quicksort with Hoare partition by which the three server
  files (and \<open>test/test_sort_args.c\<close>) order the entries to send by the server that receives
  them. Both arrays are permuted together. Reads and writes are checked, so that the
  \<open>do ... while\<close> scans, which test no bound, are shown to stay inside the arrays.
\<close>

section \<open>The code\<close>

record transfert_load_args =
  entries :: "int list"
  servers :: "int list"
  t_size :: int

text \<open>\<open>do j--; while (servers[j] > pivot);\<close> and \<open>do i++; while (servers[i] < pivot);\<close>\<close>

function scan_down :: "int list \<Rightarrow> int \<Rightarrow> int \<Rightarrow> int option" where
  "scan_down s pivot j =
     (case rdi s (j - 1) of
        None \<Rightarrow> None
      | Some x \<Rightarrow> if x > pivot then scan_down s pivot (j - 1) else Some (j - 1))"
  by pat_completeness auto
termination
  by (relation "measure (\<lambda>(s, pivot, j). nat j)") (auto simp: rdi_def split: if_splits)

function scan_up :: "int list \<Rightarrow> int \<Rightarrow> int \<Rightarrow> int option" where
  "scan_up s pivot i =
     (case rdi s (i + 1) of
        None \<Rightarrow> None
      | Some x \<Rightarrow> if x < pivot then scan_up s pivot (i + 1) else Some (i + 1))"
  by pat_completeness auto
termination
  by (relation "measure (\<lambda>(s, pivot, i). nat (int (length s) - i))") (auto simp: rdi_def split: if_splits)

declare scan_down.simps [simp del] scan_up.simps [simp del]

definition swap_args :: "transfert_load_args \<Rightarrow> int \<Rightarrow> int \<Rightarrow> transfert_load_args option" where
  "swap_args l i j = do {
     tmp_srv \<leftarrow> rdi (servers l) i;
     tmp_entry \<leftarrow> rdi (entries l) i;
     sj \<leftarrow> rdi (servers l) j;
     ss \<leftarrow> wri (servers l) i sj;
     ej \<leftarrow> rdi (entries l) j;
     es \<leftarrow> wri (entries l) i ej;
     ss \<leftarrow> wri ss j tmp_srv;
     es \<leftarrow> wri es j tmp_entry;
     Some (l\<lparr>servers := ss, entries := es\<rparr>)
   }"

lemma scan_down_less: "scan_down s pivot j = Some j' \<Longrightarrow> j' < j"
proof (induction s pivot j rule: scan_down.induct)
  case (1 s pivot j)
  show ?case
  proof (cases "rdi s (j - 1)")
    case None
    with "1.prems" show ?thesis by (simp add: scan_down.simps [of s pivot j])
  next
    case (Some x)
    with 1 show ?thesis
      by (cases "x > pivot") (auto simp: scan_down.simps [of s pivot j])
  qed
qed

lemma scan_up_less: "scan_up s pivot i = Some i' \<Longrightarrow> i < i'"
proof (induction s pivot i rule: scan_up.induct)
  case (1 s pivot i)
  show ?case
  proof (cases "rdi s (i + 1)")
    case None
    with "1.prems" show ?thesis by (simp add: scan_up.simps [of s pivot i])
  next
    case (Some x)
    with 1 show ?thesis
      by (cases "x < pivot") (auto simp: scan_up.simps [of s pivot i])
  qed
qed

text \<open>The \<open>while (1)\<close> of \<open>cut\<close>.\<close>

function cut_loop :: "transfert_load_args \<Rightarrow> int \<Rightarrow> int \<Rightarrow> int \<Rightarrow> (transfert_load_args \<times> int) option" where
  "cut_loop l pivot i j =
     (case scan_down (servers l) pivot j of
        None \<Rightarrow> None
      | Some j' \<Rightarrow>
          (case scan_up (servers l) pivot i of
             None \<Rightarrow> None
           | Some i' \<Rightarrow>
               if i' < j' then
                 (case swap_args l i' j' of
                    None \<Rightarrow> None
                  | Some l' \<Rightarrow> cut_loop l' pivot i' j')
               else Some (l, j')))"
  by pat_completeness auto
termination
  by (relation "measure (\<lambda>(l, pivot, i, j). nat (j - i))")
    (auto dest!: scan_down_less scan_up_less)

declare cut_loop.simps [simp del]

definition cut :: "transfert_load_args \<Rightarrow> int \<Rightarrow> int \<Rightarrow> (transfert_load_args \<times> int) option" where
  "cut l p r = do { pivot \<leftarrow> rdi (servers l) p; cut_loop l pivot (p - 1) (r + 1) }"

section \<open>The scans and the swap\<close>

text \<open>A scan stops at the first element that is not beyond the pivot, if there is one.\<close>

lemma scan_down_spec:
  assumes "0 \<le> k" and "k < j" and "j \<le> int (length s)" and "s ! nat k \<le> pivot"
  shows "\<exists>j'. scan_down s pivot j = Some j' \<and> k \<le> j' \<and> j' < j \<and> s ! nat j' \<le> pivot \<and>
    (\<forall>m. j' < m \<and> m < j \<longrightarrow> s ! nat m > pivot)"
  using assms
proof (induction s pivot j rule: scan_down.induct)
  case (1 s pivot j)
  have rd: "rdi s (j - 1) = Some (s ! nat (j - 1))" using "1.prems" by (simp add: rdi_in)
  show ?case
  proof (cases "s ! nat (j - 1) > pivot")
    case True
    then have "k \<noteq> j - 1" using "1.prems" by auto
    then obtain j' where j': "scan_down s pivot (j - 1) = Some j'" "k \<le> j'" "j' < j - 1"
      "s ! nat j' \<le> pivot" "\<forall>m. j' < m \<and> m < j - 1 \<longrightarrow> s ! nat m > pivot"
      using "1.IH" [OF rd True] "1.prems" by auto
    have "s ! nat m > pivot" if "j' < m" "m < j" for m
      using j'(5) True that by (cases "m = j - 1") auto
    with j' rd True show ?thesis by (auto simp: scan_down.simps [of s pivot j])
  next
    case False
    with rd "1.prems" show ?thesis by (auto simp: scan_down.simps [of s pivot j])
  qed
qed

lemma scan_up_spec:
  assumes "0 \<le> i + 1" and "i < k" and "k < int (length s)" and "pivot \<le> s ! nat k"
  shows "\<exists>i'. scan_up s pivot i = Some i' \<and> i < i' \<and> i' \<le> k \<and> pivot \<le> s ! nat i' \<and>
    (\<forall>m. i < m \<and> m < i' \<longrightarrow> s ! nat m < pivot)"
  using assms
proof (induction s pivot i rule: scan_up.induct)
  case (1 s pivot i)
  have rd: "rdi s (i + 1) = Some (s ! nat (i + 1))" using "1.prems" by (simp add: rdi_in)
  show ?case
  proof (cases "s ! nat (i + 1) < pivot")
    case True
    then have "k \<noteq> i + 1" using "1.prems" by auto
    then obtain i' where i': "scan_up s pivot (i + 1) = Some i'" "i + 1 < i'" "i' \<le> k"
      "pivot \<le> s ! nat i'" "\<forall>m. i + 1 < m \<and> m < i' \<longrightarrow> s ! nat m < pivot"
      using "1.IH" [OF rd True] "1.prems" by auto
    have "s ! nat m < pivot" if "i < m" "m < i'" for m
      using i'(5) True that by (cases "m = i + 1") auto
    with i' rd True show ?thesis by (auto simp: scan_up.simps [of s pivot i])
  next
    case False
    with rd "1.prems" show ?thesis by (auto simp: scan_up.simps [of s pivot i])
  qed
qed

definition args_wf :: "transfert_load_args \<Rightarrow> bool" where
  "args_wf l \<longleftrightarrow> length (servers l) = length (entries l)"

abbreviation srv :: "transfert_load_args \<Rightarrow> int \<Rightarrow> int" where
  "srv l k \<equiv> servers l ! nat k"

abbreviation pairs :: "transfert_load_args \<Rightarrow> (int \<times> int) list" where
  "pairs l \<equiv> zip (servers l) (entries l)"

text \<open>
  \<open>l'\<close> is \<open>l\<close> with the elements between \<open>p\<close> and \<open>r\<close> permuted: what holds of all servers of
  the range still holds of them.
\<close>

definition perm_in :: "int \<Rightarrow> int \<Rightarrow> transfert_load_args \<Rightarrow> transfert_load_args \<Rightarrow> bool" where
  "perm_in p r l l' \<longleftrightarrow> args_wf l' \<and> length (servers l') = length (servers l) \<and> t_size l' = t_size l \<and>
     mset (pairs l') = mset (pairs l) \<and>
     (\<forall>k. 0 \<le> k \<and> (k < p \<or> r < k) \<longrightarrow> srv l' k = srv l k \<and> entries l' ! nat k = entries l ! nat k) \<and>
     (\<forall>Q. (\<forall>k. p \<le> k \<and> k \<le> r \<longrightarrow> Q (srv l k)) \<longrightarrow> (\<forall>k. p \<le> k \<and> k \<le> r \<longrightarrow> Q (srv l' k)))"

lemma perm_in_refl: "args_wf l \<Longrightarrow> perm_in p r l l"
  by (simp add: perm_in_def)

lemma perm_in_trans:
  assumes "perm_in p r l l1" and "perm_in p r l1 l2"
  shows "perm_in p r l l2"
proof -
  note 1 = assms(1) [unfolded perm_in_def] and 2 = assms(2) [unfolded perm_in_def]
  show ?thesis
    unfolding perm_in_def
  proof (intro conjI)
    show "\<forall>k. 0 \<le> k \<and> (k < p \<or> r < k) \<longrightarrow> srv l2 k = srv l k \<and> entries l2 ! nat k = entries l ! nat k"
      using 1 2 by metis
    show "\<forall>Q. (\<forall>k. p \<le> k \<and> k \<le> r \<longrightarrow> Q (srv l k)) \<longrightarrow> (\<forall>k. p \<le> k \<and> k \<le> r \<longrightarrow> Q (srv l2 k))"
      using 1 2 by blast
  qed (use 1 2 in \<open>simp_all only: conj_assoc\<close>)
qed

lemma perm_in_all: "perm_in p r l l' \<Longrightarrow> (\<And>k. p \<le> k \<Longrightarrow> k \<le> r \<Longrightarrow> Q (srv l k)) \<Longrightarrow>
    p \<le> k \<Longrightarrow> k \<le> r \<Longrightarrow> Q (srv l' k)"
  unfolding perm_in_def by blast

lemma perm_in_out: "perm_in p r l l' \<Longrightarrow> 0 \<le> k \<Longrightarrow> k < p \<or> r < k \<Longrightarrow> srv l' k = srv l k"
  unfolding perm_in_def by blast

lemma perm_in_mono:
  assumes "perm_in p' r' l l'" and "p \<le> p'" and "r' \<le> r" and "0 \<le> p"
  shows "perm_in p r l l'"
proof -
  have "Q (srv l' k)" if Q: "\<forall>k. p \<le> k \<and> k \<le> r \<longrightarrow> Q (srv l k)" and k: "p \<le> k" "k \<le> r" for Q k
  proof (cases "p' \<le> k \<and> k \<le> r'")
    case True
    then show ?thesis using perm_in_all [OF assms(1), of Q k] Q assms(2,3) by auto
  next
    case False
    then show ?thesis using perm_in_out [OF assms(1), of k] Q k assms(4) by auto
  qed
  then have all: "\<forall>Q. (\<forall>k. p \<le> k \<and> k \<le> r \<longrightarrow> Q (srv l k)) \<longrightarrow> (\<forall>k. p \<le> k \<and> k \<le> r \<longrightarrow> Q (srv l' k))"
    by blast
  note 1 = assms(1) [unfolded perm_in_def]
  have out: "srv l' k = srv l k \<and> entries l' ! nat k = entries l ! nat k" if "0 \<le> k" "k < p \<or> r < k" for k
  proof -
    have "k < p' \<or> r' < k" using that assms(2,3) by linarith
    then show ?thesis using 1 that(1) by blast
  qed
  show ?thesis
    unfolding perm_in_def using 1 all out by blast
qed

lemma swap_args_spec:
  assumes wf: "args_wf l" and ij: "0 \<le> p" "p \<le> i" "i < j" "j \<le> r" "r < int (length (servers l))"
  shows "\<exists>l'. swap_args l i j = Some l' \<and> perm_in p r l l' \<and>
    servers l' = (servers l)[nat i := srv l j, nat j := srv l i]"
proof -
  let ?ni = "nat i" and ?nj = "nat j"
  define l' where "l' = l\<lparr>servers := (servers l)[?ni := srv l j, ?nj := srv l i],
    entries := (entries l)[?ni := entries l ! ?nj, ?nj := entries l ! ?ni]\<rparr>"
  have n: "?ni < length (servers l)" "?nj < length (servers l)" "?ni \<noteq> ?nj"
    "?ni < length (entries l)" "?nj < length (entries l)"
    using assms by (auto simp: args_wf_def)
  have swap: "swap_args l i j = Some l'"
    using n ij by (simp add: swap_args_def rdi_in wri_in l'_def)
  have "pairs l' = (pairs l)[?ni := pairs l ! ?nj, ?nj := pairs l ! ?ni]"
    using n by (simp add: l'_def update_zip)
  moreover have "mset ((pairs l)[?ni := pairs l ! ?nj, ?nj := pairs l ! ?ni]) = mset (pairs l)"
    by (rule mset_swap) (use n in simp_all)
  ultimately have m: "mset (pairs l') = mset (pairs l)" by (rule ssubst)
  have "Q (srv l' k)" if Q: "\<forall>k. p \<le> k \<and> k \<le> r \<longrightarrow> Q (srv l k)" and k: "p \<le> k" "k \<le> r" for Q k
    using Q k n ij by (auto simp: l'_def nth_list_update)
  then have "perm_in p r l l'"
    using wf n ij m by (auto simp: perm_in_def l'_def args_wf_def nth_list_update)
  with swap show ?thesis by (simp add: l'_def)
qed

section \<open>The partition\<close>

text \<open>
  The state of \<open>cut\<close> between two rounds: the elements up to \<open>i\<close> are at most the pivot, those
  from \<open>j\<close> on at least the pivot, and the elements at \<open>i\<close> and \<open>j\<close> stop the next scans.
\<close>

definition cut_inv :: "transfert_load_args \<Rightarrow> int \<Rightarrow> int \<Rightarrow> int \<Rightarrow> int \<Rightarrow> int \<Rightarrow> bool" where
  "cut_inv l p r pivot i j \<longleftrightarrow> args_wf l \<and> 0 \<le> p \<and> r < int (length (servers l)) \<and>
     p \<le> i \<and> i < j \<and> j \<le> r \<and>
     (\<forall>k. p \<le> k \<and> k \<le> i \<longrightarrow> srv l k \<le> pivot) \<and> (\<forall>k. j \<le> k \<and> k \<le> r \<longrightarrow> pivot \<le> srv l k)"

definition cut_post :: "transfert_load_args \<Rightarrow> int \<Rightarrow> int \<Rightarrow> int \<Rightarrow> transfert_load_args \<Rightarrow> int \<Rightarrow> bool" where
  "cut_post l p r pivot l' q \<longleftrightarrow> perm_in p r l l' \<and> p \<le> q \<and> q < r \<and>
     (\<forall>k. p \<le> k \<and> k \<le> q \<longrightarrow> srv l' k \<le> pivot) \<and> (\<forall>k. q < k \<and> k \<le> r \<longrightarrow> pivot \<le> srv l' k)"

lemma cut_post_trans: "perm_in p r l l1 \<Longrightarrow> cut_post l1 p r pivot l2 q \<Longrightarrow> cut_post l p r pivot l2 q"
  unfolding cut_post_def using perm_in_trans by blast

lemma nth_swapped:
  assumes "servers l' = (servers l)[nat i := srv l j, nat j := srv l i]"
    and "0 \<le> i" "i < j" "j < int (length (servers l))" "0 \<le> k"
  shows "srv l' k = (if k = j then srv l i else if k = i then srv l j else srv l k)"
  using assms by (auto simp: nth_list_update)

lemma cut_loop_spec:
  "cut_inv l p r pivot i j \<Longrightarrow> \<exists>l' q. cut_loop l pivot i j = Some (l', q) \<and> cut_post l p r pivot l' q"
proof (induction l pivot i j rule: cut_loop.induct)
  case (1 l pivot i j)
  note inv = "1.prems" [unfolded cut_inv_def]
  have up: "0 \<le> i + 1" "i < j" "j < int (length (servers l))" "pivot \<le> srv l j" using inv by auto
  have down: "0 \<le> i" "i < j" "j \<le> int (length (servers l))" "srv l i \<le> pivot" using inv by auto
  obtain j' where j': "scan_down (servers l) pivot j = Some j'" "i \<le> j'" "j' < j" "srv l j' \<le> pivot"
    "\<forall>m. j' < m \<and> m < j \<longrightarrow> srv l m > pivot" using scan_down_spec [OF down] by blast
  obtain i' where i': "scan_up (servers l) pivot i = Some i'" "i < i'" "i' \<le> j" "pivot \<le> srv l i'"
    "\<forall>m. i < m \<and> m < i' \<longrightarrow> srv l m < pivot" using scan_up_spec [OF up] by blast
  show ?case
  proof (cases "i' < j'")
    case True
    have b: "0 \<le> p" "p \<le> i'" "j' \<le> r" "r < int (length (servers l))" using inv i' j' by auto
    obtain l1 where l1: "swap_args l i' j' = Some l1" "perm_in p r l l1"
      "servers l1 = (servers l)[nat i' := srv l j', nat j' := srv l i']"
      using swap_args_spec [OF _ b(1,2) True b(3,4)] inv by blast
    have s1: "srv l1 k = (if k = j' then srv l i' else if k = i' then srv l j' else srv l k)" if "0 \<le> k" for k
      by (rule nth_swapped [OF l1(3)]) (use b True that in auto)
    have left: "srv l1 k \<le> pivot" if "p \<le> k" "k \<le> i'" for k
      using inv i' j' True that s1 [of k] by (cases "k \<le> i") (auto simp: order.strict_implies_order)
    have right: "pivot \<le> srv l1 k" if "j' \<le> k" "k \<le> r" for k
      using inv i' j' True that s1 [of k] by (cases "j \<le> k") (auto simp: order.strict_implies_order)
    have "cut_inv l1 p r pivot i' j'"
      using inv l1(2) b True left right by (simp add: cut_inv_def perm_in_def)
    from "1.IH" [OF j'(1) i'(1) True l1(1) this] obtain l2 q
      where "cut_loop l1 pivot i' j' = Some (l2, q)" "cut_post l1 p r pivot l2 q" by blast
    then show ?thesis
      using i' j' True l1 cut_post_trans by (auto simp: cut_loop.simps [of l pivot i j])
  next
    case False
    have left: "srv l k \<le> pivot" if "p \<le> k" "k \<le> j'" for k
      using inv i' j' False that by (cases "k \<le> i"; cases "k = j'") (auto simp: order.strict_implies_order)
    have right: "pivot \<le> srv l k" if "j' < k" "k \<le> r" for k
      using inv i' j' that by (cases "j \<le> k") (auto simp: order.strict_implies_order)
    have "cut_post l p r pivot l j'"
      using inv j' left right by (auto simp: cut_post_def perm_in_refl)
    then show ?thesis using i' j' False by (auto simp: cut_loop.simps [of l pivot i j])
  qed
qed

lemma cut_spec:
  assumes wf: "args_wf l" and p: "0 \<le> p" "p < r" "r < int (length (servers l))"
  shows "\<exists>l' q. cut l p r = Some (l', q) \<and> cut_post l p r (srv l p) l' q"
proof -
  let ?v = "srv l p"
  have rdp: "rdi (servers l) p = Some ?v" using p by (simp add: rdi_in)
  have up: "scan_up (servers l) ?v (p - 1) = Some p"
    using rdp by (simp add: scan_up.simps [of "servers l" ?v "p - 1"])
  obtain j where j: "scan_down (servers l) ?v (r + 1) = Some j" "p \<le> j" "j < r + 1" "srv l j \<le> ?v"
    "\<forall>m. j < m \<and> m < r + 1 \<longrightarrow> srv l m > ?v"
    using scan_down_spec [of p "r + 1" "servers l" ?v] p by auto
  show ?thesis
  proof (cases "p < j")
    case True
    have jr: "j \<le> r" using j by simp
    obtain l1 where l1: "swap_args l p j = Some l1" "perm_in p r l l1"
      "servers l1 = (servers l)[nat p := srv l j, nat j := ?v]"
      using swap_args_spec [OF wf p(1) _ True jr p(3)] by auto
    have s1: "srv l1 k = (if k = j then ?v else if k = p then srv l j else srv l k)" if "0 \<le> k" for k
      by (rule nth_swapped [OF l1(3)]) (use p jr True that in auto)
    have right: "?v \<le> srv l1 k" if "j \<le> k" "k \<le> r" for k
      using s1 [of k] j p that by (cases "k = j") (auto simp: order.strict_implies_order)
    have "cut_inv l1 p r ?v p j"
      using l1(2) p True jr right s1 [of p] j(4) by (auto simp: cut_inv_def perm_in_def)
    from cut_loop_spec [OF this] obtain l2 q
      where "cut_loop l1 ?v p j = Some (l2, q)" "cut_post l1 p r ?v l2 q" by blast
    then show ?thesis
      using rdp up j True l1 cut_post_trans
      by (auto simp: cut_def cut_loop.simps [of l ?v "p - 1" "r + 1"])
  next
    case False
    then have jp: "j = p" using j by simp
    then have "cut_post l p r ?v l p"
      using wf p j by (auto simp: cut_post_def perm_in_refl order.strict_implies_order)
    then show ?thesis
      using rdp up j jp by (auto simp: cut_def cut_loop.simps [of l ?v "p - 1" "r + 1"])
  qed
qed

section \<open>The sort\<close>

text \<open>\<open>None\<close> also stands for a recursion that does not end; \<open>load_args_sort_spec\<close> excludes both.\<close>

partial_function (option) load_args_sort :: "transfert_load_args \<Rightarrow> int \<Rightarrow> int \<Rightarrow> transfert_load_args option" where
  "load_args_sort l p r =
     (if p < r then
        Option.bind (cut l p r) (\<lambda>(l, q).
          Option.bind (load_args_sort l p q) (\<lambda>l. load_args_sort l (q + 1) r))
      else Some l)"

text \<open>The call in the transfer threads: \<open>load_args_sort(to_send, 0, to_send->size - 1)\<close>.\<close>

definition sort_to_send :: "transfert_load_args \<Rightarrow> transfert_load_args option" where
  "sort_to_send l = load_args_sort l 0 (t_size l - 1)"

definition sorted_in :: "transfert_load_args \<Rightarrow> int \<Rightarrow> int \<Rightarrow> bool" where
  "sorted_in l p r \<longleftrightarrow> (\<forall>k m. p \<le> k \<and> k \<le> m \<and> m \<le> r \<longrightarrow> srv l k \<le> srv l m)"

lemma sorted_in_join:
  assumes "sorted_in l p q" and "sorted_in l (q + 1) r"
    and "\<And>k. p \<le> k \<Longrightarrow> k \<le> q \<Longrightarrow> srv l k \<le> v" and "\<And>k. q < k \<Longrightarrow> k \<le> r \<Longrightarrow> v \<le> srv l k"
  shows "sorted_in l p r"
  unfolding sorted_in_def
proof (intro allI impI)
  fix k m
  assume km: "p \<le> k \<and> k \<le> m \<and> m \<le> r"
  consider "m \<le> q" | "q < k" | "k \<le> q" "q < m" by linarith
  then show "srv l k \<le> srv l m"
  proof cases
    case 3
    then have "srv l k \<le> v" "v \<le> srv l m" using assms(3,4) km by auto
    then show ?thesis by linarith
  qed (use assms(1,2) km in \<open>auto simp: sorted_in_def\<close>)
qed

lemma load_args_sort_spec:
  assumes "args_wf l" and "0 \<le> p" and "r < int (length (servers l))"
  shows "\<exists>l'. load_args_sort l p r = Some l' \<and> perm_in p r l l' \<and> sorted_in l' p r"
  using assms
proof (induction "nat (r - p)" arbitrary: l p r rule: less_induct)
  case less
  show ?case
  proof (cases "p < r")
    case False
    then have "k = m" if "p \<le> k" "k \<le> m" "m \<le> r" for k m using that by linarith
    then have "sorted_in l p r" by (auto simp: sorted_in_def)
    with False less.prems show ?thesis by (simp add: load_args_sort.simps [of l p r] perm_in_refl)
  next
    case True
    let ?v = "srv l p"
    obtain l1 q where c: "cut l p r = Some (l1, q)" "cut_post l p r ?v l1 q"
      using cut_spec [OF less.prems(1,2) True less.prems(3)] by blast
    note c1 = c(2) [unfolded cut_post_def]
    have l1: "args_wf l1" "length (servers l1) = length (servers l)" using c1 by (auto simp: perm_in_def)
    obtain l2 where l2: "load_args_sort l1 p q = Some l2" "perm_in p q l1 l2" "sorted_in l2 p q"
      using less.hyps [of q p l1] c1 l1 less.prems by auto
    have l2': "args_wf l2" "length (servers l2) = length (servers l)" using l1 l2(2) by (auto simp: perm_in_def)
    obtain l3 where l3: "load_args_sort l2 (q + 1) r = Some l3" "perm_in (q + 1) r l2 l3" "sorted_in l3 (q + 1) r"
      using less.hyps [of r "q + 1" l2] c1 l2' less.prems by auto
    have q: "p \<le> q" "q < r" "0 \<le> p" using c1 less.prems by auto
    have left2: "srv l2 k \<le> ?v" if "p \<le> k" "k \<le> q" for k
      using perm_in_all [OF l2(2), of "\<lambda>x. x \<le> ?v" k] c1 that by blast
    have right2: "?v \<le> srv l2 k" if "q < k" "k \<le> r" for k
      using perm_in_out [OF l2(2), of k] c1 that q by auto
    have same: "srv l3 k = srv l2 k" if "p \<le> k" "k \<le> q" for k
      using perm_in_out [OF l3(2), of k] that q by auto
    have "sorted_in l3 p q" using l2(3) same by (auto simp: sorted_in_def)
    moreover have "?v \<le> srv l3 k" if "q < k" "k \<le> r" for k
      using perm_in_all [OF l3(2), of "\<lambda>x. ?v \<le> x" k] right2 that by auto
    ultimately have "sorted_in l3 p r"
      using sorted_in_join [OF _ l3(3), of p ?v] same left2 by auto
    moreover have "perm_in p r l l3"
      using perm_in_trans [OF perm_in_trans [OF _ perm_in_mono [OF l2(2)]] perm_in_mono [OF l3(2)], of p r l] c1 q
      by auto
    ultimately show ?thesis
      using True c l2 l3 by (auto simp: load_args_sort.simps [of l p r])
  qed
qed

lemma perm_in_id: "perm_in p r l l' \<Longrightarrow> args_wf l' \<and> length (servers l') = length (servers l) \<and>
    t_size l' = t_size l \<and> mset (pairs l') = mset (pairs l)"
  by (simp add: perm_in_def)

text \<open>
  C26. Sorting the list of entries to send never reads or writes outside the two arrays and
  terminates; afterwards the servers are in ascending order and the (server, entry) pairs are
  those of before, so that no entry is lost or changes its receiver.
\<close>

lemma sort_to_send_correct:
  assumes "args_wf l" and "t_size l = int (length (servers l))"
  shows "\<exists>l'. sort_to_send l = Some l' \<and> args_wf l' \<and> t_size l' = t_size l \<and>
    sorted (servers l') \<and> mset (zip (servers l') (entries l')) = mset (zip (servers l) (entries l))"
proof -
  obtain l' where l': "sort_to_send l = Some l'" "perm_in 0 (t_size l - 1) l l'" "sorted_in l' 0 (t_size l - 1)"
    using load_args_sort_spec [OF assms(1), of 0 "t_size l - 1"] assms(2) by (auto simp: sort_to_send_def)
  have "sorted (servers l')"
    unfolding sorted_iff_nth_mono
  proof (intro allI impI)
    fix i j
    assume "i \<le> j" "j < length (servers l')"
    then show "servers l' ! i \<le> servers l' ! j"
      using l'(3) [unfolded sorted_in_def, rule_format, of "int i" "int j"] perm_in_id [OF l'(2)] assms(2)
      by auto
  qed
  with l' perm_in_id [OF l'(2)] show ?thesis by blast
qed

lemma sort_to_send_correct_witness:
  "let l = \<lparr>entries = [7, 3, 9, 4], servers = [2, 0, 1, 0], t_size = 4\<rparr> in
   \<exists>l'. sort_to_send l = Some l' \<and> sorted (servers l') \<and>
     mset (zip (servers l') (entries l')) = {#(2, 7), (0, 3), (1, 9), (0, 4)#}"
  using sort_to_send_correct [of "\<lparr>entries = [7, 3, 9, 4], servers = [2, 0, 1, 0], t_size = 4\<rparr>"]
  by (auto simp: args_wf_def)

end
