(* ===== verification/Transfer_Lists.thy ===== *)
theory Transfer_Lists
  imports Mlt Load_Sort
begin

text \<open>
  How a server takes over a table the manager has published, the loop of
  \<open>thread_manager_listener\<close> (\<open>distribution_indedh_s.c\<close>, \<open>distribution_windowed_s.c\<close>) and
  \<open>thread_mlt_updater\<close> (\<open>distribution_dh_s.c\<close>): its own table is updated entry by entry, and the
  entries it loses and gains are written into the lists for the two transfer threads.
\<close>

section \<open>The code\<close>

text \<open>An empty list in two arrays of \<open>N\<close> elements with the contents \<open>malloc\<close> left there.\<close>

definition args_new :: "nat \<Rightarrow> (nat \<Rightarrow> int) \<Rightarrow> (nat \<Rightarrow> int) \<Rightarrow> transfert_load_args" where
  "args_new N fe fs = \<lparr>entries = map fe [0..<N], servers = map fs [0..<N], t_size = 0\<rparr>"

definition args_add :: "transfert_load_args \<Rightarrow> int \<Rightarrow> int \<Rightarrow> transfert_load_args option" where
  "args_add l server entry = do {
     ss \<leftarrow> wri (servers l) (t_size l) server;
     es \<leftarrow> wri (entries l) (t_size l) entry;
     n \<leftarrow> c_int (t_size l + 1);
     Some (l\<lparr>servers := ss, entries := es, t_size := n\<rparr>)
   }"

text \<open>The table of the message: \<open>memcpy\<close> of \<open>N\<close> words of each frame over a fresh table.\<close>

definition memcpy_words :: "nat \<Rightarrow> u32 list \<Rightarrow> u32 list \<Rightarrow> u32 list option" where
  "memcpy_words n dst src =
     (if n \<le> length dst \<and> n \<le> length src then Some (take n src @ drop n dst) else None)"

definition message_table :: "nat \<Rightarrow> int \<times> mlt option \<Rightarrow> u32 list \<Rightarrow> u32 list \<Rightarrow> mlt option" where
  "message_table N init_result ids vers = do {
     t \<leftarrow> snd init_result;
     ids \<leftarrow> memcpy_words N (id_srv t) ids;
     vers \<leftarrow> memcpy_words N (n_ver t) vers;
     Some (t\<lparr>id_srv := ids, n_ver := vers\<rparr>)
   }"

text \<open>
  One entry. An error of the table is printed only; the variables a failed \<open>mlt_get_entry\<close> did
  not write are then used as they are.
\<close>

definition update_entry_step ::
  "lock_env \<Rightarrow> int \<Rightarrow> mlt \<Rightarrow> nat \<Rightarrow> mlt \<times> transfert_load_args \<times> transfert_load_args \<Rightarrow>
   (mlt \<times> transfert_load_args \<times> transfert_load_args) option" where
  "update_entry_step E self temp i = (\<lambda>(t, to_send, to_receive). do {
     (rc, old) \<leftarrow> mlt_get_entry E (Some t) (int i) True;
     (old_srv, old_ver, old_state) \<leftarrow> old;
     (rc, new) \<leftarrow> mlt_get_entry E (Some temp) (int i) True;
     (new_srv, new_ver, new_state) \<leftarrow> new;
     if old_ver \<noteq> new_ver then
       if old_srv = self then do {
         to_send \<leftarrow> args_add to_send new_srv (int i);
         (rc, t) \<leftarrow> mlt_update_entry E (Some t) (int i) new_srv new_ver 1;
         t \<leftarrow> t;
         Some (t, to_send, to_receive)
       } else if new_srv = self then do {
         to_receive \<leftarrow> args_add to_receive old_srv (int i);
         (rc, t) \<leftarrow> mlt_update_entry E (Some t) (int i) new_srv new_ver 1;
         t \<leftarrow> t;
         Some (t, to_send, to_receive)
       } else do {
         (rc, t) \<leftarrow> mlt_update_entry E (Some t) (int i) new_srv new_ver 0;
         t \<leftarrow> t;
         Some (t, to_send, to_receive)
       }
     else Some (t, to_send, to_receive)
   })"

text \<open>\<open>fill\<close> is what the four allocated arrays contain.\<close>

definition update_table ::
  "lock_env \<Rightarrow> nat \<Rightarrow> int \<Rightarrow> int \<times> mlt option \<Rightarrow> (nat \<Rightarrow> nat \<Rightarrow> int) \<Rightarrow> u32 list \<Rightarrow> u32 list \<Rightarrow> mlt \<Rightarrow>
   (mlt \<times> transfert_load_args \<times> transfert_load_args) option" where
  "update_table E N self init_result fill ids vers t = do {
     temp \<leftarrow> message_table N init_result ids vers;
     forM [0..<N] (update_entry_step E self temp)
       (t, args_new N (fill 2) (fill 3), args_new N (fill 0) (fill 1))
   }"

text \<open>
  The three source files, of which \<open>distribution_indedh_s.c\<close> is the one translated above; the
  text of this part is the same in them.
\<close>

definition update_table_dh where
  "update_table_dh = update_table"

definition update_table_windowed where
  "update_table_windowed = update_table"

section \<open>The lists hold what was added\<close>

definition args_hold :: "nat \<Rightarrow> transfert_load_args \<Rightarrow> (int \<times> nat) list \<Rightarrow> bool" where
  "args_hold N l xs \<longleftrightarrow> length (servers l) = N \<and> length (entries l) = N \<and>
     t_size l = int (length xs) \<and> length xs \<le> N \<and>
     (\<forall>k < length xs. servers l ! k = fst (xs ! k) \<and> entries l ! k = int (snd (xs ! k)))"

lemma args_hold_new: "args_hold N (args_new N fe fs) []"
  by (simp add: args_hold_def args_new_def)

lemma args_hold_add:
  assumes "args_hold N l xs" and "length xs < N" and "int_ok (int N)"
  shows "\<exists>l'. args_add l s (int e) = Some l' \<and> args_hold N l' (xs @ [(s, e)])"
proof -
  have "int_ok (int (length xs) + 1)" using assms(2,3) by (simp add: int_ok_def INT_MIN_def)
  then show ?thesis
    using assms by (auto simp: args_add_def args_hold_def wri_in nth_append nth_list_update less_Suc_eq c_conv)
qed

section \<open>What a new table means for a server\<close>

text \<open>Rows as \<open>(server, version, flag)\<close>: the entries that changed, those to send and to receive.\<close>

definition changed :: "(nat \<Rightarrow> int \<times> int \<times> int) \<Rightarrow> (nat \<Rightarrow> int \<times> int \<times> int) \<Rightarrow> nat \<Rightarrow> bool" where
  "changed old new i \<longleftrightarrow> fst (snd (old i)) \<noteq> fst (snd (new i))"

definition sends :: "int \<Rightarrow> (nat \<Rightarrow> int \<times> int \<times> int) \<Rightarrow> (nat \<Rightarrow> int \<times> int \<times> int) \<Rightarrow> nat \<Rightarrow> (int \<times> nat) list" where
  "sends self old new n =
     map (\<lambda>i. (fst (new i), i)) (filter (\<lambda>i. changed old new i \<and> fst (old i) = self) [0..<n])"

definition receives :: "int \<Rightarrow> (nat \<Rightarrow> int \<times> int \<times> int) \<Rightarrow> (nat \<Rightarrow> int \<times> int \<times> int) \<Rightarrow> nat \<Rightarrow> (int \<times> nat) list" where
  "receives self old new n =
     map (\<lambda>i. (fst (old i), i))
       (filter (\<lambda>i. changed old new i \<and> fst (old i) \<noteq> self \<and> fst (new i) = self) [0..<n])"

definition updated_row :: "int \<Rightarrow> (nat \<Rightarrow> int \<times> int \<times> int) \<Rightarrow> (nat \<Rightarrow> int \<times> int \<times> int) \<Rightarrow> nat \<Rightarrow> int \<times> int \<times> int" where
  "updated_row self old new i =
     (if changed old new i
      then (fst (new i), fst (snd (new i)), if fst (old i) = self \<or> fst (new i) = self then 1 else 0)
      else old i)"

lemma sends_Suc: "sends self old new (Suc n) = sends self old new n @
    (if changed old new n \<and> fst (old n) = self then [(fst (new n), n)] else [])"
  and receives_Suc: "receives self old new (Suc n) = receives self old new n @
    (if changed old new n \<and> fst (old n) \<noteq> self \<and> fst (new n) = self then [(fst (old n), n)] else [])"
  and sends_0: "sends self old new 0 = []" and receives_0: "receives self old new 0 = []"
  by (simp_all add: sends_def receives_def)

lemma length_sends: "length (sends self old new n) \<le> n"
  and length_receives: "length (receives self old new n) \<le> n"
  by (induction n) (auto simp: sends_Suc receives_Suc sends_0 receives_0)

lemma in_sends: "(b, i) \<in> set (sends self old new n) \<longleftrightarrow>
    i < n \<and> changed old new i \<and> fst (old i) = self \<and> b = fst (new i)"
  and in_receives: "(b, i) \<in> set (receives self old new n) \<longleftrightarrow>
    i < n \<and> changed old new i \<and> fst (old i) \<noteq> self \<and> fst (new i) = self \<and> b = fst (old i)"
  by (auto simp: sends_def receives_def)

lemma distinct_sends: "distinct (map snd (sends self old new n))"
  and distinct_receives: "distinct (map snd (receives self old new n))"
  by (simp_all add: sends_def receives_def comp_def)

lemma snd_sends: "snd ` set (sends self old new n) = {i. i < n \<and> changed old new i \<and> fst (old i) = self}"
  and snd_receives: "snd ` set (receives self old new n) =
    {i. i < n \<and> changed old new i \<and> fst (old i) \<noteq> self \<and> fst (new i) = self}"
  by (auto simp: sends_def receives_def image_image)

section \<open>The loop\<close>

definition update_inv ::
  "nat \<Rightarrow> int \<Rightarrow> mlt \<Rightarrow> mlt \<Rightarrow> nat \<Rightarrow> mlt \<times> transfert_load_args \<times> transfert_load_args \<Rightarrow> bool" where
  "update_inv N self t0 temp n s \<longleftrightarrow> (case s of (t, to_send, to_receive) \<Rightarrow>
     mlt_wf t \<and> mlt_len t = N \<and>
     args_hold N to_send (sends self (mlt_row t0) (mlt_row temp) n) \<and>
     args_hold N to_receive (receives self (mlt_row t0) (mlt_row temp) n) \<and>
     (\<forall>i < N. mlt_row t i = (if i < n then updated_row self (mlt_row t0) (mlt_row temp) i else mlt_row t0 i)))"

lemma update_inv_start:
  "mlt_wf t0 \<Longrightarrow> mlt_len t0 = N \<Longrightarrow> update_inv N self t0 temp 0 (t0, args_new N f g, args_new N h k)"
  by (simp add: update_inv_def sends_0 receives_0 args_hold_new)

lemma update_entry_step_ok:
  assumes inv: "update_inv N self t0 temp n s" and n: "n < N" "int_ok (int N)"
    and temp: "mlt_wf temp" "mlt_len temp = N" and pos: "0 \<le> fst (mlt_row temp n)"
  shows "\<exists>s'. update_entry_step locks_work self temp n s = Some s' \<and> update_inv N self t0 temp (Suc n) s'"
proof -
  obtain t ts tr where s: "s = (t, ts, tr)" by (cases s)
  let ?old = "mlt_row t0" and ?new = "mlt_row temp"
  have t: "mlt_wf t" "mlt_len t = N" and ts: "args_hold N ts (sends self ?old ?new n)"
    and tr: "args_hold N tr (receives self ?old ?new n)"
    and rows: "\<And>i. i < N \<Longrightarrow> mlt_row t i = (if i < n then updated_row self ?old ?new i else ?old i)"
    using inv by (auto simp: update_inv_def s)
  obtain os ov of' where old: "?old n = (os, ov, of')" by (cases "?old n")
  obtain ns nv nf where new: "?new n = (ns, nv, nf)" by (cases "?new n")
  have g: "mlt_get_entry locks_work (Some t) (int n) True = Some (0, Some (os, ov, of'))"
    "mlt_get_entry locks_work (Some temp) (int n) True = Some (0, Some (ns, nv, nf))"
    using t temp n rows [of n] old new by (simp_all add: mlt_get_in locks_work_def)
  have ok: "row_ok (ns, nv, f)" if "f = 0 \<or> f = 1" for f
    using that pos new mlt_row_int_ok [of temp n] by (simp add: row_ok.simps)
  have u: "mlt_update_entry locks_work (Some t) (int n) ns nv f = Some (0, Some (mlt_put t n (ns, nv, f)))"
    if "f = 0 \<or> f = 1" for f using mlt_update_in [OF t(1), of n locks_work ns nv f] ok [OF that] t(2) n(1)
    by (simp add: locks_work_def)
  have l: "length (sends self ?old ?new n) < N" "length (receives self ?old ?new n) < N"
    using length_sends [of self ?old ?new n] length_receives [of self ?old ?new n] n(1) by simp_all
  have put: "\<forall>i < N. mlt_row (mlt_put t n (ns, nv, f)) i =
      (if i < Suc n then updated_row self ?old ?new i else ?old i)"
    if "f = (if os = self \<or> ns = self then 1 else 0)" "ov \<noteq> nv" for f
  proof -
    have "row_ok (ns, nv, f)" using ok that(1) by simp
    then show ?thesis using mlt_row_put [OF t(1)] rows t(2) that old new
      by (auto simp: updated_row_def changed_def less_Suc_eq)
  qed
  note defs = update_entry_step_def update_inv_def s g old new sends_Suc receives_Suc changed_def t mlt_put_wf
  consider "ov = nv" | "ov \<noteq> nv" "os = self" | "ov \<noteq> nv" "os \<noteq> self" "ns = self" | "ov \<noteq> nv" "os \<noteq> self" "ns \<noteq> self"
    by blast
  then show ?thesis
  proof cases
    case 1
    then show ?thesis using ts tr rows old new
      by (auto simp: defs updated_row_def less_Suc_eq)
  next
    case 2
    from args_hold_add [OF ts l(1) n(2), of ns n] obtain l' where "args_add ts ns (int n) = Some l'"
      "args_hold N l' (sends self ?old ?new n @ [(ns, n)])" by blast
    then show ?thesis using 2 tr u [of 1] put [of 1] by (simp add: defs)
  next
    case 3
    from args_hold_add [OF tr l(2) n(2), of os n] obtain l' where "args_add tr os (int n) = Some l'"
      "args_hold N l' (receives self ?old ?new n @ [(os, n)])" by blast
    then show ?thesis using 3 ts u [of 1] put [of 1] by (simp add: defs)
  next
    case 4
    then show ?thesis using ts tr u [of 0] put [of 0] by (simp add: defs)
  qed
qed

lemma message_table_ok:
  assumes N: "0 < N" "int N \<le> INT_MAX" and len: "length ids = N" "length vers = N"
  shows "\<exists>temp. message_table N (mlt_init True True True 0 True (int N) 1) ids vers = Some temp \<and>
    mlt_wf temp \<and> mlt_len temp = N \<and>
    (\<forall>i < N. mlt_row temp i = (int_of_u32 (ids ! i), int_of_u32 (vers ! i), 0))"
proof -
  from mlt_init_ok [of "int N" 1] N obtain t where t: "mlt_init True True True 0 True (int N) 1 = (0, Some t)"
    "mlt_wf t" "mlt_len t = N" "\<And>i. i < N \<Longrightarrow> mlt_state t ! i = 0" by auto
  let ?temp = "t\<lparr>id_srv := ids, n_ver := vers\<rparr>"
  have "message_table N (0, Some t) ids vers = Some ?temp"
    using t(2,3) len by (simp add: message_table_def memcpy_words_def mlt_wf_len)
  moreover have "mlt_wf ?temp" "mlt_len ?temp = N" using t(2,3) len by (auto simp: mlt_wf_def mlt_len_def)
  moreover have "int_of_u32 0 = 0" by (simp add: int_of_u32_def)
  ultimately show ?thesis using t(1,4) by (auto simp: mlt_row_def)
qed

text \<open>
  The rows of a published table, its servers and its versions as integers; the flag is not sent.
\<close>

definition message_row :: "u32 list \<Rightarrow> u32 list \<Rightarrow> nat \<Rightarrow> int \<times> int \<times> int" where
  "message_row ids vers i = (int_of_u32 (ids ! i), int_of_u32 (vers ! i), 0)"

lemma sends_cong: "(\<And>i. i < n \<Longrightarrow> new i = new' i) \<Longrightarrow> sends self old new n = sends self old new' n"
  and receives_cong: "(\<And>i. i < n \<Longrightarrow> new i = new' i) \<Longrightarrow> receives self old new n = receives self old new' n"
  by (induction n) (auto simp: sends_Suc receives_Suc sends_0 receives_0 changed_def)

lemma update_table_ok:
  assumes N: "0 < N" "int N \<le> INT_MAX" and t: "mlt_wf t" "mlt_len t = N"
    and len: "length ids = N" "length vers = N" and pos: "\<forall>i < N. 0 \<le> int_of_u32 (ids ! i)"
  shows "\<exists>t' to_send to_receive.
    update_table locks_work N self (mlt_init True True True 0 True (int N) 1) fill ids vers t
      = Some (t', to_send, to_receive) \<and> mlt_wf t' \<and> mlt_len t' = N \<and>
    args_hold N to_send (sends self (mlt_row t) (message_row ids vers) N) \<and>
    args_hold N to_receive (receives self (mlt_row t) (message_row ids vers) N) \<and>
    (\<forall>i < N. mlt_row t' i = updated_row self (mlt_row t) (message_row ids vers) i)"
proof -
  obtain temp where temp: "message_table N (mlt_init True True True 0 True (int N) 1) ids vers = Some temp"
    "mlt_wf temp" "mlt_len temp = N" "\<And>i. i < N \<Longrightarrow> mlt_row temp i = message_row ids vers i"
    using message_table_ok [OF N len] by (auto simp: message_row_def)
  have iN: "int_ok (int N)" using N by (simp add: int_ok_def INT_MIN_def)
  let ?s0 = "(t, args_new N (fill 2) (fill 3), args_new N (fill 0) (fill 1))"
  have "\<exists>s. forM [0..<N] (update_entry_step locks_work self temp) ?s0 = Some s \<and> update_inv N self t temp N s"
  proof (rule forM_upt_rule [where P = "update_inv N self t temp"])
    show "update_inv N self t temp 0 ?s0" by (rule update_inv_start [OF t])
  next
    fix i s
    assume "i < N" "update_inv N self t temp i s"
    then show "\<exists>s'. update_entry_step locks_work self temp i s = Some s' \<and> update_inv N self t temp (Suc i) s'"
      using update_entry_step_ok [OF _ _ iN temp(2,3)] temp(4) pos by (simp add: message_row_def)
  qed
  then show ?thesis
    using temp(1) sends_cong [OF temp(4)] receives_cong [OF temp(4)] temp(4)
    by (auto simp: update_table_def update_inv_def updated_row_def changed_def)
qed

end
