(* ===== verification/Moves.thy ===== *)
theory Moves
  imports Transfer_Lists Manager_Windowed
begin

text \<open>
  The windowed manager and the servers together: the table that \<open>manager_calculate_relab\<close>
  (\<open>manager_windowed.c\<close>) leaves, published by the manager and taken over by every server with the
  loop of \<open>Transfer_Lists\<close>, gives the same moves on both sides.
\<close>

section \<open>Manager and servers\<close>

text \<open>Rows that agree on the server and the version, which is all a message carries.\<close>

definition same_place :: "int \<times> int \<times> int \<Rightarrow> int \<times> int \<times> int \<Rightarrow> bool" where
  "same_place r r' \<longleftrightarrow> fst r = fst r' \<and> fst (snd r) = fst (snd r')"

lemma sends_same:
  "(\<And>i. i < n \<Longrightarrow> same_place (old i) (old' i) \<and> same_place (new i) (new' i)) \<Longrightarrow> sends a old new n = sends a old' new' n"
  and receives_same:
  "(\<And>i. i < n \<Longrightarrow> same_place (old i) (old' i) \<and> same_place (new i) (new' i)) \<Longrightarrow> receives a old new n = receives a old' new' n"
  by (induction n) (simp_all add: sends_0 receives_0 sends_Suc receives_Suc changed_def same_place_def)

lemma message_of_table:
  "mlt_wf t \<Longrightarrow> i < mlt_len t \<Longrightarrow> same_place (message_row (id_srv t) (n_ver t) i) (mlt_row t i)"
  by (simp add: same_place_def message_row_def mlt_row_def)

text \<open>
  Every server that had the table of the manager gets the lists of the same moves.
\<close>

lemma servers_update:
  assumes t: "mlt_wf t" "mlt_len t = N" and t': "mlt_wf t'" "mlt_len t' = N" and N: "0 < N"
    and pos: "\<forall>i < N. 0 \<le> fst (mlt_row t' i)"
    and u: "mlt_wf u" "mlt_len u = N" "\<forall>i < N. same_place (mlt_row u i) (mlt_row t i)"
    and v: "\<forall>i < N. fst (snd (mlt_row t' i)) = fst (snd (mlt_row t i)) \<longrightarrow> fst (mlt_row t' i) = fst (mlt_row t i)"
  shows "\<exists>u' ls lr. update_table locks_work N a (mlt_init True True True 0 True (int N) 1) fill (id_srv t') (n_ver t') u
      = Some (u', ls, lr) \<and> args_hold N ls (sends a (mlt_row t) (mlt_row t') N) \<and>
    args_hold N lr (receives a (mlt_row t) (mlt_row t') N) \<and> mlt_wf u' \<and> mlt_len u' = N \<and>
    (\<forall>i < N. same_place (mlt_row u' i) (mlt_row t' i))"
proof -
  let ?new = "message_row (id_srv t') (n_ver t')"
  have iN: "int N \<le> INT_MAX" using t by (auto simp: mlt_wf_def mlt_len_def simp flip: uint_nat)
  have len: "length (id_srv t') = N" "length (n_ver t') = N" using t' by (simp_all add: mlt_wf_len)
  have new: "same_place (?new i) (mlt_row t' i)" if "i < N" for i using message_of_table [OF t'(1)] t'(2) that by simp
  have ps: "\<forall>i < N. 0 \<le> int_of_u32 (id_srv t' ! i)" using pos by (simp add: mlt_row_def)
  obtain u' ls lr where r: "update_table locks_work N a (mlt_init True True True 0 True (int N) 1) fill (id_srv t') (n_ver t') u
      = Some (u', ls, lr)" "args_hold N ls (sends a (mlt_row u) ?new N)" "args_hold N lr (receives a (mlt_row u) ?new N)"
    "mlt_wf u'" "mlt_len u' = N" "\<And>i. i < N \<Longrightarrow> mlt_row u' i = updated_row a (mlt_row u) ?new i"
    using update_table_ok [OF N iN u(1,2) len ps, of a fill] by blast
  have "sends a (mlt_row u) ?new N = sends a (mlt_row t) (mlt_row t') N"
    "receives a (mlt_row u) ?new N = receives a (mlt_row t) (mlt_row t') N"
    using sends_same [of N "mlt_row u" "mlt_row t" ?new "mlt_row t'" a]
      receives_same [of N "mlt_row u" "mlt_row t" ?new "mlt_row t'" a] u(3) new by blast+
  moreover have "same_place (mlt_row u' i) (mlt_row t' i)" if "i < N" for i
    using r(6) [OF that] u(3) v new [OF that] that
    by (auto simp: updated_row_def changed_def same_place_def)
  ultimately show ?thesis using r by simp
qed

section \<open>Property\<close>

text \<open>The servers keep the table of the manager: each has its servers and its versions.\<close>

definition servers_follow :: "nat \<Rightarrow> nat \<Rightarrow> (nat \<Rightarrow> mlt) \<Rightarrow> mlt \<Rightarrow> bool" where
  "servers_follow N nb T t \<longleftrightarrow>
     (\<forall>a < nb. mlt_wf (T a) \<and> mlt_len (T a) = N \<and> (\<forall>i < N. same_place (mlt_row (T a) i) (mlt_row t i)))"

text \<open>What the server \<open>a\<close> does with the message that carries the table \<open>t\<close>.\<close>

definition take_over :: "nat \<Rightarrow> (nat \<Rightarrow> nat \<Rightarrow> int) \<Rightarrow> mlt \<Rightarrow> nat \<Rightarrow> mlt \<Rightarrow>
    (mlt \<times> transfert_load_args \<times> transfert_load_args) option" where
  "take_over N fill t a u = update_table_windowed locks_work N (int a) (mlt_init True True True 0 True (int N) 1) fill
     (id_srv t) (n_ver t) u"

lemma rebalance_moves:
  assumes m: "manager_ok N nb m"
  obtains m' where "manager_calculate_relab_windowed env_fine N (int nb) m = Some (0, m')"
    "mlt_wf (table m')" "mlt_len (table m') = N"
    "\<And>i. i < N \<Longrightarrow> 0 \<le> fst (mlt_row (table m') i) \<and> fst (mlt_row (table m') i) < int nb"
    "\<And>i. i < N \<Longrightarrow> fst (snd (mlt_row (table m') i)) = fst (snd (mlt_row (table m) i)) \<Longrightarrow>
       fst (mlt_row (table m') i) = fst (mlt_row (table m) i)"
    "\<And>i. i < N \<Longrightarrow> changed (mlt_row (table m)) (mlt_row (table m')) i \<Longrightarrow>
       fst (mlt_row (table m') i) \<noteq> fst (mlt_row (table m) i)"
proof -
  from manager_calculate_relab_windowed_ok [OF m] obtain m' where m':
    "manager_calculate_relab_windowed env_fine N (int nb) m = Some (0, m')"
    "mlt_wf (table m')" "mlt_len (table m') = N"
    "\<And>e. e < N \<Longrightarrow> mlt_row (table m') e = mlt_row (table m) e \<or>
       (\<exists>s v f s'. mlt_row (table m) e = (s, v, f) \<and> mlt_row (table m') e = (s', v + 1, 0) \<and>
          0 \<le> s' \<and> s' < int nb \<and> 0 < rel_load (all_list m) nb (nat s) \<and> rel_load (all_list m) nb (nat s') < 0)"
    by blast
  have own: "0 \<le> fst (mlt_row (table m) i) \<and> fst (mlt_row (table m) i) < int nb" if "i < N" for i
    using m that by (cases "mlt_row (table m) i") (force simp: manager_ok_def table_ok_def)
  show thesis
  proof
    show "manager_calculate_relab_windowed env_fine N (int nb) m = Some (0, m')" "mlt_wf (table m')"
      "mlt_len (table m') = N" using m' by simp_all
  next
    fix i assume i: "i < N"
    show "0 \<le> fst (mlt_row (table m') i) \<and> fst (mlt_row (table m') i) < int nb"
      using m'(4) [OF i] own [OF i] by auto
    show "fst (snd (mlt_row (table m') i)) = fst (snd (mlt_row (table m) i)) \<Longrightarrow>
       fst (mlt_row (table m') i) = fst (mlt_row (table m) i)"
      using m'(4) [OF i] by auto
    show "changed (mlt_row (table m)) (mlt_row (table m')) i \<Longrightarrow>
       fst (mlt_row (table m') i) \<noteq> fst (mlt_row (table m) i)"
      using m'(4) [OF i] by (auto simp: changed_def)
  qed
qed

text \<open>
  C15: manager and servers agree on the moves. When the table of the servers is that of the manager, the
  redistribution returns 0 and every server that takes over the table it publishes gets
  a list to send and a list to receive. The entry \<open>i\<close> is in the list of the server \<open>a\<close> to send to \<open>b\<close> exactly when
  the table places it on \<open>a\<close> before the redistribution and on another server \<open>b\<close> after it, and then it is in the
  list of \<open>b\<close> to receive from \<open>a\<close>; no entry is twice in a list, so that each moved entry is sent once, by its
  old owner, and received once, by its new one, and an entry that stays is in no list. All servers again have the
  table of the manager.
\<close>

theorem moves_are_consistent:
  assumes "manager_ok N nb m" and "0 < N" and "servers_follow N nb T (table m)"
  shows "\<exists>m' T' LS LR S R. manager_calculate_relab_windowed env_fine N (int nb) m = Some (0, m') \<and>
    (\<forall>a < nb. take_over N fill (table m') a (T a) = Some (T' a, LS a, LR a) \<and>
       args_hold N (LS a) (S a) \<and> args_hold N (LR a) (R a)) \<and>
    servers_follow N nb T' (table m') \<and>
    (\<forall>a < nb. \<forall>c i. (c, i) \<in> set (S a) \<longleftrightarrow>
       i < N \<and> fst (mlt_row (table m) i) = int a \<and> fst (mlt_row (table m') i) = c \<and> c \<noteq> int a) \<and>
    (\<forall>b < nb. \<forall>c i. (c, i) \<in> set (R b) \<longleftrightarrow>
       i < N \<and> fst (mlt_row (table m) i) = c \<and> fst (mlt_row (table m') i) = int b \<and> c \<noteq> int b) \<and>
    (\<forall>a < nb. distinct (map snd (S a)) \<and> distinct (map snd (R a))) \<and>
    (\<forall>a < nb. \<forall>b < nb. \<forall>i. (int b, i) \<in> set (S a) \<longleftrightarrow> (int a, i) \<in> set (R b)) \<and>
    (\<forall>a < nb. \<forall>c i. (c, i) \<in> set (S a) \<longrightarrow> i < N \<and> 0 \<le> c \<and> c < int nb \<and> c \<noteq> int a)"
proof -
  obtain m' where m': "manager_calculate_relab_windowed env_fine N (int nb) m = Some (0, m')"
    "mlt_wf (table m')" "mlt_len (table m') = N"
    "\<And>i. i < N \<Longrightarrow> 0 \<le> fst (mlt_row (table m') i) \<and> fst (mlt_row (table m') i) < int nb"
    "\<And>i. i < N \<Longrightarrow> fst (snd (mlt_row (table m') i)) = fst (snd (mlt_row (table m) i)) \<Longrightarrow>
       fst (mlt_row (table m') i) = fst (mlt_row (table m) i)"
    "\<And>i. i < N \<Longrightarrow> changed (mlt_row (table m)) (mlt_row (table m')) i \<Longrightarrow>
       fst (mlt_row (table m') i) \<noteq> fst (mlt_row (table m) i)"
    using rebalance_moves [OF assms(1)] by blast
  have t: "mlt_wf (table m)" "mlt_len (table m) = N" using assms(1) by (auto simp: manager_ok_def table_ok_def)
  define S R where "S = (\<lambda>a. sends (int a) (mlt_row (table m)) (mlt_row (table m')) N)"
    and "R = (\<lambda>a. receives (int a) (mlt_row (table m)) (mlt_row (table m')) N)"
  have "\<forall>a. \<exists>x. a < nb \<longrightarrow> (case x of (u', ls, lr) \<Rightarrow> take_over N fill (table m') a (T a) = Some (u', ls, lr) \<and>
      args_hold N ls (S a) \<and> args_hold N lr (R a) \<and> mlt_wf u' \<and> mlt_len u' = N \<and>
      (\<forall>i < N. same_place (mlt_row u' i) (mlt_row (table m') i)))"
  proof
    fix a
    show "\<exists>x. a < nb \<longrightarrow> (case x of (u', ls, lr) \<Rightarrow> take_over N fill (table m') a (T a) = Some (u', ls, lr) \<and>
      args_hold N ls (S a) \<and> args_hold N lr (R a) \<and> mlt_wf u' \<and> mlt_len u' = N \<and>
      (\<forall>i < N. same_place (mlt_row u' i) (mlt_row (table m') i)))"
      using servers_update [OF t m'(2,3) assms(2), of "T a" "int a" fill] m'(4,5) assms(3)
      by (auto simp: servers_follow_def take_over_def update_table_windowed_def S_def R_def)
  qed
  from choice [OF this] obtain x where x: "\<forall>a. a < nb \<longrightarrow> (case x a of (u', ls, lr) \<Rightarrow> take_over N fill (table m') a (T a) = Some (u', ls, lr) \<and>
      args_hold N ls (S a) \<and> args_hold N lr (R a) \<and> mlt_wf u' \<and> mlt_len u' = N \<and>
      (\<forall>i < N. same_place (mlt_row u' i) (mlt_row (table m') i)))" ..
  let ?T = "\<lambda>a. fst (x a)" and ?LS = "\<lambda>a. fst (snd (x a))" and ?LR = "\<lambda>a. snd (snd (x a))"
  have taken: "\<forall>a < nb. take_over N fill (table m') a (T a) = Some (?T a, ?LS a, ?LR a) \<and>
       args_hold N (?LS a) (S a) \<and> args_hold N (?LR a) (R a)" "servers_follow N nb ?T (table m')"
    using x by (simp_all add: servers_follow_def case_prod_beta prod_eq_iff)
  have ch: "changed (mlt_row (table m)) (mlt_row (table m')) i \<longleftrightarrow> fst (mlt_row (table m') i) \<noteq> fst (mlt_row (table m) i)"
    if "i < N" for i using m'(5,6) [OF that] by (auto simp: changed_def)
  have in_S: "(c, i) \<in> set (S a) \<longleftrightarrow>
      i < N \<and> fst (mlt_row (table m) i) = int a \<and> fst (mlt_row (table m') i) = c \<and> c \<noteq> int a"
    and in_R: "(c, i) \<in> set (R a) \<longleftrightarrow>
      i < N \<and> fst (mlt_row (table m) i) = c \<and> fst (mlt_row (table m') i) = int a \<and> c \<noteq> int a" for a c i
    by (cases "i < N", auto simp: S_def R_def in_sends in_receives ch)+
  have S: "\<forall>a < nb. \<forall>c i. (c, i) \<in> set (S a) \<longleftrightarrow>
      i < N \<and> fst (mlt_row (table m) i) = int a \<and> fst (mlt_row (table m') i) = c \<and> c \<noteq> int a"
    and R: "\<forall>b < nb. \<forall>c i. (c, i) \<in> set (R b) \<longleftrightarrow>
      i < N \<and> fst (mlt_row (table m) i) = c \<and> fst (mlt_row (table m') i) = int b \<and> c \<noteq> int b"
    using in_S in_R by blast+
  have once: "\<forall>a < nb. distinct (map snd (S a)) \<and> distinct (map snd (R a))"
    by (simp add: S_def R_def distinct_sends distinct_receives)
  have pairs: "\<forall>a < nb. \<forall>b < nb. \<forall>i. (int b, i) \<in> set (S a) \<longleftrightarrow> (int a, i) \<in> set (R b)" using in_S in_R by auto
  have inside: "\<forall>a < nb. \<forall>c i. (c, i) \<in> set (S a) \<longrightarrow> i < N \<and> 0 \<le> c \<and> c < int nb \<and> c \<noteq> int a"
  proof (intro allI impI)
    fix a c i assume "a < nb" "(c, i) \<in> set (S a)"
    then have "i < N" "fst (mlt_row (table m') i) = c" "c \<noteq> int a" using in_S by simp_all
    then show "i < N \<and> 0 \<le> c \<and> c < int nb \<and> c \<noteq> int a" using m'(4) [of i] by simp
  qed
  show ?thesis
    by (intro exI [of _ m'] exI [of _ ?T] exI [of _ ?LS] exI [of _ ?LR] exI [of _ S] exI [of _ R] conjI)
      (rule m'(1) taken S R once pairs inside)+
qed

text \<open>In the demonstration the entry 2 moves from the server 0 to the server 1.\<close>

lemma demo_move: "manager_calculate_relab_windowed env_fine 4 (int 2) demo_manager = Some (0, m') \<Longrightarrow>
    fst (mlt_row (table demo_manager) 2) = int 0 \<and> fst (mlt_row (table m') 2) = 1"
proof -
  assume m': "manager_calculate_relab_windowed env_fine 4 (int 2) demo_manager = Some (0, m')"
  have "map_option (\<lambda>(rc, m). fst (mlt_row (table m) 2)) (manager_calculate_relab_windowed env_fine 4 (int 2) demo_manager) = Some 1"
    "fst (mlt_row (table demo_manager) 2) = int 0" by code_simp+
  then show ?thesis using m' by simp
qed

theorem moves_are_consistent_witness:
  "\<exists>m' T' LS LR S R. manager_calculate_relab_windowed env_fine 4 (int 2) demo_manager = Some (0, m') \<and>
     (\<forall>a < 2. take_over 4 (\<lambda>_ _. 7) (table m') a (table demo_manager) = Some (T' a, LS a, LR a) \<and>
        args_hold 4 (LS a) (S a) \<and> args_hold 4 (LR a) (R a)) \<and>
     servers_follow 4 2 T' (table m') \<and> (1, 2) \<in> set (S 0) \<and> (0, 2) \<in> set (R 1)"
proof -
  have m: "manager_ok 4 2 demo_manager" using manager_inv_ok [OF demo_manager_inv] by (simp add: INT_MAX_def)
  then have s: "servers_follow 4 2 (\<lambda>a. table demo_manager) (table demo_manager)"
    by (simp add: servers_follow_def same_place_def manager_ok_def table_ok_def)
  have n: "0 < (4 :: nat)" by simp
  from moves_are_consistent [OF m n s, of "\<lambda>_ _. 7"] obtain m' T' LS LR S R where
    r: "manager_calculate_relab_windowed env_fine 4 (int 2) demo_manager = Some (0, m')"
    "\<forall>a < 2. take_over 4 (\<lambda>_ _. 7) (table m') a (table demo_manager) = Some (T' a, LS a, LR a) \<and>
       args_hold 4 (LS a) (S a) \<and> args_hold 4 (LR a) (R a)"
    "servers_follow 4 2 T' (table m')"
    "\<forall>a < 2. \<forall>c i. (c, i) \<in> set (S a) \<longleftrightarrow> i < 4 \<and> fst (mlt_row (table demo_manager) i) = int a \<and>
       fst (mlt_row (table m') i) = c \<and> c \<noteq> int a"
    "\<forall>b < 2. \<forall>c i. (c, i) \<in> set (R b) \<longleftrightarrow> i < 4 \<and> fst (mlt_row (table demo_manager) i) = c \<and>
       fst (mlt_row (table m') i) = int b \<and> c \<noteq> int b"
    by (elim exE conjE)
  have "(1, 2) \<in> set (S 0)" "(0, 2) \<in> set (R 1)" using r(4,5) demo_move [OF r(1)] by simp_all
  then show ?thesis using r(1-3) by blast
qed

end
