(* ===== verification/Queue.thy ===== *)
theory Queue
  imports Interfaces
begin

text \<open>
  The bounded buffer of \<open>include/queue.h\<close> and \<open>src/queue.c\<close>: a ring of the last \<open>count\<close>
  values put, whose mean the windowed access list uses. The ring refines the list of the
  values it retains, oldest first (\<open>q_list\<close>); the interface locale is \<open>window_buffer\<close>.

  The sizes are natural numbers: they are bounded by \<open>count\<close>, and the wrap-around of
  \<open>count - 1\<close> for an empty ring is never reached, since the write before it is already out
  of bounds. The sum of the mean is a 64-bit word, as in the code.
\<close>

section \<open>State and operations\<close>

record queue =
  q_count :: nat
  q_used :: nat
  q_next :: nat
  q_values :: "u32 list"

text \<open>
  \<open>m\<close> says whether the first \<open>malloc\<close> returns memory; \<open>blk\<close> is what the second one
  returns: \<open>None\<close>, or a block with some contents.
\<close>

definition queue_new :: "bool \<Rightarrow> u32 list option \<Rightarrow> nat \<Rightarrow> queue option" where
  "queue_new m blk cnt =
     (if \<not> m then None
      else case blk of
        None \<Rightarrow> None
      | Some vs \<Rightarrow> Some \<lparr>q_count = cnt, q_used = 0, q_next = 0, q_values = vs\<rparr>)"

definition queue_put :: "queue \<Rightarrow> u32 \<Rightarrow> queue option" where
  "queue_put q v = do {
     vs \<leftarrow> wr (q_values q) (q_next q) v;
     Some (q\<lparr>q_values := vs,
            q_used := (if q_used q < q_count q then q_used q + 1 else q_used q),
            q_next := (if q_next q = q_count q - 1 then 0 else q_next q + 1)\<rparr>)
   }"

definition queue_mean :: "queue \<Rightarrow> u32 option" where
  "queue_mean q =
     (if q_used q = 0 then Some 0
      else do {
        sum \<leftarrow> forM [0..<q_used q]
          (\<lambda>i s. do { v \<leftarrow> rd (q_values q) i; Some (s + ucast v :: u64) }) 0;
        Some (ucast (sum div word_of_nat (q_used q)))
      })"

definition queue_reset :: "queue \<Rightarrow> queue option" where
  "queue_reset q = do {
     vs \<leftarrow> forM [0..<q_used q] (\<lambda>i vs. wr vs i 0) (q_values q);
     Some (q\<lparr>q_values := vs, q_used := 0, q_next := 0\<rparr>)
   }"

section \<open>Invariant and abstraction\<close>

definition q_wf :: "queue \<Rightarrow> bool" where
  "q_wf q \<longleftrightarrow> length (q_values q) = q_count q \<and> q_next q < q_count q \<and> q_used q \<le> q_count q \<and>
     (q_used q < q_count q \<longrightarrow> q_next q = q_used q) \<and> q_count q < 2 ^ 32"

text \<open>The retained values, oldest first.\<close>

definition q_list :: "queue \<Rightarrow> u32 list" where
  "q_list q =
     (if q_used q < q_count q then take (q_used q) (q_values q)
      else drop (q_next q) (q_values q) @ take (q_next q) (q_values q))"

text \<open>The specification: append, then forget the oldest beyond \<open>n\<close>; the mean rounded down.\<close>

definition mean_of :: "u32 list \<Rightarrow> nat" where
  "mean_of xs = (if xs = [] then 0 else sum_list (map unat xs) div length xs)"

lemma length_q_list: "q_wf q \<Longrightarrow> length (q_list q) = q_used q"
  by (auto simp: q_wf_def q_list_def)

lemma queue_new_wf:
  assumes "length vs = n" and "0 < n" and "n < 2 ^ 32"
  shows "\<exists>q. queue_new True (Some vs) n = Some q \<and> q_wf q \<and> q_list q = [] \<and> q_count q = n"
  using assms by (simp add: queue_new_def q_wf_def q_list_def)

lemma queue_put_wf:
  assumes "q_wf q"
  shows "\<exists>q'. queue_put q v = Some q' \<and> q_wf q' \<and> q_count q' = q_count q \<and>
    q_list q' = last_n (q_count q) (q_list q @ [v])"
proof -
  let ?vs = "(q_values q)[q_next q := v]"
  define q' where "q' = q\<lparr>q_values := ?vs,
    q_used := (if q_used q < q_count q then q_used q + 1 else q_used q),
    q_next := (if q_next q = q_count q - 1 then 0 else q_next q + 1)\<rparr>"
  have len: "length (q_values q) = q_count q" and nx: "q_next q < q_count q"
    using assms by (simp_all add: q_wf_def)
  have put: "queue_put q v = Some q'"
    using len nx by (simp add: queue_put_def q'_def wr_in)
  have wf: "q_wf q'" using assms by (auto simp: q_wf_def q'_def)
  have "q_list q' = last_n (q_count q) (q_list q @ [v])"
  proof (cases "q_used q < q_count q")
    case True
    then have nu: "q_next q = q_used q" using assms by (simp add: q_wf_def)
    have t: "take (Suc (q_used q)) ?vs = take (q_used q) (q_values q) @ [v]"
      using True len nu by (simp add: take_Suc_conv_app_nth)
    have "last_n (q_count q) (q_list q @ [v]) = take (q_used q) (q_values q) @ [v]"
      using True len by (simp add: last_n_def q_list_def min_def)
    also have "\<dots> = q_list q'"
      using True t len nu by (auto simp: q_list_def q'_def)
    finally show ?thesis ..
  next
    case False
    then have full: "q_used q = q_count q" using assms by (simp add: q_wf_def)
    have split: "q_values q = take (q_next q) (q_values q) @ q_values q ! q_next q # drop (Suc (q_next q)) (q_values q)"
      using nx len by (simp add: id_take_nth_drop)
    have "last_n (q_count q) (q_list q @ [v]) =
        drop (Suc (q_next q)) (q_values q) @ take (q_next q) (q_values q) @ [v]"
      using False nx len by (simp add: last_n_def q_list_def)
    also have "\<dots> = q_list q'"
      using False full nx len
      by (auto simp: q_list_def q'_def take_Suc_conv_app_nth upd_conv_take_nth_drop)
    finally show ?thesis ..
  qed
  with put wf show ?thesis by (simp add: q'_def)
qed

lemma queue_reset_loop:
  "n \<le> length vs \<Longrightarrow> forM [0..<n] (\<lambda>i vs. wr vs i 0) vs = Some (replicate n 0 @ drop n vs)"
proof (induction n)
  case 0
  then show ?case by simp
next
  case (Suc n)
  then have "drop n vs \<noteq> []" by simp
  with Suc show ?case
    by (simp add: forM_append wr_in list_update_append Cons_nth_drop_Suc [symmetric]
        replicate_append_same [symmetric])
qed

lemma queue_reset_wf:
  assumes "q_wf q"
  shows "\<exists>q'. queue_reset q = Some q' \<and> q_wf q' \<and> q_count q' = q_count q \<and> q_list q' = []"
proof -
  have "q_used q \<le> length (q_values q)" using assms by (simp add: q_wf_def)
  from queue_reset_loop [OF this] show ?thesis
    using assms by (auto simp: queue_reset_def q_wf_def q_list_def)
qed

text \<open>The 64-bit sum of at most $2^{32}$ values of 32 bits does not wrap.\<close>

lemma sum_list_unat_bound: "sum_list (map unat (xs :: u32 list)) \<le> length xs * (2 ^ 32 - 1)"
proof (induction xs)
  case Nil
  then show ?case by simp
next
  case (Cons x xs)
  have "unat x \<le> 2 ^ 32 - 1" using unat_u32_less [of x] by simp
  with Cons show ?case by simp
qed

lemma mean_loop:
  fixes vs :: "u32 list"
  assumes "n \<le> length vs" and "n \<le> 2 ^ 32"
  shows "\<exists>s. forM [0..<n] (\<lambda>i s. do { v \<leftarrow> rd vs i; Some (s + ucast v :: u64) }) 0 = Some s \<and>
    unat s = sum_list (map unat (take n vs))"
proof (rule forM_upt_rule)
  show "unat (0 :: u64) = sum_list (map unat (take 0 vs))" by simp
next
  fix i and s :: u64
  assume i: "i < n" and s: "unat s = sum_list (map unat (take i vs))"
  have t: "take (Suc i) vs = take i vs @ [vs ! i]"
    using i assms by (simp add: take_Suc_conv_app_nth)
  have "sum_list (map unat (take (Suc i) vs)) \<le> Suc i * (2 ^ 32 - 1)"
    using sum_list_unat_bound [of "take (Suc i) vs"] i assms(1) by (simp add: min_absorb2)
  also have "\<dots> \<le> 2 ^ 32 * (2 ^ 32 - 1)" using i assms by (intro mult_right_mono) auto
  finally have "unat s + unat (vs ! i) < 2 ^ 64" using s t by simp
  then have "unat (s + ucast (vs ! i)) = unat s + unat (vs ! i)"
    by (simp add: unat_word_ariths)
  then show "\<exists>t'. (do { v \<leftarrow> rd vs i; Some (s + ucast v) }) = Some t' \<and>
      unat t' = sum_list (map unat (take (Suc i) vs))"
    using i assms s t by (simp add: rd_in)
qed

lemma sum_q_list:
  assumes "q_wf q"
  shows "sum_list (map unat (q_list q)) = sum_list (map unat (take (q_used q) (q_values q)))"
proof (cases "q_used q < q_count q")
  case True
  then show ?thesis by (simp add: q_list_def)
next
  case False
  then have "take (q_used q) (q_values q) = take (q_next q) (q_values q) @ drop (q_next q) (q_values q)"
    using assms by (simp add: q_wf_def)
  then have "sum_list (map unat (take (q_used q) (q_values q))) =
      sum_list (map unat (take (q_next q) (q_values q))) + sum_list (map unat (drop (q_next q) (q_values q)))"
    by (metis map_append sum_list_append)
  then show ?thesis using False by (simp add: q_list_def)
qed

lemma queue_mean_wf:
  assumes "q_wf q"
  shows "\<exists>m. queue_mean q = Some m \<and> unat m = mean_of (q_list q)"
proof (cases "q_used q = 0")
  case True
  then have "q_list q = []" using length_q_list [OF assms] by simp
  with True show ?thesis by (simp add: queue_mean_def mean_of_def)
next
  case False
  let ?n = "q_used q"
  have n: "?n \<le> length (q_values q)" "?n \<le> 2 ^ 32" "?n < 2 ^ 64" using assms by (auto simp: q_wf_def)
  obtain s where s: "forM [0..<?n] (\<lambda>i s. do { v \<leftarrow> rd (q_values q) i; Some (s + ucast v :: u64) }) 0 = Some s"
    "unat s = sum_list (map unat (q_list q))"
    using mean_loop [OF n(1,2)] sum_q_list [OF assms] by auto
  have len: "length (q_list q) = ?n" by (rule length_q_list [OF assms])
  have un: "unat (word_of_nat ?n :: u64) = ?n" using n(3) by (rule unat_word_of_nat_u64)
  have d: "unat (s div word_of_nat ?n) = mean_of (q_list q)"
    using s(2) un len False by (simp add: unat_div mean_of_def)
  have "sum_list (map unat (q_list q)) \<le> ?n * (2 ^ 32 - 1)"
    using sum_list_unat_bound [of "q_list q"] len by simp
  from div_le_mono [OF this, of ?n] have "mean_of (q_list q) \<le> 2 ^ 32 - 1"
    using len False by (auto simp: mean_of_def)
  then have "unat (ucast (s div word_of_nat ?n) :: u32) = mean_of (q_list q)"
    using d by (simp add: unat_ucast_u64_u32)
  with s(1) False show ?thesis by (simp add: queue_mean_def)
qed

interpretation qw: window_buffer queue_put queue_reset queue_mean q_count q_list q_wf
  "\<lambda>xs. word_of_nat (mean_of xs)"
proof (unfold_locales, goal_cases)
  case (3 q)
  from queue_mean_wf [OF this] obtain m where "queue_mean q = Some m" "unat m = mean_of (q_list q)"
    by blast
  moreover have "word_of_nat (unat m) = m" by simp
  ultimately show ?case by simp
next
  case (4 q)
  then show ?case by (simp add: length_q_list q_wf_def)
qed (simp_all add: queue_put_wf queue_reset_wf)

section \<open>Properties\<close>

text \<open>
  C35: a buffer of capacity n from \<open>queue_new\<close>, after \<open>queue_put\<close> of any values, holds the last n of
  them in order; \<open>queue_mean\<close> is the mean of those, rounded down (the 64-bit sum does not wrap), and
  0 after \<open>queue_reset\<close>.
\<close>

theorem queue_is_a_sliding_window:
  assumes "0 < n" and "n < 2 ^ 32" and "length blk = n"
  shows "\<exists>q q' m q0. queue_new True (Some blk) n = Some q \<and> forM vs (\<lambda>v q. queue_put q v) q = Some q' \<and>
    q_list q' = last_n n vs \<and> queue_mean q' = Some m \<and> unat m = mean_of (last_n n vs) \<and>
    queue_reset q' = Some q0 \<and> queue_mean q0 = Some 0"
proof -
  obtain q where q: "queue_new True (Some blk) n = Some q" "q_wf q" "q_list q = []" "q_count q = n"
    using queue_new_wf [OF assms(3,1,2)] by blast
  obtain q' where q': "forM vs (\<lambda>v q. queue_put q v) q = Some q'" "q_wf q'" "q_list q' = last_n n vs"
    using qw.put_all [OF q(2), of vs] q(3,4) by auto
  obtain q0 where q0: "queue_reset q' = Some q0" "q_wf q0" "q_list q0 = []" using qw.reset_ok [OF q'(2)] by blast
  have "queue_mean q0 = Some 0" using qw.mean_ok [OF q0(2)] q0(3) by (simp add: mean_of_def)
  then show ?thesis using q q' q0(1) queue_mean_wf [OF q'(2)] by auto
qed

theorem queue_is_a_sliding_window_witness:
  "\<exists>q q' m q0. queue_new True (Some [7, 7]) 2 = Some q \<and> forM [1, 2, 6] (\<lambda>v q. queue_put q v) q = Some q' \<and>
    q_list q' = last_n 2 [1, 2, 6] \<and> queue_mean q' = Some m \<and> unat m = mean_of (last_n 2 [1, 2, 6]) \<and>
    queue_reset q' = Some q0 \<and> queue_mean q0 = Some 0"
  by (rule queue_is_a_sliding_window) simp_all

end
