(* ===== verification/Eacl.thy ===== *)
theory Eacl
  imports Complex_Main Queue
begin

text \<open>
  The entry access counter lists: \<open>eacl_dh.c\<close>, \<open>eacl_indedh.c\<close> and \<open>eacl_windowed.c\<close>. Each
  distribution method compiles one of them. The second adds a load level to the record of the
  first, the third the buffers of old counters, so the records extend each other and an
  operation whose code is the same in the three files is one function on all of them, named
  once more for each file.

  The workload value of an entry (its SAI) is computed in floating point and truncated to
  \<open>uint32_t\<close>. With the factor of the source, 0.5, every step of the computation is exact in a
  \<open>double\<close> (all values are below $2^{33}$ and multiples of 1/2), so it is written over the
  rationals.
\<close>

section \<open>State\<close>

record eacl =
  access_count :: "u32 list"
  sai :: "u32 list"
  eacl_size :: u32

record eacl_indedh = eacl +
  load_lvl :: u32

record eacl_windowed = eacl_indedh +
  old_accesses :: "queue list"

section \<open>The SAI computation\<close>

definition ALPHA :: rat where
  "ALPHA = 1 / 2"

text \<open>Conversion of a floating value to \<open>uint32_t\<close>: truncation, undefined when out of range.\<close>

definition u32_of_double :: "rat \<Rightarrow> u32 option" where
  "u32_of_double x =
     (let n = (if 0 \<le> x then \<lfloor>x\<rfloor> else \<lceil>x\<rceil>)
      in if 0 \<le> n \<and> n < 4294967296 then Some (word_of_int n) else None)"

definition sai_mix :: "u32 \<Rightarrow> u32 \<Rightarrow> u32 option" where
  "sai_mix old new = u32_of_double ((1 - ALPHA) * of_nat (unat old) + ALPHA * of_nat (unat new))"

lemma u32_of_double_avg:
  assumes "(a + b) div 2 < 4294967296"
  shows "u32_of_double ((1 - ALPHA) * of_nat a + ALPHA * of_nat b) = Some (word_of_nat ((a + b) div 2))"
proof -
  have x: "(1 - ALPHA) * of_nat a + ALPHA * of_nat b = of_int (int (a + b)) / of_int 2"
    by (simp add: ALPHA_def add_divide_distrib)
  obtain k where k: "(a + b) div 2 = k" by blast
  have f: "\<lfloor>of_int (int (a + b)) / (of_int 2 :: rat)\<rfloor> = int k"
    unfolding floor_divide_of_int_eq k [symmetric] by (simp add: zdiv_int)
  have nn: "0 \<le> of_int (int (a + b)) / (of_int 2 :: rat)" by simp
  have "u32_of_double (of_int (int (a + b)) / of_int 2) = Some (word_of_nat k)"
    using assms k unfolding u32_of_double_def Let_def f by (simp only: nn if_True) simp
  then show ?thesis by (simp only: x k)
qed

lemma sai_mix_avg: "sai_mix old new = Some (word_of_nat ((unat old + unat new) div 2))"
  unfolding sai_mix_def
  by (rule u32_of_double_avg) (use unat_u32_less [of old] unat_u32_less [of new] in linarith)

section \<open>The list of the dynamic hashing method\<close>

definition eacl_init_dh :: "bool \<Rightarrow> bool \<Rightarrow> bool \<Rightarrow> int \<Rightarrow> int \<times> eacl option" where
  "eacl_init_dh m1 m2 self sz =
     (if \<not> self \<or> sz \<le> 0 then (- EINVAL, None)
      else if \<not> m1 then (- ENOMEM, None)
      else if \<not> m2 then (- ENOMEM, None)
      else (0, Some \<lparr>access_count = replicate (nat sz) 0, sai = replicate (nat sz) 0,
                     eacl_size = u32_of_int sz\<rparr>))"

definition eacl_incr_access ::
  "('a eacl_scheme) option \<Rightarrow> int \<Rightarrow> (int \<times> ('a eacl_scheme) option) option" where
  "eacl_incr_access self index =
     (case self of
        None \<Rightarrow> Some (- 1, None)
      | Some e \<Rightarrow>
          if index < 0 \<or> eacl_size e \<le> u32_of_int index then Some (- 1, Some e)
          else do {
            c \<leftarrow> rdi (access_count e) index;
            cs \<leftarrow> wri (access_count e) index (c + 1);
            Some (0, Some (e\<lparr>access_count := cs\<rparr>))
          })"

definition eacl_reset_access_dh :: "eacl option \<Rightarrow> (int \<times> eacl option) option" where
  "eacl_reset_access_dh self =
     (case self of
        None \<Rightarrow> Some (- 1, None)
      | Some e \<Rightarrow> do {
          cs \<leftarrow> forM [0..<unat (eacl_size e)] (\<lambda>i cs. wr cs i 0) (access_count e);
          Some (0, Some (e\<lparr>access_count := cs\<rparr>))
        })"

definition eacl_reset_all_entry_dh ::
  "('a eacl_scheme) option \<Rightarrow> int \<Rightarrow> (int \<times> ('a eacl_scheme) option) option" where
  "eacl_reset_all_entry_dh self index =
     (case self of
        None \<Rightarrow> Some (- 1, None)
      | Some e \<Rightarrow>
          if index < 0 \<or> eacl_size e \<le> u32_of_int index then Some (- 1, Some e)
          else do {
            cs \<leftarrow> wri (access_count e) index 0;
            ss \<leftarrow> wri (sai e) index 0;
            Some (0, Some (e\<lparr>access_count := cs, sai := ss\<rparr>))
          })"

definition eacl_calculate_sai_dh :: "eacl option \<Rightarrow> (int \<times> eacl option) option" where
  "eacl_calculate_sai_dh self =
     (case self of
        None \<Rightarrow> Some (- EINVAL, None)
      | Some e \<Rightarrow> do {
          ss \<leftarrow> forM [0..<unat (eacl_size e)]
            (\<lambda>i ss. do { s \<leftarrow> rd ss i; c \<leftarrow> rd (access_count e) i; x \<leftarrow> sai_mix s c; wr ss i x }) (sai e);
          Some (0, Some (e\<lparr>sai := ss\<rparr>))
        })"

definition eacl_read_sai :: "('a eacl_scheme) option \<Rightarrow> int \<Rightarrow> int option" where
  "eacl_read_sai self index =
     (case self of
        None \<Rightarrow> Some (- EINVAL)
      | Some e \<Rightarrow>
          if index < 0 \<or> eacl_size e \<le> u32_of_int index then Some (- EINVAL)
          else do { s \<leftarrow> rdi (sai e) index; Some (int_of_u32 s) })"

section \<open>The list of the independent dynamic hashing method\<close>

definition eacl_init_indedh :: "bool \<Rightarrow> bool \<Rightarrow> bool \<Rightarrow> int \<Rightarrow> int \<times> eacl_indedh option" where
  "eacl_init_indedh m1 m2 self sz =
     (if \<not> self \<or> sz \<le> 0 then (- EINVAL, None)
      else if \<not> m1 then (- ENOMEM, None)
      else if \<not> m2 then (- ENOMEM, None)
      else (0, Some \<lparr>access_count = replicate (nat sz) 0, sai = replicate (nat sz) 0,
                     eacl_size = u32_of_int sz, load_lvl = 0\<rparr>))"

definition eacl_incr_access_indedh ::
  "eacl_indedh option \<Rightarrow> int \<Rightarrow> (int \<times> eacl_indedh option) option" where
  "eacl_incr_access_indedh self index = eacl_incr_access self index"

definition eacl_reset_access_indedh :: "eacl_indedh option \<Rightarrow> (int \<times> eacl_indedh option) option" where
  "eacl_reset_access_indedh self =
     (case self of
        None \<Rightarrow> Some (- 1, None)
      | Some e \<Rightarrow> do {
          cs \<leftarrow> forM [0..<unat (eacl_size e)] (\<lambda>i cs. wr cs i 0) (access_count e);
          Some (0, Some (e\<lparr>access_count := cs\<rparr>))
        })"

definition eacl_reset_all_entry_indedh ::
  "eacl_indedh option \<Rightarrow> int \<Rightarrow> (int \<times> eacl_indedh option) option" where
  "eacl_reset_all_entry_indedh self index = eacl_reset_all_entry_dh self index"

text \<open>The loop sets each SAI and adds it to the load level, a wrapping 32-bit sum.\<close>

definition eacl_calculate_sai_indedh :: "eacl_indedh option \<Rightarrow> (int \<times> eacl_indedh option) option" where
  "eacl_calculate_sai_indedh self =
     (case self of
        None \<Rightarrow> Some (- EINVAL, None)
      | Some e \<Rightarrow> do {
          (ss, lvl) \<leftarrow> forM [0..<unat (eacl_size e)]
            (\<lambda>i (ss, lvl). do {
               s \<leftarrow> rd ss i; c \<leftarrow> rd (access_count e) i; x \<leftarrow> sai_mix s c;
               ss \<leftarrow> wr ss i x; Some (ss, lvl + x) }) (sai e, 0);
          Some (0, Some (e\<lparr>sai := ss, load_lvl := lvl\<rparr>))
        })"

definition eacl_read_sai_indedh :: "eacl_indedh option \<Rightarrow> int \<Rightarrow> int option" where
  "eacl_read_sai_indedh self index = eacl_read_sai self index"

definition eacl_read_load_lvl :: "('a eacl_indedh_scheme) option \<Rightarrow> int" where
  "eacl_read_load_lvl self = (case self of None \<Rightarrow> - EINVAL | Some e \<Rightarrow> int_of_u32 (load_lvl e))"

section \<open>The list of the windowed method\<close>

definition WINDOW_SIZE :: nat where
  "WINDOW_SIZE = 12"

text \<open>
  \<open>qm i\<close> is what the two \<open>malloc\<close> calls of the \<open>i\<close>-th \<open>queue_new\<close> return. When one fails
  the function returns \<open>ENOMEM\<close>, without the minus sign of the other paths.
\<close>

definition eacl_init_windowed ::
  "bool \<Rightarrow> bool \<Rightarrow> bool \<Rightarrow> (nat \<Rightarrow> bool \<times> u32 list option) \<Rightarrow> bool \<Rightarrow> int \<Rightarrow> int \<times> eacl_windowed option" where
  "eacl_init_windowed m1 m2 m3 qm self sz =
     (if \<not> self \<or> sz \<le> 0 then (- EINVAL, None)
      else if \<not> m1 then (- ENOMEM, None)
      else if \<not> m2 then (- ENOMEM, None)
      else if \<not> m3 then (- ENOMEM, None)
      else case forM [0..<nat sz]
             (\<lambda>i qs. map_option (\<lambda>q. qs @ [q]) (queue_new (fst (qm i)) (snd (qm i)) WINDOW_SIZE)) [] of
        None \<Rightarrow> (ENOMEM, None)
      | Some qs \<Rightarrow>
          (0, Some \<lparr>access_count = replicate (nat sz) 0, sai = replicate (nat sz) 0,
                    eacl_size = u32_of_int sz, load_lvl = 0, old_accesses = qs\<rparr>))"

definition eacl_incr_access_windowed ::
  "eacl_windowed option \<Rightarrow> int \<Rightarrow> (int \<times> eacl_windowed option) option" where
  "eacl_incr_access_windowed self index = eacl_incr_access self index"

text \<open>A reset first stores the counter of the step that ends in the buffer of the entry.\<close>

definition eacl_reset_access_windowed ::
  "eacl_windowed option \<Rightarrow> (int \<times> eacl_windowed option) option" where
  "eacl_reset_access_windowed self =
     (case self of
        None \<Rightarrow> Some (- 1, None)
      | Some e \<Rightarrow> do {
          (qs, cs) \<leftarrow> forM [0..<unat (eacl_size e)]
            (\<lambda>i (qs, cs). do {
               q \<leftarrow> rd qs i; c \<leftarrow> rd cs i; q \<leftarrow> queue_put q c; qs \<leftarrow> wr qs i q; cs \<leftarrow> wr cs i 0;
               Some (qs, cs) }) (old_accesses e, access_count e);
          Some (0, Some (e\<lparr>old_accesses := qs, access_count := cs\<rparr>))
        })"

definition eacl_reset_all_entry_windowed ::
  "eacl_windowed option \<Rightarrow> int \<Rightarrow> (int \<times> eacl_windowed option) option" where
  "eacl_reset_all_entry_windowed self index =
     (case self of
        None \<Rightarrow> Some (- 1, None)
      | Some e \<Rightarrow>
          if index < 0 \<or> eacl_size e \<le> u32_of_int index then Some (- 1, Some e)
          else do {
            cs \<leftarrow> wri (access_count e) index 0;
            ss \<leftarrow> wri (sai e) index 0;
            q \<leftarrow> rdi (old_accesses e) index;
            q \<leftarrow> queue_reset q;
            qs \<leftarrow> wri (old_accesses e) index q;
            Some (0, Some (e\<lparr>access_count := cs, sai := ss, old_accesses := qs\<rparr>))
          })"

definition eacl_calculate_sai_windowed ::
  "eacl_windowed option \<Rightarrow> (int \<times> eacl_windowed option) option" where
  "eacl_calculate_sai_windowed self =
     (case self of
        None \<Rightarrow> Some (- EINVAL, None)
      | Some e \<Rightarrow> do {
          (ss, lvl) \<leftarrow> forM [0..<unat (eacl_size e)]
            (\<lambda>i (ss, lvl). do {
               q \<leftarrow> rd (old_accesses e) i; m \<leftarrow> queue_mean q;
               c \<leftarrow> rd (access_count e) i; x \<leftarrow> sai_mix m c;
               ss \<leftarrow> wr ss i x; Some (ss, lvl + x) }) (sai e, 0);
          Some (0, Some (e\<lparr>sai := ss, load_lvl := lvl\<rparr>))
        })"

definition eacl_read_sai_windowed :: "eacl_windowed option \<Rightarrow> int \<Rightarrow> int option" where
  "eacl_read_sai_windowed self index = eacl_read_sai self index"

definition eacl_read_load_lvl_windowed :: "eacl_windowed option \<Rightarrow> int" where
  "eacl_read_load_lvl_windowed self = eacl_read_load_lvl self"

section \<open>Invariants\<close>

definition eacl_wf :: "('a eacl_scheme) \<Rightarrow> bool" where
  "eacl_wf e \<longleftrightarrow> length (access_count e) = unat (eacl_size e) \<and>
     length (sai e) = unat (eacl_size e) \<and> uint (eacl_size e) \<le> INT_MAX"

definition eacl_len :: "('a eacl_scheme) \<Rightarrow> nat" where
  "eacl_len e = unat (eacl_size e)"

definition eacl_wf_windowed :: "eacl_windowed \<Rightarrow> bool" where
  "eacl_wf_windowed e \<longleftrightarrow> eacl_wf e \<and> length (old_accesses e) = eacl_len e \<and>
     (\<forall>q \<in> set (old_accesses e). q_wf q \<and> q_count q = WINDOW_SIZE)"

text \<open>What the SAI of an entry is meant to become: the mean of an old and a new value.\<close>

definition sai_avg :: "u32 \<Rightarrow> u32 \<Rightarrow> u32" where
  "sai_avg old new = word_of_nat ((unat old + unat new) div 2)"

lemma sai_mix_eq: "sai_mix old new = Some (sai_avg old new)"
  by (simp add: sai_mix_avg sai_avg_def)

lemma unat_sai_avg: "unat (sai_avg old new) = (unat old + unat new) div 2"
  using unat_u32_less [of old] unat_u32_less [of new]
  by (simp add: sai_avg_def unat_of_nat)

lemma eacl_idx:
  assumes "eacl_wf e" and "i < eacl_len e"
  shows "int_ok (int i)" and "\<not> eacl_size e \<le> u32_of_int (int i)"
proof -
  have i: "int i < uint (eacl_size e)" using assms(2) by (simp add: eacl_len_def less_unat_iff)
  with assms(1) show ok: "int_ok (int i)" by (simp add: eacl_wf_def int_ok_def INT_MIN_def)
  show "\<not> eacl_size e \<le> u32_of_int (int i)"
    using i uint_u32_of_int [OF _ ok] by (simp add: word_le_def)
qed

lemma eacl_idx_out:
  assumes "eacl_len e \<le> i" and "int_ok (int i)"
  shows "eacl_size e \<le> u32_of_int (int i)"
  using assms uint_u32_of_int [of "int i"]
  by (simp add: word_le_def eacl_len_def unat_le_iff)

lemma eacl_wf_len:
  "eacl_wf e \<Longrightarrow> length (access_count e) = eacl_len e"
  "eacl_wf e \<Longrightarrow> length (sai e) = eacl_len e"
  by (simp_all add: eacl_wf_def eacl_len_def)

lemma eacl_incr_in:
  assumes "eacl_wf e" and "i < eacl_len e"
  shows "eacl_incr_access (Some e) (int i) =
    Some (0, Some (e\<lparr>access_count := (access_count e)[i := access_count e ! i + 1]\<rparr>))"
  using assms eacl_idx [OF assms] by (simp add: eacl_incr_access_def rdi_in wri_in eacl_wf_len)

lemma eacl_reset_all_in:
  assumes "eacl_wf e" and "i < eacl_len e"
  shows "eacl_reset_all_entry_dh (Some e) (int i) =
    Some (0, Some (e\<lparr>access_count := (access_count e)[i := 0], sai := (sai e)[i := 0]\<rparr>))"
  using assms eacl_idx [OF assms] by (simp add: eacl_reset_all_entry_dh_def wri_in eacl_wf_len)

lemma eacl_reset_all_windowed_in:
  assumes wf: "eacl_wf_windowed e" and i: "i < eacl_len e"
  shows "\<exists>q. eacl_reset_all_entry_windowed (Some e) (int i) =
      Some (0, Some (e\<lparr>access_count := (access_count e)[i := 0], sai := (sai e)[i := 0],
        old_accesses := (old_accesses e)[i := q]\<rparr>)) \<and> q_wf q \<and> q_count q = WINDOW_SIZE \<and> q_list q = []"
proof -
  have wf': "eacl_wf e" and len: "length (old_accesses e) = eacl_len e"
    and "q_wf (old_accesses e ! i)" and cnt: "q_count (old_accesses e ! i) = WINDOW_SIZE"
    using assms by (auto simp: eacl_wf_windowed_def)
  then obtain q where "queue_reset (old_accesses e ! i) = Some q" "q_wf q" "q_count q = WINDOW_SIZE" "q_list q = []"
    using qw.reset_ok by metis
  then show ?thesis using eacl_idx [OF wf' i] i len
    by (intro exI [of _ q]) (simp add: eacl_reset_all_entry_windowed_def wri_in rdi_in eacl_wf_len [OF wf'])
qed

section \<open>The three lists meet the contract of the servers\<close>

definition ok_or_none :: "(int \<times> 'e option) option \<Rightarrow> 'e option" where
  "ok_or_none r = (case r of Some (rc, e) \<Rightarrow> if rc = 0 then e else None | None \<Rightarrow> None)"

definition eacl_incr_nat :: "('a eacl_scheme) \<Rightarrow> nat \<Rightarrow> ('a eacl_scheme) option" where
  "eacl_incr_nat e i = (if int_ok (int i) then ok_or_none (eacl_incr_access (Some e) (int i)) else None)"

lemma eacl_incr_nat_in:
  "eacl_wf e \<Longrightarrow> i < eacl_len e \<Longrightarrow>
   eacl_incr_nat e i = Some (e\<lparr>access_count := (access_count e)[i := access_count e ! i + 1]\<rparr>)"
  by (simp add: eacl_incr_nat_def ok_or_none_def eacl_incr_in eacl_idx)

lemma eacl_incr_nat_out: "eacl_len e \<le> i \<Longrightarrow> eacl_incr_nat e i = None"
  by (simp add: eacl_incr_nat_def ok_or_none_def eacl_incr_access_def eacl_idx_out)

interpretation al_dh: access_list
  eacl_incr_nat "\<lambda>e i. ok_or_none (eacl_reset_all_entry_dh (Some e) (int i))"
  "\<lambda>e i. access_count (e :: eacl) ! i" eacl_len eacl_wf
  by unfold_locales
    (auto simp: eacl_incr_nat_in eacl_incr_nat_out ok_or_none_def eacl_reset_all_in
      eacl_wf_def eacl_len_def nth_list_update)

interpretation al_indedh: access_list
  eacl_incr_nat "\<lambda>e i. ok_or_none (eacl_reset_all_entry_indedh (Some e) (int i))"
  "\<lambda>e i. access_count (e :: eacl_indedh) ! i" eacl_len eacl_wf
  by unfold_locales
    (auto simp: eacl_incr_nat_in eacl_incr_nat_out ok_or_none_def eacl_reset_all_in
      eacl_reset_all_entry_indedh_def eacl_wf_def eacl_len_def nth_list_update)

interpretation al_windowed: access_list
  eacl_incr_nat "\<lambda>e i. ok_or_none (eacl_reset_all_entry_windowed (Some e) (int i))"
  "\<lambda>e i. access_count (e :: eacl_windowed) ! i" eacl_len eacl_wf_windowed
proof (unfold_locales, goal_cases)
  case (1 e i)
  then show ?case
    by (auto simp: eacl_wf_windowed_def eacl_incr_nat_in eacl_wf_def eacl_len_def nth_list_update)
next
  case (2 e i)
  then show ?case by (simp add: eacl_incr_nat_out)
next
  case (3 e i)
  from eacl_reset_all_windowed_in [OF this] obtain q where
    q: "eacl_reset_all_entry_windowed (Some e) (int i) = Some (0, Some (e\<lparr>access_count := (access_count e)[i := 0],
        sai := (sai e)[i := 0], old_accesses := (old_accesses e)[i := q]\<rparr>))"
    "q_wf q" "q_count q = WINDOW_SIZE" by blast
  then show ?case using 3
    by (auto simp: ok_or_none_def eacl_wf_windowed_def eacl_wf_def eacl_len_def nth_list_update
        dest!: subsetD [OF set_update_subset_insert])
qed

section \<open>The loops\<close>

lemma calculate_dh:
  assumes "eacl_wf e"
  shows "eacl_calculate_sai_dh (Some e) = Some (0, Some (e\<lparr>sai :=
    map (\<lambda>i. sai_avg (sai e ! i) (access_count e ! i)) [0..<eacl_len e]\<rparr>))"
proof -
  have "forM [0..<eacl_len e]
      (\<lambda>i ss. do { s \<leftarrow> rd ss i; c \<leftarrow> rd (access_count e) i; x \<leftarrow> sai_mix s c; wr ss i x }) (sai e)
    = Some (map (\<lambda>i. sai_avg (sai e ! i) (access_count e ! i)) [0..<eacl_len e])"
    using assms by (intro forM_upd) (simp_all add: eacl_wf_len rd_in wr_in sai_mix_eq)
  then show ?thesis by (simp add: eacl_calculate_sai_dh_def eacl_len_def)
qed

lemma calculate_indedh:
  assumes "eacl_wf e"
  shows "eacl_calculate_sai_indedh (Some e) =
    (let ss = map (\<lambda>i. sai_avg (sai e ! i) (access_count e ! i)) [0..<eacl_len e]
     in Some (0, Some (e\<lparr>sai := ss, load_lvl := sum_list ss\<rparr>)))"
proof -
  let ?g = "\<lambda>i. sai_avg (sai e ! i) (access_count e ! i)"
  have "forM [0..<eacl_len e]
      (\<lambda>i (ss, lvl). do {
         s \<leftarrow> rd ss i; c \<leftarrow> rd (access_count e) i; x \<leftarrow> sai_mix s c;
         ss \<leftarrow> wr ss i x; Some (ss, lvl + x) }) (sai e, 0)
    = Some (map ?g [0..<eacl_len e], fold (\<lambda>i a. a + ?g i) [0..<eacl_len e] 0)"
    using assms by (intro forM_upd_fold) (simp_all add: eacl_wf_len rd_in wr_in sai_mix_eq)
  then show ?thesis
    by (simp add: eacl_calculate_sai_indedh_def eacl_len_def Let_def fold_add_upt)
qed

definition q_mean :: "queue \<Rightarrow> u32" where
  "q_mean q = word_of_nat (mean_of (q_list q))"

lemma calculate_windowed:
  assumes "eacl_wf_windowed e"
  shows "eacl_calculate_sai_windowed (Some e) =
    (let ss = map (\<lambda>i. sai_avg (q_mean (old_accesses e ! i)) (access_count e ! i)) [0..<eacl_len e]
     in Some (0, Some (e\<lparr>sai := ss, load_lvl := sum_list ss\<rparr>)))"
proof -
  let ?g = "\<lambda>i. sai_avg (q_mean (old_accesses e ! i)) (access_count e ! i)"
  have wf: "eacl_wf e" "length (old_accesses e) = eacl_len e" using assms by (auto simp: eacl_wf_windowed_def)
  have m: "queue_mean (old_accesses e ! i) = Some (q_mean (old_accesses e ! i))" if "i < eacl_len e" for i
    using assms that by (simp add: eacl_wf_windowed_def qw.mean_ok q_mean_def)
  have "forM [0..<eacl_len e]
      (\<lambda>i (ss, lvl). do {
         q \<leftarrow> rd (old_accesses e) i; m \<leftarrow> queue_mean q;
         c \<leftarrow> rd (access_count e) i; x \<leftarrow> sai_mix m c;
         ss \<leftarrow> wr ss i x; Some (ss, lvl + x) }) (sai e, 0)
    = Some (map ?g [0..<eacl_len e], fold (\<lambda>i a. a + ?g i) [0..<eacl_len e] 0)"
    using wf m by (intro forM_upd_fold) (simp_all add: eacl_wf_len rd_in wr_in sai_mix_eq)
  then show ?thesis
    by (simp add: eacl_calculate_sai_windowed_def eacl_len_def Let_def fold_add_upt)
qed

lemma reset_dh:
  assumes "eacl_wf e"
  shows "eacl_reset_access_dh (Some e) = Some (0, Some (e\<lparr>access_count := replicate (eacl_len e) 0\<rparr>))"
proof -
  have "forM [0..<eacl_len e] (\<lambda>i cs. wr cs i 0) (access_count e) = Some (map (\<lambda>_. 0) [0..<eacl_len e])"
    using assms by (intro forM_upd) (simp_all add: eacl_wf_len wr_in)
  then show ?thesis by (simp add: eacl_reset_access_dh_def eacl_len_def map_replicate_const)
qed

lemma reset_indedh:
  assumes "eacl_wf e"
  shows "eacl_reset_access_indedh (Some e) = Some (0, Some (e\<lparr>access_count := replicate (eacl_len e) 0\<rparr>))"
proof -
  have "forM [0..<eacl_len e] (\<lambda>i cs. wr cs i 0) (access_count e) = Some (map (\<lambda>_. 0) [0..<eacl_len e])"
    using assms by (intro forM_upd) (simp_all add: eacl_wf_len wr_in)
  then show ?thesis by (simp add: eacl_reset_access_indedh_def eacl_len_def map_replicate_const)
qed

text \<open>The windowed reset: each buffer takes the counter of its entry, all counters are 0.\<close>

lemma reset_windowed:
  assumes "eacl_wf_windowed e"
  shows "\<exists>qs. eacl_reset_access_windowed (Some e) =
      Some (0, Some (e\<lparr>old_accesses := qs, access_count := replicate (eacl_len e) 0\<rparr>)) \<and>
    length qs = eacl_len e \<and> (\<forall>i < eacl_len e. q_wf (qs ! i) \<and> q_count (qs ! i) = WINDOW_SIZE \<and>
      q_list (qs ! i) = last_n WINDOW_SIZE (q_list (old_accesses e ! i) @ [access_count e ! i]))"
proof -
  let ?n = "eacl_len e" and ?h = "\<lambda>i cs. cs[i := 0 :: u32]"
  have wf: "eacl_wf e" "length (old_accesses e) = ?n" using assms by (auto simp: eacl_wf_windowed_def)
  have "\<forall>i. \<exists>q'. i < ?n \<longrightarrow> queue_put (old_accesses e ! i) (access_count e ! i) = Some q' \<and> q_wf q' \<and>
      q_count q' = WINDOW_SIZE \<and> q_list q' = last_n WINDOW_SIZE (q_list (old_accesses e ! i) @ [access_count e ! i])"
    using assms qw.put_ok by (metis eacl_wf_windowed_def nth_mem)
  then obtain g where g: "\<And>i. i < ?n \<Longrightarrow> queue_put (old_accesses e ! i) (access_count e ! i) = Some (g i) \<and>
      q_wf (g i) \<and> q_count (g i) = WINDOW_SIZE \<and>
      q_list (g i) = last_n WINDOW_SIZE (q_list (old_accesses e ! i) @ [access_count e ! i])" by metis
  have "forM [0..<?n] (\<lambda>i (qs, cs). do {
         q \<leftarrow> rd qs i; c \<leftarrow> rd cs i; q \<leftarrow> queue_put q c; qs \<leftarrow> wr qs i q; cs \<leftarrow> wr cs i 0;
         Some (qs, cs) }) (old_accesses e, access_count e)
    = Some (map g [0..<?n], fold ?h [0..<?n] (access_count e))"
    using wf g by (intro forM_upd_fold) (simp_all add: eacl_wf_len rd_in wr_in fold_upd_upt)
  moreover have "fold ?h [0..<?n] (access_count e) = replicate ?n 0"
    using wf by (intro nth_equalityI) (simp_all add: eacl_wf_len fold_upd_upt)
  ultimately show ?thesis using g
    by (intro exI [of _ "map g [0..<?n]"]) (simp add: eacl_reset_access_windowed_def eacl_len_def)
qed

lemma reset_windowed_wf:
  assumes wf: "eacl_wf_windowed e" and e': "eacl_reset_access_windowed (Some e) = Some (0, Some e')"
  shows "eacl_wf_windowed e'" and "eacl_len e' = eacl_len e"
proof -
  obtain qs where qs: "eacl_reset_access_windowed (Some e) =
      Some (0, Some (e\<lparr>old_accesses := qs, access_count := replicate (eacl_len e) 0\<rparr>))"
    "length qs = eacl_len e" "\<forall>i < eacl_len e. q_wf (qs ! i) \<and> q_count (qs ! i) = WINDOW_SIZE"
    using reset_windowed [OF wf] by blast
  from qs(1) e' have e'': "e' = e\<lparr>old_accesses := qs, access_count := replicate (eacl_len e) 0\<rparr>" by simp
  then show len: "eacl_len e' = eacl_len e" by (simp add: eacl_len_def)
  have "eacl_wf e'" using wf e'' by (simp add: eacl_wf_windowed_def eacl_wf_def eacl_len_def)
  moreover have "length (old_accesses e') = eacl_len e'"
    and "\<forall>q \<in> set (old_accesses e'). q_wf q \<and> q_count q = WINDOW_SIZE"
    using e'' qs(2,3) len by (simp_all add: all_set_conv_all_nth)
  ultimately show "eacl_wf_windowed e'" by (simp add: eacl_wf_windowed_def)
qed

section \<open>Properties\<close>

lemma read_sai_in:
  assumes "eacl_wf e" and "i < eacl_len e"
  shows "eacl_read_sai (Some e) (int i) = Some (int_of_u32 (sai e ! i))"
  using assms eacl_idx [OF assms] by (simp add: eacl_read_sai_def rdi_in eacl_wf_len)

definition demo_list :: eacl where
  "demo_list = \<lparr>access_count = [4294967295, 6], sai = [4, 3], eacl_size = 2\<rparr>"

definition demo_windowed :: eacl_windowed where
  "demo_windowed = \<lparr>access_count = [8, 3], sai = [0, 0], eacl_size = 2, load_lvl = 0,
     old_accesses = replicate 2 \<lparr>q_count = WINDOW_SIZE, q_used = 1, q_next = 1, q_values = replicate WINDOW_SIZE 4\<rparr>\<rparr>"

definition demo_indedh :: eacl_indedh where
  "demo_indedh = \<lparr>access_count = [8, 6], sai = [4, 3], eacl_size = 2, load_lvl = 0\<rparr>"

lemma demo_lists: "eacl_wf demo_list" "eacl_len demo_list = 2" "eacl_wf_windowed demo_windowed"
  "eacl_len demo_windowed = 2" "eacl_wf demo_indedh" "eacl_len demo_indedh = 2"
  by (simp_all add: demo_list_def demo_windowed_def demo_indedh_def eacl_wf_def eacl_wf_windowed_def eacl_len_def
      q_wf_def WINDOW_SIZE_def INT_MAX_def)

text \<open>
  The counter of an entry counts its accesses modulo $2^{32}$: after \<open>eacl_incr_access\<close> for a
  sequence of entries of the list, each counter has grown by the number of times its entry is in
  the sequence, and only an entry of the list can be counted.
\<close>

theorem counters_count_accesses:
  assumes "eacl_wf (e :: eacl)" and "\<forall>i \<in> set is. i < eacl_len e"
  shows "\<exists>e'. forM is (\<lambda>i e. eacl_incr_nat e i) e = Some e' \<and>
    (\<forall>j < eacl_len e. access_count e' ! j = access_count e ! j + word_of_nat (count_list is j)) \<and>
    (\<forall>j. eacl_len e \<le> j \<longrightarrow> eacl_incr_nat e' j = None)"
proof -
  obtain e' where e': "forM is (\<lambda>i e. eacl_incr_nat e i) e = Some e'" "eacl_wf e'" "eacl_len e' = eacl_len e"
    "\<forall>j < eacl_len e. access_count e' ! j = access_count e ! j + word_of_nat (count_list is j)"
    using al_dh.incr_all [OF assms] by blast
  then show ?thesis by (simp add: eacl_incr_nat_out)
qed

theorem counters_count_accesses_witness:
  "\<exists>e'. forM [0, 1, 0] (\<lambda>i e. eacl_incr_nat e i) demo_list = Some e' \<and>
    (\<forall>j < eacl_len demo_list.
       access_count e' ! j = access_count demo_list ! j + word_of_nat (count_list [0, 1, 0] j)) \<and>
    (\<forall>j. eacl_len demo_list \<le> j \<longrightarrow> eacl_incr_nat e' j = None)"
  by (rule counters_count_accesses) (simp_all add: demo_lists)

text \<open>
  One step of the dynamic hashing method: \<open>eacl_calculate_sai\<close> sets each SAI to the mean of the
  old SAI and the counter, rounded down, with no overflow, and \<open>eacl_reset_access\<close> puts the
  counters back to 0 and keeps the SAI.
\<close>

theorem dh_step_averages:
  assumes "eacl_wf e"
  shows "\<exists>e1 e2. eacl_calculate_sai_dh (Some e) = Some (0, Some e1) \<and> eacl_reset_access_dh (Some e1) = Some (0, Some e2) \<and>
    eacl_wf e2 \<and> eacl_len e2 = eacl_len e \<and>
    (\<forall>i < eacl_len e. unat (sai e2 ! i) = (unat (sai e ! i) + unat (access_count e ! i)) div 2 \<and>
       access_count e2 ! i = 0)"
proof -
  let ?e1 = "e\<lparr>sai := map (\<lambda>i. sai_avg (sai e ! i) (access_count e ! i)) [0..<eacl_len e]\<rparr>"
  have w: "eacl_wf ?e1" "eacl_len ?e1 = eacl_len e" using assms by (simp_all add: eacl_wf_def eacl_len_def)
  show ?thesis
    using calculate_dh [OF assms] reset_dh [OF w(1)] w assms
    by (simp add: unat_sai_avg) (simp add: eacl_wf_def eacl_len_def)
qed

theorem dh_step_averages_witness:
  "\<exists>e1 e2. eacl_calculate_sai_dh (Some demo_list) = Some (0, Some e1) \<and> eacl_reset_access_dh (Some e1) = Some (0, Some e2) \<and>
    eacl_wf e2 \<and> eacl_len e2 = eacl_len demo_list \<and>
    (\<forall>i < eacl_len demo_list. unat (sai e2 ! i) = (unat (sai demo_list ! i) + unat (access_count demo_list ! i)) div 2 \<and>
       access_count e2 ! i = 0)"
  by (rule dh_step_averages) (simp add: demo_lists)

lemma sum_list_u32:
  "sum_list (map unat ws) < 2 ^ 32 \<Longrightarrow> unat (sum_list (ws :: u32 list)) = sum_list (map unat ws)"
proof (induction ws)
  case Nil
  then show ?case by simp
next
  case (Cons w ws)
  then show ?case by (simp add: unat_word_ariths)
qed

text \<open>
  The load level the other methods report is the sum of the SAI: \<open>eacl_calculate_sai\<close> of the
  independent method averages each SAI with its counter, and the level that \<open>eacl_read_load_lvl\<close>
  then reads is the sum of the new SAI, exact when it is below $2^{31}$.
\<close>

theorem indedh_step_sums_load:
  assumes "eacl_wf e"
    and "sum_list (map (\<lambda>i. (unat (sai e ! i) + unat (access_count e ! i)) div 2) [0..<eacl_len e]) < 2 ^ 31"
  shows "\<exists>e'. eacl_calculate_sai_indedh (Some e) = Some (0, Some e') \<and>
    (\<forall>i < eacl_len e. unat (sai e' ! i) = (unat (sai e ! i) + unat (access_count e ! i)) div 2) \<and>
    eacl_read_load_lvl (Some e') =
      int (sum_list (map (\<lambda>i. (unat (sai e ! i) + unat (access_count e ! i)) div 2) [0..<eacl_len e]))"
proof -
  let ?ss = "map (\<lambda>i. sai_avg (sai e ! i) (access_count e ! i)) [0..<eacl_len e]"
  have m: "map unat ?ss = map (\<lambda>i. (unat (sai e ! i) + unat (access_count e ! i)) div 2) [0..<eacl_len e]"
    by (simp add: unat_sai_avg)
  have "sum_list (map unat ?ss) < 2 ^ 32" using assms(2) unfolding m by simp
  then have u: "unat (sum_list ?ss) =
      sum_list (map (\<lambda>i. (unat (sai e ! i) + unat (access_count e ! i)) div 2) [0..<eacl_len e])"
    unfolding m [symmetric] by (rule sum_list_u32)
  moreover have "int_of_u32 (sum_list ?ss) = int (unat (sum_list ?ss))"
    using u assms(2) by (simp add: int_of_u32_small uint_nat INT_MAX_def)
  ultimately show ?thesis using calculate_indedh [OF assms(1)]
    by (simp add: Let_def unat_sai_avg eacl_read_load_lvl_def)
qed

theorem indedh_step_sums_load_witness:
  "\<exists>e'. eacl_calculate_sai_indedh (Some demo_indedh) = Some (0, Some e') \<and>
    (\<forall>i < eacl_len demo_indedh. unat (sai e' ! i) = (unat (sai demo_indedh ! i) + unat (access_count demo_indedh ! i)) div 2) \<and>
    eacl_read_load_lvl (Some e') = int (sum_list (map
      (\<lambda>i. (unat (sai demo_indedh ! i) + unat (access_count demo_indedh ! i)) div 2) [0..<eacl_len demo_indedh]))"
proof (rule indedh_step_sums_load)
  have u: "[0..<2] = [0, Suc 0]" by (simp add: numeral_2_eq_2)
  show "sum_list (map (\<lambda>i. (unat (sai demo_indedh ! i) + unat (access_count demo_indedh ! i)) div 2)
    [0..<eacl_len demo_indedh]) < 2 ^ 31"
    unfolding demo_lists u by (simp add: demo_indedh_def)
qed (simp add: demo_lists)

text \<open>
  C36: one step of the windowed method: each SAI becomes the mean, rounded down, of the mean of the
  counters of the last steps (at most 12) and the counter of this step. The old SAI, which the comment on
  \<open>eacl_calculate_sai\<close> (\<open>(1-alpha)*sai_old + alpha*access_count\<close>) has in the place of the mean of the window, is not used. Then the reset appends the
  counter to the window, which forgets its oldest value when it holds 12, and clears the counter.
\<close>

theorem windowed_step_averages:
  assumes "eacl_wf_windowed e"
  shows "\<exists>e1 e2. eacl_calculate_sai_windowed (Some e) = Some (0, Some e1) \<and>
    eacl_reset_access_windowed (Some e1) = Some (0, Some e2) \<and> eacl_wf_windowed e2 \<and> eacl_len e2 = eacl_len e \<and>
    load_lvl e2 = sum_list (sai e2) \<and>
    (\<forall>i < eacl_len e.
       unat (sai e2 ! i) = (mean_of (q_list (old_accesses e ! i)) + unat (access_count e ! i)) div 2 \<and>
       q_list (old_accesses e2 ! i) = last_n WINDOW_SIZE (q_list (old_accesses e ! i) @ [access_count e ! i]) \<and>
       access_count e2 ! i = 0)"
proof -
  let ?ss = "map (\<lambda>i. sai_avg (q_mean (old_accesses e ! i)) (access_count e ! i)) [0..<eacl_len e]"
  let ?e1 = "e\<lparr>sai := ?ss, load_lvl := sum_list ?ss\<rparr>"
  have w: "eacl_wf_windowed ?e1" "eacl_len ?e1 = eacl_len e"
    using assms by (simp_all add: eacl_wf_windowed_def eacl_wf_def eacl_len_def)
  have m: "unat (q_mean (old_accesses e ! i)) = mean_of (q_list (old_accesses e ! i))" if "i < eacl_len e" for i
  proof -
    have "q_wf (old_accesses e ! i)" using assms that by (simp add: eacl_wf_windowed_def)
    then obtain m where "queue_mean (old_accesses e ! i) = Some m" "unat m = mean_of (q_list (old_accesses e ! i))"
      using queue_mean_wf by blast
    then show ?thesis using qw.mean_ok [of "old_accesses e ! i"] \<open>q_wf _\<close> by (simp add: q_mean_def)
  qed
  have c: "eacl_calculate_sai_windowed (Some e) = Some (0, Some ?e1)"
    using calculate_windowed [OF assms] by (simp add: Let_def)
  obtain qs where r: "eacl_reset_access_windowed (Some ?e1) =
      Some (0, Some (?e1\<lparr>old_accesses := qs, access_count := replicate (eacl_len e) 0\<rparr>))"
    "\<forall>i < eacl_len e. q_list (qs ! i) = last_n WINDOW_SIZE (q_list (old_accesses e ! i) @ [access_count e ! i])"
    using reset_windowed [OF w(1)] w(2) by auto
  show ?thesis
    using c r reset_windowed_wf [OF w(1) r(1)] w(2) m
    by (intro exI [of _ ?e1] exI [of _ "?e1\<lparr>old_accesses := qs, access_count := replicate (eacl_len e) 0\<rparr>"])
      (simp add: unat_sai_avg)
qed

theorem windowed_step_averages_witness:
  "\<exists>e1 e2. eacl_calculate_sai_windowed (Some demo_windowed) = Some (0, Some e1) \<and>
    eacl_reset_access_windowed (Some e1) = Some (0, Some e2) \<and> eacl_wf_windowed e2 \<and> eacl_len e2 = eacl_len demo_windowed \<and>
    load_lvl e2 = sum_list (sai e2) \<and>
    (\<forall>i < eacl_len demo_windowed.
       unat (sai e2 ! i) =
         (mean_of (q_list (old_accesses demo_windowed ! i)) + unat (access_count demo_windowed ! i)) div 2 \<and>
       q_list (old_accesses e2 ! i) =
         last_n WINDOW_SIZE (q_list (old_accesses demo_windowed ! i) @ [access_count demo_windowed ! i]) \<and>
       access_count e2 ! i = 0)"
  by (rule windowed_step_averages) (simp add: demo_lists)

lemma init_windowed_fails:
  "i < n \<Longrightarrow> \<not> fst (qm i) \<Longrightarrow>
   forM [0..<n] (\<lambda>i qs. map_option (\<lambda>q. qs @ [q]) (queue_new (fst (qm i)) (snd (qm i)) w)) qs = None"
proof (induction n)
  case 0
  then show ?case by simp
next
  case (Suc n)
  have "forM [0..<n] (\<lambda>i qs. map_option (\<lambda>q. qs @ [q]) (queue_new (fst (qm i)) (snd (qm i)) w)) qs = None" if "i \<noteq> n"
    using Suc that by simp
  then show ?case
    using Suc.prems by (cases "i = n"; cases "forM [0..<n] (\<lambda>i qs. map_option (\<lambda>q. qs @ [q])
      (queue_new (fst (qm i)) (snd (qm i)) w)) qs") (auto simp: forM_append queue_new_def)
qed

text \<open>
  The sign of an error of the windowed \<open>eacl_init\<close>: without memory for one of its own arrays
  it returns \<open>-ENOMEM\<close>, without memory for one of the buffers it returns \<open>ENOMEM\<close>, a positive
  value, although the header announces a negative error code.
\<close>

theorem init_windowed_error_sign:
  assumes "0 < sz" and "i < nat sz" and "\<not> fst (qm i)"
  shows "eacl_init_windowed True True False qm True sz = (- ENOMEM, None) \<and>
    eacl_init_windowed True True True qm True sz = (ENOMEM, None) \<and> 0 < ENOMEM"
  using assms init_windowed_fails [OF assms(2), of qm WINDOW_SIZE "[]"]
  by (simp add: eacl_init_windowed_def ENOMEM_def)

theorem init_windowed_error_sign_witness:
  "eacl_init_windowed True True False (\<lambda>i. (i = 0, Some (replicate 12 0))) True 2 = (- ENOMEM, None) \<and>
   eacl_init_windowed True True True (\<lambda>i. (i = 0, Some (replicate 12 0))) True 2 = (ENOMEM, None) \<and> 0 < ENOMEM"
  by (rule init_windowed_error_sign [of 2 1]) simp_all

text \<open>
  \<open>eacl_read_sai\<close> mixes values and error codes: it returns the SAI of an entry of the list as an
  \<open>int\<close>, which is negative exactly when the SAI is $2^{31}$ or more, and the SAI $2^{32} - 22$ is read as
  \<open>-EINVAL\<close>, the code for an entry outside the list.
\<close>

theorem read_sai_is_ambiguous:
  assumes "eacl_wf e" and "i < eacl_len e"
  shows "\<exists>x. eacl_read_sai (Some e) (int i) = Some x \<and> (x < 0 \<longleftrightarrow> 2 ^ 31 \<le> unat (sai e ! i)) \<and>
    (0 \<le> x \<longrightarrow> x = int (unat (sai e ! i))) \<and>
    (unat (sai e ! i) = 2 ^ 32 - 22 \<longrightarrow> x = - EINVAL) \<and>
    eacl_read_sai (Some e) (-1) = Some (- EINVAL)"
proof -
  let ?w = "sai e ! i"
  have neg: "int_of_u32 ?w < 0 \<longleftrightarrow> 2 ^ 31 \<le> unat ?w"
  proof -
    have "(2147483647 < int n) = (2147483648 \<le> n)" for n by presburger
    then show ?thesis by (simp only: int_of_u32_neg_iff INT_MAX_def uint_nat) simp
  qed
  moreover have "int_of_u32 ?w = int (unat ?w)" if "0 \<le> int_of_u32 ?w"
    using that int_of_u32_neg_iff [of ?w] by (simp add: int_of_u32_small not_less)
  moreover have "int_of_u32 ?w = - EINVAL" if "unat ?w = 2 ^ 32 - 22"
  proof -
    have "uint ?w = 4294967274" using that by (simp only: uint_nat) simp
    then show ?thesis using int_of_u32_big [of ?w] by (simp add: INT_MAX_def EINVAL_def)
  qed
  moreover have "eacl_read_sai (Some e) (-1) = Some (- EINVAL)" by (simp add: eacl_read_sai_def)
  ultimately show ?thesis using read_sai_in [OF assms] by blast
qed

theorem read_sai_is_ambiguous_witness:
  "\<exists>x. eacl_read_sai (Some demo_list) (int 1) = Some x \<and> (x < 0 \<longleftrightarrow> 2 ^ 31 \<le> unat (sai demo_list ! 1)) \<and>
    (0 \<le> x \<longrightarrow> x = int (unat (sai demo_list ! 1))) \<and>
    (unat (sai demo_list ! 1) = 2 ^ 32 - 22 \<longrightarrow> x = - EINVAL) \<and>
    eacl_read_sai (Some demo_list) (-1) = Some (- EINVAL)"
  by (rule read_sai_is_ambiguous) (simp_all add: demo_lists)

end
