(* ===== verification/Md_Entry.thy ===== *)
theory Md_Entry
  imports Prelude
begin

text \<open>
  \<open>md_entry.c\<close>: the linked list of the metadata names an entry holds. The lists are modelled
  on an explicit heap of list cells, as the code links them, and every operation is shown to
  implement the list operation it stands for.
\<close>

section \<open>The code\<close>

record md_entry =
  md_ent :: int
  md_name :: string
  md_next :: "nat option"

text \<open>The heap of list cells: a pointer is an address or \<open>NULL\<close> (\<open>None\<close>).\<close>

type_synonym md_heap = "nat \<rightharpoonup> md_entry"
type_synonym md_ptr = "nat option"

definition md_entry_init :: "md_heap \<Rightarrow> nat \<Rightarrow> int \<Rightarrow> string \<Rightarrow> md_heap option" where
  "md_entry_init h elem entry name = do {
     _ \<leftarrow> h elem;
     Some (h(elem \<mapsto> \<lparr>md_ent = entry, md_name = name, md_next = None\<rparr>))
   }"

definition md_entry_insert :: "md_heap \<Rightarrow> md_ptr \<Rightarrow> nat \<Rightarrow> (md_heap \<times> md_ptr) option" where
  "md_entry_insert h head elem = do {
     c \<leftarrow> h elem;
     Some (h(elem \<mapsto> c\<lparr>md_next := head\<rparr>), Some elem)
   }"

text \<open>The new head and the returned pointer.\<close>

definition md_entry_pop :: "md_heap \<Rightarrow> md_ptr \<Rightarrow> (md_ptr \<times> md_ptr) option" where
  "md_entry_pop h head =
     (case head of
        None \<Rightarrow> Some (None, None)
      | Some a \<Rightarrow> do { c \<leftarrow> h a; Some (md_next c, Some a) })"

text \<open>The loop of the search; a cyclic list without the name is a search that does not return.\<close>

partial_function (option) md_entry_search_loop ::
    "md_heap \<Rightarrow> string \<Rightarrow> md_ptr \<Rightarrow> md_ptr \<Rightarrow> md_ptr \<Rightarrow> (md_heap \<times> md_ptr \<times> md_ptr) option" where
  "md_entry_search_loop h name head prev current =
     (case current of
        None \<Rightarrow> Some (h, head, None)
      | Some a \<Rightarrow>
          Option.bind (h a) (\<lambda>c.
            if md_name c = name then
              (case prev of
                 None \<Rightarrow> Some (h, md_next c, Some a)
               | Some b \<Rightarrow> Option.bind (h b) (\<lambda>cb. Some (h(b \<mapsto> cb\<lparr>md_next := md_next c\<rparr>), head, Some a)))
            else md_entry_search_loop h name head (Some a) (md_next c)))"

definition md_entry_search_md_name :: "md_heap \<Rightarrow> md_ptr \<Rightarrow> string \<Rightarrow> (md_heap \<times> md_ptr \<times> md_ptr) option" where
  "md_entry_search_md_name h head name = md_entry_search_loop h name head None head"

section \<open>The list a pointer stands for\<close>

fun chain :: "md_heap \<Rightarrow> md_ptr \<Rightarrow> nat list \<Rightarrow> bool" where
  "chain h p [] \<longleftrightarrow> p = None"
| "chain h p (a # as) \<longleftrightarrow> p = Some a \<and> (\<exists>c. h a = Some c \<and> chain h (md_next c) as)"

abbreviation cell_name :: "md_heap \<Rightarrow> nat \<Rightarrow> string" where
  "cell_name h a \<equiv> md_name (the (h a))"

definition names_of :: "md_heap \<Rightarrow> nat list \<Rightarrow> string list" where
  "names_of h as = map (cell_name h) as"

text \<open>An acyclic list: its cells are distinct.\<close>

definition is_list :: "md_heap \<Rightarrow> md_ptr \<Rightarrow> nat list \<Rightarrow> bool" where
  "is_list h p as \<longleftrightarrow> chain h p as \<and> distinct as"

lemma chain_upd: "a \<notin> set as \<Longrightarrow> chain (h(a \<mapsto> c)) p as = chain h p as"
  by (induction as arbitrary: p) auto

lemma chain_alloc: "chain h p as \<Longrightarrow> a \<in> set as \<Longrightarrow> \<exists>c. h a = Some c"
  by (induction as arbitrary: p) auto

lemma chain_det: "chain h p as \<Longrightarrow> chain h p bs \<Longrightarrow> as = bs"
proof (induction as arbitrary: p bs)
  case Nil
  then show ?case by (cases bs) auto
next
  case (Cons a as)
  then show ?case by (cases bs) auto
qed

lemma insert_chain:
  assumes "is_list h p as" and "a \<notin> set as" and "h a = Some c"
  shows "\<exists>h'. md_entry_insert h p a = Some (h', Some a) \<and> is_list h' (Some a) (a # as) \<and>
    names_of h' (a # as) = md_name c # names_of h as"
  using assms
  by (auto simp: md_entry_insert_def is_list_def chain_upd names_of_def intro!: map_cong)

lemma pop_chain:
  assumes "is_list h p as"
  shows "md_entry_pop h p = (case as of [] \<Rightarrow> Some (None, None)
    | a # as' \<Rightarrow> Some (md_next (the (h a)), Some a))"
    and "as = a # as' \<Longrightarrow> is_list h (md_next (the (h a))) as'"
  using assms by (auto simp: md_entry_pop_def is_list_def split: list.splits)

text \<open>Unlinking a cell behind \<open>b\<close>.\<close>

lemma chain_unlink:
  "chain h p (as @ b # a # bs) \<Longrightarrow> distinct (as @ b # a # bs) \<Longrightarrow> h a = Some ca \<Longrightarrow> h b = Some cb \<Longrightarrow>
   chain (h(b \<mapsto> cb\<lparr>md_next := md_next ca\<rparr>)) p (as @ b # bs)"
  by (induction as arbitrary: p) (auto simp: chain_upd)

definition first_named :: "md_heap \<Rightarrow> string \<Rightarrow> nat list \<Rightarrow> nat option" where
  "first_named h name as = List.find (\<lambda>a. cell_name h a = name) as"

lemma search_loop_None [simp]: "md_entry_search_loop h name head prev None = Some (h, head, None)"
  by (simp add: md_entry_search_loop.simps [of h name head prev None])

lemma search_loop_spec:
  assumes "chain h head (done @ rest)" and "distinct (done @ rest)"
    and "prev = (if done = [] then None else Some (last done))"
    and "chain h current rest"
  shows "\<exists>h' head'. md_entry_search_loop h name head prev current = Some (h', head', first_named h name rest) \<and>
    chain h' head' (done @ (case first_named h name rest of None \<Rightarrow> rest | Some a \<Rightarrow> remove1 a rest)) \<and>
    (\<forall>b. map_option md_name (h' b) = map_option md_name (h b)) \<and> (\<forall>b. b \<notin> set done \<union> set rest \<longrightarrow> h' b = h b)"
  using assms
proof (induction rest arbitrary: "done" prev current)
  case Nil
  then show ?case by (auto simp: first_named_def)
next
  case (Cons a rest)
  obtain c where c: "current = Some a" "h a = Some c" "chain h (md_next c) rest"
    using Cons.prems(4) by auto
  show ?case
  proof (cases "md_name c = name")
    case False
    have "\<exists>h' head'. md_entry_search_loop h name head (Some a) (md_next c)
        = Some (h', head', first_named h name rest) \<and>
      chain h' head' ((done @ [a]) @ (case first_named h name rest of None \<Rightarrow> rest | Some a \<Rightarrow> remove1 a rest)) \<and>
      (\<forall>b. map_option md_name (h' b) = map_option md_name (h b)) \<and>
      (\<forall>b. b \<notin> set (done @ [a]) \<union> set rest \<longrightarrow> h' b = h b)"
      by (rule Cons.IH) (use Cons.prems c in auto)
    moreover have "first_named h name (a # rest) = first_named h name rest"
      using False c by (simp add: first_named_def)
    moreover have "first_named h name rest = Some b \<Longrightarrow> b \<noteq> a" for b
      using Cons.prems(2) by (auto simp: first_named_def find_Some_iff)
    ultimately show ?thesis
      using False c by (auto simp: md_entry_search_loop.simps [of h name head prev "Some a"] split: option.splits)
  next
    case True
    then have f: "first_named h name (a # rest) = Some a" using c by (simp add: first_named_def)
    show ?thesis
    proof (cases "done" rule: rev_cases)
      case Nil
      have "md_entry_search_loop h name head prev current = Some (h, md_next c, Some a)"
        using True c Nil Cons.prems(3) by (simp add: md_entry_search_loop.simps [of h name head None "Some a"])
      with c f Nil Cons.prems(1) show ?thesis by simp
    next
      case (snoc ds b)
      obtain cb where cb: "h b = Some cb"
        using chain_alloc [OF Cons.prems(1), of b] snoc by auto
      have "chain (h(b \<mapsto> cb\<lparr>md_next := md_next c\<rparr>)) head (ds @ b # rest)"
        by (rule chain_unlink) (use Cons.prems snoc c cb in auto)
      moreover have "md_entry_search_loop h name head prev current
          = Some (h(b \<mapsto> cb\<lparr>md_next := md_next c\<rparr>), head, Some a)"
        using True c cb snoc Cons.prems(3) by (simp add: md_entry_search_loop.simps [of h name head "Some b" "Some a"])
      ultimately show ?thesis using f cb snoc by simp
    qed
  qed
qed

lemma search_chain:
  assumes "is_list h head as"
  shows "\<exists>h' head'. md_entry_search_md_name h head name = Some (h', head', first_named h name as) \<and>
    is_list h' head' (case first_named h name as of None \<Rightarrow> as | Some a \<Rightarrow> remove1 a as) \<and>
    (\<forall>b. cell_name h' b = cell_name h b \<or> h b = None) \<and> (\<forall>b. b \<notin> set as \<longrightarrow> h' b = h b)"
proof -
  have "\<exists>h' head'. md_entry_search_loop h name head None head = Some (h', head', first_named h name as) \<and>
    chain h' head' ([] @ (case first_named h name as of None \<Rightarrow> as | Some a \<Rightarrow> remove1 a as)) \<and>
    (\<forall>b. map_option md_name (h' b) = map_option md_name (h b)) \<and> (\<forall>b. b \<notin> set [] \<union> set as \<longrightarrow> h' b = h b)"
    by (rule search_loop_spec) (use assms in \<open>auto simp: is_list_def\<close>)
  then obtain h' head' where r: "md_entry_search_loop h name head None head = Some (h', head', first_named h name as)"
    "chain h' head' (case first_named h name as of None \<Rightarrow> as | Some a \<Rightarrow> remove1 a as)"
    "\<And>b. map_option md_name (h' b) = map_option md_name (h b)" "\<forall>b. b \<notin> set as \<longrightarrow> h' b = h b" by auto
  have "cell_name h' b = cell_name h b \<or> h b = None" for b
    using r(3) [of b] by (cases "h b"; cases "h' b") auto
  with r assms show ?thesis
    by (auto simp: md_entry_search_md_name_def is_list_def split: option.splits)
qed

lemma names_remove:
  "first_named h name as = Some a \<Longrightarrow> names_of h (remove1 a as) = remove1 name (names_of h as)"
  by (induction as) (auto simp: first_named_def names_of_def find_Some_iff split: if_splits)

lemma first_named_None: "first_named h name as = None \<longleftrightarrow> name \<notin> set (names_of h as)"
  by (auto simp: first_named_def names_of_def find_None_iff)

lemma first_named_in: "first_named h name as = Some a \<Longrightarrow> a \<in> set as \<and> cell_name h a = name"
  by (auto simp: first_named_def find_Some_iff)

lemma names_of_cong: "(\<And>b. b \<in> set as \<Longrightarrow> cell_name h' b = cell_name h b) \<Longrightarrow> names_of h' as = names_of h as"
  by (simp add: names_of_def)

section \<open>An array of lists\<close>

text \<open>
  The array \<open>in_charge_md\<close> of a server: one list per entry, no cell in two lists. \<open>holds h md L\<close>
  says that the lists hold the names \<open>L\<close>.
\<close>

definition separate :: "md_heap \<Rightarrow> md_ptr list \<Rightarrow> nat list list \<Rightarrow> bool" where
  "separate h md ass \<longleftrightarrow> length ass = length md \<and> (\<forall>i < length md. is_list h (md ! i) (ass ! i)) \<and>
     (\<forall>i < length md. \<forall>j < length md. i \<noteq> j \<longrightarrow> set (ass ! i) \<inter> set (ass ! j) = {})"

definition holds :: "md_heap \<Rightarrow> md_ptr list \<Rightarrow> string list list \<Rightarrow> bool" where
  "holds h md L \<longleftrightarrow> (\<exists>ass. separate h md ass \<and> L = map (names_of h) ass)"

lemma chain_cong: "(\<And>a. a \<in> set as \<Longrightarrow> h' a = h a) \<Longrightarrow> chain h' p as = chain h p as"
  by (induction as arbitrary: p) auto

lemma holds_length: "holds h md L \<Longrightarrow> length L = length md"
  by (auto simp: holds_def separate_def)

lemma holds_None: "holds h md L \<Longrightarrow> i < length md \<Longrightarrow> md ! i = None \<longleftrightarrow> L ! i = []"
proof -
  assume "holds h md L" and i: "i < length md"
  then obtain ass where a: "separate h md ass" "L = map (names_of h) ass" by (auto simp: holds_def)
  then have "chain h (md ! i) (ass ! i)" "L ! i = names_of h (ass ! i)"
    using i by (auto simp: separate_def is_list_def)
  then show ?thesis by (cases "ass ! i") (auto simp: names_of_def)
qed

text \<open>A change of the list of one entry that leaves the cells of the others alone.\<close>

lemma holds_upd:
  assumes s: "separate h md ass" and i: "i < length md" and new: "is_list h' p as"
    and sub: "\<And>j a. j < length md \<Longrightarrow> j \<noteq> i \<Longrightarrow> a \<in> set (ass ! j) \<Longrightarrow> a \<notin> set as \<and> h' a = h a"
  shows "holds h' (md[i := p]) ((map (names_of h) ass)[i := names_of h' as])"
proof -
  note s' = s [unfolded separate_def]
  have other: "is_list h' (md ! j) (ass ! j)" "names_of h' (ass ! j) = names_of h (ass ! j)"
    if "j < length md" "j \<noteq> i" for j
    using s' that sub [OF that] chain_cong [of "ass ! j" h' h "md ! j"]
    by (auto simp: is_list_def intro!: names_of_cong)
  have disj: "set (ass[i := as] ! j) \<inter> set (ass[i := as] ! k) = {}"
    if "j < length md" "k < length md" "j \<noteq> k" for j k
  proof -
    consider "j = i" | "k = i" | "j \<noteq> i" "k \<noteq> i" by blast
    then show ?thesis
    proof cases
      case 1
      then show ?thesis using s' i that sub [of k] by auto
    next
      case 2
      then show ?thesis using s' i that sub [of j] by auto
    next
      case 3
      then show ?thesis using s' that by simp
    qed
  qed
  have "separate h' (md[i := p]) (ass[i := as])"
    using s' i new other(1) disj by (auto simp: separate_def nth_list_update)
  moreover have "(map (names_of h) ass)[i := names_of h' as] = map (names_of h') (ass[i := as])"
    using s' i other(2) by (intro nth_equalityI) (auto simp: nth_list_update)
  ultimately show ?thesis unfolding holds_def by blast
qed

lemma holds_insert:
  assumes h: "holds h md L" and i: "i < length md" and a: "h a = None"
  shows "\<exists>h1 h2. md_entry_init (h(a \<mapsto> c)) a e name = Some h1 \<and>
    md_entry_insert h1 (md ! i) a = Some (h2, Some a) \<and>
    holds h2 (md[i := Some a]) (L[i := name # L ! i])"
proof -
  obtain ass where s: "separate h md ass" and L: "L = map (names_of h) ass" using h by (auto simp: holds_def)
  note s' = s [unfolded separate_def]
  let ?h2 = "h(a \<mapsto> \<lparr>md_ent = e, md_name = name, md_next = md ! i\<rparr>)"
  have fresh: "a \<notin> set (ass ! j)" if "j < length md" for j
    using s' that a chain_alloc [of h "md ! j" "ass ! j" a] by (auto simp: is_list_def)
  have "is_list ?h2 (Some a) (a # ass ! i)"
    using s' i fresh [OF i] by (auto simp: is_list_def chain_upd)
  moreover have "b \<notin> set (a # ass ! i) \<and> ?h2 b = h b" if "j < length md" "j \<noteq> i" "b \<in> set (ass ! j)" for j b
    using that fresh [OF that(1)] s' i by auto
  ultimately have "holds ?h2 (md[i := Some a]) ((map (names_of h) ass)[i := names_of ?h2 (a # ass ! i)])"
    by (rule holds_upd [OF s i])
  moreover have "names_of ?h2 (a # ass ! i) = name # names_of h (ass ! i)"
    using fresh [OF i] by (auto simp: names_of_def)
  ultimately show ?thesis
    using L i s' by (auto simp: md_entry_init_def md_entry_insert_def)
qed

text \<open>Removing a name, and giving its cell back to the allocator.\<close>

lemma holds_search:
  assumes h: "holds h md L" and i: "i < length md"
  shows "\<exists>h' p r. md_entry_search_md_name h (md ! i) name = Some (h', p, r) \<and>
    (r = None \<longleftrightarrow> name \<notin> set (L ! i)) \<and>
    holds (case r of None \<Rightarrow> h' | Some a \<Rightarrow> h'(a := None)) (md[i := p]) (L[i := remove1 name (L ! i)]) \<and>
    holds h' (md[i := p]) (L[i := remove1 name (L ! i)])"
proof -
  obtain ass where s: "separate h md ass" and L: "L = map (names_of h) ass" using h by (auto simp: holds_def)
  note s' = s [unfolded separate_def]
  let ?as = "ass ! i" and ?r = "first_named h name (ass ! i)"
  have li: "is_list h (md ! i) ?as" using s' i by simp
  have Li: "L ! i = names_of h ?as" using L s' i by simp
  obtain h' p where r: "md_entry_search_md_name h (md ! i) name = Some (h', p, ?r)"
    "is_list h' p (case ?r of None \<Rightarrow> ?as | Some a \<Rightarrow> remove1 a ?as)"
    "\<And>b. cell_name h' b = cell_name h b \<or> h b = None" "\<And>b. b \<notin> set ?as \<Longrightarrow> h' b = h b"
    using search_chain [OF li, of name] by blast
  let ?as' = "case ?r of None \<Rightarrow> ?as | Some a \<Rightarrow> remove1 a ?as"
  have names: "names_of g ?as' = remove1 name (L ! i)" if "\<And>b. b \<in> set ?as' \<Longrightarrow> g b = h' b" for g
  proof -
    have "set ?as' \<subseteq> set ?as" by (auto split: option.splits dest: subsetD [OF set_remove1_subset])
    then have "names_of g ?as' = names_of h ?as'"
      using r(3) that li chain_alloc [of h "md ! i" ?as] by (intro names_of_cong) (fastforce simp: is_list_def)
    also have "\<dots> = remove1 name (L ! i)"
      using names_remove [of h name ?as] first_named_None [of h name ?as] Li
      by (auto split: option.splits simp: remove1_idem)
    finally show ?thesis .
  qed
  have other: "b \<notin> set ?as' \<and> h' b = h b \<and> b \<notin> set ?as" if "j < length md" "j \<noteq> i" "b \<in> set (ass ! j)" for j b
  proof -
    have "b \<notin> set ?as" using that s' i by blast
    then show ?thesis using r(4) by (auto split: option.splits dest: subsetD [OF set_remove1_subset])
  qed
  have 1: "holds h' (md[i := p]) (L[i := remove1 name (L ! i)])"
    using holds_upd [OF s i r(2)] other names [of h'] L by fastforce
  have 2: "holds (h'(a := None)) (md[i := p]) (L[i := remove1 name (L ! i)])" if a: "?r = Some a" for a
  proof -
    have ain: "a \<in> set ?as" "a \<notin> set (remove1 a ?as)"
      using first_named_in [OF a] li by (auto simp: is_list_def)
    then have "is_list (h'(a := None)) p ?as'"
    proof -
      have "chain (h'(a := None)) p (remove1 a ?as) = chain h' p (remove1 a ?as)"
        by (rule chain_cong) (use ain in auto)
      then show ?thesis using r(2) a by (simp add: is_list_def)
    qed
    moreover have "names_of (h'(a := None)) ?as' = remove1 name (L ! i)"
      by (rule names) (use ain a in auto)
    ultimately show ?thesis
      using holds_upd [OF s i, of "h'(a := None)" p ?as'] other L ain(1) by fastforce
  qed
  have "?r = None \<longleftrightarrow> name \<notin> set (L ! i)" using first_named_None Li by simp
  with r(1) 1 2 show ?thesis by (auto split: option.splits)
qed

lemma holds_pop:
  assumes h: "holds h md L" and i: "i < length md" and n: "L ! i = n # ns"
  shows "\<exists>a p c. md_entry_pop h (md ! i) = Some (p, Some a) \<and> h a = Some c \<and> md_name c = n \<and>
    holds (h(a := None)) (md[i := p]) (L[i := ns])"
proof -
  obtain ass where s: "separate h md ass" and L: "L = map (names_of h) ass" using h by (auto simp: holds_def)
  note s' = s [unfolded separate_def]
  have li: "is_list h (md ! i) (ass ! i)" using s' i by simp
  have Li: "names_of h (ass ! i) = n # ns" using L s' i n by simp
  then obtain a as where as: "ass ! i = a # as" by (cases "ass ! i") (auto simp: names_of_def)
  obtain c where c: "h a = Some c" "md ! i = Some a" "chain h (md_next c) as" "distinct (a # as)"
    using li as by (auto simp: is_list_def)
  have nm: "md_name c = n" "names_of h as = ns" using Li as c(1) by (auto simp: names_of_def)
  have "is_list (h(a := None)) (md_next c) as"
  proof -
    have "chain (h(a := None)) (md_next c) as = chain h (md_next c) as" by (rule chain_cong) (use c in auto)
    then show ?thesis using c by (simp add: is_list_def)
  qed
  moreover have "b \<notin> set as \<and> (h(a := None)) b = h b" if "j < length md" "j \<noteq> i" "b \<in> set (ass ! j)" for j b
    using that s' i as by fastforce
  ultimately have "holds (h(a := None)) (md[i := md_next c]) ((map (names_of h) ass)[i := names_of (h(a := None)) as])"
    by (rule holds_upd [OF s i])
  moreover have "names_of (h(a := None)) as = ns"
    using nm(2) c(4) by (auto simp: names_of_def)
  ultimately show ?thesis using c L nm by (auto simp: md_entry_pop_def)
qed

lemma holds_empty: "holds (\<lambda>_. None) (replicate N None) (replicate N [])"
  unfolding holds_def separate_def
  by (intro exI [of _ "replicate N []"]) (auto simp: is_list_def names_of_def)

section \<open>Properties\<close>

text \<open>
  C32: the array of linked lists of a server implements lists of names: from lists that hold the
  names L, initialising a new cell and inserting it for entry i adds its name in front of the names
  of i; the search for a name unlinks the first cell with it and leaves the other names in order,
  and returns \<open>NULL\<close> exactly when the name is not there; \<open>md_entry_pop\<close> takes the first name. The
  lists of the other entries stay as they are, and no cell is in two lists.
\<close>

theorem lists_hold_the_names:
  assumes "holds h md L" and "i < length md" and "h a = None"
  shows "(\<exists>h1 h2. md_entry_init (h(a \<mapsto> c)) a e name = Some h1 \<and>
      md_entry_insert h1 (md ! i) a = Some (h2, Some a) \<and> holds h2 (md[i := Some a]) (L[i := name # L ! i])) \<and>
    (\<exists>h' p r. md_entry_search_md_name h (md ! i) name = Some (h', p, r) \<and>
      (r = None \<longleftrightarrow> name \<notin> set (L ! i)) \<and> holds h' (md[i := p]) (L[i := remove1 name (L ! i)])) \<and>
    (L ! i = [] \<and> md_entry_pop h (md ! i) = Some (None, None) \<or>
     (\<exists>b p cb. md_entry_pop h (md ! i) = Some (p, Some b) \<and> h b = Some cb \<and> L ! i = md_name cb # tl (L ! i) \<and>
        holds (h(b := None)) (md[i := p]) (L[i := tl (L ! i)])))"
proof (intro conjI)
  show "\<exists>h1 h2. md_entry_init (h(a \<mapsto> c)) a e name = Some h1 \<and>
      md_entry_insert h1 (md ! i) a = Some (h2, Some a) \<and> holds h2 (md[i := Some a]) (L[i := name # L ! i])"
    by (rule holds_insert [OF assms])
  show "\<exists>h' p r. md_entry_search_md_name h (md ! i) name = Some (h', p, r) \<and>
      (r = None \<longleftrightarrow> name \<notin> set (L ! i)) \<and> holds h' (md[i := p]) (L[i := remove1 name (L ! i)])"
    using holds_search [OF assms(1,2), of name] by blast
  show "L ! i = [] \<and> md_entry_pop h (md ! i) = Some (None, None) \<or>
     (\<exists>b p cb. md_entry_pop h (md ! i) = Some (p, Some b) \<and> h b = Some cb \<and> L ! i = md_name cb # tl (L ! i) \<and>
        holds (h(b := None)) (md[i := p]) (L[i := tl (L ! i)]))"
  proof (cases "L ! i")
    case Nil
    then show ?thesis using holds_None [OF assms(1,2)] by (simp add: md_entry_pop_def)
  next
    case (Cons n ns)
    then show ?thesis using holds_pop [OF assms(1,2) Cons] by auto
  qed
qed

theorem lists_hold_the_names_witness:
  "\<exists>h1 h2. md_entry_init ((\<lambda>_. None)(3 \<mapsto> \<lparr>md_ent = 9, md_name = ''old'', md_next = Some 4\<rparr>)) 3 1 ''k'' = Some h1 \<and>
      md_entry_insert h1 None 3 = Some (h2, Some 3) \<and>
      holds h2 ((replicate 2 None)[1 := Some 3]) ((replicate 2 [])[1 := [''k'']])"
  using lists_hold_the_names [OF holds_empty [of 2], of 1 3 "\<lparr>md_ent = 9, md_name = ''old'', md_next = Some 4\<rparr>" 1 "''k''"]
  by simp

end
