(* ===== verification/Json.thy ===== *)
theory Json
  imports Prelude
begin

text \<open>
  Requests and replies are documents of the json-c library, which is not part of the sources:
  its operations are the fields of a record that every function using them takes as an
  argument. \<open>json_laws\<close> states what the library documents about them; \<open>map_json\<close> is an
  instance, on finite maps, with which the properties that assume the laws are applied.
\<close>

section \<open>The operations used\<close>

text \<open>
  \<open>j_has\<close> is the result of \<open>json_object_object_get_ex\<close>; \<open>j_int\<close> and \<open>j_str\<close> are
  \<open>json_object_get_int\<close> and \<open>json_object_get_string\<close> of the field it finds. \<open>j_wire\<close> is what
  \<open>json_tokener_parse\<close> gives at the receiver of \<open>json_object_to_json_string\<close>.
\<close>

record 'j json =
  j_new :: 'j
  j_has :: "'j \<Rightarrow> string \<Rightarrow> bool"
  j_int :: "'j \<Rightarrow> string \<Rightarrow> int"
  j_str :: "'j \<Rightarrow> string \<Rightarrow> string"
  j_add_int :: "'j \<Rightarrow> string \<Rightarrow> int \<Rightarrow> 'j"
  j_add_str :: "'j \<Rightarrow> string \<Rightarrow> string \<Rightarrow> 'j"
  j_wire :: "'j \<Rightarrow> 'j"

definition json_laws :: "'j json \<Rightarrow> bool" where
  "json_laws J \<longleftrightarrow>
     (\<forall>k. \<not> j_has J (j_new J) k) \<and>
     (\<forall>d k k' v. j_has J (j_add_int J d k v) k' \<longleftrightarrow> k' = k \<or> j_has J d k') \<and>
     (\<forall>d k k' v. j_has J (j_add_str J d k v) k' \<longleftrightarrow> k' = k \<or> j_has J d k') \<and>
     (\<forall>d k v. int_ok v \<longrightarrow> j_int J (j_add_int J d k v) k = v) \<and>
     (\<forall>d k k' v. k' \<noteq> k \<longrightarrow> j_int J (j_add_int J d k v) k' = j_int J d k') \<and>
     (\<forall>d k k' v. k' \<noteq> k \<longrightarrow> j_int J (j_add_str J d k v) k' = j_int J d k') \<and>
     (\<forall>d k v. j_str J (j_add_str J d k v) k = v) \<and>
     (\<forall>d k k' v. k' \<noteq> k \<longrightarrow> j_str J (j_add_int J d k v) k' = j_str J d k') \<and>
     (\<forall>d k k' v. k' \<noteq> k \<longrightarrow> j_str J (j_add_str J d k v) k' = j_str J d k') \<and>
     (\<forall>d k. j_has J (j_wire J d) k = j_has J d k) \<and>
     (\<forall>d k. j_has J d k \<longrightarrow> j_int J (j_wire J d) k = j_int J d k \<and> j_str J (j_wire J d) k = j_str J d k)"

lemma json_simps:
  assumes "json_laws J"
  shows "\<not> j_has J (j_new J) k"
    "j_has J (j_add_int J d k v) k' \<longleftrightarrow> k' = k \<or> j_has J d k'"
    "j_has J (j_add_str J d k s) k' \<longleftrightarrow> k' = k \<or> j_has J d k'"
    "int_ok v \<Longrightarrow> j_int J (j_add_int J d k v) k = v"
    "k' \<noteq> k \<Longrightarrow> j_int J (j_add_int J d k v) k' = j_int J d k'"
    "k' \<noteq> k \<Longrightarrow> j_int J (j_add_str J d k s) k' = j_int J d k'"
    "j_str J (j_add_str J d k s) k = s"
    "k' \<noteq> k \<Longrightarrow> j_str J (j_add_int J d k v) k' = j_str J d k'"
    "k' \<noteq> k \<Longrightarrow> j_str J (j_add_str J d k s) k' = j_str J d k'"
    "j_has J (j_wire J d) k = j_has J d k"
    "j_has J d k \<Longrightarrow> j_int J (j_wire J d) k = j_int J d k"
    "j_has J d k \<Longrightarrow> j_str J (j_wire J d) k = j_str J d k"
  by (simp_all add: assms [unfolded json_laws_def])

section \<open>An instance\<close>

datatype jval = JInt int | JStr string

type_synonym jmap = "string \<Rightarrow> jval option"

definition map_json :: "jmap json" where
  "map_json = \<lparr>j_new = (\<lambda>_. None), j_has = (\<lambda>d k. d k \<noteq> None),
     j_int = (\<lambda>d k. case d k of Some (JInt i) \<Rightarrow> i | _ \<Rightarrow> 0),
     j_str = (\<lambda>d k. case d k of Some (JStr s) \<Rightarrow> s | _ \<Rightarrow> []),
     j_add_int = (\<lambda>d k v. d(k \<mapsto> JInt v)), j_add_str = (\<lambda>d k s. d(k \<mapsto> JStr s)), j_wire = (\<lambda>d. d)\<rparr>"

lemma map_json_laws: "json_laws map_json"
  by (auto simp: json_laws_def map_json_def)

end
