(* ===== verification/Server_Dist.thy ===== *)
theory Server_Dist
  imports Mlt Eacl Md_Entry Json
begin

text \<open>
  What \<open>distribution_dh_s.c\<close>, \<open>distribution_indedh_s.c\<close> and \<open>distribution_windowed_s.c\<close> do for a
  request: the check of the entry's version before it is served, and the bookkeeping of the
  names in charge before the reply is sent. The three files have the same code over different
  access lists, which is a parameter here, instantiated at the end; the contract of the access
  list is the locale \<open>served_list\<close>.
\<close>

section \<open>State\<close>

text \<open>The kinds of requests, \<open>enum req_type\<close>.\<close>

definition RT_CREATE :: int where
  "RT_CREATE = 1"

definition RT_READ :: int where
  "RT_READ = 2"

definition RT_UPDATE :: int where
  "RT_UPDATE = 3"

definition RT_DELETE :: int where
  "RT_DELETE = 4"

lemmas req_type_defs = RT_CREATE_def RT_READ_def RT_UPDATE_def RT_DELETE_def

text \<open>The static variables: table, access list, names in charge (heads and cells), own number.\<close>

record 'e server =
  sv_table :: mlt
  sv_list :: 'e
  sv_md :: "md_ptr list"
  sv_heap :: md_heap
  sv_self :: int

section \<open>\<open>distribution_post_receive\<close>\<close>

definition distribution_post_receive ::
  "'j json \<Rightarrow> ('e \<Rightarrow> int \<Rightarrow> (int \<times> 'e option) option) \<Rightarrow> lock_env \<Rightarrow> 'e server \<Rightarrow> 'j \<Rightarrow>
   (int \<times> 'j \<times> 'e server) option" where
  "distribution_post_receive J incr E sv request =
     (if \<not> j_has J request ''index'' then Some (-1, request, sv)
      else if \<not> j_has J request ''entryVersion'' then Some (-1, request, sv)
      else do {
        let entry = j_int J request ''index'';
        (rc, out) \<leftarrow> mlt_get_entry E (Some (sv_table sv)) entry True;
        case (if rc \<noteq> 0 then None else out) of
          None \<Rightarrow> Some (-1, request, sv)
        | Some (srv, ver, state) \<Rightarrow>
            if state \<noteq> 0 then Some (- EALREADY, request, sv)
            else if j_int J request ''entryVersion'' \<noteq> ver then
              let request = j_add_str J request ''versionFlag'' ''out-of-date'';
                  request = j_add_int J request ''newSrv'' srv;
                  request = j_add_int J request ''newVersion'' ver
              in Some (- EAGAIN, request, sv)
            else do {
              let request = j_add_str J request ''versionFlag'' ''up-to-date'';
              (rc, e) \<leftarrow> incr (sv_list sv) entry;
              Some (0, request, (case e of None \<Rightarrow> sv | Some e \<Rightarrow> sv\<lparr>sv_list := e\<rparr>))
            }
      })"

section \<open>\<open>distribution_pre_send\<close>\<close>

text \<open>
  \<open>a\<close> is the cell \<open>malloc\<close> returns, \<open>fill\<close> its contents then; the arrays of lists and of locks
  have the same length.
\<close>

definition pre_send_create ::
  "'j json \<Rightarrow> lock_env \<Rightarrow> nat \<Rightarrow> md_entry \<Rightarrow> 'e server \<Rightarrow> 'j \<Rightarrow> (int \<times> 'e server) option" where
  "pre_send_create J E a fill sv reply =
     (if \<not> j_has J reply ''key'' then Some (-1, sv)
      else if \<not> j_has J reply ''index'' then Some (-1, sv)
      else do {
        let asked_entry = j_int J reply ''index'';
        h \<leftarrow> md_entry_init ((sv_heap sv)(a \<mapsto> fill)) a asked_entry (j_str J reply ''key'');
        head \<leftarrow> rdi (sv_md sv) asked_entry;
        if - wrlock_rc E \<noteq> 0 then Some (-1, sv\<lparr>sv_heap := h\<rparr>)
        else do {
          (h, head) \<leftarrow> md_entry_insert h head a;
          md \<leftarrow> wri (sv_md sv) asked_entry head;
          let sv = sv\<lparr>sv_heap := h, sv_md := md\<rparr>;
          Some (if - unlock_rc E \<noteq> 0 then -1 else 0, sv)
        }
      })"

definition pre_send_delete ::
  "'j json \<Rightarrow> lock_env \<Rightarrow> 'e server \<Rightarrow> 'j \<Rightarrow> (int \<times> 'e server) option" where
  "pre_send_delete J E sv reply =
     (if \<not> j_has J reply ''key'' then Some (-1, sv)
      else if \<not> j_has J reply ''index'' then Some (-1, sv)
      else do {
        let asked_entry = j_int J reply ''index'';
        head \<leftarrow> rdi (sv_md sv) asked_entry;
        if - wrlock_rc E \<noteq> 0 then Some (-1, sv)
        else do {
          (h, head, ptr) \<leftarrow> md_entry_search_md_name (sv_heap sv) head (j_str J reply ''key'');
          md \<leftarrow> wri (sv_md sv) asked_entry head;
          let sv = sv\<lparr>sv_heap := h, sv_md := md\<rparr>;
          if - unlock_rc E \<noteq> 0 then Some (-1, sv)
          else case ptr of
              None \<Rightarrow> Some (-1, sv)
            | Some p \<Rightarrow> Some (0, sv\<lparr>sv_heap := (sv_heap sv)(p := None)\<rparr>)
        }
      })"

definition distribution_pre_send ::
  "'j json \<Rightarrow> lock_env \<Rightarrow> nat \<Rightarrow> md_entry \<Rightarrow> 'e server \<Rightarrow> 'j \<Rightarrow> int \<Rightarrow> (int \<times> 'e server) option" where
  "distribution_pre_send J E a fill sv reply global_rc =
     (if global_rc = 0 then
        if \<not> j_has J reply ''reqType'' then Some (-1, sv)
        else
          let reqType = j_int J reply ''reqType'' in
          if reqType = RT_CREATE then pre_send_create J E a fill sv reply
          else if reqType = RT_DELETE then pre_send_delete J E sv reply
          else Some (0, sv)
      else Some (0, sv))"

section \<open>The contract of the access lists\<close>

text \<open>
  The invariant of a server with \<open>N\<close> entries that holds the names \<open>L\<close>; \<open>good\<close> and \<open>len\<close> are the
  invariant and the length of its access list.
\<close>

definition server_ok :: "('e \<Rightarrow> bool) \<Rightarrow> ('e \<Rightarrow> nat) \<Rightarrow> nat \<Rightarrow> 'e server \<Rightarrow> string list list \<Rightarrow> bool" where
  "server_ok good len N sv L \<longleftrightarrow> mlt_wf (sv_table sv) \<and> mlt_len (sv_table sv) = N \<and> good (sv_list sv) \<and>
     len (sv_list sv) = N \<and> length (sv_md sv) = N \<and> holds (sv_heap sv) (sv_md sv) L"

locale served_list =
  fixes incr :: "'e \<Rightarrow> int \<Rightarrow> (int \<times> 'e option) option"
    and reset :: "'e \<Rightarrow> int \<Rightarrow> (int \<times> 'e option) option"
    and counter :: "'e \<Rightarrow> nat \<Rightarrow> u32"
    and len :: "'e \<Rightarrow> nat"
    and inv :: "'e \<Rightarrow> bool"
  assumes incr_ok: "inv e \<Longrightarrow> i < len e \<Longrightarrow> \<exists>e'. incr e (int i) = Some (0, Some e') \<and> inv e' \<and> len e' = len e \<and>
      (\<forall>j < len e. counter e' j = (if j = i then counter e i + 1 else counter e j))"
    and reset_ok: "inv e \<Longrightarrow> i < len e \<Longrightarrow> \<exists>e'. reset e (int i) = Some (0, Some e') \<and> inv e' \<and> len e' = len e \<and>
      (\<forall>j < len e. counter e' j = (if j = i then 0 else counter e j))"
begin

lemma post_receive_moving:
  assumes "server_ok inv len N sv L" and "i < N" and "j_has J r ''index''" "j_has J r ''entryVersion''"
    and "j_int J r ''index'' = int i" and "mlt_row (sv_table sv) i = (s, v, f)" "f \<noteq> 0"
  shows "distribution_post_receive J incr locks_work sv r = Some (- EALREADY, r, sv)"
  using assms by (simp add: distribution_post_receive_def server_ok_def mlt_get_in locks_work_def)

lemma post_receive_stale:
  assumes J: "json_laws J" and "server_ok inv len N sv L" and "i < N" and "j_has J r ''index''" "j_has J r ''entryVersion''"
    and "j_int J r ''index'' = int i" and row: "mlt_row (sv_table sv) i = (s, v, 0)"
    and "j_int J r ''entryVersion'' \<noteq> v"
  shows "\<exists>r'. distribution_post_receive J incr locks_work sv r = Some (- EAGAIN, r', sv) \<and>
    j_str J r' ''versionFlag'' = ''out-of-date'' \<and> j_has J r' ''versionFlag'' \<and>
    j_has J r' ''newSrv'' \<and> j_int J r' ''newSrv'' = s \<and> j_has J r' ''newVersion'' \<and> j_int J r' ''newVersion'' = v \<and>
    j_has J r' ''index'' \<and> j_int J r' ''index'' = int i \<and> j_has J r' ''getValue'' = j_has J r ''getValue''"
proof -
  have "int_ok s" "int_ok v" using row by (auto simp: mlt_row_def)
  then show ?thesis
    using assms by (simp add: distribution_post_receive_def server_ok_def mlt_get_in locks_work_def Let_def json_simps)
qed

lemma post_receive_served:
  assumes J: "json_laws J" and ok: "server_ok inv len N sv L" and i: "i < N" and "j_has J r ''index''" "j_has J r ''entryVersion''"
    and "j_int J r ''index'' = int i" and "mlt_row (sv_table sv) i = (s, v, 0)"
    and "j_int J r ''entryVersion'' = v"
  shows "\<exists>sv'. distribution_post_receive J incr locks_work sv r
      = Some (0, j_add_str J r ''versionFlag'' ''up-to-date'', sv') \<and>
    sv' = sv\<lparr>sv_list := sv_list sv'\<rparr> \<and> server_ok inv len N sv' L \<and>
    (\<forall>j < N. counter (sv_list sv') j = (if j = i then counter (sv_list sv) i + 1 else counter (sv_list sv) j))"
proof -
  have l: "inv (sv_list sv)" "len (sv_list sv) = N" using ok by (auto simp: server_ok_def)
  obtain e where e: "incr (sv_list sv) (int i) = Some (0, Some e)" "inv e" "len e = N"
    "\<forall>j < N. counter e j = (if j = i then counter (sv_list sv) i + 1 else counter (sv_list sv) j)"
    using incr_ok [OF l(1), of i] i l(2) by auto
  have "distribution_post_receive J incr locks_work sv r
      = Some (0, j_add_str J r ''versionFlag'' ''up-to-date'', sv\<lparr>sv_list := e\<rparr>)"
    using assms e(1) by (simp add: distribution_post_receive_def server_ok_def mlt_get_in locks_work_def)
  moreover have "server_ok inv len N (sv\<lparr>sv_list := e\<rparr>) L" using ok e by (simp add: server_ok_def)
  ultimately show ?thesis using e(4) by (intro exI [of _ "sv\<lparr>sv_list := e\<rparr>"]) simp
qed

lemma pre_send_create_ok:
  assumes ok: "server_ok inv len N sv L" and i: "i < N" and r: "j_has J r ''key''" "j_has J r ''index''" "j_int J r ''index'' = int i"
    and a: "sv_heap sv a = None"
  shows "\<exists>sv'. pre_send_create J locks_work a fill sv r = Some (0, sv') \<and>
    server_ok inv len N sv' (L[i := j_str J r ''key'' # L ! i]) \<and> sv_table sv' = sv_table sv \<and> sv_list sv' = sv_list sv"
proof -
  have i': "i < length (sv_md sv)" using ok i by (simp add: server_ok_def)
  have "holds (sv_heap sv) (sv_md sv) L" using ok by (simp add: server_ok_def)
  from holds_insert [OF this i' a, of fill "int i" "j_str J r ''key''"]
  obtain h1 h2 where h: "md_entry_init ((sv_heap sv)(a \<mapsto> fill)) a (int i) (j_str J r ''key'') = Some h1"
    "md_entry_insert h1 (sv_md sv ! i) a = Some (h2, Some a)"
    "holds h2 ((sv_md sv)[i := Some a]) (L[i := j_str J r ''key'' # L ! i])" by blast
  let ?sv = "sv\<lparr>sv_heap := h2, sv_md := (sv_md sv)[i := Some a]\<rparr>"
  have "pre_send_create J locks_work a fill sv r = Some (0, ?sv)"
    using r h i' by (simp add: pre_send_create_def locks_work_def rdi_in wri_in Let_def)
  moreover have "server_ok inv len N ?sv (L[i := j_str J r ''key'' # L ! i])" using ok h(3) by (simp add: server_ok_def)
  ultimately show ?thesis by auto
qed

lemma pre_send_delete_ok:
  assumes ok: "server_ok inv len N sv L" and i: "i < N" and r: "j_has J r ''key''" "j_has J r ''index''" "j_int J r ''index'' = int i"
  shows "\<exists>sv'. pre_send_delete J locks_work sv r = Some (if j_str J r ''key'' \<in> set (L ! i) then 0 else -1, sv') \<and>
    server_ok inv len N sv' (L[i := remove1 (j_str J r ''key'') (L ! i)]) \<and> sv_table sv' = sv_table sv \<and> sv_list sv' = sv_list sv"
proof -
  let ?k = "j_str J r ''key''"
  have i': "i < length (sv_md sv)" using ok i by (simp add: server_ok_def)
  have h: "holds (sv_heap sv) (sv_md sv) L" using ok by (simp add: server_ok_def)
  obtain h' p q where s: "md_entry_search_md_name (sv_heap sv) (sv_md sv ! i) ?k = Some (h', p, q)"
    "q = None \<longleftrightarrow> ?k \<notin> set (L ! i)"
    "holds (case q of None \<Rightarrow> h' | Some a \<Rightarrow> h'(a := None)) ((sv_md sv)[i := p]) (L[i := remove1 ?k (L ! i)])"
    using holds_search [OF h i', of ?k] by blast
  let ?sv = "sv\<lparr>sv_heap := (case q of None \<Rightarrow> h' | Some a \<Rightarrow> h'(a := None)), sv_md := (sv_md sv)[i := p]\<rparr>"
  have "pre_send_delete J locks_work sv r = Some (if ?k \<in> set (L ! i) then 0 else -1, ?sv)"
    using r s i' by (cases q) (auto simp: pre_send_delete_def locks_work_def rdi_in wri_in Let_def)
  moreover have "server_ok inv len N ?sv (L[i := remove1 ?k (L ! i)])" using ok s(3) by (simp add: server_ok_def)
  ultimately show ?thesis by auto
qed

end

section \<open>The three methods\<close>

definition distribution_post_receive_dh ::
  "'j json \<Rightarrow> lock_env \<Rightarrow> eacl server \<Rightarrow> 'j \<Rightarrow> (int \<times> 'j \<times> eacl server) option" where
  "distribution_post_receive_dh J = distribution_post_receive J (\<lambda>e. eacl_incr_access (Some e))"

definition distribution_post_receive_indedh ::
  "'j json \<Rightarrow> lock_env \<Rightarrow> eacl_indedh server \<Rightarrow> 'j \<Rightarrow> (int \<times> 'j \<times> eacl_indedh server) option" where
  "distribution_post_receive_indedh J = distribution_post_receive J (\<lambda>e. eacl_incr_access_indedh (Some e))"

definition distribution_post_receive_windowed ::
  "'j json \<Rightarrow> lock_env \<Rightarrow> eacl_windowed server \<Rightarrow> 'j \<Rightarrow> (int \<times> 'j \<times> eacl_windowed server) option" where
  "distribution_post_receive_windowed J = distribution_post_receive J (\<lambda>e. eacl_incr_access_windowed (Some e))"

definition distribution_pre_send_indedh ::
  "'j json \<Rightarrow> lock_env \<Rightarrow> nat \<Rightarrow> md_entry \<Rightarrow> eacl_indedh server \<Rightarrow> 'j \<Rightarrow> int \<Rightarrow> (int \<times> eacl_indedh server) option" where
  "distribution_pre_send_indedh = distribution_pre_send"

definition distribution_pre_send_windowed ::
  "'j json \<Rightarrow> lock_env \<Rightarrow> nat \<Rightarrow> md_entry \<Rightarrow> eacl_windowed server \<Rightarrow> 'j \<Rightarrow> int \<Rightarrow> (int \<times> eacl_windowed server) option" where
  "distribution_pre_send_windowed = distribution_pre_send"

lemma ok_or_none_Some: "ok_or_none r = Some e \<longleftrightarrow> r = Some (0, Some e)"
  by (auto simp: ok_or_none_def split: option.splits)

lemma eacl_incr_nat_Some: "eacl_incr_nat e i = Some e' \<Longrightarrow> eacl_incr_access (Some e) (int i) = Some (0, Some e')"
  by (auto simp: eacl_incr_nat_def ok_or_none_Some split: if_splits)

interpretation sl_dh: served_list
  "\<lambda>e. eacl_incr_access (Some e)" "\<lambda>e. eacl_reset_all_entry_dh (Some e)"
  "\<lambda>e i. access_count (e :: eacl) ! i" eacl_len eacl_wf
proof (unfold_locales, goal_cases)
  case (1 e i)
  then show ?case using al_dh.incr_ok [of e i] eacl_incr_nat_Some [of e i] by metis
next
  case (2 e i)
  then show ?case using al_dh.forget_ok [of e i] by (simp only: ok_or_none_Some)
qed

interpretation sl_indedh: served_list
  "\<lambda>e. eacl_incr_access_indedh (Some e)" "\<lambda>e. eacl_reset_all_entry_indedh (Some e)"
  "\<lambda>e i. access_count (e :: eacl_indedh) ! i" eacl_len eacl_wf
proof (unfold_locales, goal_cases)
  case (1 e i)
  then show ?case
    using al_indedh.incr_ok [of e i] eacl_incr_nat_Some [of e i] unfolding eacl_incr_access_indedh_def by metis
next
  case (2 e i)
  then show ?case using al_indedh.forget_ok [of e i] by (simp only: ok_or_none_Some)
qed

interpretation sl_windowed: served_list
  "\<lambda>e. eacl_incr_access_windowed (Some e)" "\<lambda>e. eacl_reset_all_entry_windowed (Some e)"
  "\<lambda>e i. access_count (e :: eacl_windowed) ! i" eacl_len eacl_wf_windowed
proof (unfold_locales, goal_cases)
  case (1 e i)
  then show ?case
    using al_windowed.incr_ok [of e i] eacl_incr_nat_Some [of e i] unfolding eacl_incr_access_windowed_def by metis
next
  case (2 e i)
  then show ?case using al_windowed.forget_ok [of e i] by (simp only: ok_or_none_Some)
qed

end
