(* ===== verification/Generic_Storage.thy ===== *)
theory Generic_Storage
  imports C_Strings
begin

text \<open>
  \<open>generic_storage.c\<close>: one file of \<open>/dev/shm/\<close> per metadata. The file system is a map from
  paths to contents together with the number of descriptors the process holds open; what the
  system calls answer (a failure, a short write) is an argument, \<open>io\<close>.
\<close>

section \<open>The file system\<close>

record store =
  files :: "string \<rightharpoonup> string"
  fds :: int

text \<open>
  \<open>io_write\<close> and \<open>io_read\<close>: \<open>None\<close> for an error, \<open>Some n\<close> when at most \<open>n\<close> bytes are moved.
  \<open>io_malloc\<close> is about the buffer of \<open>generic_get\<close>.
\<close>

record io =
  io_asprintf :: bool
  io_open :: bool
  io_write :: "nat option"
  io_read :: "nat option"
  io_remove :: bool
  io_malloc :: bool

definition STORE :: string where
  "STORE = ''/dev/shm/''"

definition path_of :: "string \<Rightarrow> string" where
  "path_of key = STORE @ key"

section \<open>The code\<close>

definition generic_put :: "io \<Rightarrow> store \<Rightarrow> string \<Rightarrow> string \<Rightarrow> store \<times> int" where
  "generic_put io st key value =
     (if \<not> io_asprintf io then (st, -1)
      else
        let path = path_of key in
        if \<not> io_open io \<or> files st path \<noteq> None then (st, -1)
        else
          let st = st\<lparr>files := (files st)(path \<mapsto> []), fds := fds st + 1\<rparr> in
          case io_write io of
            None \<Rightarrow> (st, -1)
          | Some n \<Rightarrow> (st\<lparr>files := (files st)(path \<mapsto> take n value), fds := fds st - 1\<rparr>, 0))"

definition BUF_GET :: nat where
  "BUF_GET = 10"

text \<open>
  The value returned is the string in the buffer of 10 bytes, or \<open>NULL\<close> (\<open>Some None\<close>). The buffer is not compared with
  \<open>NULL\<close>: without memory \<open>read\<close> fails when it has a byte to move, and otherwise the terminator is written to \<open>NULL\<close>.
\<close>

definition generic_get :: "io \<Rightarrow> store \<Rightarrow> string \<Rightarrow> (store \<times> string option) option" where
  "generic_get io st key =
     (if \<not> io_asprintf io then Some (st, None)
      else
        let path = path_of key in
        case files st path of
          None \<Rightarrow> Some (st, None)
        | Some content \<Rightarrow>
            if \<not> io_open io then Some (st, None)
            else
              let st = st\<lparr>fds := fds st + 1\<rparr> in
              case io_read io of
                None \<Rightarrow> Some (st, None)
              | Some n \<Rightarrow>
                  if \<not> io_malloc io then
                    if min n (length content) = 0 then None else Some (st, None)
                  else do {
                  let bytes = take (min n BUF_GET) content;
                  let data = bytes @ replicate (BUF_GET - length bytes) undefined;
                  data \<leftarrow> wr data (length bytes) (CHR 0x00);
                  Some (st\<lparr>fds := fds st - 1\<rparr>, Some (up_to_nul data))
                })"

definition generic_update :: "io \<Rightarrow> store \<Rightarrow> string \<Rightarrow> string \<Rightarrow> store \<times> int" where
  "generic_update io st key value =
     (if \<not> io_asprintf io then (st, -1)
      else
        let path = path_of key in
        if \<not> io_open io \<or> files st path = None then (st, -1)
        else
          let st = st\<lparr>files := (files st)(path \<mapsto> []), fds := fds st + 1\<rparr> in
          case io_write io of
            None \<Rightarrow> (st, -1)
          | Some n \<Rightarrow> (st\<lparr>files := (files st)(path \<mapsto> take n value), fds := fds st - 1\<rparr>, 0))"

definition generic_del :: "io \<Rightarrow> store \<Rightarrow> string \<Rightarrow> store \<times> int" where
  "generic_del io st key =
     (if \<not> io_asprintf io then (st, -1)
      else
        let path = path_of key in
        if \<not> io_remove io \<or> files st path = None then (st, -1)
        else (st\<lparr>files := (files st)(path := None)\<rparr>, 0))"

section \<open>What the operations promise\<close>

text \<open>No system call fails and none is short.\<close>

definition io_fine :: io where
  "io_fine = \<lparr>io_asprintf = True, io_open = True, io_write = Some 1000, io_read = Some 1000, io_remove = True,
     io_malloc = True\<rparr>"

definition io_good :: "io \<Rightarrow> string \<Rightarrow> bool" where
  "io_good io value \<longleftrightarrow> io_asprintf io \<and> io_open io \<and> io_remove io \<and> io_malloc io \<and>
     (\<exists>n. io_write io = Some n \<and> length value \<le> n) \<and> (\<exists>n. io_read io = Some n \<and> BUF_GET \<le> n)"

definition stored :: "store \<Rightarrow> string \<Rightarrow> string option" where
  "stored st key = files st (path_of key)"

lemma path_of_inj [simp]: "path_of k = path_of k' \<longleftrightarrow> k = k'"
  by (simp add: path_of_def)

lemma stored_upd [simp]:
  "stored (st\<lparr>files := (files st)(path_of k := v), fds := n\<rparr>) k' = (if k' = k then v else stored st k')"
  "stored (st\<lparr>files := (files st)(path_of k := v)\<rparr>) k' = (if k' = k then v else stored st k')"
  "stored (st\<lparr>fds := n\<rparr>) k' = stored st k'"
  by (auto simp: stored_def)

lemma put_ok:
  assumes "io_good io value" and "stored st key = None"
  shows "\<exists>st'. generic_put io st key value = (st', 0) \<and> fds st' = fds st \<and>
    (\<forall>k. stored st' k = (if k = key then Some value else stored st k))"
  using assms by (auto simp: generic_put_def io_good_def stored_def Let_def)

lemma update_ok:
  assumes "io_good io value" and "stored st key \<noteq> None"
  shows "\<exists>st'. generic_update io st key value = (st', 0) \<and> fds st' = fds st \<and>
    (\<forall>k. stored st' k = (if k = key then Some value else stored st k))"
  using assms by (auto simp: generic_update_def io_good_def stored_def Let_def)

lemma del_ok:
  assumes "io_good io value" and "stored st key \<noteq> None"
  shows "\<exists>st'. generic_del io st key = (st', 0) \<and> fds st' = fds st \<and>
    (\<forall>k. stored st' k = (if k = key then None else stored st k))"
  using assms by (auto simp: generic_del_def io_good_def stored_def Let_def)

lemma list_update_at_length: "xs = as @ x # bs \<Longrightarrow> xs[length as := y] = as @ y # bs"
  by simp

lemma get_ok:
  assumes "io_good io value" and "stored st key = Some v" and "c_string v" and "length v < BUF_GET"
  shows "generic_get io st key = Some (st, Some v)"
proof -
  obtain n where n: "io_read io = Some n" "BUF_GET \<le> n" using assms(1) by (auto simp: io_good_def)
  have t: "take (min n BUF_GET) v = v" using n assms(4) by simp
  obtain m where m: "BUF_GET - length v = Suc m" using assms(4) by (metis Suc_diff_Suc)
  show ?thesis
    using assms n t m
    by (auto simp: generic_get_def io_good_def stored_def Let_def wr_def up_to_nul_app list_update_append)
qed

lemma get_overflow:
  assumes "io_good io value" and "stored st key = Some v" and "BUF_GET \<le> length v"
  shows "generic_get io st key = None"
proof -
  obtain n where n: "io_read io = Some n" "BUF_GET \<le> n" using assms(1) by (auto simp: io_good_def)
  then have "length (take (min n BUF_GET) v) = BUF_GET" using assms(3) by simp
  then show ?thesis
    using assms n by (auto simp: generic_get_def io_good_def stored_def Let_def wr_def)
qed

section \<open>Properties\<close>

text \<open>
  C34: the storage implements a map from keys to values when no system call fails: \<open>generic_put\<close>
  adds a new key and \<open>generic_update\<close> replaces the value of an old one, after which \<open>generic_get\<close>
  returns the value and keeps the storage (for a string of at most 9 bytes); \<open>generic_del\<close> removes
  the key. Other keys are not touched and no descriptor stays open.
\<close>

theorem storage_is_a_map:
  assumes "io_good io v" and "io_good io w" and "stored st key = None"
    and "c_string v" "length v < BUF_GET" and "c_string w" "length w < BUF_GET"
  shows "\<exists>s1 s2 s3. generic_put io st key v = (s1, 0) \<and> generic_get io s1 key = Some (s1, Some v) \<and>
    generic_update io s1 key w = (s2, 0) \<and> generic_get io s2 key = Some (s2, Some w) \<and>
    generic_del io s2 key = (s3, 0) \<and> fds s3 = fds st \<and>
    (\<forall>k. stored s3 k = stored st k) \<and> (\<forall>k. k \<noteq> key \<longrightarrow> stored s2 k = stored st k)"
proof -
  obtain s1 where s1: "generic_put io st key v = (s1, 0)" "fds s1 = fds st"
    "\<forall>k. stored s1 k = (if k = key then Some v else stored st k)" using put_ok [OF assms(1,3)] by blast
  then have "stored s1 key \<noteq> None" by simp
  from update_ok [OF assms(2) this] obtain s2 where s2: "generic_update io s1 key w = (s2, 0)" "fds s2 = fds s1"
    "\<forall>k. stored s2 k = (if k = key then Some w else stored s1 k)" by blast
  then have "stored s2 key \<noteq> None" by simp
  from del_ok [OF assms(2) this] obtain s3 where s3: "generic_del io s2 key = (s3, 0)" "fds s3 = fds s2"
    "\<forall>k. stored s3 k = (if k = key then None else stored s2 k)" by blast
  have "generic_get io s1 key = Some (s1, Some v)" by (rule get_ok [OF assms(1)]) (use s1 assms in simp_all)
  moreover have "generic_get io s2 key = Some (s2, Some w)" by (rule get_ok [OF assms(2)]) (use s2 assms in simp_all)
  ultimately show ?thesis using s1 s2 s3 assms(3) by auto
qed

theorem storage_is_a_map_witness:
  "\<exists>s1 s2 s3. generic_put io_fine \<lparr>files = (\<lambda>_. None), fds = 3\<rparr> ''k'' ''a word'' = (s1, 0) \<and>
    generic_get io_fine s1 ''k'' = Some (s1, Some ''a word'') \<and>
    generic_update io_fine s1 ''k'' ''other'' = (s2, 0) \<and> generic_get io_fine s2 ''k'' = Some (s2, Some ''other'') \<and>
    generic_del io_fine s2 ''k'' = (s3, 0) \<and> fds s3 = fds \<lparr>files = (\<lambda>_. None), fds = 3\<rparr> \<and>
    (\<forall>k. stored s3 k = stored \<lparr>files = (\<lambda>_. None), fds = 3\<rparr> k) \<and>
    (\<forall>k. k \<noteq> ''k'' \<longrightarrow> stored s2 k = stored \<lparr>files = (\<lambda>_. None), fds = 3\<rparr> k)"
  by (rule storage_is_a_map) (simp_all add: io_good_def io_fine_def stored_def c_string_def BUF_GET_def)

text \<open>
  \<open>generic_get\<close> has room for 9 bytes and a terminator: for a stored value of 10 bytes or more it
  writes the terminator one byte beyond its buffer. The write side takes values of any length.
\<close>

theorem long_value_overflows_get:
  assumes "io_good io v" and "stored st key = None" and "BUF_GET \<le> length v"
  shows "\<exists>st'. generic_put io st key v = (st', 0) \<and> generic_get io st' key = None"
proof -
  obtain s1 where s1: "generic_put io st key v = (s1, 0)" "stored s1 key = Some v" using put_ok [OF assms(1,2)] by auto
  then show ?thesis using get_overflow [OF assms(1) s1(2) assms(3)] by blast
qed

theorem long_value_overflows_get_witness:
  "\<exists>st'. generic_put io_fine \<lparr>files = (\<lambda>_. None), fds = 3\<rparr> ''k'' ''ten bytes!'' = (st', 0) \<and>
     generic_get io_fine st' ''k'' = None"
  by (rule long_value_overflows_get) (simp_all add: io_good_def io_fine_def stored_def BUF_GET_def)

end
