(* ===== verification/Load_Transfer.thy ===== *)
theory Load_Transfer
  imports Server_Dist Transfer_Lists Generic_Storage
begin

text \<open>
  The two threads that move the names of entries between servers, \<open>thread_load_sender\<close> and
  \<open>thread_load_receiver\<close>; their text is the same in \<open>distribution_dh_s.c\<close>,
  \<open>distribution_indedh_s.c\<close> and \<open>distribution_windowed_s.c\<close>. The sockets are modelled by what goes
  through them: the packets sent, with the host they are sent to, and the replies received.
\<close>

section \<open>Messages and states\<close>

text \<open>The three frames of a packet: entry, size, bytes of the names.\<close>

record packet =
  p_entry :: int
  p_size :: int
  p_names :: string

text \<open>Whether the system calls of a thread succeed, and the contents of the file of hosts.\<close>

record xfer_env =
  xe_lock :: lock_env
  xe_io :: io
  xe_hosts :: "string option"
  xe_malloc :: bool
  xe_malloc_buf :: bool
  xe_realloc :: bool
  xe_asprintf :: bool
  xe_socket :: bool
  xe_send :: int

text \<open>
  A thread runs, has left by \<open>pthread_exit (&fail_rc)\<close>, or waits for a message that has not come.
\<close>

datatype thread_status = Running | Failed | Blocked

record 'e sender =
  sd_sv :: "'e server"
  sd_store :: store
  sd_file :: string
  sd_line :: int
  sd_id :: string
  sd_replies :: "string list"
  sd_sent :: "(string \<times> packet) list"
  sd_status :: thread_status

definition max_id_size :: nat where
  "max_id_size = 21"

section \<open>The buffer of names\<close>

text \<open>
  The text before the terminator, the allocated size, and the variable \<open>md_names_length\<close>. A string
  function that would write the terminator outside the buffer is undefined.
\<close>

record name_buf =
  nb_text :: string
  nb_cap :: int
  nb_len :: int

definition buf_new :: name_buf where
  "buf_new = \<lparr>nb_text = [], nb_cap = 80, nb_len = 0\<rparr>"

definition buf_cat :: "name_buf \<Rightarrow> string \<Rightarrow> name_buf option" where
  "buf_cat b s =
     (if int (length (nb_text b) + length s) < nb_cap b then Some (b\<lparr>nb_text := nb_text b @ s\<rparr>) else None)"

text \<open>
  \<open>md_names_length += 1 + strlen (name)\<close> is computed as \<open>size_t\<close> and kept as \<open>int\<close>; then the buffer
  grows by half, at most once.
\<close>

definition buf_grow :: "bool \<Rightarrow> name_buf \<Rightarrow> string \<Rightarrow> name_buf flow option" where
  "buf_grow realloc b name =
     (let b = b\<lparr>nb_len := int_of_u32 (u32_of_int (nb_len b + 1 + int (length name)))\<rparr> in
      if nb_len b \<ge> nb_cap b then do {
        c \<leftarrow> c_int (nb_cap b * 3);
        c \<leftarrow> c_div c 2;
        let b = b\<lparr>nb_cap := c\<rparr>;
        Some (if realloc then Next b else Leave b)
      } else Some (Next b))"

definition buf_add :: "bool \<Rightarrow> name_buf \<Rightarrow> string \<Rightarrow> name_buf flow option" where
  "buf_add realloc b name = do {
     f \<leftarrow> buf_grow realloc b name;
     case f of
       Leave b \<Rightarrow> Some (Leave b)
     | Next b \<Rightarrow> do {
         b \<leftarrow> buf_cat b '','';
         b \<leftarrow> buf_cat b name;
         Some (Next b)
       }
   }"

section \<open>\<open>thread_load_sender\<close>\<close>

text \<open>One round of the loop that empties the list of an entry.\<close>

definition pack_name ::
  "xfer_env \<Rightarrow> int \<Rightarrow> 'e server \<times> store \<times> name_buf \<Rightarrow> ('e server \<times> store \<times> name_buf) flow option" where
  "pack_name X entry = (\<lambda>(sv, st, b).
     if - wrlock_rc (xe_lock X) \<noteq> 0 then Some (Leave (sv, st, b))
     else do {
       head \<leftarrow> rdi (sv_md sv) entry;
       (head, ptr) \<leftarrow> md_entry_pop (sv_heap sv) head;
       md \<leftarrow> wri (sv_md sv) entry head;
       let sv = sv\<lparr>sv_md := md\<rparr>;
       if - unlock_rc (xe_lock X) \<noteq> 0 then Some (Leave (sv, st, b))
       else do {
         p \<leftarrow> ptr;
         c \<leftarrow> sv_heap sv p;
         let (st, rc) = generic_del (xe_io X) st (md_name c);
         if rc = -1 then Some (Leave (sv, st, b))
         else do {
           f \<leftarrow> buf_add (xe_realloc X) b (md_name c);
           Some (case f of
               Leave b \<Rightarrow> Leave (sv, st, b)
             | Next b \<Rightarrow> Next (sv\<lparr>sv_heap := (sv_heap sv)(p := None)\<rparr>, st, b))
         }
       }
     })"

text \<open>\<open>while (in_charge_md[entry] != NULL)\<close>\<close>

partial_function (option) pack_names ::
    "xfer_env \<Rightarrow> int \<Rightarrow> 'e server \<times> store \<times> name_buf \<Rightarrow> ('e server \<times> store \<times> name_buf) flow option" where
  "pack_names X entry s =
     Option.bind (rdi (sv_md (fst s)) entry) (\<lambda>head.
       if head = None then Some (Next s)
       else Option.bind (pack_name X entry s) (\<lambda>f.
         case f of Leave s \<Rightarrow> Some (Leave s) | Next s \<Rightarrow> pack_names X entry s))"

text \<open>
  The body of the loop over the entries of one server: the packet is built and sent, the entry is
  marked as transferred, its counters are forgotten (\<open>send_out\<close>), and the reply must be \<open>done\<close>. \<open>zframe_new\<close>
  copies \<open>md_names_length\<close> bytes of the buffer. A \<open>malloc\<close> that fails here is used all the same.
\<close>

definition send_out ::
  "xfer_env \<Rightarrow> ('e \<Rightarrow> int \<Rightarrow> (int \<times> 'e option) option) \<Rightarrow> transfert_load_args \<Rightarrow> nat \<Rightarrow> 'e sender \<Rightarrow>
   'e sender flow option" where
  "send_out X reset l k s = do {
     entry \<leftarrow> rd (entries l) k;
     if \<not> xe_malloc_buf X then None
     else do {
       f \<leftarrow> pack_names X entry (sd_sv s, sd_store s, buf_new);
       case f of
         Leave (sv, st, b) \<Rightarrow> Some (Leave (s\<lparr>sd_sv := sv, sd_store := st, sd_status := Failed\<rparr>))
       | Next (sv, st, b) \<Rightarrow> do {
           let s = s\<lparr>sd_sv := sv, sd_store := st\<rparr>;
           n \<leftarrow> c_int (nb_len b + 1);
           bytes \<leftarrow> (if 0 \<le> n \<and> nat n \<le> Suc (length (nb_text b)) then Some (take (nat n) (nb_text b @ [CHR 0x00])) else None);
           if xe_send X \<noteq> 0 then Some (Leave (s\<lparr>sd_status := Failed\<rparr>))
           else do {
             let s = s\<lparr>sd_sent := sd_sent s @ [(sd_id s, \<lparr>p_entry = entry, p_size = n, p_names = bytes\<rparr>)]\<rparr>;
             (rc, t) \<leftarrow> mlt_update_state (xe_lock X) (Some (sv_table (sd_sv s))) entry 0;
             t \<leftarrow> t;
             let s = s\<lparr>sd_sv := (sd_sv s)\<lparr>sv_table := t\<rparr>\<rparr>;
             if rc \<noteq> 0 then Some (Leave (s\<lparr>sd_status := Failed\<rparr>))
             else do {
               (rc, e) \<leftarrow> reset (sv_list (sd_sv s)) entry;
               e \<leftarrow> e;
               let s = s\<lparr>sd_sv := (sd_sv s)\<lparr>sv_list := e\<rparr>\<rparr>;
               Some (if rc \<noteq> 0 then Leave (s\<lparr>sd_status := Failed\<rparr>) else Next s)
             }
           }
         }
     }
   }"

definition take_reply :: "'e sender \<Rightarrow> 'e sender flow" where
  "take_reply s =
     (case sd_replies s of
        [] \<Rightarrow> Leave (s\<lparr>sd_status := Blocked\<rparr>)
      | flag # rest \<Rightarrow>
          let s = s\<lparr>sd_replies := rest\<rparr> in
          if flag \<noteq> ''done'' then Leave (s\<lparr>sd_status := Failed\<rparr>) else Next s)"

definition send_entry ::
  "xfer_env \<Rightarrow> ('e \<Rightarrow> int \<Rightarrow> (int \<times> 'e option) option) \<Rightarrow> transfert_load_args \<Rightarrow> nat \<Rightarrow> 'e sender \<Rightarrow>
   'e sender flow option" where
  "send_entry X reset l k s = do {
     f \<leftarrow> send_out X reset l k s;
     Some (case f of Leave s \<Rightarrow> Leave s | Next s \<Rightarrow> take_reply s)
   }"

text \<open>
  The inner loop goes on while the next entry is for the same server. The condition reads the
  array of servers before it compares the index with the size. The result is the last index.
\<close>

definition same_server :: "transfert_load_args \<Rightarrow> nat \<Rightarrow> 'e sender \<Rightarrow> bool option" where
  "same_server l k s = do { next \<leftarrow> rd (servers l) (k + 1); Some (next = sd_line s \<and> int (k + 1) < t_size l) }"

partial_function (option) send_group ::
    "xfer_env \<Rightarrow> ('e \<Rightarrow> int \<Rightarrow> (int \<times> 'e option) option) \<Rightarrow> transfert_load_args \<Rightarrow> nat \<Rightarrow> 'e sender \<Rightarrow>
     (nat \<times> 'e sender) flow option" where
  "send_group X reset l k s =
     Option.bind (send_entry X reset l k s) (\<lambda>f. case f of
         Leave s \<Rightarrow> Some (Leave (k, s))
       | Next s \<Rightarrow> Option.bind (same_server l k s) (\<lambda>again.
           if again then send_group X reset l (k + 1) s else Some (Next (k, s))))"

text \<open>\<open>fgets\<close> until the line of the server is in \<open>id_srv\<close>.\<close>

function find_line :: "int \<Rightarrow> string \<Rightarrow> int \<Rightarrow> string \<Rightarrow> (string \<times> int \<times> string) flow option" where
  "find_line target file line srv_name =
     (if line = target then Some (Next (file, line, srv_name))
      else case fgets max_id_size file of
          None \<Rightarrow> Some (Leave (file, line, srv_name))
        | Some (l, file') \<Rightarrow>
            (case c_int (line + 1) of None \<Rightarrow> None | Some line' \<Rightarrow> find_line target file' line' (chop l)))"
  by pat_completeness auto
termination
  by (relation "measure (\<lambda>(target, file, line, srv_name). length file)")
    (auto simp: max_id_size_def numeral_eq_Suc dest!: fgets_less)

declare find_line.simps [simp del]

text \<open>\<open>for (to_send_idx = ...)\<close>, one round per server.\<close>

definition seek_server :: "xfer_env \<Rightarrow> transfert_load_args \<Rightarrow> nat \<Rightarrow> 'e sender \<Rightarrow> 'e sender flow option" where
  "seek_server X l k s = do {
     target \<leftarrow> rd (servers l) k;
     f \<leftarrow> find_line target (sd_file s) (sd_line s) (sd_id s);
     let (file, line, srv_name) = flow_state f;
     let s = s\<lparr>sd_file := file, sd_line := line, sd_id := srv_name\<rparr>;
     Some (case f of
         Leave _ \<Rightarrow> Leave (s\<lparr>sd_status := Failed\<rparr>)
       | Next _ \<Rightarrow> if \<not> xe_asprintf X \<or> \<not> xe_socket X then Leave (s\<lparr>sd_status := Failed\<rparr>) else Next s)
   }"

definition send_server ::
  "xfer_env \<Rightarrow> ('e \<Rightarrow> int \<Rightarrow> (int \<times> 'e option) option) \<Rightarrow> transfert_load_args \<Rightarrow> nat \<Rightarrow> 'e sender \<Rightarrow>
   (nat \<times> 'e sender) flow option" where
  "send_server X reset l k s = do {
     f \<leftarrow> seek_server X l k s;
     case f of Leave s \<Rightarrow> Some (Leave (k, s)) | Next s \<Rightarrow> send_group X reset l k s
   }"

partial_function (option) send_all ::
    "xfer_env \<Rightarrow> ('e \<Rightarrow> int \<Rightarrow> (int \<times> 'e option) option) \<Rightarrow> transfert_load_args \<Rightarrow> nat \<Rightarrow> 'e sender \<Rightarrow>
     'e sender flow option" where
  "send_all X reset l k s =
     (if \<not> int k < t_size l then Some (Next s)
      else Option.bind (send_server X reset l k s) (\<lambda>f. case f of
          Leave (k, s) \<Rightarrow> Some (Leave s)
        | Next (k, s) \<Rightarrow> send_all X reset l (k + 1) s))"

definition thread_load_sender ::
  "xfer_env \<Rightarrow> ('e \<Rightarrow> int \<Rightarrow> (int \<times> 'e option) option) \<Rightarrow> transfert_load_args \<Rightarrow> string list \<Rightarrow>
   'e server \<Rightarrow> store \<Rightarrow> 'e sender flow option" where
  "thread_load_sender X reset to_send replies sv st = do {
     l \<leftarrow> sort_to_send to_send;
     let s = \<lparr>sd_sv = sv, sd_store = st, sd_file = [], sd_line = -1, sd_id = [], sd_replies = replies,
       sd_sent = [], sd_status = Running\<rparr>;
     case xe_hosts X of
       None \<Rightarrow> Some (Leave (s\<lparr>sd_status := Failed\<rparr>))
     | Some file \<Rightarrow>
         let s = s\<lparr>sd_file := file\<rparr> in
         if \<not> xe_malloc X then Some (Leave (s\<lparr>sd_status := Failed\<rparr>))
         else send_all X reset l 0 s
   }"

section \<open>\<open>thread_load_receiver\<close>\<close>

record 'e receiver =
  rv_sv :: "'e server"
  rv_store :: store
  rv_replies :: "string list"
  rv_status :: thread_status

text \<open>
  One name of a packet: a new cell is put in front of the list of the entry, and the name at the
  head of the list is stored with the value \<open>a word\<close>. \<open>alloc\<close> is the address \<open>malloc\<close> gives,
  \<open>fill\<close> what is there.
\<close>

definition receive_name ::
  "xfer_env \<Rightarrow> (md_heap \<Rightarrow> nat) \<Rightarrow> md_entry \<Rightarrow> int \<Rightarrow> string \<Rightarrow> 'e server \<times> store \<Rightarrow>
   ('e server \<times> store) flow option" where
  "receive_name X alloc fill entry name = (\<lambda>(sv, st).
     if \<not> xe_asprintf X then Some (Leave (sv, st))
     else do {
       let a = alloc (sv_heap sv);
       h \<leftarrow> md_entry_init ((sv_heap sv)(a \<mapsto> fill)) a entry name;
       let sv = sv\<lparr>sv_heap := h\<rparr>;
       if - wrlock_rc (xe_lock X) \<noteq> 0 then Some (Leave (sv, st))
       else do {
         head \<leftarrow> rdi (sv_md sv) entry;
         (h, head) \<leftarrow> md_entry_insert (sv_heap sv) head a;
         md \<leftarrow> wri (sv_md sv) entry head;
         let sv = sv\<lparr>sv_heap := h, sv_md := md\<rparr>;
         if - unlock_rc (xe_lock X) \<noteq> 0 then Some (Leave (sv, st))
         else do {
           p \<leftarrow> head;
           c \<leftarrow> sv_heap sv p;
           let (st, rc) = generic_put (xe_io X) st (md_name c) ''a word'';
           Some (if rc = -1 then Leave (sv, st) else Next (sv, st))
         }
       }
     })"

text \<open>The bytes of the names up to the announced size, read as a string by \<open>strtok\<close>.\<close>

definition packet_text :: "packet \<Rightarrow> string option" where
  "packet_text p =
     (if p_size p < 0 \<or> length (p_names p) < nat (p_size p) then None
      else
        let bytes = take (nat (p_size p)) (p_names p) in
        if CHR 0x00 \<in> set bytes then Some (up_to_nul bytes) else None)"

definition receive_packet ::
  "xfer_env \<Rightarrow> ('e \<Rightarrow> int \<Rightarrow> (int \<times> 'e option) option) \<Rightarrow> (md_heap \<Rightarrow> nat) \<Rightarrow> md_entry \<Rightarrow> packet \<Rightarrow>
   'e receiver \<Rightarrow> 'e receiver flow option" where
  "receive_packet X reset alloc fill p s = do {
     text \<leftarrow> packet_text p;
     let entry = p_entry p;
     f \<leftarrow> forE (tokens (CHR '','') text) (receive_name X alloc fill entry) (rv_sv s, rv_store s);
     let (sv, st) = flow_state f;
     let s = s\<lparr>rv_sv := sv, rv_store := st\<rparr>;
     case f of
       Leave _ \<Rightarrow> Some (Leave (s\<lparr>rv_status := Failed\<rparr>))
     | Next _ \<Rightarrow> do {
         (rc, t) \<leftarrow> mlt_update_state (xe_lock X) (Some (sv_table (rv_sv s))) entry 0;
         t \<leftarrow> t;
         let s = s\<lparr>rv_sv := (rv_sv s)\<lparr>sv_table := t\<rparr>\<rparr>;
         if rc \<noteq> 0 then Some (Leave (s\<lparr>rv_status := Failed\<rparr>))
         else do {
           (rc, e) \<leftarrow> reset (sv_list (rv_sv s)) entry;
           e \<leftarrow> e;
           let s = s\<lparr>rv_sv := (rv_sv s)\<lparr>sv_list := e\<rparr>\<rparr>;
           if rc \<noteq> 0 then Some (Leave (s\<lparr>rv_status := Failed\<rparr>))
           else Some (Next (s\<lparr>rv_replies := rv_replies s @ [''done'']\<rparr>))
         }
       }
   }"

text \<open>As many packets as there are entries to receive, in the order in which they arrive.\<close>

fun receive_all ::
  "xfer_env \<Rightarrow> ('e \<Rightarrow> int \<Rightarrow> (int \<times> 'e option) option) \<Rightarrow> (md_heap \<Rightarrow> nat) \<Rightarrow> md_entry \<Rightarrow> nat \<Rightarrow> packet list \<Rightarrow>
   'e receiver \<Rightarrow> 'e receiver flow option" where
  "receive_all X reset alloc fill 0 ps s = Some (Next s)"
| "receive_all X reset alloc fill (Suc n) [] s = Some (Leave (s\<lparr>rv_status := Blocked\<rparr>))"
| "receive_all X reset alloc fill (Suc n) (p # ps) s =
     (case receive_packet X reset alloc fill p s of
        None \<Rightarrow> None
      | Some (Leave s) \<Rightarrow> Some (Leave s)
      | Some (Next s) \<Rightarrow> receive_all X reset alloc fill n ps s)"

definition thread_load_receiver ::
  "xfer_env \<Rightarrow> ('e \<Rightarrow> int \<Rightarrow> (int \<times> 'e option) option) \<Rightarrow> (md_heap \<Rightarrow> nat) \<Rightarrow> md_entry \<Rightarrow>
   transfert_load_args \<Rightarrow> packet list \<Rightarrow> 'e server \<Rightarrow> store \<Rightarrow> 'e receiver flow option" where
  "thread_load_receiver X reset alloc fill to_receive ps sv st =
     (let s = \<lparr>rv_sv = sv, rv_store = st, rv_replies = [], rv_status = Running\<rparr> in
      if \<not> xe_asprintf X \<or> \<not> xe_socket X then Some (Leave (s\<lparr>rv_status := Failed\<rparr>))
      else receive_all X reset alloc fill (nat (t_size to_receive)) ps s)"

section \<open>The buffer\<close>

text \<open>
  The text fits with its terminator, and the size is either the first one or was computed from a
  text that did not fit before.
\<close>

definition buf_ok :: "name_buf \<Rightarrow> bool" where
  "buf_ok b \<longleftrightarrow> nb_len b = int (length (nb_text b)) \<and> nb_len b < nb_cap b \<and> 80 \<le> nb_cap b \<and>
     (nb_cap b = 80 \<or> 2 * nb_cap b \<le> 3 * nb_len b)"

lemma buf_ok_new: "buf_ok buf_new"
  by (simp add: buf_ok_def buf_new_def)

text \<open>Names of less than half of the first size always fit after one growth.\<close>

lemma buf_add_ok:
  assumes b: "buf_ok b" and n: "length name < 40" and sz: "length (nb_text b) + length name < 400000000"
  shows "\<exists>b'. buf_add True b name = Some (Next b') \<and> buf_ok b' \<and> nb_text b' = nb_text b @ CHR '','' # name"
proof -
  let ?l = "nb_len b + 1 + int (length name)"
  have l: "int_ok ?l" using b sz by (simp add: buf_ok_def int_ok_def INT_MAX_def INT_MIN_def)
  then have len: "int_of_u32 (u32_of_int ?l) = ?l" by (rule int_of_u32_of_int)
  show ?thesis
  proof (cases "nb_cap b \<le> ?l")
    case False
    then have "buf_grow True b name = Some (Next (b\<lparr>nb_len := ?l\<rparr>))" by (simp add: buf_grow_def len)
    then show ?thesis using False b by (auto simp: buf_add_def buf_cat_def buf_ok_def)
  next
    case True
    let ?c = "nb_cap b * 3 div 2"
    have cap: "80 \<le> nb_cap b" "nb_cap b * 3 \<le> INT_MAX" using b True sz by (auto simp: buf_ok_def INT_MAX_def)
    then have "c_int (nb_cap b * 3) = Some (nb_cap b * 3)" by (simp add: int_ok_def INT_MIN_def)
    moreover have "c_div (nb_cap b * 3) 2 = Some ?c"
    proof -
      have "0 \<le> ?c" "?c \<le> nb_cap b * 3" using cap(1) by presburger+
      then have "int_ok ?c" using cap(2) by (simp add: int_ok_def INT_MIN_def)
      then show ?thesis using cap by (simp add: c_div_def sgn_if)
    qed
    ultimately have g: "buf_grow True b name = Some (Next (b\<lparr>nb_len := ?l, nb_cap := ?c\<rparr>))"
      using True by (simp add: buf_grow_def len c_conv)
    have c: "?l < ?c" "80 \<le> ?c" "2 * ?c \<le> 3 * ?l" using b True n by (auto simp: buf_ok_def)
    then show ?thesis using g b by (auto simp: buf_add_def buf_cat_def buf_ok_def)
  qed
qed

text \<open>A first name of 119 characters or more does not fit even after the growth.\<close>

lemma buf_add_first:
  assumes "length name < 400000000"
  shows "buf_add True buf_new name = None \<longleftrightarrow> 119 \<le> length name"
proof -
  have "int_ok (1 + int (length name))" using assms by (simp add: int_ok_def INT_MAX_def INT_MIN_def)
  then have len: "int_of_u32 (u32_of_int (1 + int (length name))) = 1 + int (length name)"
    by (rule int_of_u32_of_int)
  have c: "int_ok 240" "c_div 240 2 = Some 120"
    by (simp_all add: c_div_def int_ok_def INT_MAX_def INT_MIN_def)
  show ?thesis
    by (cases "79 \<le> length name") (auto simp: buf_add_def buf_grow_def buf_new_def buf_cat_def len c Let_def c_conv)
qed

section \<open>Emptying the list of an entry\<close>

text \<open>The answers of a system on which everything works.\<close>

definition xfer_fine :: "xfer_env \<Rightarrow> bool" where
  "xfer_fine X \<longleftrightarrow> xe_lock X = locks_work \<and> io_good (xe_io X) ''a word'' \<and> xe_malloc X \<and> xe_malloc_buf X \<and>
     xe_realloc X \<and> xe_asprintf X \<and> xe_socket X \<and> xe_send X = 0"

text \<open>
  Names that survive the transfer: not empty, without a comma, and short enough for the buffer;
  the last number keeps the lengths in the range of \<open>int\<close>.
\<close>

definition name_ok :: "string \<Rightarrow> bool" where
  "name_ok n \<longleftrightarrow> token_ok (CHR '','') n \<and> c_string n \<and> length n < 40"

definition names_ok :: "string list \<Rightarrow> bool" where
  "names_ok ns \<longleftrightarrow> (\<forall>n \<in> set ns. name_ok n) \<and> distinct ns \<and> length (joined (CHR '','') ns) < 400000000"

lemma del_any:
  assumes "io_good io v" and "stored st key \<noteq> None"
  shows "\<exists>st'. generic_del io st key = (st', 0) \<and> (\<forall>k. stored st' k = (if k = key then None else stored st k))"
  using del_ok [OF assms] by blast

lemma pack_name_ok:
  assumes X: "xfer_fine X" and h: "holds (sv_heap sv) (sv_md sv) L" and i: "i < length (sv_md sv)" and L: "L ! i = n # ns"
    and n: "length n < 40" "stored st n \<noteq> None" and b: "buf_ok b" "length (nb_text b) + length n < 400000000"
  shows "\<exists>h' p st' b'. pack_name X (int i) (sv, st, b) = Some (Next (sv\<lparr>sv_heap := h', sv_md := (sv_md sv)[i := p]\<rparr>, st', b')) \<and>
    holds h' ((sv_md sv)[i := p]) (L[i := ns]) \<and> dom h' \<subseteq> dom (sv_heap sv) \<and>
    buf_ok b' \<and> nb_text b' = nb_text b @ CHR '','' # n \<and>
    (\<forall>k. stored st' k = (if k = n then None else stored st k))"
proof -
  obtain a p c where pop: "md_entry_pop (sv_heap sv) (sv_md sv ! i) = Some (p, Some a)" "sv_heap sv a = Some c"
    "md_name c = n" "holds ((sv_heap sv)(a := None)) ((sv_md sv)[i := p]) (L[i := ns])"
    using holds_pop [OF h i L] by blast
  obtain st' where st': "generic_del (xe_io X) st n = (st', 0)" "\<forall>k. stored st' k = (if k = n then None else stored st k)"
    using del_any [OF _ n(2), of "xe_io X" "''a word''"] X unfolding xfer_fine_def by blast
  obtain b' where b': "buf_add True b n = Some (Next b')" "buf_ok b'" "nb_text b' = nb_text b @ CHR '','' # n"
    using buf_add_ok [OF b(1) n(1) b(2)] by blast
  have "pack_name X (int i) (sv, st, b) =
      Some (Next (sv\<lparr>sv_heap := (sv_heap sv)(a := None), sv_md := (sv_md sv)[i := p]\<rparr>, st', b'))"
    using X i pop st'(1) b'(1) by (simp add: pack_name_def xfer_fine_def locks_work_def rdi_in wri_in Let_def)
  moreover have "dom ((sv_heap sv)(a := None)) \<subseteq> dom (sv_heap sv)" by auto
  ultimately show ?thesis using pop(4) st'(2) b'(2,3) by blast
qed

lemma pack_names_ok:
  assumes "xfer_fine X" and "holds (sv_heap sv) (sv_md sv) L" and "i < length (sv_md sv)"
    and "\<forall>n \<in> set (L ! i). length n < 40 \<and> stored st n \<noteq> None" and "distinct (L ! i)"
    and "buf_ok b" and "length (nb_text b) + length (joined (CHR '','') (L ! i)) < 400000000"
  shows "\<exists>h' md' st' b'. pack_names X (int i) (sv, st, b) = Some (Next (sv\<lparr>sv_heap := h', sv_md := md'\<rparr>, st', b')) \<and>
    length md' = length (sv_md sv) \<and> holds h' md' (L[i := []]) \<and> dom h' \<subseteq> dom (sv_heap sv) \<and> buf_ok b' \<and>
    nb_text b' = nb_text b @ joined (CHR '','') (L ! i) \<and>
    (\<forall>k. stored st' k = (if k \<in> set (L ! i) then None else stored st k))"
  using assms(2-)
proof (induction "L ! i" arbitrary: sv st b L)
  case Nil
  then have "sv_md sv ! i = None" using holds_None by metis
  moreover have "L[i := []] = L" using Nil(1) list_update_id by metis
  ultimately show ?case using Nil
    by (intro exI [of _ "sv_heap sv"] exI [of _ "sv_md sv"] exI [of _ st] exI [of _ b])
      (simp add: pack_names.simps [of X "int i" "(sv, st, b)"] rdi_in)
next
  case (Cons n ns)
  have L: "L ! i = n # ns" using Cons.hyps(2) by simp
  note pr = Cons.prems [unfolded L]
  obtain h1 p st1 b1 where 1: "pack_name X (int i) (sv, st, b) = Some (Next (sv\<lparr>sv_heap := h1, sv_md := (sv_md sv)[i := p]\<rparr>, st1, b1))"
    "holds h1 ((sv_md sv)[i := p]) (L[i := ns])" "dom h1 \<subseteq> dom (sv_heap sv)" "buf_ok b1" "nb_text b1 = nb_text b @ CHR '','' # n"
    "\<forall>k. stored st1 k = (if k = n then None else stored st k)"
    using pack_name_ok [OF assms(1) pr(1,2) L, of st b] pr by auto
  let ?sv = "sv\<lparr>sv_heap := h1, sv_md := (sv_md sv)[i := p]\<rparr>" and ?L = "L[i := ns]"
  have iL: "i < length L" using holds_length [OF pr(1)] pr(2) by simp
  have nn: "sv_md sv ! i \<noteq> None" using holds_None [OF pr(1,2)] L by simp
  have "\<exists>h' md' st' b'. pack_names X (int i) (?sv, st1, b1) = Some (Next (?sv\<lparr>sv_heap := h', sv_md := md'\<rparr>, st', b')) \<and>
    length md' = length (sv_md ?sv) \<and> holds h' md' (?L[i := []]) \<and> dom h' \<subseteq> dom (sv_heap ?sv) \<and> buf_ok b' \<and>
    nb_text b' = nb_text b1 @ joined (CHR '','') (?L ! i) \<and>
    (\<forall>k. stored st' k = (if k \<in> set (?L ! i) then None else stored st1 k))"
    by (rule Cons.hyps(1)) (use 1 pr iL in auto)
  then show ?case using 1 nn iL pr(2) L
    by (simp add: pack_names.simps [of X "int i" "(sv, st, b)"] rdi_in) (metis (no_types) order_trans)
qed


section \<open>One entry, sent and received\<close>

text \<open>The flag of an entry is cleared at the end of its transfer.\<close>

lemma clear_flag:
  assumes "mlt_wf t" and "i < mlt_len t"
  shows "\<exists>t'. mlt_update_state locks_work (Some t) (int i) 0 = Some (0, Some t') \<and> mlt_wf t' \<and> mlt_len t' = mlt_len t \<and>
    (\<forall>j < mlt_len t. mlt_row t' j =
       (if j = i then (fst (mlt_row t i), fst (snd (mlt_row t i)), 0) else mlt_row t j))"
proof -
  let ?t = "t\<lparr>mlt_state := (mlt_state t)[i := 0]\<rparr>"
  have "mlt_update_state locks_work (Some t) (int i) 0 = Some (0, Some ?t)"
    using mlt_update_state_in [of t i locks_work 0] assms by (simp add: locks_work_def u32_of_int_def)
  moreover have "mlt_wf ?t" "mlt_len ?t = mlt_len t" using assms by (auto simp: mlt_wf_def mlt_len_def)
  moreover have "\<forall>j < mlt_len t. mlt_row ?t j = (if j = i then (fst (mlt_row t i), fst (snd (mlt_row t i)), 0) else mlt_row t j)"
    using assms by (auto simp: mlt_row_def mlt_wf_len int_of_u32_def)
  ultimately show ?thesis by blast
qed


context served_list
begin

lemma send_out_ok:
  assumes X: "xfer_fine X" and ok: "server_ok inv len N (sd_sv s) L" and i: "i < N"
    and k: "k < length (entries l)" "entries l ! k = int i"
    and ns: "names_ok (L ! i)" "\<forall>n \<in> set (L ! i). stored (sd_store s) n \<noteq> None"
  shows "\<exists>s' p. send_out X reset l k s = Some (Next s') \<and>
    sd_sent s' = sd_sent s @ [(sd_id s, p)] \<and> p_entry p = int i \<and> packet_text p = Some (joined (CHR '','') (L ! i)) \<and>
    server_ok inv len N (sd_sv s') (L[i := []]) \<and> sv_self (sd_sv s') = sv_self (sd_sv s) \<and>
    dom (sv_heap (sd_sv s')) \<subseteq> dom (sv_heap (sd_sv s)) \<and>
    (\<forall>j < N. mlt_row (sv_table (sd_sv s')) j =
       (if j = i then (fst (mlt_row (sv_table (sd_sv s)) i), fst (snd (mlt_row (sv_table (sd_sv s)) i)), 0)
        else mlt_row (sv_table (sd_sv s)) j)) \<and>
    (\<forall>j < N. counter (sv_list (sd_sv s')) j = (if j = i then 0 else counter (sv_list (sd_sv s)) j)) \<and>
    (\<forall>n. stored (sd_store s') n = (if n \<in> set (L ! i) then None else stored (sd_store s) n)) \<and>
    sd_replies s' = sd_replies s \<and> sd_id s' = sd_id s \<and> sd_line s' = sd_line s \<and> sd_file s' = sd_file s \<and> sd_status s' = sd_status s"
proof -
  let ?sv = "sd_sv s"
  note ok' = ok [unfolded server_ok_def]
  have i': "i < length (sv_md ?sv)" using ok' i by simp
  have nm: "\<forall>n \<in> set (L ! i). length n < 40 \<and> stored (sd_store s) n \<noteq> None" using ns by (auto simp: names_ok_def name_ok_def)
  obtain h' md' st' b where b: "pack_names X (int i) (?sv, sd_store s, buf_new) = Some (Next (?sv\<lparr>sv_heap := h', sv_md := md'\<rparr>, st', b))"
    "length md' = length (sv_md ?sv)" "holds h' md' (L[i := []])" "dom h' \<subseteq> dom (sv_heap ?sv)" "buf_ok b" "nb_text b = joined (CHR '','') (L ! i)"
    "\<forall>k. stored st' k = (if k \<in> set (L ! i) then None else stored (sd_store s) k)"
    using pack_names_ok [OF X _ i' nm, of buf_new] ok' ns(1) buf_ok_new by (auto simp: names_ok_def buf_new_def)
  have n: "nb_len b = int (length (nb_text b))" "int_ok (int (length (nb_text b)) + 1)"
    "nat (int (length (nb_text b)) + 1) = Suc (length (nb_text b))"
    using b(5,6) ns(1) by (simp_all add: buf_ok_def names_ok_def int_ok_def INT_MAX_def INT_MIN_def nat_add_distrib)
  obtain e where e: "reset (sv_list ?sv) (int i) = Some (0, Some e)" "inv e" "len e = N"
    "\<forall>j < N. counter e j = (if j = i then 0 else counter (sv_list ?sv) j)"
    using reset_ok [of "sv_list ?sv" i] ok' i by auto
  obtain t' where t: "mlt_update_state locks_work (Some (sv_table ?sv)) (int i) 0 = Some (0, Some t')" "mlt_wf t'" "mlt_len t' = N"
    "\<forall>j < N. mlt_row t' j = (if j = i then (fst (mlt_row (sv_table ?sv) i), fst (snd (mlt_row (sv_table ?sv) i)), 0)
      else mlt_row (sv_table ?sv) j)"
    using clear_flag [of "sv_table ?sv" i] ok' i by auto
  let ?p = "\<lparr>p_entry = int i, p_size = int (length (nb_text b)) + 1, p_names = nb_text b @ [CHR 0x00]\<rparr>"
  let ?s' = "s\<lparr>sd_sv := ?sv\<lparr>sv_heap := h', sv_md := md', sv_table := t', sv_list := e\<rparr>, sd_store := st',
    sd_sent := sd_sent s @ [(sd_id s, ?p)]\<rparr>"
  have "send_out X reset l k s = Some (Next ?s')"
    using X k b(1) t(1) e(1) by (simp add: send_out_def xfer_fine_def Let_def rd_in n c_conv)
  moreover have "packet_text ?p = Some (joined (CHR '','') (L ! i))"
    using b(6) ns(1) up_to_nul_app [of "joined (CHR '','') (L ! i)" "[]"]
    by (auto simp: n packet_text_def Let_def names_ok_def name_ok_def joined_def c_string_concat)
  ultimately show ?thesis
    using ok' b e t(2-) by (intro exI [of _ ?s'] exI [of _ ?p]) (auto simp: server_ok_def)
qed

lemma send_entry_ok:
  assumes X: "xfer_fine X" and ok: "server_ok inv len N (sd_sv s) L" and i: "i < N"
    and k: "k < length (entries l)" "entries l ! k = int i"
    and ns: "names_ok (L ! i)" "\<forall>n \<in> set (L ! i). stored (sd_store s) n \<noteq> None"
    and r: "sd_replies s = ''done'' # rest"
  shows "\<exists>s' p. send_entry X reset l k s = Some (Next s') \<and>
    sd_sent s' = sd_sent s @ [(sd_id s, p)] \<and> p_entry p = int i \<and> packet_text p = Some (joined (CHR '','') (L ! i)) \<and>
    server_ok inv len N (sd_sv s') (L[i := []]) \<and> sv_self (sd_sv s') = sv_self (sd_sv s) \<and>
    dom (sv_heap (sd_sv s')) \<subseteq> dom (sv_heap (sd_sv s)) \<and>
    (\<forall>j < N. mlt_row (sv_table (sd_sv s')) j =
       (if j = i then (fst (mlt_row (sv_table (sd_sv s)) i), fst (snd (mlt_row (sv_table (sd_sv s)) i)), 0)
        else mlt_row (sv_table (sd_sv s)) j)) \<and>
    (\<forall>j < N. counter (sv_list (sd_sv s')) j = (if j = i then 0 else counter (sv_list (sd_sv s)) j)) \<and>
    (\<forall>n. stored (sd_store s') n = (if n \<in> set (L ! i) then None else stored (sd_store s) n)) \<and>
    sd_replies s' = rest \<and> sd_id s' = sd_id s \<and> sd_line s' = sd_line s \<and> sd_file s' = sd_file s \<and> sd_status s' = sd_status s"
proof -
  from send_out_ok [OF X ok i k ns] obtain s1 p where s1: "send_out X reset l k s = Some (Next s1)" "sd_replies s1 = sd_replies s"
    "sd_sent s1 = sd_sent s @ [(sd_id s, p)]" "p_entry p = int i" "packet_text p = Some (joined (CHR '','') (L ! i))"
    "server_ok inv len N (sd_sv s1) (L[i := []])" "sv_self (sd_sv s1) = sv_self (sd_sv s)" "dom (sv_heap (sd_sv s1)) \<subseteq> dom (sv_heap (sd_sv s))"
    "\<forall>j < N. mlt_row (sv_table (sd_sv s1)) j =
       (if j = i then (fst (mlt_row (sv_table (sd_sv s)) i), fst (snd (mlt_row (sv_table (sd_sv s)) i)), 0)
        else mlt_row (sv_table (sd_sv s)) j)"
    "\<forall>j < N. counter (sv_list (sd_sv s1)) j = (if j = i then 0 else counter (sv_list (sd_sv s)) j)"
    "\<forall>n. stored (sd_store s1) n = (if n \<in> set (L ! i) then None else stored (sd_store s) n)"
    "sd_id s1 = sd_id s" "sd_line s1 = sd_line s" "sd_file s1 = sd_file s" "sd_status s1 = sd_status s"
    by (elim exE conjE) (rule that)
  let ?s' = "s1\<lparr>sd_replies := rest\<rparr>"
  have "send_entry X reset l k s = Some (Next ?s')" using s1(1,2) r by (simp add: send_entry_def take_reply_def)
  then show ?thesis using s1(3-) by (intro exI [of _ ?s'] exI [of _ p]) simp
qed

end

section \<open>Receiving names\<close>

text \<open>\<open>malloc\<close> never gives a cell that is in use.\<close>

definition fresh_alloc :: "(md_heap \<Rightarrow> nat) \<Rightarrow> bool" where
  "fresh_alloc alloc \<longleftrightarrow> (\<forall>h. finite (dom h) \<longrightarrow> h (alloc h) = None)"

lemma put_a_word:
  assumes "io_good io ''a word''" and "stored st key = None"
  shows "\<exists>st'. generic_put io st key ''a word'' = (st', 0) \<and>
    (\<forall>k. stored st' k = (if k = key then Some ''a word'' else stored st k))"
  using put_ok [OF assms] by blast

lemma receive_name_ok:
  assumes X: "xfer_fine X" and al: "fresh_alloc alloc" and h: "holds (sv_heap sv) (sv_md sv) L" and i: "i < length (sv_md sv)"
    and fin: "finite (dom (sv_heap sv))" and n: "stored st n = None"
  shows "\<exists>h' md' st'. receive_name X alloc fill (int i) n (sv, st) = Some (Next (sv\<lparr>sv_heap := h', sv_md := md'\<rparr>, st')) \<and>
    length md' = length (sv_md sv) \<and> holds h' md' (L[i := n # L ! i]) \<and> finite (dom h') \<and>
    (\<forall>k. stored st' k = (if k = n then Some ''a word'' else stored st k))"
proof -
  let ?a = "alloc (sv_heap sv)"
  have a: "sv_heap sv ?a = None" using al fin by (simp add: fresh_alloc_def)
  obtain h1 h2 where h12: "md_entry_init ((sv_heap sv)(?a \<mapsto> fill)) ?a (int i) n = Some h1"
    "md_entry_insert h1 (sv_md sv ! i) ?a = Some (h2, Some ?a)" "holds h2 ((sv_md sv)[i := Some ?a]) (L[i := n # L ! i])"
    using holds_insert [OF h i a] by blast
  then have h2: "h2 ?a = Some \<lparr>md_ent = int i, md_name = n, md_next = sv_md sv ! i\<rparr>" "dom h2 = insert ?a (dom (sv_heap sv))"
    by (auto simp: md_entry_init_def md_entry_insert_def)
  obtain st' where st': "generic_put (xe_io X) st n ''a word'' = (st', 0)"
    "\<forall>k. stored st' k = (if k = n then Some ''a word'' else stored st k)"
    using put_a_word [OF _ n, of "xe_io X"] X unfolding xfer_fine_def by blast
  have "receive_name X alloc fill (int i) n (sv, st) =
      Some (Next (sv\<lparr>sv_heap := h2, sv_md := (sv_md sv)[i := Some ?a]\<rparr>, st'))"
    using X i h12 h2(1) st'(1) by (simp add: receive_name_def xfer_fine_def locks_work_def Let_def rdi_in wri_in)
  then show ?thesis using h12(3) h2(2) st'(2) fin by fastforce
qed

lemma receive_names_ok:
  assumes "xfer_fine X" and "fresh_alloc alloc" and "holds (sv_heap sv) (sv_md sv) L" and "i < length (sv_md sv)"
    and "finite (dom (sv_heap sv))" and "distinct ns" and "\<forall>n \<in> set ns. stored st n = None"
  shows "\<exists>h' md' st'. forE ns (receive_name X alloc fill (int i)) (sv, st) = Some (Next (sv\<lparr>sv_heap := h', sv_md := md'\<rparr>, st')) \<and>
    length md' = length (sv_md sv) \<and> holds h' md' (L[i := rev ns @ L ! i]) \<and> finite (dom h') \<and>
    (\<forall>k. stored st' k = (if k \<in> set ns then Some ''a word'' else stored st k))"
  using assms(3-)
proof (induction ns arbitrary: sv st L)
  case Nil
  then show ?case by (intro exI [of _ "sv_heap sv"] exI [of _ "sv_md sv"] exI [of _ st]) simp
next
  case (Cons n ns)
  obtain h1 md1 st1 where 1: "receive_name X alloc fill (int i) n (sv, st) = Some (Next (sv\<lparr>sv_heap := h1, sv_md := md1\<rparr>, st1))"
    "length md1 = length (sv_md sv)" "holds h1 md1 (L[i := n # L ! i])" "finite (dom h1)"
    "\<forall>k. stored st1 k = (if k = n then Some ''a word'' else stored st k)"
    using receive_name_ok [OF assms(1,2) Cons.prems(1-3), of st n fill] Cons.prems(5) by auto
  let ?sv = "sv\<lparr>sv_heap := h1, sv_md := md1\<rparr>" and ?L = "L[i := n # L ! i]"
  have iL: "i < length L" using holds_length [OF Cons.prems(1)] Cons.prems(2) by simp
  have "\<exists>h' md' st'. forE ns (receive_name X alloc fill (int i)) (?sv, st1) = Some (Next (?sv\<lparr>sv_heap := h', sv_md := md'\<rparr>, st')) \<and>
    length md' = length (sv_md ?sv) \<and> holds h' md' (?L[i := rev ns @ ?L ! i]) \<and> finite (dom h') \<and>
    (\<forall>k. stored st' k = (if k \<in> set ns then Some ''a word'' else stored st1 k))"
    by (rule Cons.IH) (use 1 Cons.prems in auto)
  then show ?case using 1 iL Cons.prems(4) by simp (metis (no_types))
qed

context served_list
begin

lemma receive_packet_ok:
  assumes X: "xfer_fine X" and al: "fresh_alloc alloc" and ok: "server_ok inv len N (rv_sv s) L" and i: "i < N"
    and fin: "finite (dom (sv_heap (rv_sv s)))"
    and p: "p_entry p = int i" "packet_text p = Some (joined (CHR '','') ns)" "names_ok ns"
    and new: "\<forall>n \<in> set ns. stored (rv_store s) n = None"
  shows "\<exists>s'. receive_packet X reset alloc fill p s = Some (Next s') \<and>
    server_ok inv len N (rv_sv s') (L[i := rev ns @ L ! i]) \<and> finite (dom (sv_heap (rv_sv s'))) \<and>
    sv_self (rv_sv s') = sv_self (rv_sv s) \<and>
    (\<forall>j < N. mlt_row (sv_table (rv_sv s')) j =
       (if j = i then (fst (mlt_row (sv_table (rv_sv s)) i), fst (snd (mlt_row (sv_table (rv_sv s)) i)), 0)
        else mlt_row (sv_table (rv_sv s)) j)) \<and>
    (\<forall>j < N. counter (sv_list (rv_sv s')) j = (if j = i then 0 else counter (sv_list (rv_sv s)) j)) \<and>
    (\<forall>n. stored (rv_store s') n = (if n \<in> set ns then Some ''a word'' else stored (rv_store s) n)) \<and>
    rv_replies s' = rv_replies s @ [''done''] \<and> rv_status s' = rv_status s"
proof -
  let ?sv = "rv_sv s"
  note ok' = ok [unfolded server_ok_def]
  have i': "i < length (sv_md ?sv)" using ok' i by simp
  have tk: "tokens (CHR '','') (joined (CHR '','') ns) = ns"
    using p(3) by (intro tokens_joined) (auto simp: names_ok_def name_ok_def)
  have d: "distinct ns" using p(3) by (simp add: names_ok_def)
  obtain h' md' st' where b: "forE ns (receive_name X alloc fill (int i)) (?sv, rv_store s) = Some (Next (?sv\<lparr>sv_heap := h', sv_md := md'\<rparr>, st'))"
    "length md' = length (sv_md ?sv)" "holds h' md' (L[i := rev ns @ L ! i])" "finite (dom h')"
    "\<forall>k. stored st' k = (if k \<in> set ns then Some ''a word'' else stored (rv_store s) k)"
    using receive_names_ok [OF X al _ i' fin d new] ok' by blast
  obtain e where e: "reset (sv_list ?sv) (int i) = Some (0, Some e)" "inv e" "len e = N"
    "\<forall>j < N. counter e j = (if j = i then 0 else counter (sv_list ?sv) j)"
    using reset_ok [of "sv_list ?sv" i] ok' i by auto
  obtain t' where t: "mlt_update_state locks_work (Some (sv_table ?sv)) (int i) 0 = Some (0, Some t')" "mlt_wf t'" "mlt_len t' = N"
    "\<forall>j < N. mlt_row t' j = (if j = i then (fst (mlt_row (sv_table ?sv) i), fst (snd (mlt_row (sv_table ?sv) i)), 0)
      else mlt_row (sv_table ?sv) j)"
    using clear_flag [of "sv_table ?sv" i] ok' i by auto
  let ?s' = "s\<lparr>rv_sv := ?sv\<lparr>sv_heap := h', sv_md := md', sv_table := t', sv_list := e\<rparr>, rv_store := st',
    rv_replies := rv_replies s @ [''done'']\<rparr>"
  have "receive_packet X reset alloc fill p s = Some (Next ?s')"
    using X p b(1) tk t(1) e(1) by (simp add: receive_packet_def xfer_fine_def Let_def)
  then show ?thesis
    using ok' b e t(2-) by (intro exI [of _ ?s']) (auto simp: server_ok_def)
qed

end

section \<open>The three methods\<close>

text \<open>The threads of the three source files, over the access list of each.\<close>

definition thread_load_sender_dh ::
  "xfer_env \<Rightarrow> transfert_load_args \<Rightarrow> string list \<Rightarrow> eacl server \<Rightarrow> store \<Rightarrow> eacl sender flow option" where
  "thread_load_sender_dh X = thread_load_sender X (\<lambda>e. eacl_reset_all_entry_dh (Some e))"

definition thread_load_sender_indedh ::
  "xfer_env \<Rightarrow> transfert_load_args \<Rightarrow> string list \<Rightarrow> eacl_indedh server \<Rightarrow> store \<Rightarrow> eacl_indedh sender flow option" where
  "thread_load_sender_indedh X = thread_load_sender X (\<lambda>e. eacl_reset_all_entry_indedh (Some e))"

definition thread_load_sender_windowed ::
  "xfer_env \<Rightarrow> transfert_load_args \<Rightarrow> string list \<Rightarrow> eacl_windowed server \<Rightarrow> store \<Rightarrow> eacl_windowed sender flow option" where
  "thread_load_sender_windowed X = thread_load_sender X (\<lambda>e. eacl_reset_all_entry_windowed (Some e))"

definition thread_load_receiver_dh ::
  "xfer_env \<Rightarrow> (md_heap \<Rightarrow> nat) \<Rightarrow> md_entry \<Rightarrow> transfert_load_args \<Rightarrow> packet list \<Rightarrow> eacl server \<Rightarrow> store \<Rightarrow>
   eacl receiver flow option" where
  "thread_load_receiver_dh X = thread_load_receiver X (\<lambda>e. eacl_reset_all_entry_dh (Some e))"

definition thread_load_receiver_indedh ::
  "xfer_env \<Rightarrow> (md_heap \<Rightarrow> nat) \<Rightarrow> md_entry \<Rightarrow> transfert_load_args \<Rightarrow> packet list \<Rightarrow> eacl_indedh server \<Rightarrow> store \<Rightarrow>
   eacl_indedh receiver flow option" where
  "thread_load_receiver_indedh X = thread_load_receiver X (\<lambda>e. eacl_reset_all_entry_indedh (Some e))"

definition thread_load_receiver_windowed ::
  "xfer_env \<Rightarrow> (md_heap \<Rightarrow> nat) \<Rightarrow> md_entry \<Rightarrow> transfert_load_args \<Rightarrow> packet list \<Rightarrow> eacl_windowed server \<Rightarrow> store \<Rightarrow>
   eacl_windowed receiver flow option" where
  "thread_load_receiver_windowed X = thread_load_receiver X (\<lambda>e. eacl_reset_all_entry_windowed (Some e))"

section \<open>A small instance\<close>

definition xfer_demo :: xfer_env where
  "xfer_demo = \<lparr>xe_lock = locks_work, xe_io = io_fine, xe_hosts = Some (text_file [''h0'', ''h1'']), xe_malloc = True,
     xe_malloc_buf = True, xe_realloc = True, xe_asprintf = True, xe_socket = True, xe_send = 0\<rparr>"

lemma xfer_demo_fine: "xfer_fine xfer_demo"
  by (simp add: xfer_fine_def xfer_demo_def io_good_def io_fine_def BUF_GET_def)

definition next_cell :: "md_heap \<Rightarrow> nat" where
  "next_cell h = Suc (Max (insert 0 (dom h)))"

lemma next_cell_fresh: "fresh_alloc next_cell"
  unfolding fresh_alloc_def
proof (intro allI impI)
  fix h :: md_heap
  assume "finite (dom h)"
  then have "a \<le> Max (insert 0 (dom h))" if "a \<in> dom h" for a using that by (intro Max_ge) auto
  then have "next_cell h \<notin> dom h" unfolding next_cell_def using not_less_eq_eq by blast
  then show "h (next_cell h) = None" by blast
qed

text \<open>Server 0 holds two names of entry 0, which is moving to server 1; server 1 holds none.\<close>

definition xfer_table :: mlt where
  "xfer_table = \<lparr>id_srv = [1, 0, 0], n_ver = [1, 0, 0], mlt_state = [1, 0, 0], mlt_size = 3\<rparr>"

definition xfer_list :: eacl_windowed where
  "xfer_list = \<lparr>access_count = [4, 2, 0], sai = [2, 1, 0], eacl_size = 3, load_lvl = 3,
     old_accesses = replicate 3 \<lparr>q_count = WINDOW_SIZE, q_used = 0, q_next = 0, q_values = replicate WINDOW_SIZE 0\<rparr>\<rparr>"

definition xfer_from :: "eacl_windowed server" where
  "xfer_from = \<lparr>sv_table = xfer_table, sv_list = xfer_list, sv_md = [Some 0, None, None],
     sv_heap = [0 \<mapsto> \<lparr>md_ent = 0, md_name = ''k1'', md_next = Some 1\<rparr>, 1 \<mapsto> \<lparr>md_ent = 0, md_name = ''k2'', md_next = None\<rparr>],
     sv_self = 0\<rparr>"

definition xfer_to :: "eacl_windowed server" where
  "xfer_to = \<lparr>sv_table = xfer_table, sv_list = xfer_list, sv_md = [None, None, None], sv_heap = (\<lambda>_. None), sv_self = 1\<rparr>"

definition xfer_store :: store where
  "xfer_store = \<lparr>files = [path_of ''k1'' \<mapsto> ''v1'', path_of ''k2'' \<mapsto> ''v2''], fds = 0\<rparr>"

definition empty_store :: store where
  "empty_store = \<lparr>files = (\<lambda>_. None), fds = 0\<rparr>"

lemma xfer_list_wf: "eacl_wf_windowed xfer_list" "eacl_len xfer_list = 3"
  by (simp_all add: xfer_list_def eacl_wf_windowed_def eacl_wf_def eacl_len_def q_wf_def WINDOW_SIZE_def INT_MAX_def)

lemma xfer_from_ok: "server_ok eacl_wf_windowed eacl_len 3 xfer_from [[''k1'', ''k2''], [], []]"
proof -
  have "separate (sv_heap xfer_from) (sv_md xfer_from) [[0, 1], [], []]"
    by (auto simp: separate_def xfer_from_def is_list_def less_Suc_eq numeral_3_eq_3 nth_Cons')
  then have "holds (sv_heap xfer_from) (sv_md xfer_from) [[''k1'', ''k2''], [], []]"
    unfolding holds_def by (intro exI [of _ "[[0, 1], [], []]"]) (simp add: names_of_def xfer_from_def)
  then show ?thesis using xfer_list_wf by (simp add: server_ok_def xfer_from_def xfer_table_def mlt_wf_def mlt_len_def INT_MAX_def)
qed

lemma xfer_to_ok: "server_ok eacl_wf_windowed eacl_len 3 xfer_to [[], [], []]"
proof -
  have "holds (sv_heap xfer_to) (sv_md xfer_to) [[], [], []]" using holds_empty [of 3] by (simp add: xfer_to_def numeral_3_eq_3)
  then show ?thesis using xfer_list_wf by (simp add: server_ok_def xfer_to_def xfer_table_def mlt_wf_def mlt_len_def INT_MAX_def)
qed

lemma xfer_names_ok: "names_ok [''k1'', ''k2'']"
  by (simp add: names_ok_def name_ok_def token_ok_def)

lemma xfer_stored: "stored xfer_store n = (if n = ''k2'' then Some ''v2'' else if n = ''k1'' then Some ''v1'' else None)"
  "stored empty_store n = None"
  by (simp_all add: stored_def xfer_store_def empty_store_def)

section \<open>Properties\<close>

text \<open>
  C20: the names of an entry survive a transfer between two servers of the windowed method: the packet
  the sender builds is read back by the receiver as the same names, whatever their number, when they
  are not empty, hold no comma and have at most 39 characters. The sender then has neither the names
  nor their files, the receiver has the names in the reverse order in front of those it had; both clear the
  flag of the entry and forget its counters. The values do not survive: each name is stored with the value
  ``a word''.
\<close>

theorem moved_names_round_trip:
  assumes "xfer_fine X" and "fresh_alloc alloc"
    and "server_ok eacl_wf_windowed eacl_len N (sd_sv s) L" and "server_ok eacl_wf_windowed eacl_len N (rv_sv r) M" and "i < N"
    and "k < length (entries l)" "entries l ! k = int i" and "names_ok (L ! i)"
    and "\<forall>n \<in> set (L ! i). stored (sd_store s) n \<noteq> None \<and> stored (rv_store r) n = None"
    and "sd_replies s = ''done'' # rest" and "finite (dom (sv_heap (rv_sv r)))"
  shows "\<exists>s' p r'. send_entry X (\<lambda>e. eacl_reset_all_entry_windowed (Some e)) l k s = Some (Next s') \<and>
    sd_sent s' = sd_sent s @ [(sd_id s, p)] \<and>
    receive_packet X (\<lambda>e. eacl_reset_all_entry_windowed (Some e)) alloc cell p r = Some (Next r') \<and>
    server_ok eacl_wf_windowed eacl_len N (sd_sv s') (L[i := []]) \<and>
    server_ok eacl_wf_windowed eacl_len N (rv_sv r') (M[i := rev (L ! i) @ M ! i]) \<and>
    (\<forall>n \<in> set (L ! i). stored (sd_store s') n = None \<and> stored (rv_store r') n = Some ''a word'') \<and>
    snd (snd (mlt_row (sv_table (sd_sv s')) i)) = 0 \<and> snd (snd (mlt_row (sv_table (rv_sv r')) i)) = 0 \<and>
    access_count (sv_list (sd_sv s')) ! i = 0 \<and> access_count (sv_list (rv_sv r')) ! i = 0 \<and>
    rv_replies r' = rv_replies r @ [''done'']"
proof -
  have st: "\<forall>n \<in> set (L ! i). stored (sd_store s) n \<noteq> None" "\<forall>n \<in> set (L ! i). stored (rv_store r) n = None"
    using assms(9) by blast+
  from sl_windowed.send_entry_ok [OF assms(1,3,5,6,7,8) st(1) assms(10)] obtain s' p where s':
    "send_entry X (\<lambda>e. eacl_reset_all_entry_windowed (Some e)) l k s = Some (Next s')" "sd_sent s' = sd_sent s @ [(sd_id s, p)]"
    "p_entry p = int i" "packet_text p = Some (joined (CHR '','') (L ! i))"
    "server_ok eacl_wf_windowed eacl_len N (sd_sv s') (L[i := []])" "snd (snd (mlt_row (sv_table (sd_sv s')) i)) = 0"
    "access_count (sv_list (sd_sv s')) ! i = 0"
    "\<forall>n. stored (sd_store s') n = (if n \<in> set (L ! i) then None else stored (sd_store s) n)"
    using assms(5) by auto
  from sl_windowed.receive_packet_ok [OF assms(1,2,4,5,11) s'(3,4) assms(8) st(2), of cell] obtain r' where
    "receive_packet X (\<lambda>e. eacl_reset_all_entry_windowed (Some e)) alloc cell p r = Some (Next r')"
    "server_ok eacl_wf_windowed eacl_len N (rv_sv r') (M[i := rev (L ! i) @ M ! i])" "snd (snd (mlt_row (sv_table (rv_sv r')) i)) = 0"
    "access_count (sv_list (rv_sv r')) ! i = 0" "rv_replies r' = rv_replies r @ [''done'']"
    "\<forall>n. stored (rv_store r') n = (if n \<in> set (L ! i) then Some ''a word'' else stored (rv_store r) n)"
    using assms(5) by auto
  with s' show ?thesis by (intro exI [of _ s'] exI [of _ p] exI [of _ r']) simp
qed

definition demo_sender :: "eacl_windowed sender" where
  "demo_sender = \<lparr>sd_sv = xfer_from, sd_store = xfer_store, sd_file = [], sd_line = 1, sd_id = ''h1'', sd_replies = [''done''],
     sd_sent = [], sd_status = Running\<rparr>"

definition demo_receiver :: "eacl_windowed receiver" where
  "demo_receiver = \<lparr>rv_sv = xfer_to, rv_store = empty_store, rv_replies = [], rv_status = Running\<rparr>"

theorem moved_names_round_trip_witness:
  "\<exists>s' p r'. send_entry xfer_demo (\<lambda>e. eacl_reset_all_entry_windowed (Some e))
      \<lparr>entries = [0], servers = [1], t_size = 1\<rparr> 0 demo_sender = Some (Next s') \<and> sd_sent s' = [(''h1'', p)] \<and>
    receive_packet xfer_demo (\<lambda>e. eacl_reset_all_entry_windowed (Some e)) next_cell
      \<lparr>md_ent = 9, md_name = [], md_next = None\<rparr> p demo_receiver = Some (Next r') \<and>
    server_ok eacl_wf_windowed eacl_len 3 (rv_sv r') [[''k2'', ''k1''], [], []] \<and>
    stored (rv_store r') ''k1'' = Some ''a word''"
proof -
  have sv: "server_ok eacl_wf_windowed eacl_len 3 (sd_sv demo_sender) [[''k1'', ''k2''], [], []]"
    "server_ok eacl_wf_windowed eacl_len 3 (rv_sv demo_receiver) [[], [], []]"
    using xfer_from_ok xfer_to_ok by (simp_all add: demo_sender_def demo_receiver_def)
  show ?thesis
    using moved_names_round_trip [OF xfer_demo_fine next_cell_fresh sv, of 0 0 "\<lparr>entries = [0], servers = [1], t_size = 1\<rparr>" "[]"
        "\<lparr>md_ent = 9, md_name = [], md_next = None\<rparr>"] xfer_names_ok
    by (auto simp: demo_sender_def demo_receiver_def xfer_stored xfer_to_def)
qed

text \<open>
  The buffer in which the sender collects the names of an entry grows at most once per name. With a
  name of 119 characters or more at the head of the list, the sender writes outside the buffer.
\<close>

theorem long_name_overflows_sender:
  assumes "xfer_fine X" and "server_ok eacl_wf_windowed eacl_len N (sd_sv s) L" and "i < N"
    and "k < length (entries l)" "entries l ! k = int i" and "L ! i = n # ns" and "stored (sd_store s) n \<noteq> None"
    and "119 \<le> length n" "length n < 400000000"
  shows "send_entry X (\<lambda>e. eacl_reset_all_entry_windowed (Some e)) l k s = None"
proof -
  have i: "i < length (sv_md (sd_sv s))" and h: "holds (sv_heap (sd_sv s)) (sv_md (sd_sv s)) L"
    using assms(2,3) by (auto simp: server_ok_def)
  obtain a p c where pop: "md_entry_pop (sv_heap (sd_sv s)) (sv_md (sd_sv s) ! i) = Some (p, Some a)"
    "sv_heap (sd_sv s) a = Some c" "md_name c = n"
    using holds_pop [OF h i assms(6)] by blast
  obtain st' where st': "generic_del (xe_io X) (sd_store s) n = (st', 0)"
    using del_any [OF _ assms(7), of "xe_io X" "''a word''"] assms(1) unfolding xfer_fine_def by blast
  have b: "buf_add True buf_new n = None" using buf_add_first [OF assms(9)] assms(8) by simp
  have "pack_name X (int i) (sd_sv s, sd_store s, buf_new) = None"
    using assms(1) i pop st' b by (simp add: pack_name_def xfer_fine_def locks_work_def rdi_in wri_in)
  moreover have "sv_md (sd_sv s) ! i \<noteq> None" using holds_None [OF h i] assms(6) by simp
  ultimately have "pack_names X (int i) (sd_sv s, sd_store s, buf_new) = None"
    using i by (simp add: pack_names.simps [of X "int i" "(sd_sv s, sd_store s, buf_new)"] rdi_in)
  then show ?thesis using assms(1,4,5) by (simp add: send_entry_def send_out_def xfer_fine_def rd_in)
qed

definition long_name :: string where
  "long_name = replicate 119 (CHR ''x'')"

theorem long_name_overflows_sender_witness:
  "send_entry xfer_demo (\<lambda>e. eacl_reset_all_entry_windowed (Some e)) \<lparr>entries = [0], servers = [1], t_size = 1\<rparr> 0
     (demo_sender\<lparr>sd_sv := xfer_to\<lparr>sv_md := [Some 0, None, None], sv_heap := [0 \<mapsto> \<lparr>md_ent = 0, md_name = long_name, md_next = None\<rparr>]\<rparr>,
        sd_store := \<lparr>files = [path_of long_name \<mapsto> ''v''], fds = 0\<rparr>\<rparr>) = None"
proof (rule long_name_overflows_sender [OF xfer_demo_fine, where N = 3 and i = 0 and L = "[[long_name], [], []]" and n = long_name])
  let ?h = "[0 \<mapsto> \<lparr>md_ent = 0, md_name = long_name, md_next = None\<rparr>] :: md_heap"
  have "separate ?h [Some 0, None, None] [[0], [], []]"
    by (auto simp: separate_def is_list_def less_Suc_eq numeral_3_eq_3 nth_Cons')
  then have "holds ?h [Some 0, None, None] [[long_name], [], []]"
    unfolding holds_def by (intro exI [of _ "[[0], [], []]"]) (simp add: names_of_def)
  then show "server_ok eacl_wf_windowed eacl_len 3
     (sd_sv (demo_sender\<lparr>sd_sv := xfer_to\<lparr>sv_md := [Some 0, None, None], sv_heap := ?h\<rparr>,
        sd_store := \<lparr>files = [path_of long_name \<mapsto> ''v''], fds = 0\<rparr>\<rparr>)) [[long_name], [], []]"
    using xfer_list_wf by (simp add: server_ok_def xfer_to_def xfer_table_def mlt_wf_def mlt_len_def INT_MAX_def)
qed (simp_all add: stored_def long_name_def)

end
