(* ===== verification/Load_Sender.thy ===== *)
theory Load_Sender
  imports Load_Transfer
begin

text \<open>
  \<open>thread_load_sender\<close> on a whole list: with a file of hosts that has a line for every server and
  receivers that acknowledge, each packet goes to the host of its server, in the order of the
  servers, and the thread ends.
\<close>


section \<open>Finding the host of a server\<close>

text \<open>Names of hosts that \<open>fgets\<close> reads whole, one per line.\<close>

definition hosts_ok :: "string list \<Rightarrow> bool" where
  "hosts_ok hs \<longleftrightarrow> (\<forall>h \<in> set hs. length h + 2 \<le> max_id_size \<and> newline \<notin> set h) \<and> int_ok (int (length hs))"

definition at_line :: "string list \<Rightarrow> string \<Rightarrow> int \<Rightarrow> string \<Rightarrow> bool" where
  "at_line hs fl lno nm \<longleftrightarrow> -1 \<le> lno \<and> lno < int (length hs) \<and>
     fl = text_file (drop (nat (lno + 1)) hs) \<and> (0 \<le> lno \<longrightarrow> nm = hs ! nat lno)"

lemma find_line_ok:
  assumes hs: "hosts_ok hs" and pos: "at_line hs fl lno nm" and t: "lno \<le> target" "target < int (length hs)"
  shows "\<exists>fl' nm'. find_line target fl lno nm = Some (Next (fl', target, nm')) \<and>
    at_line hs fl' target nm'"
  using pos t(1)
proof (induction "nat (target - lno)" arbitrary: fl lno nm)
  case 0
  then show ?case by (simp add: find_line.simps [of lno fl lno nm])
next
  case (Suc n)
  then have lt: "lno < target" by simp
  let ?k = "nat (lno + 1)"
  have k: "?k < length hs" "int ?k = lno + 1" using lt t(2) Suc.prems(1) by (auto simp: at_line_def)
  then have "hs ! ?k \<in> set hs" by simp
  then have h: "length (hs ! ?k) + 2 \<le> max_id_size" "newline \<notin> set (hs ! ?k)" using hs by (auto simp: hosts_ok_def)
  have "fl = hs ! ?k @ newline # text_file (drop (Suc ?k) hs)"
    using Suc.prems(1) Cons_nth_drop_Suc [OF k(1)] text_file_simps(2) by (metis at_line_def)
  then have f: "fgets max_id_size fl = Some (hs ! ?k @ [newline], text_file (drop (Suc ?k) hs))"
    using fgets_line [OF h] by simp
  have "chop (hs ! ?k @ [newline]) = hs ! ?k" using chop_line [OF h(2), of "[]"] by simp
  moreover have "int_ok (lno + 1)" using hs lt t(2) Suc.prems(1) by (auto simp: hosts_ok_def at_line_def int_ok_def INT_MIN_def)
  ultimately have step: "find_line target fl lno nm
      = find_line target (text_file (drop (Suc ?k) hs)) (lno + 1) (hs ! ?k)"
    using lt f by (simp add: find_line.simps [of target fl lno nm] c_conv)
  have sk: "nat (lno + 1 + 1) = Suc ?k" using Suc.prems(1) unfolding at_line_def by arith
  have "at_line hs (text_file (drop (Suc ?k) hs)) (lno + 1) (hs ! ?k)"
    using k Suc.prems(1) sk by (auto simp: at_line_def)
  from Suc.hyps(1) [OF _ this] lt Suc.hyps(2) show ?case unfolding step by simp
qed


section \<open>The whole list of entries to send\<close>

definition cleared :: "nat set \<Rightarrow> string list list \<Rightarrow> string list list" where
  "cleared A L = map (\<lambda>j. if j \<in> A then [] else L ! j) [0..<length L]"

lemma cleared_simps [simp]: "length (cleared A L) = length L" "cleared {} L = L"
  "j < length L \<Longrightarrow> cleared A L ! j = (if j \<in> A then [] else L ! j)"
  by (auto simp: cleared_def intro!: nth_equalityI)

lemma cleared_insert: "i < length L \<Longrightarrow> (cleared A L)[i := []] = cleared (insert i A) L"
  by (rule nth_equalityI) (auto simp: nth_list_update)

text \<open>What a packet for the server \<open>b\<close> and entry \<open>i\<close> is: sent to its host, with the names of the entry.\<close>

definition packet_for :: "string list \<Rightarrow> string list list \<Rightarrow> string \<times> packet \<Rightarrow> int \<times> nat \<Rightarrow> bool" where
  "packet_for hs L hp bi \<longleftrightarrow> fst hp = hs ! nat (fst bi) \<and> p_entry (snd hp) = int (snd bi) \<and>
     packet_text (snd hp) = Some (joined (CHR '','') (L ! snd bi))"

text \<open>Lists, hosts and names for which the sender works.\<close>

definition sendable :: "nat \<Rightarrow> string list \<Rightarrow> string list list \<Rightarrow> store \<Rightarrow> (int \<times> nat) list \<Rightarrow> bool" where
  "sendable N hs L st ys \<longleftrightarrow> hosts_ok hs \<and> length ys \<le> N \<and> distinct (map snd ys) \<and>
     (\<forall>(b, i) \<in> set ys. 0 \<le> b \<and> b < int (length hs) \<and> i < N \<and> names_ok (L ! i) \<and>
        (\<forall>n \<in> set (L ! i). stored st n \<noteq> None)) \<and>
     (\<forall>(b, i) \<in> set ys. \<forall>(c, j) \<in> set ys. i \<noteq> j \<longrightarrow> set (L ! i) \<inter> set (L ! j) = {})"

lemma sendableD:
  assumes "sendable N hs L st ys" and "k < length ys" and "ys ! k = (b, i)"
  shows "0 \<le> b" "b < int (length hs)" "i < N" "names_ok (L ! i)" "\<forall>n \<in> set (L ! i). stored st n \<noteq> None"
    "i \<notin> snd ` set (take k ys)" "\<forall>j \<in> snd ` set (take k ys). set (L ! i) \<inter> set (L ! j) = {}"
proof -
  have m: "(b, i) \<in> set ys" using assms(2,3) nth_mem by metis
  show "0 \<le> b" "b < int (length hs)" "i < N" "names_ok (L ! i)" "\<forall>n \<in> set (L ! i). stored st n \<noteq> None"
    using assms(1) m by (auto simp: sendable_def)
  show notin: "i \<notin> snd ` set (take k ys)"
  proof
    assume "i \<in> snd ` set (take k ys)"
    then obtain m where "m < k" "snd (ys ! m) = i" using assms(2) by (auto simp: in_set_conv_nth)
    then show False using assms nth_eq_iff_index_eq [of "map snd ys" m k] by (auto simp: sendable_def)
  qed
  show "\<forall>j \<in> snd ` set (take k ys). set (L ! i) \<inter> set (L ! j) = {}"
  proof
    fix j
    assume j: "j \<in> snd ` set (take k ys)"
    then obtain c where "(c, j) \<in> set ys" using in_set_takeD by fastforce
    moreover have "i \<noteq> j" using j notin by blast
    ultimately show "set (L ! i) \<inter> set (L ! j) = {}" using assms(1) m unfolding sendable_def by blast
  qed
qed


text \<open>The state after the first \<open>k\<close> entries, started from the server \<open>sv0\<close> and the storage \<open>st0\<close>.\<close>

definition sent_inv ::
  "('e \<Rightarrow> bool) \<Rightarrow> ('e \<Rightarrow> nat) \<Rightarrow> ('e \<Rightarrow> nat \<Rightarrow> u32) \<Rightarrow> nat \<Rightarrow> string list \<Rightarrow> string list list \<Rightarrow> 'e server \<Rightarrow> store \<Rightarrow>
   (int \<times> nat) list \<Rightarrow> nat \<Rightarrow> 'e sender \<Rightarrow> bool" where
  "sent_inv good len counter N hs L sv0 st0 ys k s \<longleftrightarrow> (let A = snd ` set (take k ys) in
     server_ok good len N (sd_sv s) (cleared A L) \<and> sv_self (sd_sv s) = sv_self sv0 \<and>
     dom (sv_heap (sd_sv s)) \<subseteq> dom (sv_heap sv0) \<and>
     list_all2 (packet_for hs L) (sd_sent s) (take k ys) \<and>
     (\<forall>j < N. mlt_row (sv_table (sd_sv s)) j =
       (if j \<in> A then (fst (mlt_row (sv_table sv0) j), fst (snd (mlt_row (sv_table sv0) j)), 0) else mlt_row (sv_table sv0) j)) \<and>
     (\<forall>j < N. counter (sv_list (sd_sv s)) j = (if j \<in> A then 0 else counter (sv_list sv0) j)) \<and>
     (\<forall>n. stored (sd_store s) n = (if \<exists>j \<in> A. n \<in> set (L ! j) then None else stored st0 n)) \<and>
     sd_replies s = replicate (length ys - k) ''done'' \<and> sd_status s = Running \<and>
     at_line hs (sd_file s) (sd_line s) (sd_id s))"

context served_list
begin

lemma sent_step:
  assumes X: "xfer_fine X" and S: "sendable N hs L st0 ys" and k: "k < length ys" "ys ! k = (b, i)"
    and l: "args_hold N l ys" and LN: "length L = N" and I: "sent_inv inv len counter N hs L sv0 st0 ys k s" and b: "sd_line s = b"
  shows "\<exists>s'. send_entry X reset l k s = Some (Next s') \<and> sent_inv inv len counter N hs L sv0 st0 ys (Suc k) s' \<and> sd_line s' = b"
proof -
  define A where "A = snd ` set (take k ys)"
  note D = sendableD [OF S k, folded A_def]
  note I' = I [unfolded sent_inv_def Let_def, folded A_def]
  have tk: "take (Suc k) ys = take k ys @ [(b, i)]" using k by (simp add: take_Suc_conv_app_nth)
  then have A': "snd ` set (take (Suc k) ys) = insert i A" by (simp add: A_def)
  have Li: "cleared A L ! i = L ! i" using D(3,6) LN by simp
  have ls: "k < length (entries l)" "entries l ! k = int i" using l k by (auto simp: args_hold_def)
  have rep: "sd_replies s = ''done'' # replicate (length ys - Suc k) ''done''"
    using I' k(1) by (metis Suc_diff_Suc replicate_Suc)
  have st: "\<forall>n \<in> set (cleared A L ! i). stored (sd_store s) n \<noteq> None"
    unfolding Li
  proof
    fix n
    assume n: "n \<in> set (L ! i)"
    then have "\<not> (\<exists>j \<in> A. n \<in> set (L ! j))" using D(7) by blast
    then show "stored (sd_store s) n \<noteq> None" using I' D(5) n by simp
  qed
  have nm: "names_ok (cleared A L ! i)" using D(4) Li by simp
  have ok: "server_ok inv len N (sd_sv s) (cleared A L)" using I' by blast
  from send_entry_ok [OF X ok D(3) ls nm st rep] obtain s' p where
    s': "send_entry X reset l k s = Some (Next s')" "sd_sent s' = sd_sent s @ [(sd_id s, p)]" "p_entry p = int i"
      "packet_text p = Some (joined (CHR '','') (L ! i))" "server_ok inv len N (sd_sv s') ((cleared A L)[i := []])"
      "sv_self (sd_sv s') = sv_self (sd_sv s)" "dom (sv_heap (sd_sv s')) \<subseteq> dom (sv_heap (sd_sv s))"
    "\<And>j. j < N \<Longrightarrow> mlt_row (sv_table (sd_sv s')) j =
       (if j = i then (fst (mlt_row (sv_table (sd_sv s)) i), fst (snd (mlt_row (sv_table (sd_sv s)) i)), 0)
        else mlt_row (sv_table (sd_sv s)) j)"
    "\<And>j. j < N \<Longrightarrow> counter (sv_list (sd_sv s')) j = (if j = i then 0 else counter (sv_list (sd_sv s)) j)"
    "\<And>n. stored (sd_store s') n = (if n \<in> set (L ! i) then None else stored (sd_store s) n)"
    "sd_replies s' = replicate (length ys - Suc k) ''done''" "sd_id s' = sd_id s" "sd_line s' = sd_line s"
      "sd_file s' = sd_file s" "sd_status s' = sd_status s"
    unfolding Li by blast
  have "sd_id s = hs ! nat b" using I' b D(1) by (simp add: at_line_def)
  then have "list_all2 (packet_for hs L) (sd_sent s') (take (Suc k) ys)"
    using I' s'(2-4) tk by (simp add: packet_for_def list_all2_appendI)
  moreover have "dom (sv_heap (sd_sv s')) \<subseteq> dom (sv_heap sv0)" using I' s'(7) by blast
  ultimately have "sent_inv inv len counter N hs L sv0 st0 ys (Suc k) s'"
    unfolding sent_inv_def Let_def A'
    using I' s'(5,6,8-) cleared_insert [of i L A] D(3) LN by auto
  then show ?thesis using s'(1,13) b by blast
qed

text \<open>
  The group of the entries of one server. When the list fills its arrays, the read of the next
  server is outside them.
\<close>

lemma send_group_ok:
  assumes X: "xfer_fine X" and S: "sendable N hs L st0 ys" and l: "args_hold N l ys" and LN: "length L = N"
  shows "k < length ys \<Longrightarrow> sent_inv inv len counter N hs L sv0 st0 ys k s \<Longrightarrow> sd_line s = fst (ys ! k) \<Longrightarrow>
    send_group X reset l k s = None \<and> length ys = N \<or>
    (\<exists>k' s'. send_group X reset l k s = Some (Next (k', s')) \<and> k \<le> k' \<and> k' < length ys \<and> Suc k' < N \<and>
      sent_inv inv len counter N hs L sv0 st0 ys (Suc k') s' \<and> sd_line s' = fst (ys ! k'))"
proof (induction "length ys - k" arbitrary: k s)
  case (Suc n)
  obtain b i where bi: "ys ! k = (b, i)" by (cases "ys ! k")
  obtain s1 where s1: "send_entry X reset l k s = Some (Next s1)" "sent_inv inv len counter N hs L sv0 st0 ys (Suc k) s1"
    "sd_line s1 = b" using sent_step [OF X S Suc.prems(1) bi l LN Suc.prems(2)] Suc.prems(3) bi by auto
  have N: "length (servers l) = N" "length ys \<le> N" "t_size l = int (length ys)" using l S by (auto simp: args_hold_def sendable_def)
  show ?case
  proof (cases "Suc k < N")
    case False
    then have "send_group X reset l k s = None"
      using s1 N by (simp add: send_group.simps [of X reset l k s] same_server_def rd_out)
    then show ?thesis using False Suc.prems(1) N by simp
  next
    case rd: True
    show ?thesis
    proof (cases "servers l ! (k + 1) = b \<and> int (k + 1) < t_size l")
      case False
      then have "send_group X reset l k s = Some (Next (k, s1))"
        using s1 rd N by (auto simp: send_group.simps [of X reset l k s] same_server_def rd_in)
      then show ?thesis using s1 bi Suc.prems(1) rd by auto
    next
      case True
      then have k1: "Suc k < length ys" and srv1: "fst (ys ! Suc k) = b" using N l by (auto simp: args_hold_def)
      have step: "send_group X reset l k s = send_group X reset l (Suc k) s1"
        using s1 rd True N by (simp add: send_group.simps [of X reset l k s] same_server_def rd_in)
      have "send_group X reset l (Suc k) s1 = None \<and> length ys = N \<or>
        (\<exists>k' s'. send_group X reset l (Suc k) s1 = Some (Next (k', s')) \<and> Suc k \<le> k' \<and> k' < length ys \<and> Suc k' < N \<and>
        sent_inv inv len counter N hs L sv0 st0 ys (Suc k') s' \<and> sd_line s' = fst (ys ! k'))"
        by (rule Suc.hyps(1)) (use Suc.hyps(2) s1 k1 srv1 in auto)
      then show ?thesis unfolding step by auto
    qed
  qed
qed simp

lemma send_all_ok:
  assumes X: "xfer_fine X" and S: "sendable N hs L st0 ys" and l: "args_hold N l ys" and LN: "length L = N"
    and sorted: "sorted (map fst ys)"
  shows "k \<le> length ys \<Longrightarrow> k < N \<Longrightarrow> sent_inv inv len counter N hs L sv0 st0 ys k s \<Longrightarrow>
    (\<forall>m. k \<le> m \<longrightarrow> m < length ys \<longrightarrow> sd_line s \<le> fst (ys ! m)) \<Longrightarrow>
    (length ys = N \<longrightarrow> send_all X reset l k s = None) \<and>
    (length ys < N \<longrightarrow> (\<exists>s'. send_all X reset l k s = Some (Next s') \<and>
       sent_inv inv len counter N hs L sv0 st0 ys (length ys) s'))"
proof (induction "length ys - k" arbitrary: k s rule: less_induct)
  case less
  have t: "t_size l = int (length ys)" using l by (simp add: args_hold_def)
  show ?case
  proof (cases "k = length ys")
    case True
    with t have "send_all X reset l k s = Some (Next s)" by (subst send_all.simps) simp
    then show ?thesis using less.prems(2,3) True by auto
  next
    case False
    then have k: "k < length ys" using less.prems(1) by simp
    obtain b i where bi: "ys ! k = (b, i)" by (cases "ys ! k")
    have D: "b < int (length hs)" using sendableD [OF S k bi] by simp
    have hs: "hosts_ok hs" using S by (simp add: sendable_def)
    have pos: "at_line hs (sd_file s) (sd_line s) (sd_id s)" using less.prems(3) by (simp add: sent_inv_def Let_def)
    have le: "sd_line s \<le> b" using less.prems(4) k bi by force
    obtain fl nm where f: "find_line b (sd_file s) (sd_line s) (sd_id s) = Some (Next (fl, b, nm))" "at_line hs fl b nm"
      using find_line_ok [OF hs pos le D] by blast
    let ?s = "s\<lparr>sd_file := fl, sd_line := b, sd_id := nm\<rparr>"
    have I1: "sent_inv inv len counter N hs L sv0 st0 ys k ?s" using less.prems(3) f(2) by (simp add: sent_inv_def Let_def)
    have srv: "k < length (servers l)" "servers l ! k = b" using l k bi by (auto simp: args_hold_def)
    have line: "sd_line ?s = fst (ys ! k)" using bi by simp
    from send_group_ok [OF X S l LN k I1 line] show ?thesis
    proof (elim disjE exE conjE)
      assume "send_group X reset l k ?s = None" "length ys = N"
      then show ?thesis
        using f(1) srv X k t by (simp add: send_all.simps [of X reset l k s] send_server_def seek_server_def xfer_fine_def rd_in)
    next
      fix k' s1
      assume g: "send_group X reset l k ?s = Some (Next (k', s1))" "k \<le> k'" "k' < length ys" "Suc k' < N"
        "sent_inv inv len counter N hs L sv0 st0 ys (Suc k') s1" "sd_line s1 = fst (ys ! k')"
      then have "send_server X reset l k s = Some (Next (k', s1))"
        using f(1) srv X by (simp add: send_server_def seek_server_def xfer_fine_def rd_in)
      then have step: "send_all X reset l k s = send_all X reset l (Suc k') s1"
        using k t by (simp add: send_all.simps [of X reset l k s])
      have "(length ys = N \<longrightarrow> send_all X reset l (Suc k') s1 = None) \<and>
        (length ys < N \<longrightarrow> (\<exists>s'. send_all X reset l (Suc k') s1 = Some (Next s') \<and>
          sent_inv inv len counter N hs L sv0 st0 ys (length ys) s'))"
      proof (rule less.hyps)
        show "\<forall>m. Suc k' \<le> m \<longrightarrow> m < length ys \<longrightarrow> sd_line s1 \<le> fst (ys ! m)"
          using g(6) sorted by (auto simp: sorted_iff_nth_mono)
      qed (use g k in auto)
      then show ?thesis by (simp add: step)
    qed
  qed
qed

end

section \<open>The thread\<close>

lemma take_pairs:
  assumes "args_hold N l xs"
  shows "take (length xs) (pairs l) = map (\<lambda>(b, i). (b, int i)) xs"
  using assms by (intro nth_equalityI) (auto simp: args_hold_def split_beta)

lemma sort_to_send_ok:
  assumes h: "args_hold N l xs"
  shows "\<exists>l' ys. sort_to_send l = Some l' \<and> args_hold N l' ys \<and> mset ys = mset xs \<and> sorted (map fst ys)"
proof -
  let ?n = "length xs"
  have wf: "args_wf l" "t_size l = int ?n" "?n \<le> N" "length (servers l) = N" using h by (auto simp: args_hold_def args_wf_def)
  obtain l' where l': "sort_to_send l = Some l'" "perm_in 0 (int ?n - 1) l l'" "sorted_in l' 0 (int ?n - 1)"
    using load_args_sort_spec [OF wf(1), of 0 "int ?n - 1"] wf by (auto simp: sort_to_send_def)
  note p = l'(2) [unfolded perm_in_def]
  have len: "length (servers l') = N" "length (entries l') = N" using p wf by (auto simp: args_wf_def)
  have out: "servers l' ! k = servers l ! k \<and> entries l' ! k = entries l ! k" if "?n \<le> k" for k
  proof -
    have "\<forall>k. 0 \<le> k \<and> (k < 0 \<or> int ?n - 1 < k) \<longrightarrow> srv l' k = srv l k \<and> entries l' ! nat k = entries l ! nat k"
      using p by blast
    from this [rule_format, of "int k"] that show ?thesis by simp
  qed
  have "drop ?n (pairs l') = drop ?n (pairs l)"
    using wf len h by (intro nth_equalityI) (auto simp: out args_hold_def)
  moreover have "mset (take ?n (pairs l')) + mset (drop ?n (pairs l')) = mset (take ?n (pairs l)) + mset (drop ?n (pairs l))"
    using p by (simp flip: mset_append)
  ultimately have m: "mset (take ?n (pairs l')) = mset (map (\<lambda>(b, i). (b, int i)) xs)"
    using take_pairs [OF h] by simp
  define ys where "ys = map (\<lambda>(b, e). (b, nat e)) (take ?n (pairs l'))"
  have ly: "length ys = ?n" using wf len by (simp add: ys_def)
  have "mset ys = image_mset (\<lambda>(b, e). (b, nat e)) (mset (map (\<lambda>(b, i). (b, int i)) xs))"
    unfolding m [symmetric] by (simp add: ys_def)
  also have "\<dots> = mset xs" by (simp add: multiset.map_comp comp_def split_beta)
  finally have my: "mset ys = mset xs" .
  have pos: "0 \<le> entries l' ! k" if "k < ?n" for k
  proof -
    have "(servers l' ! k, entries l' ! k) \<in> set (take ?n (pairs l'))"
      using that wf len by (auto simp: in_set_conv_nth intro!: exI [of _ k])
    then have "(servers l' ! k, entries l' ! k) \<in># mset (map (\<lambda>(b, i). (b, int i)) xs)" unfolding m [symmetric] by simp
    then show ?thesis by auto
  qed
  have "args_hold N l' ys"
    using wf len p ly pos by (auto simp: args_hold_def ys_def)
  moreover have "sorted (map fst ys)"
    unfolding sorted_iff_nth_mono
  proof (intro allI impI)
    fix i j
    assume "i \<le> j" "j < length (map fst ys)"
    then show "map fst ys ! i \<le> map fst ys ! j"
      using l'(3) [unfolded sorted_in_def, rule_format, of "int i" "int j"] ly wf len by (simp add: ys_def split_beta)
  qed
  ultimately show ?thesis using l'(1) my by blast
qed

lemma sendable_perm: "mset ys = mset xs \<Longrightarrow> sendable N hs L st xs \<Longrightarrow> sendable N hs L st ys"
proof -
  assume m: "mset ys = mset xs" and s: "sendable N hs L st xs"
  have "set ys = set xs" "length ys = length xs" using m mset_eq_setD mset_eq_length by blast+
  moreover have "distinct (map snd ys) = distinct (map snd xs)"
    using m by (intro mset_eq_imp_distinct_iff) (simp add: mset_map)
  ultimately show ?thesis using s unfolding sendable_def by (simp only: simp_thms) (elim conjE, intro conjI; assumption)
qed

context served_list
begin

lemma sender_ok:
  assumes X: "xfer_fine X" "xe_hosts X = Some (text_file hs)" and S: "sendable N hs L st xs" and l: "args_hold N l xs"
    and ok: "server_ok inv len N sv L" and LN: "length L = N" "0 < N"
  shows "(length xs = N \<longrightarrow> thread_load_sender X reset l (replicate (length xs) ''done'') sv st = None) \<and>
    (length xs < N \<longrightarrow> (\<exists>s ys. thread_load_sender X reset l (replicate (length xs) ''done'') sv st = Some (Next s) \<and>
      mset ys = mset xs \<and> sorted (map fst ys) \<and> sent_inv inv len counter N hs L sv st ys (length ys) s))"
proof -
  obtain l' ys where l': "sort_to_send l = Some l'" "args_hold N l' ys" "mset ys = mset xs" "sorted (map fst ys)"
    using sort_to_send_ok [OF l] by blast
  have S': "sendable N hs L st ys" using sendable_perm [OF l'(3) S] .
  let ?s = "\<lparr>sd_sv = sv, sd_store = st, sd_file = text_file hs, sd_line = -1, sd_id = [],
    sd_replies = replicate (length xs) ''done'', sd_sent = [], sd_status = Running\<rparr>"
  have len: "length ys = length xs" using l'(3) mset_eq_length by blast
  then have I: "sent_inv inv len counter N hs L sv st ys 0 ?s" using ok by (simp add: sent_inv_def Let_def at_line_def)
  have "\<forall>m. 0 \<le> m \<longrightarrow> m < length ys \<longrightarrow> sd_line ?s \<le> fst (ys ! m)"
  proof (intro allI impI)
    fix m
    assume "m < length ys"
    then show "sd_line ?s \<le> fst (ys ! m)" using sendableD(1) [OF S', of m "fst (ys ! m)" "snd (ys ! m)"] by simp
  qed
  from send_all_ok [OF X(1) S' l'(2) LN(1) l'(4) _ LN(2) I this] have
    r: "(length ys = N \<longrightarrow> send_all X reset l' 0 ?s = None) \<and> (length ys < N \<longrightarrow>
      (\<exists>s. send_all X reset l' 0 ?s = Some (Next s) \<and> sent_inv inv len counter N hs L sv st ys (length ys) s))" by blast
  have eq: "thread_load_sender X reset l (replicate (length xs) ''done'') sv st = send_all X reset l' 0 ?s"
    using l'(1) X by (simp add: thread_load_sender_def xfer_fine_def)
  show ?thesis
  proof (intro conjI impI)
    assume "length xs = N"
    then show "thread_load_sender X reset l (replicate (length xs) ''done'') sv st = None"
      unfolding eq using r len by simp
  next
    assume "length xs < N"
    then have "length ys < N" by (simp only: len)
    with r l'(3,4) show "\<exists>s ys. thread_load_sender X reset l (replicate (length xs) ''done'') sv st = Some (Next s) \<and>
      mset ys = mset xs \<and> sorted (map fst ys) \<and> sent_inv inv len counter N hs L sv st ys (length ys) s"
      unfolding eq by blast
  qed
qed

end

section \<open>Properties\<close>


definition xfer_args :: transfert_load_args where
  "xfer_args = \<lparr>entries = [0, 7, 7], servers = [1, 7, 7], t_size = 1\<rparr>"

lemma xfer_hosts: "hosts_ok [''h0'', ''h1'']"
  by (simp add: hosts_ok_def max_id_size_def int_ok_def INT_MAX_def INT_MIN_def)

lemma xfer_sendable: "sendable 3 [''h0'', ''h1''] [[''k1'', ''k2''], [], []] xfer_store [(1, 0)]"
  using xfer_names_ok xfer_hosts by (simp add: sendable_def xfer_stored)


end
