(* ===== verification/Redistribution.thy ===== *)
theory Redistribution
  imports Load_Sender
begin

text \<open>
  A redistribution as one server lives it: the table of the manager is installed
  (\<open>Transfer_Lists\<close>), then the two transfer threads run to their ends. The threads work on
  different entries; the model runs the sender first and the receiver on what it leaves, given the
  replies of the other servers and the packets they send.
\<close>

section \<open>The code\<close>

text \<open>
  The branch of a table in \<open>thread_manager_listener\<close>, from the loop to the two \<open>pthread_join\<close>,
  whose results are not used.
\<close>

definition install_table ::
  "xfer_env \<Rightarrow> ('e \<Rightarrow> int \<Rightarrow> (int \<times> 'e option) option) \<Rightarrow> (md_heap \<Rightarrow> nat) \<Rightarrow> md_entry \<Rightarrow> nat \<Rightarrow> int \<times> mlt option \<Rightarrow>
   (nat \<Rightarrow> nat \<Rightarrow> int) \<Rightarrow> u32 list \<Rightarrow> u32 list \<Rightarrow> string list \<Rightarrow> packet list \<Rightarrow> 'e server \<Rightarrow> store \<Rightarrow>
   ('e sender flow \<times> 'e receiver flow) option" where
  "install_table X reset alloc cell N init_result fill ids vers replies ps sv st = do {
     (t, to_send, to_receive) \<leftarrow> update_table (xe_lock X) N (sv_self sv) init_result fill ids vers (sv_table sv);
     let sv = sv\<lparr>sv_table := t\<rparr>;
     f \<leftarrow> thread_load_sender X reset to_send replies sv st;
     g \<leftarrow> thread_load_receiver X reset alloc cell to_receive ps (sd_sv (flow_state f)) (sd_store (flow_state f));
     Some (f, g)
   }"

section \<open>All the packets\<close>

text \<open>A packet with the names of an entry.\<close>

definition carries :: "packet \<Rightarrow> nat \<times> string list \<Rightarrow> bool" where
  "carries p z \<longleftrightarrow> p_entry p = int (fst z) \<and> packet_text p = Some (joined (CHR '','') (snd z))"

definition receivable :: "nat \<Rightarrow> store \<Rightarrow> (nat \<times> string list) list \<Rightarrow> bool" where
  "receivable N st zs \<longleftrightarrow> distinct (map fst zs) \<and>
     (\<forall>i ns. (i, ns) \<in> set zs \<longrightarrow> i < N \<and> names_ok ns \<and> (\<forall>n \<in> set ns. stored st n = None)) \<and>
     (\<forall>i ns j ms. (i, ns) \<in> set zs \<longrightarrow> (j, ms) \<in> set zs \<longrightarrow> i \<noteq> j \<longrightarrow> set ns \<inter> set ms = {})"

text \<open>The names of an entry after the packets: those received, in reverse order, in front.\<close>

definition names_after :: "(nat \<times> string list) list \<Rightarrow> string list list \<Rightarrow> string list list" where
  "names_after zs L = map (\<lambda>j. (case map_of zs j of None \<Rightarrow> [] | Some ns \<Rightarrow> rev ns) @ L ! j) [0..<length L]"

lemma names_after_simps [simp]: "length (names_after zs L) = length L" "names_after [] L = L"
  "j < length L \<Longrightarrow> names_after zs L ! j = (case map_of zs j of None \<Rightarrow> [] | Some ns \<Rightarrow> rev ns) @ L ! j"
  by (auto simp: names_after_def intro!: nth_equalityI)

lemma names_after_Cons:
  assumes "i \<notin> fst ` set zs" and "i < length L"
  shows "names_after zs (L[i := rev ns @ L ! i]) = names_after ((i, ns) # zs) L"
proof -
  have "map_of zs i = None" using assms(1) by (simp add: map_of_eq_None_iff)
  then show ?thesis using assms(2) by (intro nth_equalityI) (auto simp: nth_list_update)
qed

lemma receivable_Cons:
  assumes r: "receivable N st ((i, ns) # zs)"
  shows "i \<notin> fst ` set zs" "i < N" "names_ok ns" "\<forall>n \<in> set ns. stored st n = None"
    and "(\<And>n. n \<notin> set ns \<Longrightarrow> stored st' n = stored st n) \<Longrightarrow> receivable N st' zs"
proof -
  note r' = r [unfolded receivable_def]
  show h: "i \<notin> fst ` set zs" "i < N" "names_ok ns" "\<forall>n \<in> set ns. stored st n = None" using r' by auto
  assume same: "\<And>n. n \<notin> set ns \<Longrightarrow> stored st' n = stored st n"
  have one: "j < N \<and> names_ok ms \<and> (\<forall>n \<in> set ms. stored st' n = None)" if jm: "(j, ms) \<in> set zs" for j ms
  proof -
    have in2: "(i, ns) \<in> set ((i, ns) # zs)" "(j, ms) \<in> set ((i, ns) # zs)" using jm by auto
    have "i \<noteq> j" using h(1) jm by force
    then have "set ns \<inter> set ms = {}" using r' in2 by meson
    moreover have "j < N \<and> names_ok ms \<and> (\<forall>n \<in> set ms. stored st n = None)" using r' in2(2) by meson
    ultimately show ?thesis using same by (metis disjoint_iff)
  qed
  have "distinct (map fst zs)" using r' by simp
  moreover have "\<forall>i ns j ms. (i, ns) \<in> set zs \<longrightarrow> (j, ms) \<in> set zs \<longrightarrow> i \<noteq> j \<longrightarrow> set ns \<inter> set ms = {}"
    using r' by (meson list.set_intros(2))
  ultimately show "receivable N st' zs" using one unfolding receivable_def by simp
qed

context served_list
begin

lemma receive_all_ok:
  assumes X: "xfer_fine X" and al: "fresh_alloc alloc"
  shows "list_all2 carries ps zs \<Longrightarrow> receivable N (rv_store s) zs \<Longrightarrow> server_ok inv len N (rv_sv s) L \<Longrightarrow> length L = N \<Longrightarrow>
    finite (dom (sv_heap (rv_sv s))) \<Longrightarrow>
    \<exists>s'. receive_all X reset alloc fill (length zs) ps s = Some (Next s') \<and>
      server_ok inv len N (rv_sv s') (names_after zs L) \<and> sv_self (rv_sv s') = sv_self (rv_sv s) \<and>
      (\<forall>j < N. mlt_row (sv_table (rv_sv s')) j =
         (if j \<in> fst ` set zs then (fst (mlt_row (sv_table (rv_sv s)) j), fst (snd (mlt_row (sv_table (rv_sv s)) j)), 0)
          else mlt_row (sv_table (rv_sv s)) j)) \<and>
      (\<forall>j < N. counter (sv_list (rv_sv s')) j = (if j \<in> fst ` set zs then 0 else counter (sv_list (rv_sv s)) j)) \<and>
      (\<forall>n. stored (rv_store s') n = (if \<exists>(i, ns) \<in> set zs. n \<in> set ns then Some ''a word'' else stored (rv_store s) n)) \<and>
      rv_replies s' = rv_replies s @ replicate (length zs) ''done'' \<and> rv_status s' = rv_status s \<and>
      finite (dom (sv_heap (rv_sv s')))"
proof (induction zs arbitrary: ps s L)
  case Nil
  then show ?case by simp
next
  case (Cons z zs)
  obtain i ns where z: "z = (i, ns)" by (cases z)
  obtain p qs where ps: "ps = p # qs" "carries p (i, ns)" "list_all2 carries qs zs"
    using Cons.prems(1) z by (auto simp: list_all2_Cons2)
  have R: "i \<notin> fst ` set zs" "i < N" "names_ok ns" "\<forall>n \<in> set ns. stored (rv_store s) n = None"
    using receivable_Cons [OF Cons.prems(2) [unfolded z]] by blast+
  obtain s1 where s1: "receive_packet X reset alloc fill p s = Some (Next s1)"
    "server_ok inv len N (rv_sv s1) (L[i := rev ns @ L ! i])" "finite (dom (sv_heap (rv_sv s1)))" "sv_self (rv_sv s1) = sv_self (rv_sv s)"
    "\<And>j. j < N \<Longrightarrow> mlt_row (sv_table (rv_sv s1)) j =
       (if j = i then (fst (mlt_row (sv_table (rv_sv s)) i), fst (snd (mlt_row (sv_table (rv_sv s)) i)), 0)
        else mlt_row (sv_table (rv_sv s)) j)"
    "\<And>j. j < N \<Longrightarrow> counter (sv_list (rv_sv s1)) j = (if j = i then 0 else counter (sv_list (rv_sv s)) j)"
    "\<And>n. stored (rv_store s1) n = (if n \<in> set ns then Some ''a word'' else stored (rv_store s) n)"
    "rv_replies s1 = rv_replies s @ [''done'']" "rv_status s1 = rv_status s"
    using receive_packet_ok [OF X al Cons.prems(3) R(2) Cons.prems(5) _ _ R(3,4), of p fill] ps(2)
    by (auto simp: carries_def)
  have "receivable N (rv_store s1) zs"
    using receivable_Cons(5) [OF Cons.prems(2) [unfolded z], of "rv_store s1"] s1(7) by simp
  then obtain s2 where s2: "receive_all X reset alloc fill (length zs) qs s1 = Some (Next s2)"
      "server_ok inv len N (rv_sv s2) (names_after zs (L[i := rev ns @ L ! i]))" "sv_self (rv_sv s2) = sv_self (rv_sv s1)"
      "\<And>j. j < N \<Longrightarrow> mlt_row (sv_table (rv_sv s2)) j =
         (if j \<in> fst ` set zs then (fst (mlt_row (sv_table (rv_sv s1)) j), fst (snd (mlt_row (sv_table (rv_sv s1)) j)), 0)
          else mlt_row (sv_table (rv_sv s1)) j)"
      "\<And>j. j < N \<Longrightarrow> counter (sv_list (rv_sv s2)) j = (if j \<in> fst ` set zs then 0 else counter (sv_list (rv_sv s1)) j)"
      "\<And>n. stored (rv_store s2) n = (if \<exists>(i, ns) \<in> set zs. n \<in> set ns then Some ''a word'' else stored (rv_store s1) n)"
      "rv_replies s2 = rv_replies s1 @ replicate (length zs) ''done''" "rv_status s2 = rv_status s1"
      "finite (dom (sv_heap (rv_sv s2)))"
    using Cons.IH [OF ps(3) _ s1(2) _ s1(3)] Cons.prems(4) by auto
  have "receive_all X reset alloc fill (length (z # zs)) ps s = Some (Next s2)" using s1(1) s2(1) ps(1) by simp
  moreover have "names_after zs (L[i := rev ns @ L ! i]) = names_after (z # zs) L"
    using names_after_Cons [OF R(1)] R(2) Cons.prems(4) z by simp
  ultimately show ?case using s1(4-) s2(2-) z by (intro exI [of _ s2]) auto
qed

end

section \<open>A redistribution completes\<close>

text \<open>
  What one server needs: a message with a row for every entry and names it can send, and from the
  other servers the packets for the entries it gains.
\<close>

definition can_send :: "nat \<Rightarrow> string list \<Rightarrow> string list list \<Rightarrow> u32 list \<Rightarrow> u32 list \<Rightarrow> 'e server \<Rightarrow> store \<Rightarrow> bool" where
  "can_send N hs L ids vers sv st \<longleftrightarrow>
     (let S = sends (sv_self sv) (mlt_row (sv_table sv)) (message_row ids vers) N in
      0 < N \<and> int N \<le> INT_MAX \<and> length L = N \<and> finite (dom (sv_heap sv)) \<and>
      length ids = N \<and> length vers = N \<and> (\<forall>i < N. 0 \<le> int_of_u32 (ids ! i)) \<and>
      sendable N hs L st S \<and> length S < N)"

definition can_receive ::
  "nat \<Rightarrow> u32 list \<Rightarrow> u32 list \<Rightarrow> packet list \<Rightarrow> (nat \<times> string list) list \<Rightarrow> 'e server \<Rightarrow> store \<Rightarrow> bool" where
  "can_receive N ids vers ps zs sv st \<longleftrightarrow> list_all2 carries ps zs \<and> receivable N st zs \<and>
     fst ` set zs = snd ` set (receives (sv_self sv) (mlt_row (sv_table sv)) (message_row ids vers) N)"

definition can_install ::
  "nat \<Rightarrow> string list \<Rightarrow> string list list \<Rightarrow> u32 list \<Rightarrow> u32 list \<Rightarrow> packet list \<Rightarrow> (nat \<times> string list) list \<Rightarrow>
   'e server \<Rightarrow> store \<Rightarrow> bool" where
  "can_install N hs L ids vers ps zs sv st \<longleftrightarrow> can_send N hs L ids vers sv st \<and> can_receive N ids vers ps zs sv st"

lemma args_hold_size: "args_hold N l xs \<Longrightarrow> nat (t_size l) = length xs"
  by (simp add: args_hold_def)

lemma receivable_sent:
  assumes "receivable N st zs" and "\<And>n. stored st n = None \<Longrightarrow> stored st' n = None"
  shows "receivable N st' zs"
  using assms unfolding receivable_def by blast

lemma receivable_length:
  assumes "receivable N st zs" and "fst ` set zs = snd ` set (receives self old new n)"
  shows "length zs = length (receives self old new n)"
proof -
  have "length zs = card (fst ` set zs)" using assms(1) distinct_card [of "map fst zs"] by (simp add: receivable_def)
  also have "\<dots> = length (receives self old new n)"
    using assms(2) distinct_receives [of self old new n] distinct_card [of "map snd (receives self old new n)"] by simp
  finally show ?thesis .
qed

text \<open>The row of an entry after the redistribution.\<close>

definition settled_row :: "(nat \<Rightarrow> int \<times> int \<times> int) \<Rightarrow> (nat \<Rightarrow> int \<times> int \<times> int) \<Rightarrow> nat \<Rightarrow> int \<times> int \<times> int" where
  "settled_row old new i = (if changed old new i then (fst (new i), fst (snd (new i)), 0) else old i)"

context served_list
begin

text \<open>
  The sender ends in one state \<open>s\<close>, and for all packets from the other servers the receiver then ends.
\<close>

lemma install_any_order:
  fixes sv :: "'e server"
  defines "self \<equiv> sv_self sv" and "old \<equiv> mlt_row (sv_table sv)"
  assumes X: "xfer_fine X" "xe_hosts X = Some (text_file hs)" and al: "fresh_alloc alloc"
    and ok: "server_ok inv len N sv L" and C: "can_send N hs L ids vers sv st"
    and new: "new = message_row ids vers" and S: "S = sends self old new N"
  shows "\<exists>s ys. mset ys = mset S \<and> list_all2 (packet_for hs L) (sd_sent s) ys \<and>
    (\<forall>ps zs. can_receive N ids vers ps zs sv st \<longrightarrow>
      (\<exists>r. install_table X reset alloc cell N (mlt_init True True True 0 True (int N) 1) fill ids vers
          (replicate (length S) ''done'') ps sv st = Some (Next s, Next r) \<and>
        (\<forall>i < N. mlt_row (sv_table (rv_sv r)) i = settled_row old new i) \<and>
        server_ok inv len N (rv_sv r) (names_after zs (cleared (snd ` set S) L)) \<and>
        (\<forall>n. stored (rv_store r) n = (if \<exists>(i, ns) \<in> set zs. n \<in> set ns then Some ''a word''
            else if \<exists>i \<in> snd ` set S. n \<in> set (L ! i) then None else stored st n)) \<and>
        rv_replies r = replicate (length zs) ''done'' \<and> sv_self (rv_sv r) = self \<and> finite (dom (sv_heap (rv_sv r)))))"
proof -
  define R where "R = receives self old new N"
  note C' = C [unfolded can_send_def Let_def, folded old_def self_def new, folded S]
  note ok' = ok [unfolded server_ok_def]
  have lock: "xe_lock X = locks_work" using X by (simp add: xfer_fine_def)
  obtain t ts tr where u: "update_table locks_work N self (mlt_init True True True 0 True (int N) 1) fill ids vers (sv_table sv) = Some (t, ts, tr)"
    "mlt_wf t" "mlt_len t = N" "args_hold N ts S" "args_hold N tr R" "\<And>i. i < N \<Longrightarrow> mlt_row t i = updated_row self old new i"
  proof -
    have c: "0 < N" "int N \<le> INT_MAX" "mlt_wf (sv_table sv)" "mlt_len (sv_table sv) = N" "length ids = N" "length vers = N"
      "\<forall>i < N. 0 \<le> int_of_u32 (ids ! i)"
      using C' ok' by simp_all
    from update_table_ok [OF c, of self fill] that show thesis
      unfolding S R_def old_def new by (elim exE conjE) simp
  qed
  let ?sv = "sv\<lparr>sv_table := t\<rparr>"
  have ok1: "server_ok inv len N ?sv L" using ok' u by (simp add: server_ok_def)
  obtain s ys where s: "thread_load_sender X reset ts (replicate (length S) ''done'') ?sv st = Some (Next s)"
    "mset ys = mset S" "sent_inv inv len counter N hs L ?sv st ys (length ys) s"
  proof -
    have c: "sendable N hs L st S" "length S < N" "length L = N" "0 < N" using C' by blast+
    from sender_ok [OF X c(1) u(4) ok1 c(3,4)] c(2) that show thesis by blast
  qed
  have ys: "set ys = set S" "length ys = length S" using s(2) mset_eq_setD mset_eq_length by blast+
  note I = s(3) [unfolded sent_inv_def Let_def take_all [OF order_refl] ys(1)]
  have fin: "finite (dom (sv_heap (sd_sv s)))" proof (rule finite_subset)
    show "dom (sv_heap (sd_sv s)) \<subseteq> dom (sv_heap sv)" using I by simp
    show "finite (dom (sv_heap sv))" using C' by blast
  qed
  have st: "\<And>n. stored (sd_store s) n = (if \<exists>j \<in> snd ` set S. n \<in> set (L ! j) then None else stored st n)" using I by blast
  have "\<exists>r. install_table X reset alloc cell N (mlt_init True True True 0 True (int N) 1) fill ids vers
          (replicate (length S) ''done'') ps sv st = Some (Next s, Next r) \<and>
        (\<forall>i < N. mlt_row (sv_table (rv_sv r)) i = settled_row old new i) \<and>
        server_ok inv len N (rv_sv r) (names_after zs (cleared (snd ` set S) L)) \<and>
        (\<forall>n. stored (rv_store r) n = (if \<exists>(i, ns) \<in> set zs. n \<in> set ns then Some ''a word''
            else if \<exists>i \<in> snd ` set S. n \<in> set (L ! i) then None else stored st n)) \<and>
        rv_replies r = replicate (length zs) ''done'' \<and> sv_self (rv_sv r) = self \<and> finite (dom (sv_heap (rv_sv r)))"
    if P: "can_receive N ids vers ps zs sv st" for ps zs
  proof -
    have P': "list_all2 carries ps zs" "receivable N st zs" "fst ` set zs = snd ` set R"
      using P by (simp_all add: can_receive_def R_def old_def self_def new)
    have rz: "receivable N (sd_store s) zs" using receivable_sent [OF P'(2)] st by simp
    have lz: "length zs = nat (t_size tr)"
      using receivable_length [OF P'(2) P'(3) [unfolded R_def]] args_hold_size [OF u(5)] by (simp add: R_def)
    let ?s0 = "\<lparr>rv_sv = sd_sv s, rv_store = sd_store s, rv_replies = [], rv_status = Running\<rparr>"
    obtain r where r: "receive_all X reset alloc cell (length zs) ps ?s0 = Some (Next r)"
      "server_ok inv len N (rv_sv r) (names_after zs (cleared (snd ` set S) L))"
      "\<And>j. j < N \<Longrightarrow> mlt_row (sv_table (rv_sv r)) j =
         (if j \<in> fst ` set zs then (fst (mlt_row (sv_table (sd_sv s)) j), fst (snd (mlt_row (sv_table (sd_sv s)) j)), 0)
          else mlt_row (sv_table (sd_sv s)) j)"
      "\<And>n. stored (rv_store r) n = (if \<exists>(i, ns) \<in> set zs. n \<in> set ns then Some ''a word'' else stored (sd_store s) n)"
      "rv_replies r = replicate (length zs) ''done''" "sv_self (rv_sv r) = self" "finite (dom (sv_heap (rv_sv r)))"
    proof -
      have "list_all2 carries ps zs" "length (cleared (snd ` set S) L) = N" using C' P'(1) by auto
      moreover have "server_ok inv len N (rv_sv ?s0) (cleared (snd ` set S) L)" "sv_self (sd_sv s) = self" using I by (simp_all add: self_def)
      ultimately show thesis
        using receive_all_ok [OF X(1) al, of ps zs N ?s0 "cleared (snd ` set S) L" cell] rz fin that by auto
    qed
    have g: "thread_load_receiver X reset alloc cell tr ps (sd_sv s) (sd_store s) = Some (Next r)"
      using r(1) X lz by (simp add: thread_load_receiver_def xfer_fine_def)
    have rows: "mlt_row (sv_table (rv_sv r)) i = settled_row old new i" if "i < N" for i
    proof -
      have "mlt_row (sv_table (sd_sv s)) i = (if i \<in> snd ` set S
          then (fst (mlt_row t i), fst (snd (mlt_row t i)), 0) else mlt_row t i)" using I that by simp
      then show ?thesis
        using r(3) [OF that] u(6) [OF that] that P'(3)
        by (simp add: S R_def snd_sends snd_receives settled_row_def updated_row_def)
    qed
    have "install_table X reset alloc cell N (mlt_init True True True 0 True (int N) 1) fill ids vers
        (replicate (length S) ''done'') ps sv st = Some (Next s, Next r)"
      using u(1) s(1) g lock by (simp add: install_table_def self_def)
    moreover have "\<forall>n. stored (rv_store r) n = (if \<exists>(i, ns) \<in> set zs. n \<in> set ns then Some ''a word''
        else if \<exists>i \<in> snd ` set S. n \<in> set (L ! i) then None else stored st n)"
      by (intro allI) (simp only: r(4) st)
    moreover have "\<forall>i < N. mlt_row (sv_table (rv_sv r)) i = settled_row old new i" using rows by simp
    ultimately show ?thesis using r(2,5-7)
      by - (rule exI [of _ r], (rule conjI, assumption)+, assumption)
  qed
  moreover have "list_all2 (packet_for hs L) (sd_sent s) ys" using I by blast
  ultimately show ?thesis using s(2) by blast
qed

lemma install_table_ok:
  fixes sv :: "'e server"
  defines "old \<equiv> mlt_row (sv_table sv)"
  assumes X: "xfer_fine X" "xe_hosts X = Some (text_file hs)" and al: "fresh_alloc alloc"
    and ok: "server_ok inv len N sv L" and C: "can_install N hs L ids vers ps zs sv st"
  shows "\<exists>s r ys. install_table X reset alloc cell N (mlt_init True True True 0 True (int N) 1) fill ids vers
      (replicate (length (sends (sv_self sv) old (message_row ids vers) N)) ''done'') ps sv st = Some (Next s, Next r) \<and>
    mset ys = mset (sends (sv_self sv) old (message_row ids vers) N) \<and> list_all2 (packet_for hs L) (sd_sent s) ys \<and>
    (\<forall>i < N. mlt_row (sv_table (rv_sv r)) i = settled_row old (message_row ids vers) i) \<and>
    server_ok inv len N (rv_sv r)
      (names_after zs (cleared (snd ` set (sends (sv_self sv) old (message_row ids vers) N)) L)) \<and>
    (\<forall>n. stored (rv_store r) n =
       (if \<exists>(i, ns) \<in> set zs. n \<in> set ns then Some ''a word''
        else if \<exists>i \<in> snd ` set (sends (sv_self sv) old (message_row ids vers) N). n \<in> set (L ! i) then None else stored st n)) \<and>
    rv_replies r = replicate (length zs) ''done''"
  using install_any_order [OF X al ok _ refl refl, of ids vers st cell fill] C unfolding can_install_def old_def by blast

end

section \<open>The three methods\<close>

text \<open>The same branch in the three files.\<close>

definition install_table_dh where
  "install_table_dh X = install_table X (\<lambda>e :: eacl. eacl_reset_all_entry_dh (Some e))"

definition install_table_indedh where
  "install_table_indedh X = install_table X (\<lambda>e. eacl_reset_all_entry_indedh (Some e))"

definition install_table_windowed where
  "install_table_windowed X = install_table X (\<lambda>e. eacl_reset_all_entry_windowed (Some e))"

section \<open>Properties\<close>

text \<open>
  A redistribution completes on a server of the windowed method: when the other servers acknowledge
  its packets and send the packets of the entries it gains, both threads end, the flags of all the
  entries that changed are cleared, the table has the servers and versions of the message, and the
  names on the server are those of the entries it keeps and gains: the entries it lost are
  empty, those it gained hold the received names.
\<close>

theorem redistribution_completes:
  assumes "xfer_fine X" "xe_hosts X = Some (text_file hs)" and "fresh_alloc alloc"
    and "server_ok eacl_wf_windowed eacl_len N sv L" and "can_install N hs L ids vers ps zs sv st"
    and "old = mlt_row (sv_table sv)" and "new = message_row ids vers"
  shows "\<exists>s r ys. install_table_windowed X alloc cell N (mlt_init True True True 0 True (int N) 1) fill ids vers
      (replicate (length (sends (sv_self sv) old new N)) ''done'') ps sv st = Some (Next s, Next r) \<and>
    mset ys = mset (sends (sv_self sv) old new N) \<and> list_all2 (packet_for hs L) (sd_sent s) ys \<and>
    (\<forall>i < N. mlt_row (sv_table (rv_sv r)) i = settled_row old new i) \<and>
    server_ok eacl_wf_windowed eacl_len N (rv_sv r)
      (names_after zs (cleared (snd ` set (sends (sv_self sv) old new N)) L)) \<and>
    (\<forall>n. stored (rv_store r) n =
       (if \<exists>(i, ns) \<in> set zs. n \<in> set ns then Some ''a word''
        else if \<exists>i \<in> snd ` set (sends (sv_self sv) old new N). n \<in> set (L ! i) then None else stored st n)) \<and>
    rv_replies r = replicate (length zs) ''done''"
  using sl_windowed.install_table_ok [OF assms(1-5)] unfolding install_table_windowed_def assms(6,7) .

definition xfer_old :: "eacl_windowed server" where
  "xfer_old = xfer_from\<lparr>sv_table := \<lparr>id_srv = [0, 0, 0], n_ver = [0, 0, 0], mlt_state = [0, 0, 0], mlt_size = 3\<rparr>\<rparr>"

lemma xfer_old_ok: "server_ok eacl_wf_windowed eacl_len 3 xfer_old [[''k1'', ''k2''], [], []]"
  using xfer_from_ok by (simp add: server_ok_def xfer_old_def mlt_wf_def mlt_len_def INT_MAX_def)

lemma xfer_moves: "sends 0 (mlt_row (sv_table xfer_old)) (message_row [1, 0, 0] [1, 0, 0]) 3 = [(1, 0)]"
  "receives 0 (mlt_row (sv_table xfer_old)) (message_row [1, 0, 0] [1, 0, 0]) 3 = []"
  by code_simp+

lemma xfer_can_install: "can_install 3 [''h0'', ''h1''] [[''k1'', ''k2''], [], []] [1, 0, 0] [1, 0, 0] [] [] xfer_old xfer_store"
proof -
  have "\<forall>i < 3. 0 \<le> int_of_u32 ([1, 0, 0] ! i)" by (auto simp: less_Suc_eq numeral_3_eq_3 int_of_u32_def)
  moreover have "sv_self xfer_old = 0" by (simp add: xfer_old_def xfer_from_def)
  ultimately show ?thesis
    using xfer_sendable xfer_moves
    by (simp add: can_install_def can_send_def can_receive_def Let_def receivable_def xfer_old_def xfer_from_def INT_MAX_def)
qed

theorem redistribution_completes_witness:
  "\<exists>s r. install_table_windowed xfer_demo next_cell \<lparr>md_ent = 9, md_name = [], md_next = None\<rparr> 3
      (mlt_init True True True 0 True 3 1) (\<lambda>_ _. 0) [1, 0, 0] [1, 0, 0] [''done''] [] xfer_old xfer_store = Some (Next s, Next r) \<and>
     mlt_row (sv_table (rv_sv r)) 0 = (1, 1, 0) \<and> stored (rv_store r) ''k1'' = None"
proof -
  have "settled_row (mlt_row (sv_table xfer_old)) (message_row [1, 0, 0] [1, 0, 0]) 0 = (1, 1, 0)" by code_simp
  moreover have "sv_self xfer_old = 0" by (simp add: xfer_old_def xfer_from_def)
  ultimately show ?thesis
    using redistribution_completes [OF xfer_demo_fine _ next_cell_fresh xfer_old_ok xfer_can_install refl refl,
        of "\<lparr>md_ent = 9, md_name = [], md_next = None\<rparr>" "\<lambda>_ _. 0"] xfer_moves
    by (force simp: xfer_demo_def)
qed

end
