(* ===== verification/Placement.thy ===== *)
theory Placement
  imports Redistribution
begin

text \<open>
  Where the keys of a cluster are: every key is on the server in charge of its entry and nowhere else. What a table
  may change of that, and what the names of an entry are after it has moved.
\<close>

section \<open>Where the keys are\<close>

text \<open>
  \<open>row\<close> is the table all servers have, \<open>K i\<close> are the names of the entry \<open>i\<close>, \<open>S\<close> and \<open>D\<close> the servers and
  their storages.
\<close>

definition held :: "nat \<Rightarrow> (nat \<Rightarrow> int \<times> int \<times> int) \<Rightarrow> (nat \<Rightarrow> string list) \<Rightarrow> nat \<Rightarrow> string list list" where
  "held N row K a = map (\<lambda>i. if fst (row i) = int a then K i else []) [0..<N]"

definition placed_at ::
  "('e \<Rightarrow> bool) \<Rightarrow> ('e \<Rightarrow> nat) \<Rightarrow> nat \<Rightarrow> (nat \<Rightarrow> int \<times> int \<times> int) \<Rightarrow> (nat \<Rightarrow> string list) \<Rightarrow> nat \<Rightarrow> 'e server \<Rightarrow> store \<Rightarrow> bool" where
  "placed_at good len N row K a sv st \<longleftrightarrow>
     server_ok good len N sv (held N row K a) \<and> sv_self sv = int a \<and> finite (dom (sv_heap sv)) \<and>
     (\<forall>i < N. mlt_row (sv_table sv) i = row i) \<and>
     (\<forall>n. stored st n \<noteq> None \<longleftrightarrow> (\<exists>i < N. fst (row i) = int a \<and> n \<in> set (K i)))"

definition placed ::
  "('e \<Rightarrow> bool) \<Rightarrow> ('e \<Rightarrow> nat) \<Rightarrow> nat \<Rightarrow> nat \<Rightarrow> (nat \<Rightarrow> int \<times> int \<times> int) \<Rightarrow> (nat \<Rightarrow> string list) \<Rightarrow> (nat \<Rightarrow> 'e server) \<Rightarrow>
   (nat \<Rightarrow> store) \<Rightarrow> bool" where
  "placed good len N nb row K S D \<longleftrightarrow> (\<forall>a < nb. placed_at good len N row K a (S a) (D a))"

definition keys_ok :: "nat \<Rightarrow> (nat \<Rightarrow> string list) \<Rightarrow> bool" where
  "keys_ok N K \<longleftrightarrow> (\<forall>i < N. names_ok (K i)) \<and> (\<forall>i < N. \<forall>j < N. i \<noteq> j \<longrightarrow> set (K i) \<inter> set (K j) = {})"

text \<open>The names after the moves: those of an entry that has moved are in the reverse order.\<close>

definition moved_names :: "(nat \<Rightarrow> int \<times> int \<times> int) \<Rightarrow> (nat \<Rightarrow> int \<times> int \<times> int) \<Rightarrow> (nat \<Rightarrow> string list) \<Rightarrow> nat \<Rightarrow> string list" where
  "moved_names old new K i = (if changed old new i then rev (K i) else K i)"

lemma held_simps [simp]: "length (held N row K a) = N"
  "i < N \<Longrightarrow> held N row K a ! i = (if fst (row i) = int a then K i else [])"
  by (simp_all add: held_def)

text \<open>What a table may change: an entry has a new version exactly when it has a new server.\<close>

definition good_move :: "nat \<Rightarrow> nat \<Rightarrow> (nat \<Rightarrow> int \<times> int \<times> int) \<Rightarrow> (nat \<Rightarrow> int \<times> int \<times> int) \<Rightarrow> bool" where
  "good_move N nb old new \<longleftrightarrow> (\<forall>i < N. 0 \<le> fst (old i) \<and> fst (old i) < int nb \<and> 0 \<le> fst (new i) \<and> fst (new i) < int nb \<and>
     (changed old new i \<longleftrightarrow> fst (old i) \<noteq> fst (new i)))"

lemma held_disjoint:
  assumes "keys_ok N K" "i < N" "j < N" "i \<noteq> j"
  shows "set (held N row K a ! i) \<inter> set (held N row K a ! j) = {}"
  using assms by (auto simp: keys_ok_def)

end
