(* ===== verification/Cluster_Moves.thy ===== *)
theory Cluster_Moves
  imports Moves Placement
begin

text \<open>
  A redistribution of the whole cluster: all servers install the table of the manager, and what the
  senders send arrives, in any order, at the receivers of the hosts it is addressed to. The statement
  is an invariant of the cluster, \<open>placed\<close>: every key is on the server in charge of its entry and nowhere else.
\<close>

section \<open>Packets\<close>

text \<open>The packets \<open>ps\<close> arrive at the server \<open>a\<close>: those sent to its host by any server, in any order.\<close>

definition arrive :: "string list \<Rightarrow> nat \<Rightarrow> (nat \<Rightarrow> (string \<times> packet) list) \<Rightarrow> nat \<Rightarrow> packet list \<Rightarrow> bool" where
  "arrive hs nb sent a ps \<longleftrightarrow> mset ps = (\<Sum>b < nb. mset (map snd (filter (\<lambda>m. fst m = hs ! a) (sent b))))"

lemma image_mset_sum: "image_mset f (sum g A) = (\<Sum>x \<in> A. image_mset f (g x))"
  by (induction A rule: infinite_finite_induct) simp_all

lemma in_sum_mset_of: "finite A \<Longrightarrow> x \<in># sum g A \<Longrightarrow> \<exists>b \<in> A. x \<in># g b"
  by (induction A rule: finite_induct) auto

lemma if_stored: "(if A then Some w else if B then None else x) \<noteq> None \<longleftrightarrow> A \<or> \<not> B \<and> x \<noteq> None"
  by simp

section \<open>What arrives is what was to be received\<close>

lemma sends_to_receives:
  assumes "\<forall>i < n. 0 \<le> fst (old i) \<and> fst (old i) < int nb \<and> (changed old new i \<longrightarrow> fst (old i) \<noteq> fst (new i))"
  shows "(\<Sum>b < nb. mset (map snd (filter (\<lambda>y. fst y = int a) (sends (int b) old new n)))) =
    mset (map snd (receives (int a) old new n))"
  using assms
proof (induction n)
  case 0
  then show ?case by (simp add: sends_0 receives_0)
next
  case (Suc n)
  let ?o = "nat (fst (old n))"
  have o: "?o < nb" "fst (old n) = int ?o" using Suc.prems by auto
  have "(\<Sum>b < nb. mset (map snd (filter (\<lambda>y. fst y = int a) (sends (int b) old new (Suc n))))) =
      (\<Sum>b < nb. mset (map snd (filter (\<lambda>y. fst y = int a) (sends (int b) old new n))) +
        (if b = ?o then (if changed old new n \<and> fst (new n) = int a then {#n#} else {#}) else {#}))"
    using o(2) by (intro sum.cong refl) (auto simp: sends_Suc)
  also have "\<dots> = mset (map snd (receives (int a) old new n)) + (if changed old new n \<and> fst (new n) = int a then {#n#} else {#})"
    using Suc o(1) by (simp add: sum.distrib sum.delta)
  also have "\<dots> = mset (map snd (receives (int a) old new (Suc n)))"
    using Suc.prems by (auto simp: receives_Suc)
  finally show ?case .
qed

lemma packets_to:
  assumes "list_all2 (packet_for hs L) ms ys" and "distinct hs" and a: "a < length hs"
    and "\<forall>y \<in> set ys. 0 \<le> fst y \<and> fst y < int (length hs)"
  shows "mset (map (\<lambda>p. nat (p_entry p)) (map snd (filter (\<lambda>m. fst m = hs ! a) ms))) =
    mset (map snd (filter (\<lambda>y. fst y = int a) ys))"
  using assms(1,4)
proof (induction rule: list_all2_induct)
  case Nil
  then show ?case by simp
next
  case (Cons m ms y ys)
  have "nat (fst y) < length hs" "0 \<le> fst y" using Cons.prems by auto
  then have "hs ! nat (fst y) = hs ! a \<longleftrightarrow> fst y = int a" using nth_eq_iff_index_eq [OF assms(2)] a by auto
  then show ?case using Cons by (simp add: packet_for_def)
qed

lemma packet_of:
  assumes "list_all2 (packet_for hs L) ms ys" and "m \<in> set ms"
  obtains y where "y \<in> set ys" "packet_for hs L m y"
  using assms by (metis list_all2_conv_all_nth in_set_conv_nth)

lemma arriving_entries:
  assumes hs: "distinct hs" "nb \<le> length hs" and a: "a < nb" and move: "good_move N nb old new"
    and sent: "\<forall>b < nb. list_all2 (packet_for hs (held N old K b)) (sent b) (ys b)"
    and ys: "\<forall>b < nb. mset (ys b) = mset (sends (int b) old new N)" and ps: "arrive hs nb sent a ps"
  shows "mset (map (\<lambda>p. nat (p_entry p)) ps) = mset (map snd (receives (int a) old new N))"
    and "p \<in> set ps \<Longrightarrow> carries p (nat (p_entry p), K (nat (p_entry p)))"
proof -
  have set_ys: "set (ys b) = set (sends (int b) old new N)" if "b < nb" for b using ys that mset_eq_setD by blast
  have one: "mset (map (\<lambda>p. nat (p_entry p)) (map snd (filter (\<lambda>m. fst m = hs ! a) (sent b)))) =
      mset (map snd (filter (\<lambda>y. fst y = int a) (sends (int b) old new N)))" if b: "b < nb" for b
  proof -
    have "\<forall>y \<in> set (ys b). 0 \<le> fst y \<and> fst y < int (length hs)"
    proof
      fix y assume "y \<in> set (ys b)"
      then have "(fst y, snd y) \<in> set (sends (int b) old new N)" using set_ys [OF b] by simp
      then obtain i where "i < N" "fst y = fst (new i)" unfolding in_sends by blast
      then have "0 \<le> fst y \<and> fst y < int nb" using move by (auto simp: good_move_def)
      then show "0 \<le> fst y \<and> fst y < int (length hs)" using hs(2) by simp
    qed
    then have "mset (map (\<lambda>p. nat (p_entry p)) (map snd (filter (\<lambda>m. fst m = hs ! a) (sent b)))) =
        mset (map snd (filter (\<lambda>y. fst y = int a) (ys b)))"
      using packets_to [of hs _ "sent b" "ys b" a] sent b hs a by auto
    also have "\<dots> = image_mset snd (filter_mset (\<lambda>y. fst y = int a) (mset (ys b)))" by simp
    also have "\<dots> = mset (map snd (filter (\<lambda>y. fst y = int a) (sends (int b) old new N)))" using ys b by simp
    finally show ?thesis .
  qed
  have "mset (map (\<lambda>p. nat (p_entry p)) ps) = image_mset (\<lambda>p. nat (p_entry p)) (mset ps)" by simp
  also have "\<dots> = (\<Sum>b < nb. mset (map (\<lambda>p. nat (p_entry p)) (map snd (filter (\<lambda>m. fst m = hs ! a) (sent b)))))"
    using ps by (simp only: arrive_def image_mset_sum mset_map)
  also have "\<dots> = mset (map snd (receives (int a) old new N))"
    using one sends_to_receives [of N old nb new a] move by (simp add: good_move_def)
  finally show "mset (map (\<lambda>p. nat (p_entry p)) ps) = mset (map snd (receives (int a) old new N))" .
  assume "p \<in> set ps"
  then have "p \<in># (\<Sum>b < nb. mset (map snd (filter (\<lambda>m. fst m = hs ! a) (sent b))))" using ps by (metis arrive_def set_mset_mset)
  from in_sum_mset_of [OF _ this] obtain b m where b: "b < nb" "m \<in> set (sent b)" "p = snd m" by auto
  obtain y where y: "y \<in> set (ys b)" "packet_for hs (held N old K b) m y" using packet_of [OF _ b(2)] sent b(1) by blast
  have "(fst y, snd y) \<in> set (sends (int b) old new N)" using y(1) set_ys [OF b(1)] by simp
  then obtain i where i: "snd y = i" "i < N" "fst (old i) = int b" unfolding in_sends by blast
  show "carries p (nat (p_entry p), K (nat (p_entry p)))" using y(2) i b(3) by (simp add: packet_for_def carries_def)
qed

section \<open>One server in the cluster\<close>

context served_list
begin

lemma placed_can_send:
  assumes pl: "placed_at inv len N old K a sv st" and K: "keys_ok N K" and N: "0 < N" "int N \<le> INT_MAX"
    and hs: "hosts_ok hs" "nb \<le> length hs" and move: "good_move N nb old (message_row ids vers)"
    and lens: "length ids = N" "length vers = N" and few: "length (sends (int a) old (message_row ids vers) N) < N"
  shows "can_send N hs (held N old K a) ids vers sv st"
    and "sends (sv_self sv) (mlt_row (sv_table sv)) (message_row ids vers) N = sends (int a) old (message_row ids vers) N"
    and "receives (sv_self sv) (mlt_row (sv_table sv)) (message_row ids vers) N = receives (int a) old (message_row ids vers) N"
proof -
  let ?new = "message_row ids vers"
  note pl' = pl [unfolded placed_at_def]
  have rows: "same_place (mlt_row (sv_table sv) i) (old i) \<and> same_place (?new i) (?new i)" if "i < N" for i
    using pl' that by (simp add: same_place_def)
  show s: "sends (sv_self sv) (mlt_row (sv_table sv)) ?new N = sends (int a) old ?new N"
    and "receives (sv_self sv) (mlt_row (sv_table sv)) ?new N = receives (int a) old ?new N"
    using sends_same [of N "mlt_row (sv_table sv)" old ?new ?new] receives_same [of N "mlt_row (sv_table sv)" old ?new ?new]
      rows pl' by simp_all
  have each: "0 \<le> b \<and> b < int (length hs) \<and> i < N \<and> names_ok (held N old K a ! i) \<and> (\<forall>n \<in> set (held N old K a ! i). stored st n \<noteq> None)"
    if "(b, i) \<in> set (sends (int a) old ?new N)" for b i
  proof -
    have i: "i < N" "fst (old i) = int a" "b = fst (?new i)" using that by (auto simp: in_sends)
    then have "0 \<le> b" "b < int nb" using move by (auto simp: good_move_def)
    then show ?thesis using i pl' K hs(2) by (auto simp: keys_ok_def)
  qed
  have "sendable N hs (held N old K a) st (sends (int a) old ?new N)"
    unfolding sendable_def
  proof (intro conjI)
    show "hosts_ok hs" by fact
    show "length (sends (int a) old ?new N) \<le> N" by (rule length_sends)
    show "distinct (map snd (sends (int a) old ?new N))" by (simp add: sends_def comp_def distinct_map inj_on_def)
    show "\<forall>(b, i) \<in> set (sends (int a) old ?new N). 0 \<le> b \<and> b < int (length hs) \<and> i < N \<and> names_ok (held N old K a ! i) \<and>
        (\<forall>n \<in> set (held N old K a ! i). stored st n \<noteq> None)" using each by blast
    show "\<forall>(b, i) \<in> set (sends (int a) old ?new N). \<forall>(c, j) \<in> set (sends (int a) old ?new N). i \<noteq> j \<longrightarrow>
        set (held N old K a ! i) \<inter> set (held N old K a ! j) = {}"
    proof clarify
      fix b i c j assume "(b, i) \<in> set (sends (int a) old ?new N)" "(c, j) \<in> set (sends (int a) old ?new N)" "i \<noteq> j"
      then show "set (held N old K a ! i) \<inter> set (held N old K a ! j) = {}" using held_disjoint [OF K, of i j] unfolding in_sends by blast
    qed
  qed
  moreover have "\<forall>i < N. 0 \<le> int_of_u32 (ids ! i)" using move by (auto simp: good_move_def message_row_def)
  ultimately show "can_send N hs (held N old K a) ids vers sv st"
    using N lens few pl' s by (simp add: can_send_def)
qed

lemma placed_can_receive:
  assumes pl: "placed_at inv len N old K a sv st" and K: "keys_ok N K"
    and R: "receives (sv_self sv) (mlt_row (sv_table sv)) (message_row ids vers) N = receives (int a) old (message_row ids vers) N"
    and es: "mset (map (\<lambda>p. nat (p_entry p)) ps) = mset (map snd (receives (int a) old (message_row ids vers) N))"
    and ps: "\<And>p. p \<in> set ps \<Longrightarrow> carries p (nat (p_entry p), K (nat (p_entry p)))"
    and zs: "zs = map (\<lambda>p. (nat (p_entry p), K (nat (p_entry p)))) ps"
  shows "can_receive N ids vers ps zs sv st" and "set zs = (\<lambda>i. (i, K i)) ` snd ` set (receives (int a) old (message_row ids vers) N)"
proof -
  let ?R = "receives (int a) old (message_row ids vers) N"
  have fst_zs: "map fst zs = map (\<lambda>p. nat (p_entry p)) ps" by (simp add: zs comp_def)
  have d: "distinct (map fst zs)" using es distinct_receives unfolding fst_zs by (metis mset_eq_imp_distinct_iff)
  have st: "fst ` set zs = snd ` set ?R" using es unfolding set_map [symmetric] fst_zs by (metis mset_eq_setD)
  have "set zs = (\<lambda>i. (i, K i)) ` fst ` set zs" by (auto simp: zs image_image)
  then show sz: "set zs = (\<lambda>i. (i, K i)) ` snd ` set ?R" unfolding st .
  have z: "i < N \<and> fst (old i) \<noteq> int a \<and> ns = K i" if "(i, ns) \<in> set zs" for i ns
    using that unfolding sz by (auto simp: in_receives)
  have free: "stored st n = None" if "i < N" "fst (old i) \<noteq> int a" "n \<in> set (K i)" for i n
  proof (rule ccontr)
    assume "stored st n \<noteq> None"
    then obtain j where "j < N" "fst (old j) = int a" "n \<in> set (K j)" using pl unfolding placed_at_def by blast
    moreover have "j \<noteq> i" using calculation(2) that(2) by auto
    ultimately show False using K that(1,3) unfolding keys_ok_def by blast
  qed
  have "receivable N st zs" unfolding receivable_def
  proof (intro conjI allI impI)
    show "distinct (map fst zs)" by fact
  next
    fix i ns assume "(i, ns) \<in> set zs"
    from z [OF this] K free show "i < N" "names_ok ns" "\<forall>n \<in> set ns. stored st n = None" by (auto simp: keys_ok_def)
  next
    fix i ns j ms assume "(i, ns) \<in> set zs" "(j, ms) \<in> set zs" "i \<noteq> j"
    with z [of i ns] z [of j ms] K show "set ns \<inter> set ms = {}" by (auto simp: keys_ok_def)
  qed
  moreover have "list_all2 carries ps zs" using ps by (auto simp: zs list_all2_conv_all_nth)
  ultimately show "can_receive N ids vers ps zs sv st" using st R by (simp add: can_receive_def)
qed

lemma placed_after:
  assumes pl: "placed_at inv len N old K a sv st" and K: "keys_ok N K" and move: "good_move N nb old new"
    and zs: "set zs = (\<lambda>i. (i, K i)) ` snd ` set (receives (int a) old new N)" "distinct (map fst zs)"
    and S: "S = sends (int a) old new N"
    and rows: "\<forall>i < N. mlt_row (sv_table sv') i = settled_row old new i"
    and ok: "server_ok inv len N sv' (names_after zs (cleared (snd ` set S) (held N old K a)))"
    and self: "sv_self sv' = int a" and fin: "finite (dom (sv_heap sv'))"
    and sto: "\<forall>n. stored st' n = (if \<exists>(i, ns) \<in> set zs. n \<in> set ns then Some ''a word''
        else if \<exists>i \<in> snd ` set S. n \<in> set (held N old K a ! i) then None else stored st n)"
  shows "placed_at inv len N (settled_row old new) (moved_names old new K) a sv' st'"
proof -
  let ?P = "\<lambda>i. changed old new i \<and> fst (old i) \<noteq> int a \<and> fst (new i) = int a"
  have mp: "map_of zs i = (if i < N \<and> ?P i then Some (K i) else None)" for i
  proof (cases "i < N \<and> ?P i")
    case True
    then have "i \<in> snd ` set (receives (int a) old new N)" by (simp add: snd_receives)
    then have "(i, K i) \<in> set zs" unfolding zs(1) by blast
    then show ?thesis using True zs(2) by simp
  next
    case False
    then have "i \<notin> fst ` set zs" unfolding zs(1) by (auto simp: image_image in_receives)
    then show ?thesis using False by (auto simp: map_of_eq_None_iff)
  qed
  have own: "fst (settled_row old new i) = fst (new i)" if "i < N" for i
    using move that by (auto simp: settled_row_def good_move_def)
  have ch: "changed old new i \<longleftrightarrow> fst (old i) \<noteq> fst (new i)" if "i < N" for i using move that by (simp add: good_move_def)
  have names: "names_after zs (cleared (snd ` set S) (held N old K a)) = held N (settled_row old new) (moved_names old new K) a"
    by (rule nth_equalityI) (auto simp: mp own ch moved_names_def S snd_sends)
  have received: "(\<exists>(i, ns) \<in> set zs. n \<in> set ns) \<longleftrightarrow> (\<exists>i < N. ?P i \<and> n \<in> set (K i))" for n
    unfolding zs(1) by (auto simp: snd_receives)
  have gone: "(\<exists>i \<in> snd ` set S. n \<in> set (held N old K a ! i)) \<longleftrightarrow> (\<exists>i < N. (changed old new i \<and> fst (old i) = int a) \<and> n \<in> set (K i))" for n
    by (auto simp: S snd_sends)
  have "stored st' n \<noteq> None \<longleftrightarrow> (\<exists>i < N. fst (settled_row old new i) = int a \<and> n \<in> set (moved_names old new K i))" for n
  proof -
    have was: "stored st n \<noteq> None \<longleftrightarrow> (\<exists>i < N. fst (old i) = int a \<and> n \<in> set (K i))" using pl by (simp add: placed_at_def)
    have un: "i = j" if "i < N" "j < N" "n \<in> set (K i)" "n \<in> set (K j)" for i j using K that unfolding keys_ok_def by blast
    have "stored st' n \<noteq> None \<longleftrightarrow> (\<exists>i < N. ?P i \<and> n \<in> set (K i)) \<or>
        \<not> (\<exists>i < N. (changed old new i \<and> fst (old i) = int a) \<and> n \<in> set (K i)) \<and> stored st n \<noteq> None"
      unfolding spec [OF sto, of n] received gone if_stored by (rule refl)
    also have "\<dots> \<longleftrightarrow> (\<exists>i < N. fst (new i) = int a \<and> n \<in> set (K i))"
      unfolding was
    proof (cases "\<exists>i < N. n \<in> set (K i)")
      case True
      then obtain i where i: "i < N" "n \<in> set (K i)" by blast
      have ex: "(\<exists>j < N. Q j \<and> n \<in> set (K j)) \<longleftrightarrow> Q i" for Q using un [OF _ i(1) _ i(2)] i by blast
      show "(\<exists>i < N. ?P i \<and> n \<in> set (K i)) \<or> \<not> (\<exists>i < N. (changed old new i \<and> fst (old i) = int a) \<and> n \<in> set (K i)) \<and>
          (\<exists>i < N. fst (old i) = int a \<and> n \<in> set (K i)) \<longleftrightarrow> (\<exists>i < N. fst (new i) = int a \<and> n \<in> set (K i))"
        unfolding ex using ch [OF i(1)] by auto
    qed blast
    also have "\<dots> \<longleftrightarrow> (\<exists>i < N. fst (settled_row old new i) = int a \<and> n \<in> set (moved_names old new K i))"
      using own by (auto simp: moved_names_def)
    finally show ?thesis .
  qed
  then show ?thesis using rows ok self fin unfolding names by (simp add: placed_at_def)
qed

end

section \<open>All servers\<close>

context served_list
begin

lemma cluster_installs:
  assumes X: "xfer_fine X" "xe_hosts X = Some (text_file hs)" and al: "fresh_alloc alloc"
    and hs: "hosts_ok hs" "distinct hs" "nb \<le> length hs" and N: "0 < N" "int N \<le> INT_MAX"
    and pl: "placed inv len N nb old K S D" and K: "keys_ok N K"
    and new: "new = message_row ids vers" and move: "good_move N nb old new" and lens: "length ids = N" "length vers = N"
    and few: "\<forall>a < nb. length (sends (int a) old new N) < N"
  shows "\<exists>F. \<forall>P. (\<forall>a < nb. arrive hs nb (\<lambda>b. sd_sent (F b)) a (P a)) \<longrightarrow> (\<exists>R.
    (\<forall>a < nb. install_table X reset alloc cell N (mlt_init True True True 0 True (int N) 1) fill ids vers
        (replicate (length (sends (int a) old new N)) ''done'') (P a) (S a) (D a) = Some (Next (F a), Next (R a)) \<and>
      rv_replies (R a) = replicate (length (P a)) ''done'') \<and>
    placed inv len N nb (settled_row old new) (moved_names old new K) (\<lambda>a. rv_sv (R a)) (\<lambda>a. rv_store (R a)) \<and>
    (\<forall>a < nb. \<forall>i < N. \<forall>n \<in> set (K i). fst (new i) = int a \<longrightarrow>
      stored (rv_store (R a)) n = (if changed old new i then Some ''a word'' else stored (D a) n)))"
proof -
  let ?sends = "\<lambda>a. sends (int a) old new N" and ?L = "\<lambda>a. held N old K a"
  let ?inst = "\<lambda>a ps. install_table X reset alloc cell N (mlt_init True True True 0 True (int N) 1) fill ids vers
      (replicate (length (?sends a)) ''done'') ps (S a) (D a)"
  let ?good = "\<lambda>a zs r. (\<forall>i < N. mlt_row (sv_table (rv_sv r)) i = settled_row (mlt_row (sv_table (S a))) new i) \<and>
      server_ok inv len N (rv_sv r) (names_after zs (cleared (snd ` set (?sends a)) (?L a))) \<and>
      (\<forall>n. stored (rv_store r) n = (if \<exists>(i, ns) \<in> set zs. n \<in> set ns then Some ''a word''
          else if \<exists>i \<in> snd ` set (?sends a). n \<in> set (?L a ! i) then None else stored (D a) n)) \<and>
      rv_replies r = replicate (length zs) ''done'' \<and> sv_self (rv_sv r) = int a \<and> finite (dom (sv_heap (rv_sv r)))"
  have at: "placed_at inv len N old K a (S a) (D a)" if "a < nb" for a using pl that by (simp add: placed_def)
  have can: "can_send N hs (?L a) ids vers (S a) (D a)"
    "sends (sv_self (S a)) (mlt_row (sv_table (S a))) new N = ?sends a"
    "receives (sv_self (S a)) (mlt_row (sv_table (S a))) new N = receives (int a) old new N"
    if "a < nb" for a
    using placed_can_send [OF at [OF that] K N hs(1,3) move [unfolded new] lens] few that unfolding new by blast+
  have "\<forall>a. \<exists>s ys. a < nb \<longrightarrow> mset ys = mset (?sends a) \<and> list_all2 (packet_for hs (?L a)) (sd_sent s) ys \<and>
      (\<forall>ps zs. can_receive N ids vers ps zs (S a) (D a) \<longrightarrow> (\<exists>r. ?inst a ps = Some (Next s, Next r) \<and> ?good a zs r))"
  proof
    fix a
    show "\<exists>s ys. a < nb \<longrightarrow> mset ys = mset (?sends a) \<and> list_all2 (packet_for hs (?L a)) (sd_sent s) ys \<and>
      (\<forall>ps zs. can_receive N ids vers ps zs (S a) (D a) \<longrightarrow> (\<exists>r. ?inst a ps = Some (Next s, Next r) \<and> ?good a zs r))"
    proof (cases "a < nb")
      case True
      have ok: "server_ok inv len N (S a) (?L a)" "sv_self (S a) = int a" using at [OF True] by (simp_all add: placed_at_def)
      from install_any_order [OF X al ok(1) can(1) [OF True] new can(2) [OF True, symmetric], of cell fill, unfolded ok(2)]
      show ?thesis by (elim exE) (rule exI, rule exI, rule impI, assumption)
    qed simp
  qed
  from choice [OF this] obtain F where "\<forall>a. \<exists>ys. a < nb \<longrightarrow> mset ys = mset (?sends a) \<and> list_all2 (packet_for hs (?L a)) (sd_sent (F a)) ys \<and>
      (\<forall>ps zs. can_receive N ids vers ps zs (S a) (D a) \<longrightarrow> (\<exists>r. ?inst a ps = Some (Next (F a), Next r) \<and> ?good a zs r))" ..
  from choice [OF this] obtain ys where F: "\<forall>a. a < nb \<longrightarrow> mset (ys a) = mset (?sends a) \<and> list_all2 (packet_for hs (?L a)) (sd_sent (F a)) (ys a) \<and>
      (\<forall>ps zs. can_receive N ids vers ps zs (S a) (D a) \<longrightarrow> (\<exists>r. ?inst a ps = Some (Next (F a), Next r) \<and> ?good a zs r))" ..
  have ys: "\<forall>b < nb. list_all2 (packet_for hs (?L b)) (sd_sent (F b)) (ys b)" "\<forall>b < nb. mset (ys b) = mset (?sends b)"
    using F by simp_all
  have "\<exists>R. (\<forall>a < nb. ?inst a (P a) = Some (Next (F a), Next (R a)) \<and> rv_replies (R a) = replicate (length (P a)) ''done'') \<and>
    placed inv len N nb (settled_row old new) (moved_names old new K) (\<lambda>a. rv_sv (R a)) (\<lambda>a. rv_store (R a)) \<and>
    (\<forall>a < nb. \<forall>i < N. \<forall>n \<in> set (K i). fst (new i) = int a \<longrightarrow>
      stored (rv_store (R a)) n = (if changed old new i then Some ''a word'' else stored (D a) n))"
    if P: "\<forall>a < nb. arrive hs nb (\<lambda>b. sd_sent (F b)) a (P a)" for P
  proof -
    define Z where "Z a = map (\<lambda>p. (nat (p_entry p), K (nat (p_entry p)))) (P a)" for a
    have es: "mset (map (\<lambda>p. nat (p_entry p)) (P a)) = mset (map snd (receives (int a) old new N))"
      "\<And>p. p \<in> set (P a) \<Longrightarrow> carries p (nat (p_entry p), K (nat (p_entry p)))" if "a < nb" for a
      using arriving_entries [OF hs(2,3) that move ys] P that by blast+
    have cr: "can_receive N ids vers (P a) (Z a) (S a) (D a)" "set (Z a) = (\<lambda>i. (i, K i)) ` snd ` set (receives (int a) old new N)"
      if "a < nb" for a
      using placed_can_receive [OF at [OF that] K can(3) [OF that, unfolded new] es [OF that, unfolded new] Z_def] unfolding new by blast+
    have "\<forall>a. \<exists>r. a < nb \<longrightarrow> ?inst a (P a) = Some (Next (F a), Next r) \<and> ?good a (Z a) r"
    proof (intro allI)
      fix a
      show "\<exists>r. a < nb \<longrightarrow> ?inst a (P a) = Some (Next (F a), Next r) \<and> ?good a (Z a) r"
      proof (cases "a < nb")
        case True
        with F have "\<forall>ps zs. can_receive N ids vers ps zs (S a) (D a) \<longrightarrow> (\<exists>r. ?inst a ps = Some (Next (F a), Next r) \<and> ?good a zs r)"
          by (elim allE impE) (assumption, elim conjE)
        from this [rule_format, OF cr(1) [OF True]] show ?thesis by (elim exE) (rule exI, rule impI, assumption)
      qed simp
    qed
    from choice [OF this] obtain R where R0: "\<forall>a. a < nb \<longrightarrow> ?inst a (P a) = Some (Next (F a), Next (R a)) \<and> ?good a (Z a) (R a)" ..
    have R: "?inst a (P a) = Some (Next (F a), Next (R a))" "?good a (Z a) (R a)" if "a < nb" for a
      by (rule conjunct1 [OF mp [OF spec [OF R0] that]], rule conjunct2 [OF mp [OF spec [OF R0] that]])
    have after: "placed_at inv len N (settled_row old new) (moved_names old new K) a (rv_sv (R a)) (rv_store (R a))" if a: "a < nb" for a
    proof (rule placed_after [OF at [OF a] K move cr(2) [OF a]])
      note g = R(2) [OF a]
      show "distinct (map fst (Z a))" using cr(1) [OF a] by (simp add: can_receive_def receivable_def)
      show "\<forall>i < N. mlt_row (sv_table (rv_sv (R a))) i = settled_row old new i"
        using g at [OF a] by (auto simp: placed_at_def settled_row_def changed_def)
      show "server_ok inv len N (rv_sv (R a)) (names_after (Z a) (cleared (snd ` set (?sends a)) (?L a)))" using g by blast
      show "sv_self (rv_sv (R a)) = int a" "finite (dom (sv_heap (rv_sv (R a))))" using g by blast+
      show "\<forall>n. stored (rv_store (R a)) n = (if \<exists>(i, ns) \<in> set (Z a). n \<in> set ns then Some ''a word''
          else if \<exists>i \<in> snd ` set (?sends a). n \<in> set (?L a ! i) then None else stored (D a) n)" using g by blast
    qed (rule refl)
    have vals: "stored (rv_store (R a)) n = (if changed old new i then Some ''a word'' else stored (D a) n)"
      if a: "a < nb" and i: "i < N" "n \<in> set (K i)" "fst (new i) = int a" for a i n
    proof -
      have un: "j = i" if "j < N" "n \<in> set (K j)" for j using K that i unfolding keys_ok_def by blast
      have ch: "changed old new i \<longleftrightarrow> fst (old i) \<noteq> fst (new i)" using move i(1) by (simp add: good_move_def)
      have got: "(\<exists>(j, ns) \<in> set (Z a). n \<in> set ns) \<longleftrightarrow> changed old new i"
      proof -
        have "(\<exists>(j, ns) \<in> set (Z a). n \<in> set ns) \<longleftrightarrow>
            (\<exists>j < N. (changed old new j \<and> fst (old j) \<noteq> int a \<and> fst (new j) = int a) \<and> n \<in> set (K j))"
          unfolding cr(2) [OF a] snd_receives by auto
        also have "\<dots> \<longleftrightarrow> changed old new i \<and> fst (old i) \<noteq> int a \<and> fst (new i) = int a" using un i(1,2) by blast
        finally show ?thesis using ch i(3) by auto
      qed
      have stay: "\<not> (\<exists>j \<in> snd ` set (?sends a). n \<in> set (?L a ! j))" if "\<not> changed old new i"
        using un that unfolding snd_sends by auto
      have st: "stored (rv_store (R a)) n = (if \<exists>(i, ns) \<in> set (Z a). n \<in> set ns then Some ''a word''
          else if \<exists>i \<in> snd ` set (?sends a). n \<in> set (?L a ! i) then None else stored (D a) n)"
        using R(2) [OF a] by (elim conjE) (rule spec)
      show ?thesis
      proof (cases "changed old new i")
        case True
        then show ?thesis unfolding st got by (simp only: if_True)
      next
        case False
        then show ?thesis using stay [OF False] unfolding st got by (simp only: if_False)
      qed
    qed
    have "rv_replies (R a) = replicate (length (P a)) ''done''" if "a < nb" for a using R(2) [OF that] by (simp add: Z_def)
    then show ?thesis using R(1) after vals unfolding placed_def by blast
  qed
  then show ?thesis by blast
qed

end

section \<open>Property\<close>

lemma some_stay:
  assumes "\<exists>i < N. fst (old i) \<noteq> a"
  shows "length (sends a old new N) < N"
proof -
  obtain i where "i < N" "fst (old i) \<noteq> a" using assms by blast
  then have "length (filter (\<lambda>i. changed old new i \<and> fst (old i) = a) [0..<N]) < length [0..<N]"
    by (intro length_filter_less [of i]) auto
  then show ?thesis by (simp add: sends_def)
qed

lemma published_moves:
  assumes m: "manager_ok N nb m" "manager_calculate_relab_windowed env_fine N (int nb) m = Some (0, m')"
    and same: "\<forall>i < N. same_place (old i) (mlt_row (table m) i)" and new: "new = message_row (id_srv (table m')) (n_ver (table m'))"
  shows "good_move N nb old new" "length (id_srv (table m')) = N" "length (n_ver (table m')) = N"
    and "i < N \<Longrightarrow> same_place (settled_row old new i) (mlt_row (table m') i)" and "int N \<le> INT_MAX"
proof -
  obtain m'' where r: "manager_calculate_relab_windowed env_fine N (int nb) m = Some (0, m'')"
    "mlt_wf (table m'')" "mlt_len (table m'') = N"
    "\<And>i. i < N \<Longrightarrow> 0 \<le> fst (mlt_row (table m'') i) \<and> fst (mlt_row (table m'') i) < int nb"
    "\<And>i. i < N \<Longrightarrow> fst (snd (mlt_row (table m'') i)) = fst (snd (mlt_row (table m) i)) \<Longrightarrow>
       fst (mlt_row (table m'') i) = fst (mlt_row (table m) i)"
    "\<And>i. i < N \<Longrightarrow> changed (mlt_row (table m)) (mlt_row (table m'')) i \<Longrightarrow>
       fst (mlt_row (table m'') i) \<noteq> fst (mlt_row (table m) i)"
    using rebalance_moves [OF m(1)] by blast
  have mm: "m'' = m'" using r(1) m(2) by simp
  note r' = r(2-6) [unfolded mm]
  show len: "length (id_srv (table m')) = N" "length (n_ver (table m')) = N" using r'(1,2) by (simp_all add: mlt_wf_len)
  show "int N \<le> INT_MAX" using r'(1,2) by (auto simp: mlt_wf_def mlt_len_def simp flip: uint_nat)
  have n: "same_place (new i) (mlt_row (table m') i)" if "i < N" for i
    unfolding new using message_of_table [OF r'(1)] r'(2) that by simp
  have own: "0 \<le> fst (mlt_row (table m) i) \<and> fst (mlt_row (table m) i) < int nb" if "i < N" for i
    using m(1) that by (cases "mlt_row (table m) i") (force simp: manager_ok_def table_ok_def)
  show "good_move N nb old new" unfolding good_move_def
  proof (intro allI impI)
    fix i assume i: "i < N"
    show "0 \<le> fst (old i) \<and> fst (old i) < int nb \<and> 0 \<le> fst (new i) \<and> fst (new i) < int nb \<and> (changed old new i \<longleftrightarrow> fst (old i) \<noteq> fst (new i))"
      using n [OF i] spec [OF same, of i] i own [OF i] r'(3) [OF i] r'(4) [OF i] r'(5) [OF i]
      by (cases "fst (snd (mlt_row (table m) i)) = fst (snd (mlt_row (table m') i))") (auto simp: same_place_def changed_def)
  qed
  show "i < N \<Longrightarrow> same_place (settled_row old new i) (mlt_row (table m') i)"
    using n [of i] spec [OF same, of i] r'(4) [of i] by (auto simp: same_place_def settled_row_def changed_def)
qed

text \<open>
  C9: a redistribution keeps every key. Let every key be on the server in charge of its entry and nowhere else, in lists
  and storages, and the tables of the servers be that of the manager. When the windowed manager redistributes, and every
  server installs the table it publishes and receives, in any order, the packets the others send to its host, then
  both threads of every server end, every packet is acknowledged, and again every key is on the server in charge
  of its entry and nowhere else, for the new table, which all servers share with the manager. A key whose entry
  did not move keeps its value; one that moved has the value ``a word''.
\<close>

theorem redistribution_keeps_every_key:
  assumes "manager_ok N nb m" "manager_calculate_relab_windowed env_fine N (int nb) m = Some (0, m')"
    and "\<forall>i < N. same_place (old i) (mlt_row (table m) i)" and "0 < N" "\<forall>a < nb. \<exists>i < N. fst (old i) \<noteq> int a"
    and "xfer_fine X" "xe_hosts X = Some (text_file hs)" "fresh_alloc alloc"
    and "hosts_ok hs" "distinct hs" "nb \<le> length hs"
    and "placed eacl_wf_windowed eacl_len N nb old K S D" "keys_ok N K"
    and new: "new = message_row (id_srv (table m')) (n_ver (table m'))"
  shows "\<exists>F. \<forall>P. (\<forall>a < nb. arrive hs nb (\<lambda>b. sd_sent (F b)) a (P a)) \<longrightarrow> (\<exists>R.
    (\<forall>a < nb. install_table_windowed X alloc cell N (mlt_init True True True 0 True (int N) 1) fill
        (id_srv (table m')) (n_ver (table m')) (replicate (length (sends (int a) old new N)) ''done'') (P a) (S a) (D a)
          = Some (Next (F a), Next (R a)) \<and>
      rv_replies (R a) = replicate (length (P a)) ''done'') \<and>
    placed eacl_wf_windowed eacl_len N nb (settled_row old new) (moved_names old new K) (\<lambda>a. rv_sv (R a)) (\<lambda>a. rv_store (R a)) \<and>
    (\<forall>i < N. same_place (settled_row old new i) (mlt_row (table m') i)) \<and>
    (\<forall>a < nb. \<forall>i < N. \<forall>n \<in> set (K i). fst (new i) = int a \<longrightarrow>
      stored (rv_store (R a)) n = (if changed old new i then Some ''a word'' else stored (D a) n)))"
proof -
  note p = published_moves [OF assms(1-3) new]
  have few: "\<forall>a < nb. length (sends (int a) old new N) < N" using some_stay assms(5) by blast
  from sl_windowed.cluster_installs [OF assms(6-11,4) p(5) assms(12,13) new p(1-3) few, of cell fill]
  obtain F where F: "\<forall>P. (\<forall>a < nb. arrive hs nb (\<lambda>b. sd_sent (F b)) a (P a)) \<longrightarrow> (\<exists>R.
    (\<forall>a < nb. install_table_windowed X alloc cell N (mlt_init True True True 0 True (int N) 1) fill
        (id_srv (table m')) (n_ver (table m')) (replicate (length (sends (int a) old new N)) ''done'') (P a) (S a) (D a)
          = Some (Next (F a), Next (R a)) \<and>
      rv_replies (R a) = replicate (length (P a)) ''done'') \<and>
    placed eacl_wf_windowed eacl_len N nb (settled_row old new) (moved_names old new K) (\<lambda>a. rv_sv (R a)) (\<lambda>a. rv_store (R a)) \<and>
    (\<forall>a < nb. \<forall>i < N. \<forall>n \<in> set (K i). fst (new i) = int a \<longrightarrow>
      stored (rv_store (R a)) n = (if changed old new i then Some ''a word'' else stored (D a) n)))"
    unfolding install_table_windowed_def by blast
  then show ?thesis using p(4) by blast
qed

text \<open>Two servers, four entries, one key: it is in entry 2, which the manager moves from server 0 to server 1.\<close>

definition moving_list :: eacl_windowed where
  "moving_list = \<lparr>access_count = [4, 2, 0, 0], sai = [5, 1, 3, 0], eacl_size = 4, load_lvl = 9,
     old_accesses = replicate 4 \<lparr>q_count = WINDOW_SIZE, q_used = 0, q_next = 0, q_values = replicate WINDOW_SIZE 0\<rparr>\<rparr>"

definition moving_server :: "nat \<Rightarrow> eacl_windowed server" where
  "moving_server a = \<lparr>sv_table = table demo_manager, sv_list = moving_list,
     sv_md = [None, None, if a = 0 then Some 0 else None, None],
     sv_heap = (if a = 0 then [0 \<mapsto> \<lparr>md_ent = 2, md_name = ''k'', md_next = None\<rparr>] else (\<lambda>_. None)), sv_self = int a\<rparr>"

definition moving_store :: "nat \<Rightarrow> store" where
  "moving_store a = \<lparr>files = (if a = 0 then [path_of ''k'' \<mapsto> ''v''] else (\<lambda>_. None)), fds = 0\<rparr>"

definition moving_keys :: "nat \<Rightarrow> string list" where
  "moving_keys i = (if i = 2 then [''k''] else [])"

lemma moving_rows: "map (mlt_row (table demo_manager)) [0..<4] = [(0, 0, 0), (1, 0, 0), (0, 0, 0), (1, 0, 0)]"
  by code_simp

lemma moving_placed: "placed eacl_wf_windowed eacl_len 4 2 (mlt_row (table demo_manager)) moving_keys moving_server moving_store"
  unfolding placed_def
proof (intro allI impI)
  fix a :: nat assume a: "a < 2"
  have rows: "mlt_row (table demo_manager) 0 = (0, 0, 0)" "mlt_row (table demo_manager) 1 = (1, 0, 0)"
    "mlt_row (table demo_manager) 2 = (0, 0, 0)" "mlt_row (table demo_manager) 3 = (1, 0, 0)"
    using moving_rows by (simp_all add: numeral_eq_Suc upt_rec)
  have held: "held 4 (mlt_row (table demo_manager)) moving_keys a = [[], [], if a = 0 then [''k''] else [], []]"
  proof -
    have "[0..<4 :: nat] = [0, 1, 2, 3]" by code_simp
    moreover have "a = 0 \<or> a = 1" using a by arith
    ultimately show ?thesis by (elim disjE) (simp_all add: held_def rows moving_keys_def del: One_nat_def)
  qed
  have l: "eacl_wf_windowed moving_list" "eacl_len moving_list = 4"
    by (simp_all add: moving_list_def eacl_wf_windowed_def eacl_wf_def eacl_len_def q_wf_def WINDOW_SIZE_def INT_MAX_def)
  have m: "mlt_wf (table demo_manager)" "mlt_len (table demo_manager) = 4" by code_simp+
  have "separate (sv_heap (moving_server a)) (sv_md (moving_server a)) [[], [], if a = 0 then [0] else [], []]"
    by (auto simp: separate_def moving_server_def is_list_def less_Suc_eq numeral_eq_Suc nth_Cons')
  then have "holds (sv_heap (moving_server a)) (sv_md (moving_server a)) [[], [], if a = 0 then [''k''] else [], []]"
    unfolding holds_def by (intro exI [of _ "[[], [], if a = 0 then [0] else [], []]"]) (simp add: names_of_def moving_server_def)
  then have "server_ok eacl_wf_windowed eacl_len 4 (moving_server a) (held 4 (mlt_row (table demo_manager)) moving_keys a)"
    unfolding held using l m by (simp add: server_ok_def moving_server_def)
  moreover have "stored (moving_store a) n \<noteq> None \<longleftrightarrow> (\<exists>i < 4. fst (mlt_row (table demo_manager) i) = int a \<and> n \<in> set (moving_keys i))" for n
  proof -
    have "stored (moving_store a) n \<noteq> None \<longleftrightarrow> a = 0 \<and> n = ''k''" by (simp add: stored_def moving_store_def)
    also have "\<dots> \<longleftrightarrow> (\<exists>i < 4. fst (mlt_row (table demo_manager) i) = int a \<and> n \<in> set (moving_keys i))"
      using rows by (auto simp: moving_keys_def intro!: exI [of _ 2])
    finally show ?thesis .
  qed
  ultimately show "placed_at eacl_wf_windowed eacl_len 4 (mlt_row (table demo_manager)) moving_keys a (moving_server a) (moving_store a)"
    by (simp add: placed_at_def moving_server_def)
qed

definition demo_result :: manager where
  "demo_result = snd (the (manager_calculate_relab_windowed env_fine 4 2 demo_manager))"

lemma demo_moves: "manager_calculate_relab_windowed env_fine 4 2 demo_manager = Some (0, demo_result)"
  "id_srv (table demo_result) = [0, 1, 1, 1]" "n_ver (table demo_result) = [0, 0, 1, 0]"
  by code_simp+

theorem redistribution_keeps_every_key_witness:
  "\<exists>F P R. (\<forall>a < 2. arrive [''h0'', ''h1''] 2 (\<lambda>b. sd_sent (F b)) a (P a)) \<and>
     install_table_windowed xfer_demo next_cell \<lparr>md_ent = 9, md_name = [], md_next = None\<rparr> 4
       (mlt_init True True True 0 True (int 4) 1) (\<lambda>_ _. 0) [0, 1, 1, 1] [0, 0, 1, 0] [] (P 1) (moving_server 1) (moving_store 1)
       = Some (Next (F 1), Next (R (1 :: nat))) \<and>
     stored (rv_store (R 1)) ''k'' = Some ''a word'' \<and> stored (rv_store (R 0)) ''k'' = None"
proof -
  let ?old = "mlt_row (table demo_manager)" and ?new = "message_row (id_srv (table demo_result)) (n_ver (table demo_result))"
  let ?c = "\<lparr>md_ent = 9, md_name = [], md_next = None\<rparr>"
  have m: "manager_ok 4 2 demo_manager" using manager_inv_ok [OF demo_manager_inv] by (simp add: INT_MAX_def)
  have rows: "?old 0 = (0, 0, 0)" "?old 1 = (1, 0, 0)" "?old 2 = (0, 0, 0)" using moving_rows by (simp_all add: numeral_eq_Suc upt_rec)
  have others: "\<forall>a < 2. \<exists>i < 4. fst (?old i) \<noteq> int a"
    using rows by (auto simp: less_Suc_eq numeral_2_eq_2 intro: exI [of _ 1] exI [of _ 0])
  have K: "keys_ok 4 moving_keys" using xfer_names_ok by (auto simp: keys_ok_def moving_keys_def names_ok_def name_ok_def token_ok_def c_string_def joined_def)
  obtain F where F: "\<forall>P. (\<forall>a < 2. arrive [''h0'', ''h1''] 2 (\<lambda>b. sd_sent (F b)) a (P a)) \<longrightarrow> (\<exists>R.
    (\<forall>a < 2. install_table_windowed xfer_demo next_cell ?c 4 (mlt_init True True True 0 True (int 4) 1) (\<lambda>_ _. 0)
        (id_srv (table demo_result)) (n_ver (table demo_result)) (replicate (length (sends (int a) ?old ?new 4)) ''done'')
        (P a) (moving_server a) (moving_store a) = Some (Next (F a), Next (R a)) \<and>
      rv_replies (R a) = replicate (length (P a)) ''done'') \<and>
    placed eacl_wf_windowed eacl_len 4 2 (settled_row ?old ?new) (moved_names ?old ?new moving_keys) (\<lambda>a. rv_sv (R a)) (\<lambda>a. rv_store (R a)) \<and>
    (\<forall>i < 4. same_place (settled_row ?old ?new i) (mlt_row (table demo_result) i)) \<and>
    (\<forall>a < 2. \<forall>i < 4. \<forall>n \<in> set (moving_keys i). fst (?new i) = int a \<longrightarrow>
      stored (rv_store (R a)) n = (if changed ?old ?new i then Some ''a word'' else stored (moving_store a) n)))"
    using redistribution_keeps_every_key [OF m _ _ _ others xfer_demo_fine _ next_cell_fresh xfer_hosts _ _ moving_placed K refl,
        of demo_result ?c "\<lambda>_ _. 0"] demo_moves(1)
    by (auto simp: xfer_demo_def same_place_def)
  have "\<forall>a. \<exists>ps. arrive [''h0'', ''h1''] 2 (\<lambda>b. sd_sent (F b)) a ps" unfolding arrive_def by (meson ex_mset)
  from choice [OF this] obtain P where P: "\<And>a. arrive [''h0'', ''h1''] 2 (\<lambda>b. sd_sent (F b)) a (P a)" by blast
  then have "\<forall>a < 2. arrive [''h0'', ''h1''] 2 (\<lambda>b. sd_sent (F b)) a (P a)" by simp
  from mp [OF spec [OF F, of P] this] obtain R where
    R1: "\<forall>a < 2. install_table_windowed xfer_demo next_cell ?c 4 (mlt_init True True True 0 True (int 4) 1) (\<lambda>_ _. 0)
        (id_srv (table demo_result)) (n_ver (table demo_result)) (replicate (length (sends (int a) ?old ?new 4)) ''done'')
        (P a) (moving_server a) (moving_store a) = Some (Next (F a), Next (R a)) \<and>
      rv_replies (R a) = replicate (length (P a)) ''done''"
    and R2: "placed eacl_wf_windowed eacl_len 4 2 (settled_row ?old ?new) (moved_names ?old ?new moving_keys) (\<lambda>a. rv_sv (R a)) (\<lambda>a. rv_store (R a))"
    and R3: "\<forall>a < 2. \<forall>i < 4. \<forall>n \<in> set (moving_keys i). fst (?new i) = int a \<longrightarrow>
      stored (rv_store (R a)) n = (if changed ?old ?new i then Some ''a word'' else stored (moving_store a) n)"
    by (elim exE conjE) (rule that)
  have R: "install_table_windowed xfer_demo next_cell ?c 4 (mlt_init True True True 0 True (int 4) 1) (\<lambda>_ _. 0)
        (id_srv (table demo_result)) (n_ver (table demo_result)) (replicate (length (sends (int 1) ?old ?new 4)) ''done'')
        (P 1) (moving_server 1) (moving_store 1) = Some (Next (F 1), Next (R 1))"
    using mp [OF spec [OF R1, of 1]] by (elim conjE meta_impE) simp_all
  have s: "sends (int 1) ?old ?new 4 = []" "fst (?new 2) = 1" "changed ?old ?new 2"
    "map (\<lambda>i. fst (settled_row ?old ?new i)) [0..<4] = [0, 1, 1, 1]" by code_simp+
  have "stored (rv_store (R 1)) ''k'' = Some ''a word''"
    using R3 [rule_format, of 1 2 "''k''"] s(2,3) by (simp add: moving_keys_def)
  moreover have "stored (rv_store (R 0)) ''k'' = None"
  proof (rule ccontr)
    assume "stored (rv_store (R 0)) ''k'' \<noteq> None"
    then obtain i where "i < 4" "fst (settled_row ?old ?new i) = 0" "''k'' \<in> set (moved_names ?old ?new moving_keys i)"
      using R2 by (auto simp: placed_def placed_at_def)
    then show False using s(4) by (auto simp: moved_names_def moving_keys_def upt_rec numeral_eq_Suc split: if_splits)
  qed
  moreover have "\<forall>a < 2. arrive [''h0'', ''h1''] 2 (\<lambda>b. sd_sent (F b)) a (P a)" using P by simp
  moreover note R [unfolded s(1) list.size replicate_0, unfolded demo_moves(2,3)]
  ultimately show ?thesis by - (rule exI [of _ F], rule exI [of _ P], rule exI [of _ R], intro conjI)
qed

end
