(* ===== verification/Transfer_Threads.thy ===== *)
theory Transfer_Threads
  imports Placement
begin

text \<open>
  The redistribution of a cluster as an interleaving: every server has its listener, which installs the table, and then its
  sender and its receiver thread, which share the tables and lists of the server. A turn of a thread is one entry
  of its list or one wait; the packets and the replies are in the sockets in between.
\<close>

section \<open>The code\<close>

text \<open>
  Where the sender is: its thread is not created yet, at the head of the outer loop, at the head of the inner one,
  waiting for the reply, at its end, or left by \<open>pthread_exit (&fail_rc)\<close>. The receiver waits for a number of packets.
\<close>

datatype snd_pc = Listening | Seek nat | Pack nat | Wait nat | Ended | Snd_died

datatype rcv_pc = Await nat | Rcv_died

text \<open>
  A server: the state its threads share and the variables of the sender are in \<open>xn_snd\<close>; \<open>xn_in\<close> are the packets in the
  socket of the receiver with the server they come from.
\<close>

record 'e xfer_node =
  xn_snd :: "'e sender"
  xn_args :: transfert_load_args
  xn_pc :: snd_pc
  xn_rcv :: rcv_pc
  xn_in :: "(nat \<times> packet) list"

datatype thread = Snd nat | Rcv nat

text \<open>
  The listener installs the table, the sender thread sorts its list and opens the file of hosts, the receiver its socket.
\<close>

definition xfer_begin ::
  "xfer_env \<Rightarrow> nat \<Rightarrow> int \<times> mlt option \<Rightarrow> (nat \<Rightarrow> nat \<Rightarrow> int) \<Rightarrow> u32 list \<Rightarrow> u32 list \<Rightarrow> 'e xfer_node \<Rightarrow> 'e xfer_node option" where
  "xfer_begin X N init_result fill ids vers n = do {
     let s = xn_snd n;
     let sv = sd_sv s;
     (t, to_send, to_receive) \<leftarrow> update_table (xe_lock X) N (sv_self sv) init_result fill ids vers (sv_table sv);
     l \<leftarrow> sort_to_send to_send;
     let s = s\<lparr>sd_sv := sv\<lparr>sv_table := t\<rparr>, sd_line := -1, sd_id := [], sd_status := Running\<rparr>;
     Some (n\<lparr>xn_snd := (case xe_hosts X of None \<Rightarrow> s | Some file \<Rightarrow> s\<lparr>sd_file := file\<rparr>), xn_args := l,
       xn_pc := (if xe_hosts X = None \<or> \<not> xe_malloc X then Snd_died else Seek 0),
       xn_rcv := (if \<not> xe_asprintf X \<or> \<not> xe_socket X then Rcv_died else Await (nat (t_size to_receive)))\<rparr>)
   }"

text \<open>A packet goes to the server that has the host as its address; to no server when none has.\<close>

definition deliver :: "string list \<Rightarrow> nat \<Rightarrow> string \<times> packet \<Rightarrow> 'e xfer_node list \<Rightarrow> 'e xfer_node list" where
  "deliver hs a m C =
     (case find (\<lambda>b. hs ! b = fst m) [0..<min (length hs) (length C)] of
        None \<Rightarrow> C
      | Some b \<Rightarrow> C[b := (C ! b)\<lparr>xn_in := xn_in (C ! b) @ [(a, snd m)]\<rparr>])"

text \<open>A turn of the sender of the server \<open>a\<close>.\<close>

definition snd_turn ::
  "xfer_env \<Rightarrow> ('e \<Rightarrow> int \<Rightarrow> (int \<times> 'e option) option) \<Rightarrow> string list \<Rightarrow> nat \<Rightarrow> int \<times> mlt option \<Rightarrow> (nat \<Rightarrow> nat \<Rightarrow> int) \<Rightarrow>
   u32 list \<Rightarrow> u32 list \<Rightarrow> nat \<Rightarrow> 'e xfer_node list \<Rightarrow> 'e xfer_node list option" where
  "snd_turn X reset hs N init_result fill ids vers a C =
     (let n = C ! a; l = xn_args n; s = xn_snd n in
      case xn_pc n of
        Listening \<Rightarrow> do { n \<leftarrow> xfer_begin X N init_result fill ids vers n; Some (C[a := n]) }
      | Seek k \<Rightarrow>
          if \<not> int k < t_size l then Some (C[a := n\<lparr>xn_pc := Ended\<rparr>])
          else do {
            f \<leftarrow> seek_server X l k s;
            Some (C[a := n\<lparr>xn_snd := flow_state f, xn_pc := (case f of Leave _ \<Rightarrow> Snd_died | Next _ \<Rightarrow> Pack k)\<rparr>])
          }
      | Pack k \<Rightarrow> do {
          f \<leftarrow> send_out X reset l k s;
          let s' = flow_state f;
          Some (fold (deliver hs a) (drop (length (sd_sent s)) (sd_sent s'))
            (C[a := n\<lparr>xn_snd := s', xn_pc := (case f of Leave _ \<Rightarrow> Snd_died | Next _ \<Rightarrow> Wait k)\<rparr>]))
        }
      | Wait k \<Rightarrow>
          if sd_replies s = [] then Some C
          else (case take_reply s of
              Leave s \<Rightarrow> Some (C[a := n\<lparr>xn_snd := s, xn_pc := Snd_died\<rparr>])
            | Next s \<Rightarrow> do {
                again \<leftarrow> same_server l k s;
                Some (C[a := n\<lparr>xn_snd := s, xn_pc := (if again then Pack (k + 1) else Seek (k + 1))\<rparr>])
              })
      | Ended \<Rightarrow> Some C
      | Snd_died \<Rightarrow> Some C)"

text \<open>A turn of the receiver of the server \<open>b\<close>; the reply goes to the sender whose packet it was.\<close>

definition rcv_turn ::
  "xfer_env \<Rightarrow> ('e \<Rightarrow> int \<Rightarrow> (int \<times> 'e option) option) \<Rightarrow> (md_heap \<Rightarrow> nat) \<Rightarrow> md_entry \<Rightarrow> nat \<Rightarrow> 'e xfer_node list \<Rightarrow>
   'e xfer_node list option" where
  "rcv_turn X reset alloc cell b C =
     (let n = C ! b; s = xn_snd n in
      case xn_rcv n of
        Await (Suc m) \<Rightarrow>
          if xn_pc n = Listening then Some C
          else (case xn_in n of
              [] \<Rightarrow> Some C
            | (c, p) # q \<Rightarrow> do {
                f \<leftarrow> receive_packet X reset alloc cell p \<lparr>rv_sv = sd_sv s, rv_store = sd_store s, rv_replies = [], rv_status = Running\<rparr>;
                let r = flow_state f;
                let C = C[b := n\<lparr>xn_snd := s\<lparr>sd_sv := rv_sv r, sd_store := rv_store r\<rparr>, xn_in := q,
                  xn_rcv := (case f of Leave _ \<Rightarrow> Rcv_died | Next _ \<Rightarrow> Await m)\<rparr>];
                Some (C[c := (C ! c)\<lparr>xn_snd := (xn_snd (C ! c))\<lparr>sd_replies := sd_replies (xn_snd (C ! c)) @ rv_replies r\<rparr>\<rparr>])
              })
      | _ \<Rightarrow> Some C)"

fun xfer_turn ::
  "xfer_env \<Rightarrow> ('e \<Rightarrow> int \<Rightarrow> (int \<times> 'e option) option) \<Rightarrow> (md_heap \<Rightarrow> nat) \<Rightarrow> md_entry \<Rightarrow> string list \<Rightarrow> nat \<Rightarrow> int \<times> mlt option \<Rightarrow>
   (nat \<Rightarrow> nat \<Rightarrow> int) \<Rightarrow> u32 list \<Rightarrow> u32 list \<Rightarrow> thread \<Rightarrow> 'e xfer_node list \<Rightarrow> 'e xfer_node list option" where
  "xfer_turn X reset alloc cell hs N init_result fill ids vers (Snd a) C =
     (if a < length C then snd_turn X reset hs N init_result fill ids vers a C else Some C)"
| "xfer_turn X reset alloc cell hs N init_result fill ids vers (Rcv b) C =
     (if b < length C then rcv_turn X reset alloc cell b C else Some C)"

text \<open>A cluster before the table arrives.\<close>

definition xfer_node_start :: "'e server \<Rightarrow> store \<Rightarrow> 'e xfer_node" where
  "xfer_node_start sv st = \<lparr>xn_snd = \<lparr>sd_sv = sv, sd_store = st, sd_file = [], sd_line = -1, sd_id = [], sd_replies = [],
      sd_sent = [], sd_status = Running\<rparr>, xn_args = args_new 0 (\<lambda>_. 0) (\<lambda>_. 0), xn_pc = Listening, xn_rcv = Await 0, xn_in = []\<rparr>"

definition xfer_start :: "nat \<Rightarrow> (nat \<Rightarrow> 'e server) \<Rightarrow> (nat \<Rightarrow> store) \<Rightarrow> 'e xfer_node list" where
  "xfer_start nb S D = map (\<lambda>a. xfer_node_start (S a) (D a)) [0..<nb]"

section \<open>Which threads can go on\<close>

fun can_turn :: "thread \<Rightarrow> 'e xfer_node list \<Rightarrow> bool" where
  "can_turn (Snd a) C = (case xn_pc (C ! a) of
      Listening \<Rightarrow> True | Seek k \<Rightarrow> True | Pack k \<Rightarrow> True | Wait k \<Rightarrow> sd_replies (xn_snd (C ! a)) \<noteq> [] | _ \<Rightarrow> False)"
| "can_turn (Rcv b) C = (xn_pc (C ! b) \<noteq> Listening \<and> xn_in (C ! b) \<noteq> [] \<and> (case xn_rcv (C ! b) of Await (Suc m) \<Rightarrow> True | _ \<Rightarrow> False))"

lemma idle_turn: "\<not> can_turn t C \<Longrightarrow> xfer_turn X reset alloc cell hs N init_result fill ids vers t C = Some C"
  by (cases t) (auto simp: snd_turn_def rcv_turn_def Let_def split: snd_pc.splits rcv_pc.splits nat.splits list.splits)


section \<open>The invariant\<close>

text \<open>The list of a sender, how many entries it has sent, and whether the last packet is not answered yet.\<close>

definition xn_list :: "'e xfer_node \<Rightarrow> (int \<times> nat) list" where
  "xn_list n = map (\<lambda>j. (servers (xn_args n) ! j, nat (entries (xn_args n) ! j))) [0..<nat (t_size (xn_args n))]"

definition sent_count :: "'e xfer_node \<Rightarrow> nat" where
  "sent_count n = (case xn_pc n of
     Seek k \<Rightarrow> k | Pack k \<Rightarrow> k | Wait k \<Rightarrow> Suc k | Ended \<Rightarrow> length (xn_list n) | _ \<Rightarrow> 0)"

definition in_flight :: "'e xfer_node \<Rightarrow> bool" where
  "in_flight n \<longleftrightarrow> (case xn_pc n of Wait k \<Rightarrow> sd_replies (xn_snd n) = [] | _ \<Rightarrow> False)"

text \<open>The entries that have left the server, and the moves that are complete.\<close>

definition gone :: "'e xfer_node \<Rightarrow> nat set" where
  "gone n = snd ` set (take (sent_count n) (xn_list n))"

definition landed :: "'e xfer_node \<Rightarrow> (int \<times> nat) set" where
  "landed n = set (take (if in_flight n then sent_count n - 1 else sent_count n) (xn_list n))"

definition got :: "'e xfer_node list \<Rightarrow> nat \<Rightarrow> nat set" where
  "got C b = {i. \<exists>c < length C. (int b, i) \<in> landed (C ! c)}"

definition names_now ::
  "nat \<Rightarrow> (nat \<Rightarrow> int \<times> int \<times> int) \<Rightarrow> (nat \<Rightarrow> string list) \<Rightarrow> nat \<Rightarrow> nat set \<Rightarrow> nat set \<Rightarrow> string list list" where
  "names_now N old K a A B =
     map (\<lambda>i. if i \<in> B then rev (K i) else if i \<in> A \<or> fst (old i) \<noteq> int a then [] else K i) [0..<N]"

fun pc_ok :: "(int \<times> nat) list \<Rightarrow> 'e sender \<Rightarrow> snd_pc \<Rightarrow> bool" where
  "pc_ok ys s Listening = (sd_replies s = [])"
| "pc_ok ys s (Seek k) = (sd_replies s = [] \<and> k \<le> length ys \<and> (\<forall>m. k \<le> m \<longrightarrow> m < length ys \<longrightarrow> sd_line s \<le> fst (ys ! m)))"
| "pc_ok ys s (Pack k) = (sd_replies s = [] \<and> k < length ys \<and> sd_line s = fst (ys ! k))"
| "pc_ok ys s (Wait k) = ((sd_replies s = [] \<or> sd_replies s = [''done'']) \<and> k < length ys \<and> sd_line s = fst (ys ! k))"
| "pc_ok ys s Ended = (sd_replies s = [])"
| "pc_ok ys s Snd_died = False"

text \<open>
  The server \<open>a\<close> when it has received the entries \<open>B\<close>. Its names are those it had, without the entries sent and with
  those received; the flags of both are cleared.
\<close>

definition shared_ok ::
  "('e \<Rightarrow> bool) \<Rightarrow> ('e \<Rightarrow> nat) \<Rightarrow> nat \<Rightarrow> (nat \<Rightarrow> int \<times> int \<times> int) \<Rightarrow> (nat \<Rightarrow> int \<times> int \<times> int) \<Rightarrow> (nat \<Rightarrow> string list) \<Rightarrow>
   store \<Rightarrow> nat \<Rightarrow> nat set \<Rightarrow> nat set \<Rightarrow> bool \<Rightarrow> 'e server \<Rightarrow> store \<Rightarrow> bool" where
  "shared_ok good len N old new K st0 a A B fresh sv st \<longleftrightarrow>
     server_ok good len N sv (names_now N old K a A B) \<and> sv_self sv = int a \<and> finite (dom (sv_heap sv)) \<and>
     (\<forall>i < N. mlt_row (sv_table sv) i =
        (if fresh then old i else if i \<in> A \<union> B then settled_row old new i else updated_row (int a) old new i)) \<and>
     (\<forall>m. stored st m = (if \<exists>i \<in> B. m \<in> set (K i) then Some ''a word'' else if \<exists>i \<in> A. m \<in> set (K i) then None else stored st0 m))"

definition threads_ok ::
  "nat \<Rightarrow> string list \<Rightarrow> (nat \<Rightarrow> int \<times> int \<times> int) \<Rightarrow> (nat \<Rightarrow> int \<times> int \<times> int) \<Rightarrow> nat \<Rightarrow> nat set \<Rightarrow> 'e xfer_node \<Rightarrow> bool" where
  "threads_ok N hs old new a B n \<longleftrightarrow> (let s = xn_snd n; ys = xn_list n in
     sd_status s = Running \<and> pc_ok ys s (xn_pc n) \<and>
     (if xn_pc n = Listening then B = {} \<and> xn_rcv n = Await 0
      else args_hold N (xn_args n) ys \<and> mset ys = mset (sends (int a) old new N) \<and> sorted (map fst ys) \<and>
        at_line hs (sd_file s) (sd_line s) (sd_id s) \<and>
        xn_rcv n = Await (length (receives (int a) old new N) - card B)))"

definition node_ok ::
  "('e \<Rightarrow> bool) \<Rightarrow> ('e \<Rightarrow> nat) \<Rightarrow> nat \<Rightarrow> string list \<Rightarrow> (nat \<Rightarrow> int \<times> int \<times> int) \<Rightarrow> (nat \<Rightarrow> int \<times> int \<times> int) \<Rightarrow>
   (nat \<Rightarrow> string list) \<Rightarrow> store \<Rightarrow> nat \<Rightarrow> nat set \<Rightarrow> 'e xfer_node \<Rightarrow> bool" where
  "node_ok good len N hs old new K st0 a B n \<longleftrightarrow>
     shared_ok good len N old new K st0 a (gone n) B (xn_pc n = Listening) (sd_sv (xn_snd n)) (sd_store (xn_snd n)) \<and>
     threads_ok N hs old new a B n"

text \<open>The packets in the socket of the server \<open>b\<close>: one for each sender that waits for its answer.\<close>

definition socket_ok :: "(nat \<Rightarrow> string list) \<Rightarrow> 'e xfer_node list \<Rightarrow> nat \<Rightarrow> bool" where
  "socket_ok K C b \<longleftrightarrow> distinct (map fst (xn_in (C ! b))) \<and>
     (\<forall>(c, p) \<in> set (xn_in (C ! b)). c < length C \<and> in_flight (C ! c) \<and>
        (\<exists>i. xn_list (C ! c) ! (sent_count (C ! c) - 1) = (int b, i) \<and> carries p (i, K i))) \<and>
     (\<forall>c < length C. in_flight (C ! c) \<longrightarrow> fst (xn_list (C ! c) ! (sent_count (C ! c) - 1)) = int b \<longrightarrow>
        c \<in> fst ` set (xn_in (C ! b)))"

definition cluster_ok ::
  "('e \<Rightarrow> bool) \<Rightarrow> ('e \<Rightarrow> nat) \<Rightarrow> nat \<Rightarrow> nat \<Rightarrow> string list \<Rightarrow> (nat \<Rightarrow> int \<times> int \<times> int) \<Rightarrow> (nat \<Rightarrow> int \<times> int \<times> int) \<Rightarrow>
   (nat \<Rightarrow> string list) \<Rightarrow> (nat \<Rightarrow> store) \<Rightarrow> 'e xfer_node list \<Rightarrow> bool" where
  "cluster_ok good len N nb hs old new K D C \<longleftrightarrow> length C = nb \<and>
     (\<forall>a < nb. node_ok good len N hs old new K (D a) a (got C a) (C ! a) \<and> socket_ok K C a)"

text \<open>What the cluster needs: a system on which everything works, addresses, keys and a table that may be installed.\<close>

definition xfer_ctx ::
  "xfer_env \<Rightarrow> (md_heap \<Rightarrow> nat) \<Rightarrow> nat \<Rightarrow> nat \<Rightarrow> string list \<Rightarrow> (nat \<Rightarrow> int \<times> int \<times> int) \<Rightarrow> u32 list \<Rightarrow> u32 list \<Rightarrow>
   (nat \<Rightarrow> string list) \<Rightarrow> (nat \<Rightarrow> store) \<Rightarrow> bool" where
  "xfer_ctx X alloc N nb hs old ids vers K D \<longleftrightarrow>
     xfer_fine X \<and> xe_hosts X = Some (text_file hs) \<and> fresh_alloc alloc \<and> hosts_ok hs \<and> distinct hs \<and> nb \<le> length hs \<and>
     0 < N \<and> int N \<le> INT_MAX \<and> keys_ok N K \<and> good_move N nb old (message_row ids vers) \<and> length ids = N \<and> length vers = N \<and>
     (\<forall>a < nb. length (sends (int a) old (message_row ids vers) N) < N) \<and>
     (\<forall>a < nb. \<forall>n. stored (D a) n \<noteq> None \<longleftrightarrow> (\<exists>i < N. fst (old i) = int a \<and> n \<in> set (K i)))"

section \<open>A list of entries to send\<close>

lemma xn_list_args: "args_hold N (xn_args n) ys \<Longrightarrow> xn_list n = ys"
  by (auto simp: xn_list_def args_hold_def intro!: nth_equalityI)

lemma list_entry:
  assumes m: "good_move N nb old new" and T: "threads_ok N hs old new a B n" and pc: "xn_pc n \<noteq> Listening" and bi: "(b, i) \<in> set (xn_list n)"
  shows "i < N" "changed old new i" "fst (old i) = int a" "b = fst (new i)" "0 \<le> b" "b < int nb" "b \<noteq> int a"
proof -
  have "mset (xn_list n) = mset (sends (int a) old new N)" using T pc by (simp add: threads_ok_def Let_def)
  then have "(b, i) \<in> set (sends (int a) old new N)" using bi by (metis mset_eq_setD)
  then show i: "i < N" "changed old new i" "fst (old i) = int a" "b = fst (new i)" by (simp_all add: in_sends)
  then show "0 \<le> b" "b < int nb" "b \<noteq> int a" using m by (auto simp: good_move_def)
qed

lemma list_distinct:
  assumes T: "threads_ok N hs old new a B n" and pc: "xn_pc n \<noteq> Listening"
  shows "distinct (map snd (xn_list n))"
proof -
  have "mset (map snd (xn_list n)) = mset (map snd (sends (int a) old new N))" using T pc by (simp add: threads_ok_def Let_def)
  moreover have "distinct (map snd (sends (int a) old new N))" by (simp add: sends_def comp_def distinct_map inj_on_def)
  ultimately show ?thesis by (metis mset_eq_imp_distinct_iff)
qed

lemma next_not_gone:
  assumes "distinct (map snd ys)" and "k < length ys"
  shows "snd (ys ! k) \<notin> snd ` set (take k ys)"
proof
  assume "snd (ys ! k) \<in> snd ` set (take k ys)"
  then obtain m where "m < k" "snd (ys ! m) = snd (ys ! k)" using assms(2) by (auto simp: in_set_conv_nth)
  then show False using assms nth_eq_iff_index_eq [of "map snd ys" m k] by simp
qed

lemma landed_sub: "landed n \<subseteq> set (xn_list n)"
  by (auto simp: landed_def dest: in_set_takeD split: if_splits)

lemma landed_Listening: "xn_pc n = Listening \<Longrightarrow> landed n = {}"
  by (simp add: landed_def sent_count_def in_flight_def)

text \<open>What a server has received was for it, and came from the server that had it.\<close>

lemma got_entry:
  assumes m: "good_move N nb old new" and T: "\<forall>c < length C. threads_ok N hs old new c (G c) (C ! c)" and i: "i \<in> got C b"
  shows "i < N" "changed old new i" "fst (new i) = int b" "fst (old i) \<noteq> int b"
proof -
  obtain c where c: "c < length C" "(int b, i) \<in> landed (C ! c)" using i by (auto simp: got_def)
  then have pc: "xn_pc (C ! c) \<noteq> Listening" using landed_Listening by auto
  have e: "(int b, i) \<in> set (xn_list (C ! c))" using c(2) landed_sub by blast
  have Tc: "threads_ok N hs old new c (G c) (C ! c)" using T c(1) by simp
  note l = list_entry [OF m Tc pc e]
  show "i < N" "changed old new i" "fst (new i) = int b" using l(1,2,4) by simp_all
  show "fst (old i) \<noteq> int b" using l(3,7) by simp
qed

lemma got_sub:
  assumes m: "good_move N nb old new" and T: "\<forall>c < length C. threads_ok N hs old new c (G c) (C ! c)"
  shows "got C b \<subseteq> snd ` set (receives (int b) old new N)"
  using got_entry [OF m T] by (auto simp: snd_receives)


section \<open>Turns of one server\<close>

lemma sends_old_cong: "(\<And>i. i < n \<Longrightarrow> old i = old' i) \<Longrightarrow> sends self old new n = sends self old' new n"
  and receives_old_cong: "(\<And>i. i < n \<Longrightarrow> old i = old' i) \<Longrightarrow> receives self old new n = receives self old' new n"
  by (induction n) (auto simp: sends_Suc receives_Suc sends_0 receives_0 changed_def)

lemma gone_simps [simp]: "xn_pc n = Listening \<Longrightarrow> gone n = {}" "xn_pc n = Seek 0 \<Longrightarrow> gone n = {}"
  by (simp_all add: gone_def sent_count_def)

lemma xn_list_upd [simp]: "xn_list (n\<lparr>xn_snd := s\<rparr>) = xn_list n" "xn_list (n\<lparr>xn_pc := pc\<rparr>) = xn_list n"
  "xn_list (n\<lparr>xn_in := q\<rparr>) = xn_list n" "xn_list (n\<lparr>xn_rcv := r\<rparr>) = xn_list n"
  by (simp_all add: xn_list_def)

lemma size_xn_list: "args_hold N (xn_args n) ys \<Longrightarrow> t_size (xn_args n) = int (length (xn_list n))"
  by (simp add: xn_list_args) (simp add: args_hold_def)

lemma begin_ok:
  assumes ctx: "xfer_ctx X alloc N nb hs old ids vers K D" and new: "new = message_row ids vers" and a: "a < nb"
    and n: "node_ok good len N hs old new K (D a) a B n" and pc: "xn_pc n = Listening"
  shows "\<exists>n'. xfer_begin X N (mlt_init True True True 0 True (int N) 1) fill ids vers n = Some n' \<and>
    node_ok good len N hs old new K (D a) a B n' \<and> xn_pc n' = Seek 0 \<and> xn_in n' = xn_in n"
proof -
  note c = ctx [unfolded xfer_ctx_def, folded new]
  let ?sv = "sd_sv (xn_snd n)"
  have B: "B = {}" and T: "sd_status (xn_snd n) = Running" "sd_replies (xn_snd n) = []"
    using n pc by (simp_all add: node_ok_def threads_ok_def Let_def)
  have S: "server_ok good len N ?sv (names_now N old K a {} {})" "sv_self ?sv = int a" "finite (dom (sv_heap ?sv))"
    "\<And>i. i < N \<Longrightarrow> mlt_row (sv_table ?sv) i = old i" "\<And>m. stored (sd_store (xn_snd n)) m = stored (D a) m"
    using n pc by (simp_all add: node_ok_def shared_ok_def B)
  have X: "xe_lock X = locks_work" "xe_hosts X = Some (text_file hs)" "xe_malloc X" "xe_asprintf X" "xe_socket X"
    using c by (simp_all add: xfer_fine_def)
  have tab: "mlt_wf (sv_table ?sv)" "mlt_len (sv_table ?sv) = N" using S(1) by (simp_all add: server_ok_def)
  have pos: "\<forall>i < N. 0 \<le> int_of_u32 (ids ! i)"
    using c by (auto simp: good_move_def new message_row_def)
  have own1: "sends (int a) (mlt_row (sv_table ?sv)) new N = sends (int a) old new N"
    by (rule sends_old_cong) (rule S(4))
  have own2: "receives (int a) (mlt_row (sv_table ?sv)) new N = receives (int a) old new N"
    by (rule receives_old_cong) (rule S(4))
  have lens: "0 < N" "int N \<le> INT_MAX" "length ids = N" "length vers = N" using c by simp_all
  obtain t ts tr where u: "update_table locks_work N (int a) (mlt_init True True True 0 True (int N) 1) fill ids vers (sv_table ?sv) = Some (t, ts, tr)"
    "mlt_wf t" "mlt_len t = N" "args_hold N ts (sends (int a) old new N)" "args_hold N tr (receives (int a) old new N)"
    "\<forall>i < N. mlt_row t i = updated_row (int a) (mlt_row (sv_table ?sv)) new i"
    using update_table_ok [OF lens(1,2) tab lens(3,4) pos, of "int a" fill] unfolding new [symmetric] own1 own2 by blast
  obtain l ys where l: "sort_to_send ts = Some l" "args_hold N l ys" "mset ys = mset (sends (int a) old new N)" "sorted (map fst ys)"
    using sort_to_send_ok [OF u(4)] by blast
  let ?s = "(xn_snd n)\<lparr>sd_sv := ?sv\<lparr>sv_table := t\<rparr>, sd_line := -1, sd_id := [], sd_status := Running, sd_file := text_file hs\<rparr>"
  let ?n = "n\<lparr>xn_snd := ?s, xn_args := l, xn_pc := Seek 0, xn_rcv := Await (nat (t_size tr))\<rparr>"
  have "xfer_begin X N (mlt_init True True True 0 True (int N) 1) fill ids vers n = Some ?n"
    using u(1) l(1) X S(2) by (simp add: xfer_begin_def Let_def)
  moreover have "node_ok good len N hs old new K (D a) a B ?n"
  proof -
    have ys: "xn_list ?n = ys" by (rule xn_list_args) (use l(2) in simp)
    have "fst (ys ! m) \<ge> 0" if "m < length ys" for m
    proof -
      have "ys ! m \<in> set (sends (int a) old new N)" using that l(3) by (metis mset_eq_setD nth_mem)
      then have "(fst (ys ! m), snd (ys ! m)) \<in> set (sends (int a) old new N)" by simp
      then obtain i where "i < N" "fst (ys ! m) = fst (new i)" unfolding in_sends by blast
      then show ?thesis using c by (auto simp: good_move_def)
    qed
    then have "pc_ok ys ?s (Seek 0)" using T(2) by (force intro: order_trans)
    moreover have "at_line hs (text_file hs) (-1) []" by (simp add: at_line_def)
    moreover have "nat (t_size tr) = length (receives (int a) old new N)" using u(5) by (rule args_hold_size)
    ultimately have "threads_ok N hs old new a B ?n" using l ys by (simp add: threads_ok_def Let_def B)
    moreover have "\<forall>i < N. mlt_row t i = updated_row (int a) old new i"
      using u(6) S(4) by (simp add: updated_row_def changed_def)
    then have "shared_ok good len N old new K (D a) a {} B False (?sv\<lparr>sv_table := t\<rparr>) (sd_store (xn_snd n))"
      using S u(2,3) by (simp add: shared_ok_def B server_ok_def)
    ultimately show ?thesis by (simp add: node_ok_def)
  qed
  ultimately show ?thesis by (intro exI [of _ ?n]) simp
qed

lemma seek_ok:
  assumes ctx: "xfer_ctx X alloc N nb hs old ids vers K D" and new: "new = message_row ids vers"
    and n: "node_ok good len N hs old new K (D a) a B n" and pc: "xn_pc n = Seek k" "k < length (xn_list n)"
  shows "\<exists>s'. seek_server X (xn_args n) k (xn_snd n) = Some (Next s') \<and> node_ok good len N hs old new K (D a) a B (n\<lparr>xn_snd := s', xn_pc := Pack k\<rparr>)"
proof -
  note c = ctx [unfolded xfer_ctx_def, folded new]
  let ?s = "xn_snd n" and ?ys = "xn_list n"
  have T: "threads_ok N hs old new a B n" using n by (simp add: node_ok_def)
  note T' = T [unfolded threads_ok_def Let_def pc(1)]
  obtain b i where bi: "?ys ! k = (b, i)" by (cases "?ys ! k")
  then have "(b, i) \<in> set ?ys" using pc(2) nth_mem by metis
  then have b: "b < int nb" using list_entry(6) [OF _ T] pc(1) c by (metis snd_pc.distinct(1))
  have hs: "hosts_ok hs" "b < int (length hs)" using c b by auto
  have pos: "at_line hs (sd_file ?s) (sd_line ?s) (sd_id ?s)" using T' by simp
  have le: "sd_line ?s \<le> b" using T' pc(2) bi by force
  obtain fl nm where f: "find_line b (sd_file ?s) (sd_line ?s) (sd_id ?s) = Some (Next (fl, b, nm))" "at_line hs fl b nm"
    using find_line_ok [OF hs(1) pos le hs(2)] by blast
  have srv: "k < length (servers (xn_args n))" "servers (xn_args n) ! k = b" using T' pc(2) bi by (auto simp: args_hold_def)
  let ?s' = "?s\<lparr>sd_file := fl, sd_line := b, sd_id := nm\<rparr>"
  have "seek_server X (xn_args n) k ?s = Some (Next ?s')" using f(1) srv c by (simp add: seek_server_def rd_in xfer_fine_def)
  moreover have "node_ok good len N hs old new K (D a) a B (n\<lparr>xn_snd := ?s', xn_pc := Pack k\<rparr>)"
    using n T' f(2) bi pc by (simp add: node_ok_def threads_ok_def Let_def gone_def sent_count_def)
  ultimately show ?thesis by blast
qed

lemma seek_end_ok:
  assumes n: "node_ok good len N hs old new K st0 a B n" and pc: "xn_pc n = Seek k" "\<not> k < length (xn_list n)"
  shows "node_ok good len N hs old new K st0 a B (n\<lparr>xn_pc := Ended\<rparr>)"
  using n pc by (auto simp: node_ok_def threads_ok_def Let_def gone_def sent_count_def)

lemma wait_ok:
  assumes ctx: "xfer_ctx X alloc N nb hs old ids vers K D" and new: "new = message_row ids vers" and a: "a < nb"
    and n: "node_ok good len N hs old new K (D a) a B n" and pc: "xn_pc n = Wait k" "sd_replies (xn_snd n) \<noteq> []"
  shows "\<exists>s' again. take_reply (xn_snd n) = Next s' \<and> same_server (xn_args n) k s' = Some again \<and>
    node_ok good len N hs old new K (D a) a B (n\<lparr>xn_snd := s', xn_pc := (if again then Pack (k + 1) else Seek (k + 1))\<rparr>)"
proof -
  note c = ctx [unfolded xfer_ctx_def, folded new]
  let ?s = "xn_snd n" and ?ys = "xn_list n" and ?l = "xn_args n"
  let ?s' = "?s\<lparr>sd_replies := []\<rparr>"
  have T: "threads_ok N hs old new a B n" using n by (simp add: node_ok_def)
  note T' = T [unfolded threads_ok_def Let_def pc(1)]
  have k: "k < length ?ys" "sd_line ?s = fst (?ys ! k)" "sd_replies ?s = [''done'']" using T' pc(2) by auto
  have "length ?ys < N" using T' c a by (metis mset_eq_length snd_pc.distinct(5))
  then have kN: "k + 1 < length (servers ?l)" "t_size ?l = int (length ?ys)" using T' k(1) by (auto simp: args_hold_def)
  define again where "again \<longleftrightarrow> servers ?l ! (k + 1) = sd_line ?s \<and> int (k + 1) < t_size ?l"
  have "take_reply ?s = Next ?s'" using k(3) by (simp add: take_reply_def)
  moreover have "same_server ?l k ?s' = Some again" using kN(1) by (simp add: same_server_def rd_in again_def)
  moreover have "node_ok good len N hs old new K (D a) a B (n\<lparr>xn_snd := ?s', xn_pc := (if again then Pack (k + 1) else Seek (k + 1))\<rparr>)"
  proof (cases again)
    case True
    then have "k + 1 < length ?ys" "fst (?ys ! (k + 1)) = sd_line ?s" using kN T' by (auto simp: again_def args_hold_def)
    then show ?thesis using n T' True pc by (simp add: node_ok_def threads_ok_def Let_def gone_def sent_count_def)
  next
    case False
    have "sd_line ?s \<le> fst (?ys ! m)" if "k + 1 \<le> m" "m < length ?ys" for m
      using T' that k(2) by (simp add: sorted_iff_nth_mono)
    then show ?thesis using n T' False pc k(1) by (simp add: node_ok_def threads_ok_def Let_def gone_def sent_count_def)
  qed
  ultimately show ?thesis by blast
qed


text \<open>An entry leaves a server, and an entry arrives.\<close>

lemma names_now_simps [simp]: "length (names_now N old K a A B) = N"
  "j < N \<Longrightarrow> names_now N old K a A B ! j = (if j \<in> B then rev (K j) else if j \<in> A \<or> fst (old j) \<noteq> int a then [] else K j)"
  by (simp_all add: names_now_def)

lemma names_leave: "i \<notin> B \<Longrightarrow> i < N \<Longrightarrow> (names_now N old K a A B)[i := []] = names_now N old K a (insert i A) B"
  by (rule nth_equalityI) (auto simp: nth_list_update)

lemma names_arrive: "i < N \<Longrightarrow> (names_now N old K a A B)[i := rev (K i)] = names_now N old K a A (insert i B)"
  by (rule nth_equalityI) (auto simp: nth_list_update)

lemma keys_apart: "keys_ok N K \<Longrightarrow> i < N \<Longrightarrow> j < N \<Longrightarrow> m \<in> set (K i) \<Longrightarrow> m \<in> set (K j) \<Longrightarrow> i = j"
  by (auto simp: keys_ok_def)

lemma gone_entry:
  assumes m: "good_move N nb old new" and T: "threads_ok N hs old new a B n" and pc: "xn_pc n \<noteq> Listening" and j: "j \<in> gone n"
  shows "j < N" "changed old new j" "fst (old j) = int a"
proof -
  obtain b where "(b, j) \<in> set (xn_list n)" using j by (auto simp: gone_def dest: in_set_takeD)
  from list_entry [OF m T pc this] show "j < N" "changed old new j" "fst (old j) = int a" by blast+
qed

context served_list
begin

lemma out_ok:
  assumes ctx: "xfer_ctx X alloc N nb hs old ids vers K D" and new: "new = message_row ids vers" and a: "a < nb"
    and n: "node_ok inv len N hs old new K (D a) a B n" and pc: "xn_pc n = Pack k" and bi: "xn_list n ! k = (b, i)"
    and B: "\<And>j. j \<in> B \<Longrightarrow> j < N \<and> fst (old j) \<noteq> int a"
  shows "\<exists>s' p. send_out X reset (xn_args n) k (xn_snd n) = Some (Next s') \<and> sd_sent s' = sd_sent (xn_snd n) @ [(hs ! nat b, p)] \<and>
    carries p (i, K i) \<and> sd_replies s' = [] \<and> node_ok inv len N hs old new K (D a) a B (n\<lparr>xn_snd := s', xn_pc := Wait k\<rparr>)"
proof -
  note c = ctx [unfolded xfer_ctx_def, folded new]
  let ?s = "xn_snd n" and ?ys = "xn_list n" and ?l = "xn_args n" and ?A = "gone n"
  let ?L = "names_now N old K a ?A B"
  have T: "threads_ok N hs old new a B n" using n by (simp add: node_ok_def)
  note T' = T [unfolded threads_ok_def Let_def pc]
  have S: "shared_ok inv len N old new K (D a) a ?A B False (sd_sv ?s) (sd_store ?s)" using n pc by (simp add: node_ok_def)
  note S' = S [unfolded shared_ok_def]
  have k: "k < length ?ys" "sd_line ?s = b" "sd_replies ?s = []" using T' bi by auto
  have move: "good_move N nb old new" and keys: "keys_ok N K" using c by blast+
  have pcl: "xn_pc n \<noteq> Listening" using pc by simp
  have "(b, i) \<in> set ?ys" using k(1) bi nth_mem by metis
  note e = list_entry [OF move T pcl this]
  have iA: "i \<notin> ?A" using next_not_gone [OF list_distinct [OF T pcl] k(1)] bi pc by (simp add: gone_def sent_count_def)
  have iB: "i \<notin> B" using B e(3) by blast
  have Li: "?L ! i = K i" using iA iB e(1,3) by simp
  have free: "\<not> (\<exists>j \<in> B. m \<in> set (K j))" "\<not> (\<exists>j \<in> ?A. m \<in> set (K j))" if "m \<in> set (K i)" for m
    using keys_apart [OF keys e(1) _ that] B gone_entry(1) [OF move T pcl] iA iB by blast+
  have st: "\<forall>m \<in> set (?L ! i). stored (sd_store ?s) m \<noteq> None"
  proof
    fix m assume m: "m \<in> set (?L ! i)"
    have "stored (sd_store ?s) m = (if \<exists>i \<in> B. m \<in> set (K i) then Some ''a word'' else if \<exists>i \<in> ?A. m \<in> set (K i) then None else stored (D a) m)"
      using S' by blast
    then have "stored (sd_store ?s) m = stored (D a) m" using free [OF m [unfolded Li]] by simp
    moreover have "stored (D a) m \<noteq> None \<longleftrightarrow> (\<exists>i < N. fst (old i) = int a \<and> m \<in> set (K i))" using c a by blast
    ultimately show "stored (sd_store ?s) m \<noteq> None" using m Li e(1,3) by auto
  qed
  have le: "k < length (entries ?l)" "entries ?l ! k = int i" using T' k(1) bi by (auto simp: args_hold_def)
  have X: "xfer_fine X" using c by blast
  have ok: "server_ok inv len N (sd_sv ?s) ?L" using S' by blast
  have nm: "names_ok (?L ! i)" using keys e(1) unfolding Li by (simp add: keys_ok_def)
  from send_out_ok [OF X ok e(1) le nm st] obtain s' p where s': "send_out X reset ?l k ?s = Some (Next s')"
    "sd_sent s' = sd_sent ?s @ [(sd_id ?s, p)]" "p_entry p = int i" "packet_text p = Some (joined (CHR '','') (?L ! i))"
    "server_ok inv len N (sd_sv s') (?L[i := []])" "sv_self (sd_sv s') = sv_self (sd_sv ?s)"
    "dom (sv_heap (sd_sv s')) \<subseteq> dom (sv_heap (sd_sv ?s))"
    "\<forall>j < N. mlt_row (sv_table (sd_sv s')) j =
       (if j = i then (fst (mlt_row (sv_table (sd_sv ?s)) i), fst (snd (mlt_row (sv_table (sd_sv ?s)) i)), 0)
        else mlt_row (sv_table (sd_sv ?s)) j)"
    "\<forall>n. stored (sd_store s') n = (if n \<in> set (?L ! i) then None else stored (sd_store ?s) n)"
    "sd_replies s' = sd_replies ?s" "sd_id s' = sd_id ?s" "sd_line s' = sd_line ?s" "sd_file s' = sd_file ?s" "sd_status s' = sd_status ?s"
    by (elim exE conjE) (rule that)
  let ?n = "n\<lparr>xn_snd := s', xn_pc := Wait k\<rparr>"
  have "take (Suc k) ?ys = take k ?ys @ [(b, i)]" using k(1) bi by (simp add: take_Suc_conv_app_nth)
  then have g: "gone ?n = insert i ?A" using pc by (auto simp: gone_def sent_count_def)
  have "sd_id ?s = hs ! nat b" using T' k(2) e(5) by (auto simp: at_line_def)
  moreover have "carries p (i, K i)" using s'(3,4) Li by (simp add: carries_def)
  moreover have "shared_ok inv len N old new K (D a) a (insert i ?A) B False (sd_sv s') (sd_store s')"
    unfolding shared_ok_def
  proof (intro conjI allI impI)
    show "server_ok inv len N (sd_sv s') (names_now N old K a (insert i ?A) B)" using s'(5) names_leave [OF iB e(1)] by simp
    show "sv_self (sd_sv s') = int a" using s'(6) S' by simp
    show "finite (dom (sv_heap (sd_sv s')))" using s'(7) S' finite_subset by blast
    fix j assume "j < N"
    then show "mlt_row (sv_table (sd_sv s')) j = (if False then old j else if j \<in> insert i ?A \<union> B then settled_row old new j else updated_row (int a) old new j)"
      using s'(8) S' e(1,2,3) iA iB by (auto simp: settled_row_def updated_row_def)
  next
    fix m
    show "stored (sd_store s') m = (if \<exists>i \<in> B. m \<in> set (K i) then Some ''a word'' else if \<exists>i \<in> insert i ?A. m \<in> set (K i) then None else stored (D a) m)"
    proof (cases "m \<in> set (K i)")
      case True
      then have "stored (sd_store s') m = None" using s'(9) unfolding Li by simp
      then show ?thesis using free [OF True] True by simp
    next
      case False
      then have "stored (sd_store s') m = stored (sd_store ?s) m" using s'(9) unfolding Li by simp
      moreover have "stored (sd_store ?s) m = (if \<exists>i \<in> B. m \<in> set (K i) then Some ''a word'' else if \<exists>i \<in> ?A. m \<in> set (K i) then None else stored (D a) m)"
        using S' by blast
      ultimately show ?thesis using False by simp
    qed
  qed
  moreover have "threads_ok N hs old new a B ?n" using T' k s'(10-) by (simp add: threads_ok_def Let_def bi)
  ultimately show ?thesis using s'(1,2,10) k(3) g by (intro exI [of _ s'] exI [of _ p]) (simp add: node_ok_def)
qed

lemma arrive_ok:
  assumes ctx: "xfer_ctx X alloc N nb hs old ids vers K D" and new: "new = message_row ids vers" and a: "a < nb"
    and n: "node_ok inv len N hs old new K (D a) a B n" and pc: "xn_pc n \<noteq> Listening" "xn_rcv n = Await (Suc m)"
    and B: "\<And>j. j \<in> B \<Longrightarrow> j < N" "finite B" and i: "i < N" "changed old new i" "fst (new i) = int a" "fst (old i) \<noteq> int a" "i \<notin> B"
    and p: "carries p (i, K i)"
  shows "\<exists>r. receive_packet X reset alloc cell p \<lparr>rv_sv = sd_sv (xn_snd n), rv_store = sd_store (xn_snd n), rv_replies = [], rv_status = Running\<rparr>
      = Some (Next r) \<and> rv_replies r = [''done''] \<and>
    node_ok inv len N hs old new K (D a) a (insert i B)
      (n\<lparr>xn_snd := (xn_snd n)\<lparr>sd_sv := rv_sv r, sd_store := rv_store r\<rparr>, xn_in := q, xn_rcv := Await m\<rparr>)"
proof -
  note c = ctx [unfolded xfer_ctx_def, folded new]
  let ?s = "xn_snd n" and ?A = "gone n"
  let ?L = "names_now N old K a ?A B" and ?r0 = "\<lparr>rv_sv = sd_sv ?s, rv_store = sd_store ?s, rv_replies = [], rv_status = Running\<rparr>"
  have T: "threads_ok N hs old new a B n" using n by (simp add: node_ok_def)
  note T' = T [unfolded threads_ok_def Let_def]
  have S: "shared_ok inv len N old new K (D a) a ?A B False (sd_sv ?s) (sd_store ?s)" using n pc by (simp add: node_ok_def)
  note S' = S [unfolded shared_ok_def]
  have move: "good_move N nb old new" and keys: "keys_ok N K" using c by blast+
  note gA = gone_entry [OF move T pc(1)]
  have iA: "i \<notin> ?A" using gA(3) i(4) by blast
  have Li: "?L ! i = []" using i by simp
  have free: "\<not> (\<exists>j \<in> B. w \<in> set (K j))" "\<not> (\<exists>j \<in> ?A. w \<in> set (K j))" if "w \<in> set (K i)" for w
    using keys_apart [OF keys i(1) _ that] B(1) gA(1) iA i(5) by blast+
  have st: "\<forall>w \<in> set (K i). stored (rv_store ?r0) w = None"
  proof
    fix w assume w: "w \<in> set (K i)"
    have "stored (sd_store ?s) w = (if \<exists>i \<in> B. w \<in> set (K i) then Some ''a word'' else if \<exists>i \<in> ?A. w \<in> set (K i) then None else stored (D a) w)"
      using S' by blast
    moreover have "\<not> (\<exists>j < N. fst (old j) = int a \<and> w \<in> set (K j))" using keys_apart [OF keys i(1) _ w] i(4) by blast
    then have "stored (D a) w = None" using c a by blast
    ultimately show "stored (rv_store ?r0) w = None" using free [OF w] by simp
  qed
  have X: "xfer_fine X" "fresh_alloc alloc" using c by blast+
  have ok: "server_ok inv len N (rv_sv ?r0) ?L" and fin: "finite (dom (sv_heap (rv_sv ?r0)))" using S' by simp_all
  have nm: "names_ok (K i)" using keys i(1) by (simp add: keys_ok_def)
  have p': "p_entry p = int i" "packet_text p = Some (joined (CHR '','') (K i))" using p by (simp_all add: carries_def)
  from receive_packet_ok [OF X ok i(1) fin p' nm st, of cell] obtain r where r: "receive_packet X reset alloc cell p ?r0 = Some (Next r)"
    "server_ok inv len N (rv_sv r) (?L[i := rev (K i) @ ?L ! i])" "finite (dom (sv_heap (rv_sv r)))"
    "sv_self (rv_sv r) = sv_self (rv_sv ?r0)"
    "\<forall>j < N. mlt_row (sv_table (rv_sv r)) j =
       (if j = i then (fst (mlt_row (sv_table (rv_sv ?r0)) i), fst (snd (mlt_row (sv_table (rv_sv ?r0)) i)), 0)
        else mlt_row (sv_table (rv_sv ?r0)) j)"
    "\<forall>n. stored (rv_store r) n = (if n \<in> set (K i) then Some ''a word'' else stored (rv_store ?r0) n)" "rv_replies r = rv_replies ?r0 @ [''done'']"
    by (elim exE conjE) (rule that)
  let ?n = "n\<lparr>xn_snd := ?s\<lparr>sd_sv := rv_sv r, sd_store := rv_store r\<rparr>, xn_in := q, xn_rcv := Await m\<rparr>"
  have g: "gone ?n = ?A" by (cases "xn_pc n") (simp_all add: gone_def sent_count_def)
  have "shared_ok inv len N old new K (D a) a ?A (insert i B) False (rv_sv r) (rv_store r)"
    unfolding shared_ok_def
  proof (intro conjI allI impI)
    show "server_ok inv len N (rv_sv r) (names_now N old K a ?A (insert i B))" using r(2) names_arrive [OF i(1)] Li by simp
    show "sv_self (rv_sv r) = int a" using r(4) S' by simp
    show "finite (dom (sv_heap (rv_sv r)))" by (rule r(3))
    fix j assume "j < N"
    then show "mlt_row (sv_table (rv_sv r)) j = (if False then old j else if j \<in> ?A \<union> insert i B then settled_row old new j else updated_row (int a) old new j)"
      using r(5) S' i iA by (auto simp: settled_row_def updated_row_def)
  next
    fix w
    show "stored (rv_store r) w = (if \<exists>i \<in> insert i B. w \<in> set (K i) then Some ''a word'' else if \<exists>i \<in> ?A. w \<in> set (K i) then None else stored (D a) w)"
      using r(6) S' by auto
  qed
  moreover have "threads_ok N hs old new a (insert i B) ?n" using T' pc B(2) i(5) by (cases "xn_pc n") (auto simp: threads_ok_def Let_def)
  ultimately show ?thesis using r(1,7) g pc(1) by (intro exI [of _ r]) (simp add: node_ok_def)
qed

end


section \<open>Turns in the cluster\<close>

definition node_weight :: "nat \<Rightarrow> 'e xfer_node \<Rightarrow> nat" where
  "node_weight m n = (case xn_pc n of
     Listening \<Rightarrow> 4 * m + 2 | Seek k \<Rightarrow> 4 * (m - k) + 1 | Pack k \<Rightarrow> 4 * (m - k)
   | Wait k \<Rightarrow> 4 * (m - k) - (if sd_replies (xn_snd n) = [] then 1 else 2) | _ \<Rightarrow> 0)"

definition xfer_weight :: "nat \<Rightarrow> (nat \<Rightarrow> int \<times> int \<times> int) \<Rightarrow> (nat \<Rightarrow> int \<times> int \<times> int) \<Rightarrow> 'e xfer_node list \<Rightarrow> nat" where
  "xfer_weight N old new C = (\<Sum>a < length C. node_weight (length (sends (int a) old new N)) (C ! a))"

lemma weight_less:
  assumes "length C' = length C" and "a < length C"
    and "node_weight (length (sends (int a) old new N)) (C' ! a) < node_weight (length (sends (int a) old new N)) (C ! a)"
    and "\<And>c. c < length C \<Longrightarrow> c \<noteq> a \<Longrightarrow> xn_pc (C' ! c) = xn_pc (C ! c) \<and> sd_replies (xn_snd (C' ! c)) = sd_replies (xn_snd (C ! c))"
  shows "xfer_weight N old new C' < xfer_weight N old new C"
  unfolding xfer_weight_def assms(1)
proof (rule sum_strict_mono_ex1)
  show "\<forall>c \<in> {..<length C}. node_weight (length (sends (int c) old new N)) (C' ! c) \<le> node_weight (length (sends (int c) old new N)) (C ! c)"
  proof
    fix c assume "c \<in> {..<length C}"
    then show "node_weight (length (sends (int c) old new N)) (C' ! c) \<le> node_weight (length (sends (int c) old new N)) (C ! c)"
      using assms(3) assms(4) [of c] by (cases "c = a") (simp_all add: node_weight_def split: snd_pc.splits)
  qed
qed (use assms(2,3) in auto)

lemma cluster_threads: "cluster_ok good len N nb hs old new K D C \<Longrightarrow> \<forall>c < length C. threads_ok N hs old new c (got C c) (C ! c)"
  by (simp add: cluster_ok_def node_ok_def)

lemma got_same:
  assumes "length C' = length C" and "\<And>c. c < length C \<Longrightarrow> landed (C' ! c) = landed (C ! c)"
  shows "got C' b = got C b"
  using assms by (auto simp: got_def)

lemma cluster_upd:
  assumes C: "cluster_ok good len N nb hs old new K D C" and a: "a < nb"
    and n': "landed n' = landed (C ! a)" "\<not> in_flight n'" "\<not> in_flight (C ! a)" "xn_in n' = xn_in (C ! a)"
    and ok: "node_ok good len N hs old new K (D a) a (got C a) n'"
  shows "cluster_ok good len N nb hs old new K D (C[a := n'])"
proof -
  let ?C = "C[a := n']"
  have len: "length C = nb" using C by (simp add: cluster_ok_def)
  have g: "got ?C b = got C b" for b
  proof (rule got_same)
    show "landed (?C ! c) = landed (C ! c)" if "c < length C" for c
      using that n'(1) by (cases "c = a") simp_all
  qed simp
  have same: "?C ! c = C ! c" if "in_flight (C ! c)" for c using that n'(3) by (cases "c = a") simp_all
  have fl: "in_flight (?C ! c) \<longleftrightarrow> in_flight (C ! c)" for c
    using n'(2,3) len a by (cases "c = a") simp_all
  have "socket_ok K ?C b" if b: "b < nb" for b
  proof -
    have q: "xn_in (?C ! b) = xn_in (C ! b)" using n'(4) len a by (cases "b = a") simp_all
    have "socket_ok K C b" using C b by (simp add: cluster_ok_def)
    then show ?thesis unfolding socket_ok_def q length_list_update fl using same by (auto split: prod.splits)
  qed
  moreover have "node_ok good len N hs old new K (D c) c (got C c) (?C ! c)" if "c < nb" for c
    using C ok len that by (cases "c = a") (simp_all add: cluster_ok_def)
  ultimately show ?thesis using len g by (simp add: cluster_ok_def)
qed

lemma find_host:
  assumes "distinct hs" and "b < length hs" and "b < m"
  shows "find (\<lambda>j. hs ! j = hs ! b) [0..<min (length hs) m] = Some b"
proof -
  have "find (\<lambda>j. hs ! j = hs ! b) [0..<min (length hs) m] = find (\<lambda>j. j = b) [0..<min (length hs) m]"
    by (rule find_cong) (use assms nth_eq_iff_index_eq [OF assms(1)] in auto)
  also have "\<dots> = Some b" unfolding find_Some_iff by (rule exI [of _ b]) (use assms(2,3) in simp)
  finally show ?thesis .
qed

lemma node_ok_in: "node_ok good len N hs old new K st0 a B (n\<lparr>xn_in := q\<rparr>) = node_ok good len N hs old new K st0 a B n"
  by (simp add: node_ok_def threads_ok_def gone_def sent_count_def Let_def cong: snd_pc.case_cong)

lemma in_upd [simp]: "in_flight (n\<lparr>xn_in := q\<rparr>) = in_flight n" "sent_count (n\<lparr>xn_in := q\<rparr>) = sent_count n"
  "landed (n\<lparr>xn_in := q\<rparr>) = landed n"
  by (simp_all add: in_flight_def sent_count_def landed_def cong: snd_pc.case_cong)

lemma socketD:
  assumes "socket_ok K C b" and "(c, p) \<in> set (xn_in (C ! b))"
  shows "c < length C \<and> in_flight (C ! c) \<and> (\<exists>i. xn_list (C ! c) ! (sent_count (C ! c) - 1) = (int b, i) \<and> carries p (i, K i))"
proof -
  have "\<forall>(c, p) \<in> set (xn_in (C ! b)). c < length C \<and> in_flight (C ! c) \<and>
      (\<exists>i. xn_list (C ! c) ! (sent_count (C ! c) - 1) = (int b, i) \<and> carries p (i, K i))"
    using assms(1) by (simp add: socket_ok_def)
  from bspec [OF this assms(2)] show ?thesis by simp
qed

text \<open>A packet is sent.\<close>

lemma cluster_out:
  assumes C: "cluster_ok good len N nb hs old new K D C" and a: "a < nb" and b: "b < nb" "b \<noteq> a"
    and pc: "xn_pc (C ! a) = Pack k" "xn_pc n' = Wait k" and bi: "xn_list (C ! a) ! k = (int b, i)" "xn_list n' = xn_list (C ! a)" "k < length (xn_list (C ! a))"
    and n': "sd_replies (xn_snd n') = []" "xn_in n' = xn_in (C ! a)" "carries p (i, K i)"
    and ok: "node_ok good len N hs old new K (D a) a (got C a) n'"
  shows "cluster_ok good len N nb hs old new K D ((C[a := n'])[b := (C ! b)\<lparr>xn_in := xn_in (C ! b) @ [(a, p)]\<rparr>])"
proof -
  let ?nb = "(C ! b)\<lparr>xn_in := xn_in (C ! b) @ [(a, p)]\<rparr>" and ?C = "(C[a := n'])[b := (C ! b)\<lparr>xn_in := xn_in (C ! b) @ [(a, p)]\<rparr>]"
  have len: "length C = nb" using C by (simp add: cluster_ok_def)
  have at: "?C ! c = (if c = a then n' else if c = b then ?nb else C ! c)" if "c < nb" for c
    using that len b by (simp add: nth_list_update)
  have fl: "in_flight n'" "\<not> in_flight (C ! a)" "sent_count n' = Suc k" "sent_count (C ! a) = k" using pc n'(1) by (simp_all add: in_flight_def sent_count_def)
  have "landed n' = landed (C ! a)" using fl bi(2) by (simp add: landed_def)
  then have "landed (?C ! c) = landed (C ! c)" if "c < length C" for c using at [of c] that len by simp
  then have g: "got ?C d = got C d" for d by (intro got_same) simp_all
  have sock: "socket_ok K ?C d" if d: "d < nb" for d
  proof -
    have old: "socket_ok K C d" using C d by (simp add: cluster_ok_def)
    have in_old: "c < nb \<and> c \<noteq> a \<and> in_flight (C ! c) \<and> (\<exists>i. xn_list (C ! c) ! (sent_count (C ! c) - 1) = (int d, i) \<and> carries q (i, K i))"
      if "(c, q) \<in> set (xn_in (C ! d))" for c q
      using socketD [OF old that] fl(2) len by auto
    have flies: "in_flight (?C ! c) \<longleftrightarrow> c = a \<or> in_flight (C ! c)" if "c < nb" for c using at [OF that] fl(1) by auto
    have same: "xn_list (?C ! c) ! (sent_count (?C ! c) - 1) = xn_list (C ! c) ! (sent_count (C ! c) - 1)" if "c < nb" "c \<noteq> a" for c
      using at [OF that(1)] that(2) by simp
    have mine: "xn_list (?C ! a) ! (sent_count (?C ! a) - 1) = (int b, i)" using at [OF a] fl(3) bi by simp
    have q: "xn_in (?C ! d) = (if d = b then xn_in (C ! b) @ [(a, p)] else xn_in (C ! d))" using at [OF d] n'(2) b(2) by simp
    show ?thesis
      unfolding socket_ok_def
    proof (intro conjI allI impI ballI)
      have "a \<notin> fst ` set (xn_in (C ! d))" using in_old by force
      then show "distinct (map fst (xn_in (?C ! d)))" using old unfolding q socket_ok_def by (cases "d = b") simp_all
    next
      fix x assume x: "x \<in> set (xn_in (?C ! d))"
      obtain c w where cw: "x = (c, w)" by (cases x)
      show "case x of (c, p) \<Rightarrow> c < length ?C \<and> in_flight (?C ! c) \<and>
        (\<exists>i. xn_list (?C ! c) ! (sent_count (?C ! c) - 1) = (int d, i) \<and> carries p (i, K i))"
      proof (cases "d = b \<and> x = (a, p)")
        case True
        then show ?thesis using a len flies mine n'(3) by auto
      next
        case False
        then have "(c, w) \<in> set (xn_in (C ! d))" using x cw unfolding q by (cases "d = b") auto
        then show ?thesis using in_old [of c w] flies same len cw by auto
      qed
    next
      fix c assume c: "c < length ?C" "in_flight (?C ! c)" "fst (xn_list (?C ! c) ! (sent_count (?C ! c) - 1)) = int d"
      show "c \<in> fst ` set (xn_in (?C ! d))"
      proof (cases "c = a")
        case True
        then have "d = b" using c(3) mine by simp
        then show ?thesis using True unfolding q by simp
      next
        case False
        then have "c \<in> fst ` set (xn_in (C ! d))" using c len flies same old by (auto simp: socket_ok_def)
        then show ?thesis unfolding q by auto
      qed
    qed
  qed
  have "node_ok good len N hs old new K (D c) c (got ?C c) (?C ! c) \<and> socket_ok K ?C c" if c: "c < nb" for c
  proof -
    have "node_ok good len N hs old new K (D c) c (got C c) (C ! c)" using C c by (simp add: cluster_ok_def)
    then show ?thesis using sock [OF c] ok at [OF c] unfolding g by (cases "c = a"; cases "c = b") (simp_all add: node_ok_in)
  qed
  then show ?thesis using len by (simp add: cluster_ok_def)
qed


text \<open>A packet is received, and its sender gets the reply.\<close>

lemma flying_entry:
  assumes C: "cluster_ok good len N nb hs old new K D C" and m: "good_move N nb old new"
    and c: "c < nb" "in_flight (C ! c)" "xn_list (C ! c) ! (sent_count (C ! c) - 1) = (int b, i)"
  shows "i < N" "changed old new i" "fst (old i) = int c" "fst (new i) = int b" "b < nb" "b \<noteq> c" "i \<notin> got C b"
    and "landed ((C ! c)\<lparr>xn_snd := (xn_snd (C ! c))\<lparr>sd_replies := [''done'']\<rparr>\<rparr>) = insert (int b, i) (landed (C ! c))"
proof -
  let ?n = "C ! c"
  have len: "length C = nb" using C by (simp add: cluster_ok_def)
  have T: "threads_ok N hs old new c (got C c) ?n" using C c(1) by (simp add: cluster_ok_def node_ok_def)
  obtain k where pc: "xn_pc ?n = Wait k" "sd_replies (xn_snd ?n) = []" using c(2) by (auto simp: in_flight_def split: snd_pc.splits)
  then have k: "k < length (xn_list ?n)" "xn_list ?n ! k = (int b, i)" using T c(3) by (simp_all add: threads_ok_def Let_def sent_count_def)
  then have "(int b, i) \<in> set (xn_list ?n)" using nth_mem by metis
  then have e: "(int b, i) \<in> set (xn_list ?n)" "xn_pc ?n \<noteq> Listening" using pc(1) by simp_all
  note l = list_entry [OF m T e(2,1)]
  show "i < N" "changed old new i" "fst (old i) = int c" "fst (new i) = int b" "b < nb" "b \<noteq> c" using l by simp_all
  have nk: "(int b, i) \<notin> landed ?n"
    using next_not_gone [OF list_distinct [OF T e(2)] k(1)] k(2) pc by (force simp: landed_def in_flight_def sent_count_def)
  show "i \<notin> got C b"
  proof
    assume "i \<in> got C b"
    then obtain d where d: "d < length C" "(int b, i) \<in> landed (C ! d)" by (auto simp: got_def)
    have Td: "threads_ok N hs old new d (got C d) (C ! d)" using cluster_threads [OF C] d(1) by blast
    have "xn_pc (C ! d) \<noteq> Listening" "(int b, i) \<in> set (xn_list (C ! d))" using d(2) landed_Listening landed_sub by blast+
    then have "d = c" using list_entry(3) [OF m Td] l(3) by force
    then show False using d(2) nk by simp
  qed
  have "take (Suc k) (xn_list ?n) = take k (xn_list ?n) @ [(int b, i)]" using k by (simp add: take_Suc_conv_app_nth)
  then show "landed (?n\<lparr>xn_snd := (xn_snd ?n)\<lparr>sd_replies := [''done'']\<rparr>\<rparr>) = insert (int b, i) (landed ?n)"
    using pc by (simp add: landed_def in_flight_def sent_count_def)
qed

lemma got_insert:
  assumes len: "length C' = length C" and c: "c < length C"
    and land: "\<And>e. e < length C \<Longrightarrow> landed (C' ! e) = (if e = c then insert (int b, i) (landed (C ! c)) else landed (C ! e))"
  shows "got C' d = (if d = b then insert i (got C b) else got C d)"
proof -
  have "j \<in> got C' d \<longleftrightarrow> j \<in> got C d \<or> (d = b \<and> j = i)" for j
  proof
    assume "j \<in> got C' d"
    then obtain e where e: "e < length C" "(int d, j) \<in> landed (C' ! e)" using len by (auto simp: got_def)
    then show "j \<in> got C d \<or> (d = b \<and> j = i)" using land [OF e(1)] by (cases "e = c") (auto simp: got_def)
  next
    assume "j \<in> got C d \<or> (d = b \<and> j = i)"
    then obtain e where "e < length C" "(int d, j) \<in> landed (C' ! e)"
    proof (elim disjE conjE)
      assume "j \<in> got C d"
      then obtain e where e: "e < length C" "(int d, j) \<in> landed (C ! e)" by (auto simp: got_def)
      then have "(int d, j) \<in> landed (C' ! e)" using land [OF e(1)] by (cases "e = c") simp_all
      with e(1) show thesis by (rule that)
    next
      assume "d = b" "j = i"
      then have "(int d, j) \<in> landed (C' ! c)" using land [OF c] by simp
      with c show thesis by (rule that)
    qed
    then show "j \<in> got C' d" using len by (auto simp: got_def)
  qed
  then show ?thesis by auto
qed

lemma cluster_in:
  assumes C: "cluster_ok good len N nb hs old new K D C" and m: "good_move N nb old new" and b: "b < nb"
    and q: "xn_in (C ! b) = (c, p) # q" and c: "c < nb" "in_flight (C ! c)" "xn_list (C ! c) ! (sent_count (C ! c) - 1) = (int b, i)"
    and nb': "xn_pc n' = xn_pc (C ! b)" "xn_in n' = q" "xn_list n' = xn_list (C ! b)" "sd_replies (xn_snd n') = sd_replies (xn_snd (C ! b))"
    and ok: "node_ok good len N hs old new K (D b) b (insert i (got C b)) n'"
  shows "cluster_ok good len N nb hs old new K D
    ((C[b := n'])[c := (C ! c)\<lparr>xn_snd := (xn_snd (C ! c))\<lparr>sd_replies := [''done'']\<rparr>\<rparr>])"
proof -
  define nc where "nc = (C ! c)\<lparr>xn_snd := (xn_snd (C ! c))\<lparr>sd_replies := [''done'']\<rparr>\<rparr>"
  note fe = flying_entry [OF C m c, folded nc_def]
  let ?C = "(C[b := n'])[c := nc]"
  have len: "length C = nb" using C by (simp add: cluster_ok_def)
  have at: "?C ! d = (if d = c then nc else if d = b then n' else C ! d)" if "d < nb" for d
    using that len b fe(6) by (simp add: nth_list_update)
  have sc: "sent_count n' = sent_count (C ! b)" "in_flight n' = in_flight (C ! b)" "landed n' = landed (C ! b)"
    using nb' by (simp_all add: sent_count_def in_flight_def landed_def cong: snd_pc.case_cong)
  have nfl: "\<not> in_flight nc" by (simp add: nc_def in_flight_def split: snd_pc.splits)
  have land: "landed (?C ! d) = (if d = c then insert (int b, i) (landed (C ! c)) else landed (C ! d))" if "d < nb" for d
    using at [OF that] fe(8) sc by auto
  have g: "got ?C d = (if d = b then insert i (got C b) else got C d)" for d
    by (rule got_insert [where c = c]) (use land c(1) len in simp_all)
  have flies: "in_flight (?C ! d) \<longleftrightarrow> in_flight (C ! d) \<and> d \<noteq> c" if "d < nb" for d using at [OF that] sc nfl by simp
  have same: "xn_list (?C ! d) ! (sent_count (?C ! d) - 1) = xn_list (C ! d) ! (sent_count (C ! d) - 1)" if "d < nb" "d \<noteq> c" for d
    using at [OF that(1)] that(2) sc nb' by simp
  have ins: "xn_in (?C ! d) = (if d = b then q else xn_in (C ! d))" if "d < nb" for d
    using at [OF that] nb' fe(6) by (simp add: nc_def)
  have sock: "socket_ok K ?C d" if d: "d < nb" for d
  proof -
    have old: "socket_ok K C d" using C d by (simp add: cluster_ok_def)
    have sub: "(e, w) \<in> set (xn_in (C ! d)) \<and> e \<noteq> c" if x: "(e, w) \<in> set (xn_in (?C ! d))" for e w
    proof (cases "d = b")
      case True
      then have "(e, w) \<in> set q" "distinct (map fst ((c, p) # q))" using x ins [OF d] old q by (auto simp: socket_ok_def)
      then show ?thesis using True q by force
    next
      case False
      then have e: "(e, w) \<in> set (xn_in (C ! d))" using x ins [OF d] by simp
      then have "\<exists>j. xn_list (C ! e) ! (sent_count (C ! e) - 1) = (int d, j)" using socketD [OF old e] by blast
      then show ?thesis using e False c(3) by auto
    qed
    show ?thesis
      unfolding socket_ok_def
    proof (intro conjI allI impI ballI)
      show "distinct (map fst (xn_in (?C ! d)))" using old q ins [OF d] by (auto simp: socket_ok_def)
    next
      fix x assume x: "x \<in> set (xn_in (?C ! d))"
      obtain e w where ew: "x = (e, w)" by (cases x)
      then have o: "(e, w) \<in> set (xn_in (C ! d))" "e \<noteq> c" using sub x by blast+
      have e: "e < nb" "in_flight (C ! e)" "\<exists>i. xn_list (C ! e) ! (sent_count (C ! e) - 1) = (int d, i) \<and> carries w (i, K i)"
        using socketD [OF old o(1)] unfolding len by blast+
      have "in_flight (?C ! e)" using flies [OF e(1)] e(2) o(2) by blast
      then show "case x of (e, w) \<Rightarrow> e < length ?C \<and> in_flight (?C ! e) \<and>
        (\<exists>i. xn_list (?C ! e) ! (sent_count (?C ! e) - 1) = (int d, i) \<and> carries w (i, K i))"
        unfolding ew prod.case same [OF e(1) o(2)] using e(1,3) len by simp
    next
      fix e assume e: "e < length ?C" "in_flight (?C ! e)" "fst (xn_list (?C ! e) ! (sent_count (?C ! e) - 1)) = int d"
      then have e': "e < length C" "in_flight (C ! e)" "e \<noteq> c" "fst (xn_list (C ! e) ! (sent_count (C ! e) - 1)) = int d"
        using flies same len by auto
      then have "e \<in> fst ` set (xn_in (C ! d))" using old by (simp add: socket_ok_def)
      then show "e \<in> fst ` set (xn_in (?C ! d))" using e'(3) q ins [OF d] by (cases "d = b") auto
    qed
  qed
  have "node_ok good len N hs old new K (D d) d (got ?C d) (?C ! d)" if d: "d < nb" for d
  proof -
    have o: "node_ok good len N hs old new K (D d) d (got C d) (C ! d)" using C d by (simp add: cluster_ok_def)
    obtain k where pc: "xn_pc (C ! c) = Wait k" using c(2) by (auto simp: in_flight_def split: snd_pc.splits)
    have "node_ok good len N hs old new K (D c) c (got C c) nc" if "d = c"
      using o that pc by (simp add: nc_def node_ok_def threads_ok_def Let_def gone_def sent_count_def) (elim conjE, simp)
    then show ?thesis using o ok at [OF d] fe(6) unfolding g by (cases "d = c"; cases "d = b") simp_all
  qed
  then show ?thesis unfolding nc_def [symmetric] using sock len by (simp add: cluster_ok_def)
qed


section \<open>Every turn, and the end\<close>

definition cluster_turn ::
  "xfer_env \<Rightarrow> ('e \<Rightarrow> int \<Rightarrow> (int \<times> 'e option) option) \<Rightarrow> (md_heap \<Rightarrow> nat) \<Rightarrow> md_entry \<Rightarrow> string list \<Rightarrow> nat \<Rightarrow>
   (nat \<Rightarrow> nat \<Rightarrow> int) \<Rightarrow> u32 list \<Rightarrow> u32 list \<Rightarrow> thread \<Rightarrow> 'e xfer_node list \<Rightarrow> 'e xfer_node list option" where
  "cluster_turn X reset alloc cell hs N fill ids vers =
     xfer_turn X reset alloc cell hs N (mlt_init True True True 0 True (int N) 1) fill ids vers"

definition cluster_threads_of :: "nat \<Rightarrow> thread set" where
  "cluster_threads_of nb = Snd ` {..<nb} \<union> Rcv ` {..<nb}"

context served_list
begin

lemma snd_turn_ok:
  assumes ctx: "xfer_ctx X alloc N nb hs old ids vers K D" and new: "new = message_row ids vers"
    and C: "cluster_ok inv len N nb hs old new K D C" and a: "a < nb" and go: "can_turn (Snd a) C"
  shows "\<exists>C'. snd_turn X reset hs N (mlt_init True True True 0 True (int N) 1) fill ids vers a C = Some C' \<and>
    cluster_ok inv len N nb hs old new K D C' \<and> xfer_weight N old new C' < xfer_weight N old new C"
proof -
  note c = ctx [unfolded xfer_ctx_def, folded new]
  have m: "good_move N nb old new" using c by blast
  let ?n = "C ! a" and ?m = "length (sends (int a) old new N)"
  have len: "length C = nb" "a < length C" using C a by (simp_all add: cluster_ok_def)
  have n: "node_ok inv len N hs old new K (D a) a (got C a) ?n" using C a by (simp add: cluster_ok_def)
  have T: "threads_ok N hs old new a (got C a) ?n" using n by (simp add: node_ok_def)
  have lm: "length (xn_list ?n) = ?m" if "xn_pc ?n \<noteq> Listening" using T that by (metis (no_types, lifting) mset_eq_length threads_ok_def)
  have size: "t_size (xn_args ?n) = int (length (xn_list ?n))" if "xn_pc ?n \<noteq> Listening"
    by (rule size_xn_list [where N = N and ys = "xn_list ?n"]) (use T that in \<open>simp add: threads_ok_def Let_def\<close>)
  have less: "xfer_weight N old new (C[a := n']) < xfer_weight N old new C" if "node_weight ?m n' < node_weight ?m ?n" for n'
    by (rule weight_less [where a = a]) (use that len in simp_all)
  show ?thesis
  proof (cases "xn_pc ?n")
    case Listening
    obtain n' where n': "xfer_begin X N (mlt_init True True True 0 True (int N) 1) fill ids vers ?n = Some n'"
      "node_ok inv len N hs old new K (D a) a (got C a) n'" "xn_pc n' = Seek 0" "xn_in n' = xn_in ?n"
      using begin_ok [OF ctx new a n Listening] by blast
    have "cluster_ok inv len N nb hs old new K D (C[a := n'])"
      by (rule cluster_upd [OF C a]) (use n' Listening in \<open>simp_all add: landed_def in_flight_def sent_count_def\<close>)
    moreover have "node_weight ?m n' < node_weight ?m ?n" using n'(3) Listening by (simp add: node_weight_def)
    ultimately show ?thesis using n'(1) Listening less by (simp add: snd_turn_def Let_def)
  next
    case (Seek k)
    show ?thesis
    proof (cases "k < length (xn_list ?n)")
      case True
      obtain s' where s': "seek_server X (xn_args ?n) k (xn_snd ?n) = Some (Next s')"
        "node_ok inv len N hs old new K (D a) a (got C a) (?n\<lparr>xn_snd := s', xn_pc := Pack k\<rparr>)"
        using seek_ok [OF ctx new n Seek True] by blast
      have "cluster_ok inv len N nb hs old new K D (C[a := ?n\<lparr>xn_snd := s', xn_pc := Pack k\<rparr>])"
        by (rule cluster_upd [OF C a]) (use s' Seek in \<open>simp_all add: landed_def in_flight_def sent_count_def\<close>)
      moreover have "node_weight ?m (?n\<lparr>xn_snd := s', xn_pc := Pack k\<rparr>) < node_weight ?m ?n" using Seek by (simp add: node_weight_def)
      ultimately show ?thesis using s'(1) Seek True size less by (simp add: snd_turn_def Let_def)
    next
      case False
      have "cluster_ok inv len N nb hs old new K D (C[a := ?n\<lparr>xn_pc := Ended\<rparr>])"
      proof (rule cluster_upd [OF C a])
        show "landed (?n\<lparr>xn_pc := Ended\<rparr>) = landed ?n" using Seek False by (simp add: landed_def in_flight_def sent_count_def)
        show "node_ok inv len N hs old new K (D a) a (got C a) (?n\<lparr>xn_pc := Ended\<rparr>)" by (rule seek_end_ok [OF n Seek False])
      qed (use Seek in \<open>simp_all add: in_flight_def\<close>)
      moreover have "node_weight ?m (?n\<lparr>xn_pc := Ended\<rparr>) < node_weight ?m ?n" using Seek by (simp add: node_weight_def)
      ultimately show ?thesis using Seek False size less by (simp add: snd_turn_def Let_def)
    qed
  next
    case (Pack k)
    have k: "k < length (xn_list ?n)" using T Pack by (simp add: threads_ok_def Let_def)
    obtain b i where bi: "xn_list ?n ! k = (b, i)" by (cases "xn_list ?n ! k")
    then have e: "(b, i) \<in> set (xn_list ?n)" "xn_pc ?n \<noteq> Listening" using k Pack nth_mem by (metis, simp)
    note le = list_entry [OF m T e(2,1)]
    let ?b = "nat b"
    have b: "?b < nb" "?b \<noteq> a" "b = int ?b" using le(5-7) by auto
    have B: "j < N \<and> fst (old j) \<noteq> int a" if "j \<in> got C a" for j using got_entry [OF m cluster_threads [OF C] that] by blast
    from out_ok [OF ctx new a n Pack bi B] obtain s' p where s': "send_out X reset (xn_args ?n) k (xn_snd ?n) = Some (Next s')"
      "sd_sent s' = sd_sent (xn_snd ?n) @ [(hs ! ?b, p)]" "carries p (i, K i)" "sd_replies s' = []"
      "node_ok inv len N hs old new K (D a) a (got C a) (?n\<lparr>xn_snd := s', xn_pc := Wait k\<rparr>)" by blast
    let ?n' = "?n\<lparr>xn_snd := s', xn_pc := Wait k\<rparr>"
    let ?C = "(C[a := ?n'])[?b := (C ! ?b)\<lparr>xn_in := xn_in (C ! ?b) @ [(a, p)]\<rparr>]"
    have "cluster_ok inv len N nb hs old new K D ?C"
      by (rule cluster_out [OF C a b(1,2) Pack _ _ _ k _ _ s'(3)]) (use bi b(3) s'(4,5) in simp_all)
    moreover have "find (\<lambda>j. hs ! j = hs ! ?b) [0..<min (length hs) nb] = Some ?b"
      by (rule find_host) (use c b(1) in auto)
    then have "deliver hs a (hs ! ?b, p) (C[a := ?n']) = ?C" using len b(2) by (simp add: deliver_def)
    then have "snd_turn X reset hs N (mlt_init True True True 0 True (int N) 1) fill ids vers a C = Some ?C"
      using Pack s'(1,2) by (simp add: snd_turn_def Let_def)
    moreover have "xfer_weight N old new ?C < xfer_weight N old new C"
    proof (rule weight_less [where a = a])
      show "node_weight ?m (?C ! a) < node_weight ?m ?n" using Pack b(2) len k lm s'(4) by (simp add: node_weight_def)
      show "xn_pc (?C ! d) = xn_pc (C ! d) \<and> sd_replies (xn_snd (?C ! d)) = sd_replies (xn_snd (C ! d))" if "d < length C" "d \<noteq> a" for d
        using that by (cases "d = ?b") simp_all
    qed (use len in simp_all)
    ultimately show ?thesis by blast
  next
    case (Wait k)
    have r: "sd_replies (xn_snd ?n) \<noteq> []" using go Wait by simp
    from wait_ok [OF ctx new a n Wait r] obtain s' again where s': "take_reply (xn_snd ?n) = Next s'" "same_server (xn_args ?n) k s' = Some again"
      "node_ok inv len N hs old new K (D a) a (got C a) (?n\<lparr>xn_snd := s', xn_pc := (if again then Pack (k + 1) else Seek (k + 1))\<rparr>)" by blast
    let ?n' = "?n\<lparr>xn_snd := s', xn_pc := (if again then Pack (k + 1) else Seek (k + 1))\<rparr>"
    have k: "k < ?m" using T Wait lm by (simp add: threads_ok_def Let_def)
    have "cluster_ok inv len N nb hs old new K D (C[a := ?n'])"
      by (rule cluster_upd [OF C a _ _ _ _ s'(3)]) (use Wait r in \<open>simp_all add: landed_def in_flight_def sent_count_def\<close>)
    moreover have "?m - k = Suc (?m - Suc k)" using k by simp
    then have "node_weight ?m ?n' < node_weight ?m ?n" using Wait r by (simp add: node_weight_def)
    ultimately show ?thesis using s'(1,2) Wait r less by (simp add: snd_turn_def Let_def)
  qed (use go in simp_all)
qed

lemma rcv_turn_ok:
  assumes ctx: "xfer_ctx X alloc N nb hs old ids vers K D" and new: "new = message_row ids vers"
    and C: "cluster_ok inv len N nb hs old new K D C" and b: "b < nb" and go: "can_turn (Rcv b) C"
  shows "\<exists>C'. rcv_turn X reset alloc cell b C = Some C' \<and>
    cluster_ok inv len N nb hs old new K D C' \<and> xfer_weight N old new C' < xfer_weight N old new C"
proof -
  note c = ctx [unfolded xfer_ctx_def, folded new]
  have m: "good_move N nb old new" using c by blast
  let ?n = "C ! b"
  have len: "length C = nb" using C by (simp add: cluster_ok_def)
  obtain k where k: "xn_rcv ?n = Await (Suc k)" "xn_pc ?n \<noteq> Listening" using go by (auto split: rcv_pc.splits nat.splits)
  obtain d p q where q: "xn_in ?n = (d, p) # q" using go by (cases "xn_in ?n") auto
  have sk: "socket_ok K C b" using C b by (simp add: cluster_ok_def)
  have "(d, p) \<in> set (xn_in ?n)" using q by simp
  note sd = socketD [OF sk this]
  obtain i where i: "xn_list (C ! d) ! (sent_count (C ! d) - 1) = (int b, i)" and p: "carries p (i, K i)" using sd by blast
  have d: "d < nb" "in_flight (C ! d)" "xn_list (C ! d) ! (sent_count (C ! d) - 1) = (int b, i)" using sd i unfolding len by blast+
  note fe = flying_entry [OF C m d]
  have n: "node_ok inv len N hs old new K (D b) b (got C b) ?n" using C b by (simp add: cluster_ok_def)
  have B: "j < N" if "j \<in> got C b" for j using got_entry(1) [OF m cluster_threads [OF C] that] .
  then have "got C b \<subseteq> {..<N}" by blast
  then have fin: "finite (got C b)" using finite_lessThan by (rule finite_subset)
  have ib: "fst (old i) \<noteq> int b" using fe(3,6) by simp
  from arrive_ok [OF ctx new b n k(2,1) B fin fe(1,2,4) ib fe(7) p, of cell q] obtain r where
    r: "receive_packet X reset alloc cell p \<lparr>rv_sv = sd_sv (xn_snd ?n), rv_store = sd_store (xn_snd ?n), rv_replies = [], rv_status = Running\<rparr> = Some (Next r)"
      "rv_replies r = [''done'']"
      "node_ok inv len N hs old new K (D b) b (insert i (got C b))
        (?n\<lparr>xn_snd := (xn_snd ?n)\<lparr>sd_sv := rv_sv r, sd_store := rv_store r\<rparr>, xn_in := q, xn_rcv := Await k\<rparr>)" by blast
  let ?n' = "?n\<lparr>xn_snd := (xn_snd ?n)\<lparr>sd_sv := rv_sv r, sd_store := rv_store r\<rparr>, xn_in := q, xn_rcv := Await k\<rparr>"
  let ?nd = "(C ! d)\<lparr>xn_snd := (xn_snd (C ! d))\<lparr>sd_replies := [''done'']\<rparr>\<rparr>"
  have nr: "sd_replies (xn_snd (C ! d)) = []" using d(2) by (auto simp: in_flight_def split: snd_pc.splits)
  have "rcv_turn X reset alloc cell b C = Some ((C[b := ?n'])[d := ?nd])"
    using k q r(1,2) fe(6) d(1) len nr by (simp add: rcv_turn_def Let_def)
  moreover have "cluster_ok inv len N nb hs old new K D ((C[b := ?n'])[d := ?nd])"
    by (rule cluster_in [OF C m b q d _ _ _ _ r(3)]) simp_all
  moreover have "xfer_weight N old new ((C[b := ?n'])[d := ?nd]) < xfer_weight N old new C"
  proof (rule weight_less [where a = d])
    obtain j where pc: "xn_pc (C ! d) = Wait j" using d(2) by (auto simp: in_flight_def split: snd_pc.splits)
    have T: "threads_ok N hs old new d (got C d) (C ! d)" using cluster_threads [OF C] d(1) len by simp
    then have "length (xn_list (C ! d)) = length (sends (int d) old new N)" using pc
      by (metis (no_types, lifting) mset_eq_length snd_pc.distinct(5) threads_ok_def)
    then have "j < length (sends (int d) old new N)" using T pc by (simp add: threads_ok_def Let_def)
    then show "node_weight (length (sends (int d) old new N)) ((C[b := ?n'])[d := ?nd] ! d) < node_weight (length (sends (int d) old new N)) (C ! d)"
      using pc nr d(1) len by (simp add: node_weight_def)
    show "xn_pc ((C[b := ?n'])[d := ?nd] ! e) = xn_pc (C ! e) \<and> sd_replies (xn_snd ((C[b := ?n'])[d := ?nd] ! e)) = sd_replies (xn_snd (C ! e))"
      if "e < length C" "e \<noteq> d" for e using that by (cases "e = b") simp_all
  qed (use d(1) len in simp_all)
  ultimately show ?thesis by blast
qed

end


text \<open>The cluster before the table.\<close>

lemma start_ok:
  assumes "placed good len N nb old K S D"
  shows "cluster_ok good len N nb hs old new K D (xfer_start nb S D)"
proof -
  let ?C = "xfer_start nb S D"
  have at: "?C ! a = xfer_node_start (S a) (D a)" if "a < nb" for a using that by (simp add: xfer_start_def)
  have len: "length ?C = nb" by (simp add: xfer_start_def)
  have g: "got ?C a = {}" for a using at len by (auto simp: got_def landed_def sent_count_def xfer_node_start_def)
  have names: "names_now N old K a {} {} = held N old K a" for a by (rule nth_equalityI) simp_all
  have "node_ok good len N hs old new K (D a) a {} (?C ! a)" if "a < nb" for a
    using assms that names at [OF that]
    by (simp add: placed_def placed_at_def node_ok_def shared_ok_def threads_ok_def Let_def) (simp add: xfer_node_start_def)
  moreover have "socket_ok K ?C a" if "a < nb" for a
    using that at len by (auto simp: socket_ok_def in_flight_def xfer_node_start_def)
  ultimately show ?thesis using len g by (simp add: cluster_ok_def)
qed

text \<open>A cluster in which no thread can go on is at its end: there is no deadlock.\<close>

lemma card_receives: "card (snd ` set (receives self old new n)) = length (receives self old new n)"
  using distinct_card [OF distinct_receives [of self old new n]] by simp

lemma stuckD: "\<forall>t \<in> cluster_threads_of nb. \<not> can_turn t C \<Longrightarrow> c < nb \<Longrightarrow> \<not> can_turn (Snd c) C \<and> \<not> can_turn (Rcv c) C"
  unfolding cluster_threads_of_def by blast

lemma nothing_in_flight:
  assumes C: "cluster_ok good len N nb hs old new K D C" and m: "good_move N nb old new"
    and stuck: "\<forall>t \<in> cluster_threads_of nb. \<not> can_turn t C" and c: "c < nb"
  shows "\<not> in_flight (C ! c)"
proof
  assume f: "in_flight (C ! c)"
  have len: "length C = nb" using C by (simp add: cluster_ok_def)
  have T: "threads_ok N hs old new c (got C c) (C ! c)" using cluster_threads [OF C] c len by simp
  obtain k where pc: "xn_pc (C ! c) = Wait k" using f by (auto simp: in_flight_def split: snd_pc.splits)
  obtain z i where zi: "xn_list (C ! c) ! k = (z, i)" by (cases "xn_list (C ! c) ! k")
  have "k < length (xn_list (C ! c))" using T pc by (simp add: threads_ok_def Let_def)
  then have "(z, i) \<in> set (xn_list (C ! c))" using zi nth_mem by metis
  then obtain b where b: "z = int b" "b < nb" using list_entry(5,6) [OF m T] pc by (metis nat_0_le nat_less_iff snd_pc.distinct(5))
  have fl: "xn_list (C ! c) ! (sent_count (C ! c) - 1) = (int b, i)" using zi b pc by (simp add: sent_count_def)
  note fe = flying_entry [OF C m c f fl]
  have "socket_ok K C b" using C b by (simp add: cluster_ok_def)
  then have "c \<in> fst ` set (xn_in (C ! b))" using f fl c len by (simp add: socket_ok_def)
  then have q: "xn_in (C ! b) \<noteq> []" by auto
  have nl: "xn_pc (C ! b) \<noteq> Listening"
  proof
    assume "xn_pc (C ! b) = Listening"
    then have "can_turn (Snd b) C" by simp
    then show False using stuckD [OF stuck b(2)] by blast
  qed
  have Tb: "threads_ok N hs old new b (got C b) (C ! b)" using cluster_threads [OF C] b len by simp
  then have r: "xn_rcv (C ! b) = Await (length (receives (int b) old new N) - card (got C b))" using nl by (simp add: threads_ok_def Let_def)
  have sub: "got C b \<subseteq> snd ` set (receives (int b) old new N)" by (rule got_sub [OF m cluster_threads [OF C]])
  have ir: "i \<in> snd ` set (receives (int b) old new N)" using fe(1-4,6) by (auto simp: snd_receives)
  have "got C b \<subset> snd ` set (receives (int b) old new N)" using sub ir fe(7) by blast
  then have "card (got C b) < length (receives (int b) old new N)" using psubset_card_mono [of "snd ` set (receives (int b) old new N)"] card_receives by (metis finite_imageI finite_set)
  then obtain w where "xn_rcv (C ! b) = Await (Suc w)" using r by (metis Suc_diff_Suc)
  then have "can_turn (Rcv b) C" using nl q by simp
  then show False using stuckD [OF stuck b(2)] by blast
qed

lemma stuck_ended:
  assumes C: "cluster_ok good len N nb hs old new K D C" and m: "good_move N nb old new"
    and stuck: "\<forall>t \<in> cluster_threads_of nb. \<not> can_turn t C" and a: "a < nb"
  shows "xn_pc (C ! a) = Ended" "xn_in (C ! a) = []" "xn_rcv (C ! a) = Await 0"
    and "gone (C ! a) = snd ` set (sends (int a) old new N)" "got C a = snd ` set (receives (int a) old new N)"
proof -
  have len: "length C = nb" using C by (simp add: cluster_ok_def)
  note no = nothing_in_flight [OF C m stuck]
  have ended: "xn_pc (C ! c) = Ended" if c: "c < nb" for c
  proof -
    have "\<not> can_turn (Snd c) C" using stuckD [OF stuck c] by blast
    moreover have "threads_ok N hs old new c (got C c) (C ! c)" using cluster_threads [OF C] c len by simp
    ultimately show ?thesis using no [OF c] by (cases "xn_pc (C ! c)") (auto simp: in_flight_def threads_ok_def Let_def)
  qed
  have ls: "set (xn_list (C ! c)) = set (sends (int c) old new N)" if c: "c < nb" for c
  proof -
    have "threads_ok N hs old new c (got C c) (C ! c)" using cluster_threads [OF C] c len by simp
    then show ?thesis using ended [OF c] by (auto simp: threads_ok_def Let_def dest: mset_eq_setD)
  qed
  show "xn_pc (C ! a) = Ended" by (rule ended [OF a])
  show "gone (C ! a) = snd ` set (sends (int a) old new N)" using ended [OF a] ls [OF a] by (simp add: gone_def sent_count_def)
  have sock: "socket_ok K C a" using C a by (simp add: cluster_ok_def)
  show "xn_in (C ! a) = []"
  proof (cases "xn_in (C ! a)")
    case (Cons x q)
    then have "(fst x, snd x) \<in> set (xn_in (C ! a))" by simp
    from socketD [OF sock this] no show ?thesis unfolding len by blast
  qed
  show got: "got C a = snd ` set (receives (int a) old new N)"
  proof
    show "got C a \<subseteq> snd ` set (receives (int a) old new N)" by (rule got_sub [OF m cluster_threads [OF C]])
    show "snd ` set (receives (int a) old new N) \<subseteq> got C a"
    proof
      fix i assume "i \<in> snd ` set (receives (int a) old new N)"
      then have i: "i < N" "changed old new i" "fst (old i) \<noteq> int a" "fst (new i) = int a" by (auto simp: snd_receives)
      define c where "c = nat (fst (old i))"
      have c: "c < nb" "fst (old i) = int c" using m i(1) by (auto simp: good_move_def c_def)
      then have "(int a, i) \<in> set (xn_list (C ! c))" using ls i by (auto simp: in_sends)
      then have "(int a, i) \<in> landed (C ! c)" using ended [OF c(1)] no [OF c(1)] by (simp add: landed_def sent_count_def)
      then show "i \<in> got C a" using c(1) len by (auto simp: got_def)
    qed
  qed
  have "threads_ok N hs old new a (got C a) (C ! a)" using cluster_threads [OF C] a len by simp
  then show "xn_rcv (C ! a) = Await 0" using ended [OF a] got card_receives by (simp add: threads_ok_def Let_def)
qed

text \<open>What a server holds at the end.\<close>

lemma ended_placed:
  assumes m: "good_move N nb old new" and K: "keys_ok N K"
    and D: "\<forall>n. stored st0 n \<noteq> None \<longleftrightarrow> (\<exists>i < N. fst (old i) = int a \<and> n \<in> set (K i))"
    and s: "shared_ok good len N old new K st0 a (snd ` set (sends (int a) old new N)) (snd ` set (receives (int a) old new N)) False sv st"
  shows "placed_at good len N (settled_row old new) (moved_names old new K) a sv st"
    and "i < N \<Longrightarrow> n \<in> set (K i) \<Longrightarrow> fst (new i) = int a \<Longrightarrow>
      stored st n = (if changed old new i then Some ''a word'' else stored st0 n)"
proof -
  let ?A = "snd ` set (sends (int a) old new N)" and ?B = "snd ` set (receives (int a) old new N)"
  note s' = s [unfolded shared_ok_def]
  have ch: "changed old new i \<longleftrightarrow> fst (old i) \<noteq> fst (new i)" if "i < N" for i using m that by (simp add: good_move_def)
  have own: "fst (settled_row old new i) = fst (new i)" if "i < N" for i using ch [OF that] by (auto simp: settled_row_def)
  have names: "names_now N old K a ?A ?B = held N (settled_row old new) (moved_names old new K) a"
    by (rule nth_equalityI) (auto simp: own ch moved_names_def snd_sends snd_receives)
  have rows: "mlt_row (sv_table sv) i = settled_row old new i" if "i < N" for i
    using s' that by (auto simp: snd_sends snd_receives settled_row_def updated_row_def)
  have st: "stored st n = (if \<exists>i \<in> ?B. n \<in> set (K i) then Some ''a word'' else if \<exists>i \<in> ?A. n \<in> set (K i) then None else stored st0 n)" for n
    using s' by blast
  have one: "stored st n = (if fst (new i) = int a then (if changed old new i then Some ''a word'' else stored st0 n) else None)"
    if i: "i < N" "n \<in> set (K i)" for i n
  proof -
    have un: "(\<exists>j \<in> Z. n \<in> set (K j)) \<longleftrightarrow> i \<in> Z" if "Z \<subseteq> {..<N}" for Z
      using keys_apart [OF K i(1) _ i(2)] that i by blast
    have "?B \<subseteq> {..<N}" "?A \<subseteq> {..<N}" by (auto simp: snd_sends snd_receives)
    note un = un [OF this(1)] un [OF this(2)]
    have D': "stored st0 n \<noteq> None \<longleftrightarrow> fst (old i) = int a" using D keys_apart [OF K i(1) _ i(2)] i by blast
    show ?thesis unfolding st un using i(1) D' ch [OF i(1)] by (auto simp: snd_sends snd_receives)
  qed
  then show "i < N \<Longrightarrow> n \<in> set (K i) \<Longrightarrow> fst (new i) = int a \<Longrightarrow>
      stored st n = (if changed old new i then Some ''a word'' else stored st0 n)" by simp
  have "stored st n \<noteq> None \<longleftrightarrow> (\<exists>i < N. fst (settled_row old new i) = int a \<and> n \<in> set (moved_names old new K i))" for n
  proof (cases "\<exists>i < N. n \<in> set (K i)")
    case True
    then obtain i where i: "i < N" "n \<in> set (K i)" by blast
    have "stored st0 n \<noteq> None \<longleftrightarrow> fst (old i) = int a" using D keys_apart [OF K i(1) _ i(2)] i by blast
    then have "stored st n \<noteq> None \<longleftrightarrow> fst (new i) = int a" unfolding one [OF i] using ch [OF i(1)] by auto
    also have "\<dots> \<longleftrightarrow> (\<exists>j < N. fst (new j) = int a \<and> n \<in> set (K j))" using keys_apart [OF K i(1) _ i(2)] i by blast
    also have "\<dots> \<longleftrightarrow> (\<exists>j < N. fst (settled_row old new j) = int a \<and> n \<in> set (moved_names old new K j))"
      using own by (auto simp: moved_names_def)
    finally show ?thesis .
  next
    case False
    then have "stored st n = stored st0 n" unfolding st by (auto simp: snd_sends snd_receives)
    also have "stored st0 n = None" using D False by blast
    finally have "stored st n = None" .
    then show ?thesis using False by (auto simp: moved_names_def)
  qed
  then show "placed_at good len N (settled_row old new) (moved_names old new K) a sv st"
    using s' rows unfolding names placed_at_def by blast
qed


section \<open>Any schedule\<close>

context served_list
begin

lemma cluster_turn_ok:
  assumes "xfer_ctx X alloc N nb hs old ids vers K D \<and> cluster_ok inv len N nb hs old (message_row ids vers) K D C"
    and t: "t \<in> cluster_threads_of nb" "can_turn t C"
  shows "\<exists>C'. cluster_turn X reset alloc cell hs N fill ids vers t C = Some C' \<and>
    (xfer_ctx X alloc N nb hs old ids vers K D \<and> cluster_ok inv len N nb hs old (message_row ids vers) K D C') \<and>
    xfer_weight N old (message_row ids vers) C' < xfer_weight N old (message_row ids vers) C"
proof -
  have c: "xfer_ctx X alloc N nb hs old ids vers K D" "cluster_ok inv len N nb hs old (message_row ids vers) K D C" using assms(1) by blast+
  then have len: "length C = nb" by (simp add: cluster_ok_def)
  show ?thesis
  proof (cases t)
    case (Snd a)
    then have "a < nb" using t(1) by (auto simp: cluster_threads_of_def)
    with snd_turn_ok [OF c(1) refl c(2), of a fill] t(2) Snd c(1) len show ?thesis by (simp add: cluster_turn_def)
  next
    case (Rcv b)
    then have "b < nb" using t(1) by (auto simp: cluster_threads_of_def)
    with rcv_turn_ok [OF c(1) refl c(2), of b cell] t(2) Rcv c(1) len show ?thesis by (simp add: cluster_turn_def)
  qed
qed

end

sublocale served_list \<subseteq> threads: scheduler
  "cluster_turn X reset alloc cell hs N fill ids vers"
  "\<lambda>C. xfer_ctx X alloc N nb hs old ids vers K D \<and> cluster_ok inv len N nb hs old (message_row ids vers) K D C"
  can_turn "xfer_weight N old (message_row ids vers)" "cluster_threads_of nb"
  for X alloc cell hs N fill ids vers nb old K D
  by unfold_locales (simp add: cluster_turn_def idle_turn, rule cluster_turn_ok)

lemma start_weight: "xfer_weight N old new (xfer_start nb S D) \<le> nb * (4 * N + 2)"
proof -
  have "xfer_weight N old new (xfer_start nb S D) = (\<Sum>a < nb. 4 * length (sends (int a) old new N) + 2)"
    by (simp add: xfer_weight_def xfer_start_def node_weight_def xfer_node_start_def)
  also have "\<dots> \<le> (\<Sum>a < nb. 4 * N + 2)" using length_sends by (intro sum_mono) simp
  finally show ?thesis by simp
qed

context served_list
begin

lemma fair_schedule:
  assumes ctx: "xfer_ctx X alloc N nb hs old ids vers K D" and new: "new = message_row ids vers"
    and pl: "placed inv len N nb old K S D"
    and r: "nb * (4 * N + 2) \<le> length rounds" "\<forall>r \<in> set rounds. set r = cluster_threads_of nb"
  shows "\<exists>C. forM (concat rounds) (cluster_turn X reset alloc cell hs N fill ids vers) (xfer_start nb S D) = Some C \<and> length C = nb \<and>
    (\<forall>a < nb. xn_pc (C ! a) = Ended \<and> xn_rcv (C ! a) = Await 0 \<and> xn_in (C ! a) = []) \<and>
    placed inv len N nb (settled_row old new) (moved_names old new K) (\<lambda>a. sd_sv (xn_snd (C ! a))) (\<lambda>a. sd_store (xn_snd (C ! a))) \<and>
    (\<forall>a < nb. \<forall>i < N. \<forall>n \<in> set (K i). fst (new i) = int a \<longrightarrow>
      stored (sd_store (xn_snd (C ! a))) n = (if changed old new i then Some ''a word'' else stored (D a) n))"
proof -
  note c = ctx [unfolded xfer_ctx_def, folded new]
  have m: "good_move N nb old new" and K: "keys_ok N K" using c by blast+
  have "xfer_ctx X alloc N nb hs old ids vers K D \<and> cluster_ok inv len N nb hs old (message_row ids vers) K D (xfer_start nb S D)"
    using ctx start_ok [OF pl] by blast
  from threads.fair_end [OF this _ r(2), of cell fill] start_weight [of N old "message_row ids vers" nb S D] r(1)
  obtain C where C: "forM (concat rounds) (cluster_turn X reset alloc cell hs N fill ids vers) (xfer_start nb S D) = Some C"
    "cluster_ok inv len N nb hs old new K D C" "\<forall>t \<in> cluster_threads_of nb. \<not> can_turn t C" unfolding new by force
  note e = stuck_ended [OF C(2) m C(3)]
  have s: "shared_ok inv len N old new K (D a) a (snd ` set (sends (int a) old new N)) (snd ` set (receives (int a) old new N)) False
      (sd_sv (xn_snd (C ! a))) (sd_store (xn_snd (C ! a)))" if a: "a < nb" for a
  proof -
    have "shared_ok inv len N old new K (D a) a (gone (C ! a)) (got C a) (xn_pc (C ! a) = Listening) (sd_sv (xn_snd (C ! a))) (sd_store (xn_snd (C ! a)))"
      using C(2) a by (simp add: cluster_ok_def node_ok_def)
    then show ?thesis using e(1) [OF a] unfolding e(4,5) [OF a] by simp
  qed
  have D: "\<forall>n. stored (D a) n \<noteq> None \<longleftrightarrow> (\<exists>i < N. fst (old i) = int a \<and> n \<in> set (K i))" if "a < nb" for a using c that by blast
  note f = ended_placed [OF m K D s]
  have "placed inv len N nb (settled_row old new) (moved_names old new K) (\<lambda>a. sd_sv (xn_snd (C ! a))) (\<lambda>a. sd_store (xn_snd (C ! a)))"
    unfolding placed_def using f(1) by blast
  moreover have "length C = nb" using C(2) by (simp add: cluster_ok_def)
  ultimately show ?thesis using C(1) e(1-3) f(2) by (intro exI [of _ C]) blast
qed

end


section \<open>Every moment\<close>

text \<open>Whether a server stores a key, in the midst of the transfers.\<close>

lemma stored_now:
  assumes m: "good_move N nb old new" and K: "keys_ok N K" and C: "cluster_ok good len N nb hs old new K D C" and a: "a < nb"
    and D: "\<forall>n. stored (D a) n \<noteq> None \<longleftrightarrow> (\<exists>i < N. fst (old i) = int a \<and> n \<in> set (K i))" and i: "i < N" "n \<in> set (K i)"
  shows "stored (sd_store (xn_snd (C ! a))) n \<noteq> None \<longleftrightarrow> i \<in> got C a \<or> i \<notin> gone (C ! a) \<and> fst (old i) = int a"
proof -
  have n: "node_ok good len N hs old new K (D a) a (got C a) (C ! a)" using C a by (simp add: cluster_ok_def)
  have st: "stored (sd_store (xn_snd (C ! a))) n = (if \<exists>j \<in> got C a. n \<in> set (K j) then Some ''a word''
      else if \<exists>j \<in> gone (C ! a). n \<in> set (K j) then None else stored (D a) n)"
    using n unfolding node_ok_def shared_ok_def by blast
  have un: "(\<exists>j \<in> Z. n \<in> set (K j)) \<longleftrightarrow> i \<in> Z" if "Z \<subseteq> {..<N}" for Z using keys_apart [OF K i(1) _ i(2)] that i by blast
  have g1: "got C a \<subseteq> {..<N}" using got_entry(1) [OF m cluster_threads [OF C]] by blast
  have T: "threads_ok N hs old new a (got C a) (C ! a)" using n by (simp add: node_ok_def)
  have g2: "gone (C ! a) \<subseteq> {..<N}"
  proof (cases "xn_pc (C ! a) = Listening")
    case False
    then show ?thesis using gone_entry(1) [OF m T False] by blast
  qed simp
  have D': "stored (D a) n \<noteq> None \<longleftrightarrow> fst (old i) = int a" using D keys_apart [OF K i(1) _ i(2)] i by blast
  then show ?thesis unfolding st un [OF g1] un [OF g2] by auto
qed

lemma one_place:
  assumes m: "good_move N nb old new" and K: "keys_ok N K" and C: "cluster_ok good len N nb hs old new K D C"
    and D: "\<forall>a < nb. \<forall>n. stored (D a) n \<noteq> None \<longleftrightarrow> (\<exists>i < N. fst (old i) = int a \<and> n \<in> set (K i))" and i: "i < N" "n \<in> set (K i)"
  shows "(\<exists>!a. a < nb \<and> stored (sd_store (xn_snd (C ! a))) n \<noteq> None) \<or>
    (\<forall>a < nb. stored (sd_store (xn_snd (C ! a))) n = None) \<and> (\<exists>b < nb. \<exists>(c, p) \<in> set (xn_in (C ! b)). carries p (i, K i))"
proof -
  define c where "c = nat (fst (old i))"
  have c: "c < nb" "fst (old i) = int c" using m i(1) by (auto simp: good_move_def c_def)
  have len: "length C = nb" using C by (simp add: cluster_ok_def)
  have now: "stored (sd_store (xn_snd (C ! a))) n \<noteq> None \<longleftrightarrow> i \<in> got C a \<or> i \<notin> gone (C ! a) \<and> a = c" if "a < nb" for a
    using stored_now [OF m K C that _ i] D that c(2) by auto
  have T: "threads_ok N hs old new c (got C c) (C ! c)" using cluster_threads [OF C] c(1) len by simp
  have got: "(int b, i) \<in> landed (C ! c)" "fst (new i) = int b" if b: "i \<in> got C b" for b
  proof -
    obtain d where d: "d < length C" "(int b, i) \<in> landed (C ! d)" using b by (auto simp: got_def)
    have e: "xn_pc (C ! d) \<noteq> Listening" "(int b, i) \<in> set (xn_list (C ! d))" using d(2) landed_Listening landed_sub by blast+
    have Td: "threads_ok N hs old new d (got C d) (C ! d)" using cluster_threads [OF C] d(1) by simp
    have "d = c" using list_entry(3) [OF m Td e] c(2) by simp
    then show "(int b, i) \<in> landed (C ! c)" using d(2) by simp
    show "fst (new i) = int b" using list_entry(4) [OF m Td e] by simp
  qed
  have sent: "landed (C ! c) \<subseteq> set (take (sent_count (C ! c)) (xn_list (C ! c)))"
    unfolding landed_def by (rule set_take_subset_set_take) simp
  show ?thesis
  proof (cases "i \<in> gone (C ! c)")
    case False
    then have "i \<notin> got C b" for b using got(1) [of b] sent by (force simp: gone_def)
    then show ?thesis using now c(1) False by (intro disjI1 ex1I [of _ c]) blast+
  next
    case True
    then obtain z where z: "(z, i) \<in> set (take (sent_count (C ! c)) (xn_list (C ! c)))" by (auto simp: gone_def)
    have pc: "xn_pc (C ! c) \<noteq> Listening" using z by (auto simp: sent_count_def)
    have zl: "(z, i) \<in> set (xn_list (C ! c))" using z by (rule in_set_takeD)
    note e = list_entry [OF m T pc zl]
    define b where "b = nat z"
    have b: "z = int b" "b < nb" using e(5,6) by (auto simp: b_def)
    show ?thesis
    proof (cases "(z, i) \<in> landed (C ! c)")
      case land: True
      have L: "(int b, i) \<in> landed (C ! c)" using land b(1) by simp
      have "i \<in> got C b" unfolding got_def using L c(1) len by (intro CollectI exI [of _ c]) simp
      moreover have "a = b" if "i \<in> got C a" for a using got(2) [OF that] e(4) b(1) by simp
      ultimately have "a < nb \<and> stored (sd_store (xn_snd (C ! a))) n \<noteq> None \<longleftrightarrow> a = b" for a
        using now [of a] b(2) True by metis
      then show ?thesis by metis
    next
      case out: False
      then have fl: "in_flight (C ! c)" using z by (auto simp: landed_def split: if_splits)
      have no: "i \<notin> got C a" for a using got [of a] out e(4) by auto
      obtain k where k: "sent_count (C ! c) = Suc k" using z by (cases "sent_count (C ! c)") auto
      have kl: "k < length (xn_list (C ! c))" using z out fl k by (cases "k < length (xn_list (C ! c))") (auto simp: landed_def)
      then have "xn_list (C ! c) ! k = (z, i)" using z out fl k by (auto simp: landed_def take_Suc_conv_app_nth)
      then have "c \<in> fst ` set (xn_in (C ! b))" using C b fl c(1) k by (simp add: cluster_ok_def socket_ok_def)
      then obtain p where p: "(c, p) \<in> set (xn_in (C ! b))" by auto
      have "socket_ok K C b" using C b(2) by (simp add: cluster_ok_def)
      from socketD [OF this p] have "carries p (i, K i)" using \<open>xn_list (C ! c) ! k = (z, i)\<close> k by auto
      then show ?thesis using now no True b(2) p by blast
    qed
  qed
qed

context served_list
begin

lemma any_schedule:
  assumes ctx: "xfer_ctx X alloc N nb hs old ids vers K D" and new: "new = message_row ids vers"
    and pl: "placed inv len N nb old K S D" and ts: "set ts \<subseteq> cluster_threads_of nb"
  shows "\<exists>C. forM ts (cluster_turn X reset alloc cell hs N fill ids vers) (xfer_start nb S D) = Some C \<and>
    (\<forall>a < nb. xn_pc (C ! a) \<noteq> Snd_died \<and> xn_rcv (C ! a) \<noteq> Rcv_died) \<and>
    (\<forall>i < N. \<forall>n \<in> set (K i). (\<exists>!a. a < nb \<and> stored (sd_store (xn_snd (C ! a))) n \<noteq> None) \<or>
      (\<forall>a < nb. stored (sd_store (xn_snd (C ! a))) n = None) \<and> (\<exists>b < nb. \<exists>(c, p) \<in> set (xn_in (C ! b)). carries p (i, K i)))"
proof -
  note c = ctx [unfolded xfer_ctx_def, folded new]
  have m: "good_move N nb old new" and K: "keys_ok N K"
    and D: "\<forall>a < nb. \<forall>n. stored (D a) n \<noteq> None \<longleftrightarrow> (\<exists>i < N. fst (old i) = int a \<and> n \<in> set (K i))" using c by blast+
  have "xfer_ctx X alloc N nb hs old ids vers K D \<and> cluster_ok inv len N nb hs old (message_row ids vers) K D (xfer_start nb S D)"
    using ctx start_ok [OF pl] by blast
  from threads.turns [OF this ts, of cell fill] obtain C where
    C: "forM ts (cluster_turn X reset alloc cell hs N fill ids vers) (xfer_start nb S D) = Some C" "cluster_ok inv len N nb hs old new K D C"
    unfolding new by blast
  have "xn_pc (C ! a) \<noteq> Snd_died \<and> xn_rcv (C ! a) \<noteq> Rcv_died" if a: "a < nb" for a
  proof -
    have "threads_ok N hs old new a (got C a) (C ! a)" using C(2) a by (simp add: cluster_ok_def node_ok_def)
    then show ?thesis by (cases "xn_pc (C ! a)") (simp_all add: threads_ok_def Let_def)
  qed
  moreover have "\<forall>i < N. \<forall>n \<in> set (K i). (\<exists>!a. a < nb \<and> stored (sd_store (xn_snd (C ! a))) n \<noteq> None) \<or>
      (\<forall>a < nb. stored (sd_store (xn_snd (C ! a))) n = None) \<and> (\<exists>b < nb. \<exists>(c, p) \<in> set (xn_in (C ! b)). carries p (i, K i))"
    by (intro allI impI ballI one_place [OF m K C(2) D])
  ultimately show ?thesis using C(1) by (intro exI [of _ C] conjI) blast+
qed

end

end
