(* ===== verification/Cluster_Threads.thy ===== *)
theory Cluster_Threads
  imports Cluster_Moves Transfer_Threads
begin

text \<open>
  The windowed manager and the threads of its servers: what every schedule of the transfer threads does with the table
  the manager publishes.
\<close>

section \<open>Properties\<close>

abbreviation (input) reset_windowed :: "eacl_windowed \<Rightarrow> int \<Rightarrow> (int \<times> eacl_windowed option) option" where
  "reset_windowed \<equiv> \<lambda>e. eacl_reset_all_entry_windowed (Some e)"

lemma published_ctx:
  assumes "manager_ok N nb m" "manager_calculate_relab_windowed env_fine N (int nb) m = Some (0, m')"
    and "\<forall>i < N. same_place (old i) (mlt_row (table m) i)" and "0 < N" "\<forall>a < nb. \<exists>i < N. fst (old i) \<noteq> int a"
    and "xfer_fine X" "xe_hosts X = Some (text_file hs)" "fresh_alloc alloc"
    and "hosts_ok hs" "distinct hs" "nb \<le> length hs"
    and "placed eacl_wf_windowed eacl_len N nb old K S D" "keys_ok N K"
  shows "xfer_ctx X alloc N nb hs old (id_srv (table m')) (n_ver (table m')) K D"
proof -
  note p = published_moves [OF assms(1-3) refl]
  have few: "\<forall>a < nb. length (sends (int a) old (message_row (id_srv (table m')) (n_ver (table m'))) N) < N"
    using some_stay assms(5) by blast
  have "\<forall>a < nb. \<forall>n. stored (D a) n \<noteq> None \<longleftrightarrow> (\<exists>i < N. fst (old i) = int a \<and> n \<in> set (K i))"
    using assms(12) by (simp add: placed_def placed_at_def)
  then show ?thesis unfolding xfer_ctx_def using assms(4,6-11,13) p(1-3,5) few by blast
qed

text \<open>
  C1. Whatever the order in which the listener, the sender and the receiver threads of all servers take their turns: when
  each of them has its turn often enough, all transfers of the table the manager publishes end. No thread
  dies or waits for ever, no packet is left, every server has the new table with the flags cleared, and the
  keys are where the table says, with their values except that those of moved entries are \<open>''a word''\<close>.
\<close>

theorem fair_threads_complete:
  assumes "manager_ok N nb m" "manager_calculate_relab_windowed env_fine N (int nb) m = Some (0, m')"
    and "\<forall>i < N. same_place (old i) (mlt_row (table m) i)" and "0 < N" "\<forall>a < nb. \<exists>i < N. fst (old i) \<noteq> int a"
    and "xfer_fine X" "xe_hosts X = Some (text_file hs)" "fresh_alloc alloc"
    and "hosts_ok hs" "distinct hs" "nb \<le> length hs"
    and "placed eacl_wf_windowed eacl_len N nb old K S D" "keys_ok N K"
    and new: "new = message_row (id_srv (table m')) (n_ver (table m'))"
    and rounds: "nb * (4 * N + 2) \<le> length rounds" "\<forall>r \<in> set rounds. set r = cluster_threads_of nb"
  shows "\<exists>C. forM (concat rounds) (cluster_turn X reset_windowed alloc cell hs N fill (id_srv (table m')) (n_ver (table m')))
      (xfer_start nb S D) = Some C \<and>
    (\<forall>a < nb. xn_pc (C ! a) = Ended \<and> xn_rcv (C ! a) = Await 0 \<and> xn_in (C ! a) = []) \<and>
    placed eacl_wf_windowed eacl_len N nb (settled_row old new) (moved_names old new K) (\<lambda>a. sd_sv (xn_snd (C ! a))) (\<lambda>a. sd_store (xn_snd (C ! a))) \<and>
    (\<forall>i < N. same_place (settled_row old new i) (mlt_row (table m') i)) \<and>
    (\<forall>a < nb. \<forall>i < N. \<forall>n \<in> set (K i). fst (new i) = int a \<longrightarrow>
      stored (sd_store (xn_snd (C ! a))) n = (if changed old new i then Some ''a word'' else stored (D a) n))"
  using sl_windowed.fair_schedule [OF published_ctx [OF assms(1-13)] new assms(12) rounds, of cell fill]
    published_moves(4) [OF assms(1-3) new] by blast

text \<open>
  C2. And at every moment of every schedule, fair or not: the threads have made no invalid access and none of them has died, and every
  key is stored on exactly one server, or on none and in a packet in the socket of one.
\<close>

theorem no_key_lost_in_any_schedule:
  assumes "manager_ok N nb m" "manager_calculate_relab_windowed env_fine N (int nb) m = Some (0, m')"
    and "\<forall>i < N. same_place (old i) (mlt_row (table m) i)" and "0 < N" "\<forall>a < nb. \<exists>i < N. fst (old i) \<noteq> int a"
    and "xfer_fine X" "xe_hosts X = Some (text_file hs)" "fresh_alloc alloc"
    and "hosts_ok hs" "distinct hs" "nb \<le> length hs"
    and "placed eacl_wf_windowed eacl_len N nb old K S D" "keys_ok N K" and "set ts \<subseteq> cluster_threads_of nb"
  shows "\<exists>C. forM ts (cluster_turn X reset_windowed alloc cell hs N fill (id_srv (table m')) (n_ver (table m')))
      (xfer_start nb S D) = Some C \<and>
    (\<forall>a < nb. xn_pc (C ! a) \<noteq> Snd_died \<and> xn_rcv (C ! a) \<noteq> Rcv_died) \<and>
    (\<forall>i < N. \<forall>n \<in> set (K i). (\<exists>!a. a < nb \<and> stored (sd_store (xn_snd (C ! a))) n \<noteq> None) \<or>
      (\<forall>a < nb. stored (sd_store (xn_snd (C ! a))) n = None) \<and> (\<exists>b < nb. \<exists>(c, p) \<in> set (xn_in (C ! b)). carries p (i, K i)))"
  using sl_windowed.any_schedule [OF published_ctx [OF assms(1-13)] refl assms(12,14), of cell fill] by blast

text \<open>Two servers, four entries, one key, which moves from server 0 to server 1.\<close>

abbreviation (input) moving_turn :: "thread \<Rightarrow> eacl_windowed xfer_node list \<Rightarrow> eacl_windowed xfer_node list option" where
  "moving_turn \<equiv> cluster_turn xfer_demo reset_windowed next_cell \<lparr>md_ent = 9, md_name = [], md_next = None\<rparr> [''h0'', ''h1''] 4 (\<lambda>_ _. 0)
     [0, 1, 1, 1] [0, 0, 1, 0]"

lemma moving_facts:
  "manager_ok 4 2 demo_manager" "\<forall>a < 2. \<exists>i < 4. fst (mlt_row (table demo_manager) i) \<noteq> int a" "keys_ok 4 moving_keys"
  "xe_hosts xfer_demo = Some (text_file [''h0'', ''h1''])"
  "manager_calculate_relab_windowed env_fine 4 (int 2) demo_manager = Some (0, demo_result)"
proof -
  show "manager_ok 4 2 demo_manager" using manager_inv_ok [OF demo_manager_inv] by (simp add: INT_MAX_def)
  have "mlt_row (table demo_manager) 0 = (0, 0, 0)" "mlt_row (table demo_manager) 1 = (1, 0, 0)" using moving_rows by (simp_all add: numeral_eq_Suc upt_rec)
  then show "\<forall>a < 2. \<exists>i < 4. fst (mlt_row (table demo_manager) i) \<noteq> int a"
    by (auto simp: less_Suc_eq numeral_2_eq_2 intro: exI [of _ 1] exI [of _ 0])
  show "keys_ok 4 moving_keys" using xfer_names_ok by (auto simp: keys_ok_def moving_keys_def names_ok_def name_ok_def token_ok_def c_string_def joined_def)
  show "xe_hosts xfer_demo = Some (text_file [''h0'', ''h1''])" by (simp add: xfer_demo_def)
  show "manager_calculate_relab_windowed env_fine 4 (int 2) demo_manager = Some (0, demo_result)" using demo_moves(1) by simp
qed

theorem fair_threads_complete_witness:
  "\<exists>C. forM (concat (replicate 36 [Rcv 0, Snd 0, Rcv 1, Snd 1])) moving_turn (xfer_start 2 moving_server moving_store) = Some C \<and>
     xn_pc (C ! 0) = Ended \<and> xn_rcv (C ! 1) = Await 0 \<and> stored (sd_store (xn_snd (C ! 1))) ''k'' = Some ''a word'' \<and>
     stored (sd_store (xn_snd (C ! 0))) ''k'' = None"
proof -
  let ?old = "mlt_row (table demo_manager)" and ?new = "message_row (id_srv (table demo_result)) (n_ver (table demo_result))"
  have "\<forall>r \<in> set (replicate 36 [Rcv 0, Snd 0, Rcv 1, Snd 1]). set r = cluster_threads_of 2"
    by (auto simp: cluster_threads_of_def less_Suc_eq numeral_2_eq_2)
  with fair_threads_complete [OF moving_facts(1,5) _ _ moving_facts(2) xfer_demo_fine moving_facts(4) next_cell_fresh xfer_hosts _ _
      moving_placed moving_facts(3) refl, of "replicate 36 [Rcv 0, Snd 0, Rcv 1, Snd 1]" "\<lparr>md_ent = 9, md_name = [], md_next = None\<rparr>" "\<lambda>_ _. 0"]
  obtain C where C: "forM (concat (replicate 36 [Rcv 0, Snd 0, Rcv 1, Snd 1])) moving_turn (xfer_start 2 moving_server moving_store) = Some C"
    "\<forall>a < 2. xn_pc (C ! a) = Ended \<and> xn_rcv (C ! a) = Await 0 \<and> xn_in (C ! a) = []"
    "Placement.placed eacl_wf_windowed eacl_len 4 2 (settled_row ?old ?new) (moved_names ?old ?new moving_keys) (\<lambda>a. sd_sv (xn_snd (C ! a)))
       (\<lambda>a. sd_store (xn_snd (C ! a)))"
    "\<forall>a < 2. \<forall>i < 4. \<forall>n \<in> set (moving_keys i). fst (?new i) = int a \<longrightarrow>
      stored (sd_store (xn_snd (C ! a))) n = (if changed ?old ?new i then Some ''a word'' else stored (moving_store a) n)"
    unfolding demo_moves(2,3) by (auto simp: same_place_def)
  have s: "fst (?new 2) = 1" "changed ?old ?new 2" "map (\<lambda>i. fst (settled_row ?old ?new i)) [0..<4] = [0, 1, 1, 1]" by code_simp+
  have "stored (sd_store (xn_snd (C ! 1))) ''k'' = Some ''a word''"
    using C(4) [rule_format, of 1 2 "''k''"] s(1,2) by (simp add: moving_keys_def)
  moreover have "stored (sd_store (xn_snd (C ! 0))) ''k'' = None"
  proof (rule ccontr)
    assume "stored (sd_store (xn_snd (C ! 0))) ''k'' \<noteq> None"
    then obtain i where "i < 4" "fst (settled_row ?old ?new i) = 0" "''k'' \<in> set (moved_names ?old ?new moving_keys i)"
      using C(3) by (auto simp: placed_def placed_at_def)
    then show False using s(3) by (auto simp: moved_names_def moving_keys_def upt_rec numeral_eq_Suc split: if_splits)
  qed
  ultimately show ?thesis using C(1,2) by (intro exI [of _ C]) simp
qed

theorem no_key_lost_in_any_schedule_witness:
  "\<exists>C. forM [Snd 0, Rcv 1, Snd 0, Snd 0, Rcv 1] moving_turn (xfer_start 2 moving_server moving_store) = Some C \<and>
     ((\<exists>!a. a < 2 \<and> stored (sd_store (xn_snd (C ! a))) ''k'' \<noteq> None) \<or>
      (\<forall>a < 2. stored (sd_store (xn_snd (C ! a))) ''k'' = None) \<and> (\<exists>b < 2. \<exists>(c, p) \<in> set (xn_in (C ! b)). carries p (2, [''k''])))"
proof -
  have t: "set [Snd 0, Rcv 1, Snd 0, Snd 0, Rcv 1] \<subseteq> cluster_threads_of 2" by (auto simp: cluster_threads_of_def)
  from no_key_lost_in_any_schedule [OF moving_facts(1,5) _ _ moving_facts(2) xfer_demo_fine moving_facts(4) next_cell_fresh xfer_hosts _ _
      moving_placed moving_facts(3) t, of "\<lparr>md_ent = 9, md_name = [], md_next = None\<rparr>" "\<lambda>_ _. 0"]
  obtain C where C: "forM [Snd 0, Rcv 1, Snd 0, Snd 0, Rcv 1] moving_turn (xfer_start 2 moving_server moving_store) = Some C"
    "\<forall>i < 4. \<forall>n \<in> set (moving_keys i). (\<exists>!a. a < 2 \<and> stored (sd_store (xn_snd (C ! a))) n \<noteq> None) \<or>
      (\<forall>a < 2. stored (sd_store (xn_snd (C ! a))) n = None) \<and> (\<exists>b < 2. \<exists>(c, p) \<in> set (xn_in (C ! b)). carries p (i, moving_keys i))"
    unfolding demo_moves(2,3) by (auto simp: same_place_def)
  have k: "2 < (4 :: nat)" "''k'' \<in> set (moving_keys 2)" "moving_keys 2 = [''k'']" by (simp_all add: moving_keys_def)
  note now = bspec [OF mp [OF spec [OF C(2), of 2] k(1)] k(2), unfolded k(3)]
  show ?thesis by (rule exI [of _ C], rule conjI [OF C(1) now])
qed

end
