(* ===== verification/Server_Main.thy ===== *)
theory Server_Main
  imports Server_Dist Generic_Storage
begin

text \<open>
  \<open>server.c\<close>: the handling of one request, from its reception to the reply. The distribution
  method is the parameter \<open>post\<close>.
\<close>

section \<open>The code\<close>

text \<open>The state of a server process: distribution state, storage, counter of requests.\<close>

record 'e host =
  ho_sv :: "'e server"
  ho_store :: store
  ho_access :: int

text \<open>
  The \<open>switch\<close> on the type of the request, which is 0 when the field is missing. The key and
  the data of a request without these fields are \<open>NULL\<close>, on which the storage operations are
  undefined. A \<open>get\<close> that fails hands \<open>NULL\<close> to \<open>json_object_new_string\<close>, whose argument has to
  be a string: undefined behaviour.
\<close>

definition server_process :: "'j json \<Rightarrow> io \<Rightarrow> store \<Rightarrow> 'j \<Rightarrow> (int \<times> store \<times> 'j) option" where
  "server_process J io st request =
     (let reqType = (if j_has J request ''reqType'' then j_int J request ''reqType'' else 0);
          key = j_str J request ''key'' in
      if \<not> j_has J request ''key'' then None
      else if reqType = RT_CREATE then
        if \<not> j_has J request ''data'' then None
        else let (st, rc) = generic_put io st key (j_str J request ''data'') in
          Some (if rc \<noteq> 0 then -1 else 0, st, request)
      else if reqType = RT_UPDATE then
        if \<not> j_has J request ''data'' then None
        else let (st, rc) = generic_update io st key (j_str J request ''data'') in
          Some (if rc \<noteq> 0 then -1 else 0, st, request)
      else if reqType = RT_DELETE then
        let (st, rc) = generic_del io st key in
        Some (if rc \<noteq> 0 then -1 else 0, st, request)
      else do {
        (st, get_value) \<leftarrow> generic_get io st key;
        v \<leftarrow> get_value;
        Some (0, st, j_add_str J request ''getValue'' v)
      })"

definition reply_flag :: "int \<Rightarrow> string" where
  "reply_flag global_rc =
     (if global_rc = 0 then ''done''
      else if global_rc = - EAGAIN then ''update&retry''
      else if global_rc = - EALREADY then ''wait&retry''
      else ''aborted'')"

definition server_handle ::
  "'j json \<Rightarrow> (lock_env \<Rightarrow> 'e server \<Rightarrow> 'j \<Rightarrow> (int \<times> 'j \<times> 'e server) option) \<Rightarrow>
   (lock_env \<Rightarrow> nat \<Rightarrow> md_entry \<Rightarrow> 'e server \<Rightarrow> 'j \<Rightarrow> int \<Rightarrow> (int \<times> 'e server) option) \<Rightarrow>
   io \<Rightarrow> lock_env \<Rightarrow> nat \<Rightarrow> md_entry \<Rightarrow> 'e host \<Rightarrow> 'j \<Rightarrow> ('j \<times> 'e host) option" where
  "server_handle J post pre io E a fill host request = do {
     n \<leftarrow> c_int (ho_access host + 1);
     (rc, request, sv) \<leftarrow> post E (ho_sv host) request;
     (global_rc, st, request) \<leftarrow>
       (if rc = - EAGAIN then Some (- EAGAIN, ho_store host, request)
        else if rc = - EALREADY then Some (- EALREADY, ho_store host, request)
        else if rc < 0 then Some (-1, ho_store host, request)
        else server_process J io (ho_store host) request);
     (rc, sv) \<leftarrow> pre E a fill sv request global_rc;
     let global_rc = (if rc \<noteq> 0 then -1 else global_rc);
     let reply = j_add_str J request ''repFlag'' (reply_flag global_rc);
     Some (reply, host\<lparr>ho_sv := sv, ho_store := st, ho_access := n\<rparr>)
   }"

text \<open>The server program of each method.\<close>

definition server_dh ::
  "'j json \<Rightarrow> io \<Rightarrow> lock_env \<Rightarrow> nat \<Rightarrow> md_entry \<Rightarrow> eacl host \<Rightarrow> 'j \<Rightarrow> ('j \<times> eacl host) option" where
  "server_dh J = server_handle J (distribution_post_receive_dh J) (distribution_pre_send J)"

definition server_indedh ::
  "'j json \<Rightarrow> io \<Rightarrow> lock_env \<Rightarrow> nat \<Rightarrow> md_entry \<Rightarrow> eacl_indedh host \<Rightarrow> 'j \<Rightarrow> ('j \<times> eacl_indedh host) option" where
  "server_indedh J = server_handle J (distribution_post_receive_indedh J) (distribution_pre_send_indedh J)"

definition server_windowed ::
  "'j json \<Rightarrow> io \<Rightarrow> lock_env \<Rightarrow> nat \<Rightarrow> md_entry \<Rightarrow> eacl_windowed host \<Rightarrow> 'j \<Rightarrow>
   ('j \<times> eacl_windowed host) option" where
  "server_windowed J = server_handle J (distribution_post_receive_windowed J) (distribution_pre_send_windowed J)"

text \<open>The static method checks nothing and keeps nothing.\<close>

definition distribution_post_receive_sh :: "lock_env \<Rightarrow> 'e server \<Rightarrow> 'j \<Rightarrow> (int \<times> 'j \<times> 'e server) option" where
  "distribution_post_receive_sh E sv request = Some (0, request, sv)"

definition distribution_pre_send_sh ::
  "lock_env \<Rightarrow> nat \<Rightarrow> md_entry \<Rightarrow> 'e server \<Rightarrow> 'j \<Rightarrow> int \<Rightarrow> (int \<times> 'e server) option" where
  "distribution_pre_send_sh E a fill sv reply global_rc = Some (0, sv)"

definition server_sh ::
  "'j json \<Rightarrow> io \<Rightarrow> lock_env \<Rightarrow> nat \<Rightarrow> md_entry \<Rightarrow> unit host \<Rightarrow> 'j \<Rightarrow> ('j \<times> unit host) option" where
  "server_sh J = server_handle J distribution_post_receive_sh distribution_pre_send_sh"

section \<open>What a request does\<close>

lemma reply_flags: "reply_flag 0 = ''done''" "reply_flag (- EAGAIN) = ''update&retry''"
  "reply_flag (- EALREADY) = ''wait&retry''" "reply_flag (-1) = ''aborted''"
  by (simp_all add: reply_flag_def errno_defs)

text \<open>A request for entry \<open>i\<close> as a client sends it.\<close>

definition request_for :: "'j json \<Rightarrow> 'j \<Rightarrow> nat \<Rightarrow> int \<Rightarrow> bool" where
  "request_for J r i v \<longleftrightarrow> j_has J r ''index'' \<and> j_int J r ''index'' = int i \<and>
     j_has J r ''entryVersion'' \<and> j_int J r ''entryVersion'' = v \<and>
     j_has J r ''key'' \<and> j_has J r ''reqType''"

context served_list
begin

lemma handle_stale:
  assumes J: "json_laws J" and ok: "server_ok inv len N (ho_sv host) L" and i: "i < N" and r: "request_for J r i v0"
    and row: "mlt_row (sv_table (ho_sv host)) i = (s, v, 0)" and v: "v0 \<noteq> v" and n: "int_ok (ho_access host + 1)"
  shows "\<exists>d. server_handle J (distribution_post_receive J incr) (distribution_pre_send J) io locks_work a fill host r = Some (d, host\<lparr>ho_access := ho_access host + 1\<rparr>) \<and>
    j_has J d ''repFlag'' \<and> j_str J d ''repFlag'' = ''update&retry'' \<and>
    j_has J d ''versionFlag'' \<and> j_str J d ''versionFlag'' = ''out-of-date'' \<and>
    j_has J d ''newSrv'' \<and> j_int J d ''newSrv'' = s \<and> j_has J d ''newVersion'' \<and> j_int J d ''newVersion'' = v \<and>
    j_has J d ''index'' \<and> j_int J d ''index'' = int i \<and> j_has J d ''getValue'' = j_has J r ''getValue''"
proof -
  obtain r' where r': "distribution_post_receive J incr locks_work (ho_sv host) r = Some (- EAGAIN, r', ho_sv host)"
    "j_str J r' ''versionFlag'' = ''out-of-date''" "j_has J r' ''versionFlag''"
    "j_has J r' ''newSrv''" "j_int J r' ''newSrv'' = s" "j_has J r' ''newVersion''" "j_int J r' ''newVersion'' = v"
    "j_has J r' ''index''" "j_int J r' ''index'' = int i" "j_has J r' ''getValue'' = j_has J r ''getValue''"
    using post_receive_stale [OF J ok i _ _ _ row, of r] r v by (auto simp: request_for_def)
  have "server_handle J (distribution_post_receive J incr) (distribution_pre_send J) io locks_work a fill host r = Some (j_add_str J r' ''repFlag'' ''update&retry'',
      host\<lparr>ho_access := ho_access host + 1\<rparr>)"
    using r'(1) n by (simp add: server_handle_def c_conv distribution_pre_send_def reply_flag_def errno_defs)
  then show ?thesis using r' J by (simp add: json_simps)
qed

lemma handle_moving:
  assumes J: "json_laws J" and ok: "server_ok inv len N (ho_sv host) L" and i: "i < N" and r: "request_for J r i v0"
    and row: "mlt_row (sv_table (ho_sv host)) i = (s, v, f)" and f: "f \<noteq> 0" and n: "int_ok (ho_access host + 1)"
  shows "server_handle J (distribution_post_receive J incr) (distribution_pre_send J) io locks_work a fill host r = Some (j_add_str J r ''repFlag'' ''wait&retry'',
      host\<lparr>ho_access := ho_access host + 1\<rparr>)"
proof -
  have "distribution_post_receive J incr locks_work (ho_sv host) r = Some (- EALREADY, r, ho_sv host)"
    using post_receive_moving [OF ok i _ _ _ row f, of J r] r by (simp add: request_for_def)
  then show ?thesis
    using n by (simp add: server_handle_def c_conv distribution_pre_send_def reply_flag_def errno_defs)
qed

text \<open>A request for an entry that is served: what the storage did decides.\<close>

lemma handle_served:
  assumes J: "json_laws J" and ok: "server_ok inv len N (ho_sv host) L" and i: "i < N" and r: "request_for J r i v"
    and row: "mlt_row (sv_table (ho_sv host)) i = (s, v, 0)" and n: "int_ok (ho_access host + 1)"
  shows "\<exists>sv'. sv_table sv' = sv_table (ho_sv host) \<and> sv_heap sv' = sv_heap (ho_sv host) \<and> server_ok inv len N sv' L \<and>
    (\<forall>j < N. counter (sv_list sv') j =
       (if j = i then counter (sv_list (ho_sv host)) i + 1 else counter (sv_list (ho_sv host)) j)) \<and>
    server_handle J (distribution_post_receive J incr) (distribution_pre_send J) io locks_work a fill host r =
      do {
        (global_rc, st, request) \<leftarrow> server_process J io (ho_store host) (j_add_str J r ''versionFlag'' ''up-to-date'');
        (rc, sv) \<leftarrow> distribution_pre_send J locks_work a fill sv' request global_rc;
        Some (j_add_str J request ''repFlag'' (reply_flag (if rc \<noteq> 0 then -1 else global_rc)),
          host\<lparr>ho_sv := sv, ho_store := st, ho_access := ho_access host + 1\<rparr>)
      }"
proof -
  obtain sv' where sv': "distribution_post_receive J incr locks_work (ho_sv host) r
      = Some (0, j_add_str J r ''versionFlag'' ''up-to-date'', sv')"
    "sv' = (ho_sv host)\<lparr>sv_list := sv_list sv'\<rparr>" "server_ok inv len N sv' L"
    "\<forall>j < N. counter (sv_list sv') j =
      (if j = i then counter (sv_list (ho_sv host)) i + 1 else counter (sv_list (ho_sv host)) j)"
    using post_receive_served [OF J ok i _ _ _ row, of r] r by (auto simp: request_for_def)
  have "sv_table sv' = sv_table (ho_sv host)" "sv_heap sv' = sv_heap (ho_sv host)"
    by (subst sv'(2), simp)+
  moreover have "server_handle J (distribution_post_receive J incr) (distribution_pre_send J) io locks_work a fill host r =
      do {
        (global_rc, st, request) \<leftarrow> server_process J io (ho_store host) (j_add_str J r ''versionFlag'' ''up-to-date'');
        (rc, sv) \<leftarrow> distribution_pre_send J locks_work a fill sv' request global_rc;
        Some (j_add_str J request ''repFlag'' (reply_flag (if rc \<noteq> 0 then -1 else global_rc)),
          host\<lparr>ho_sv := sv, ho_store := st, ho_access := ho_access host + 1\<rparr>)
      }"
    using sv'(1) n by (simp add: server_handle_def c_conv errno_defs Let_def)
  ultimately show ?thesis using sv'(3,4) by blast
qed

lemma handle_create:
  assumes J: "json_laws J" and ok: "server_ok inv len N (ho_sv host) L" and i: "i < N" and r: "request_for J r i v"
    and row: "mlt_row (sv_table (ho_sv host)) i = (s, v, 0)" and n: "int_ok (ho_access host + 1)"
    and t: "j_int J r ''reqType'' = RT_CREATE" "j_has J r ''data''"
    and io: "io_good io (j_str J r ''data'')" and new: "stored (ho_store host) (j_str J r ''key'') = None"
    and a: "sv_heap (ho_sv host) a = None"
  shows "\<exists>d host'. server_handle J (distribution_post_receive J incr) (distribution_pre_send J) io locks_work a fill host r = Some (d, host') \<and>
    j_has J d ''repFlag'' \<and> j_str J d ''repFlag'' = ''done'' \<and>
    j_has J d ''versionFlag'' \<and> j_str J d ''versionFlag'' = ''up-to-date'' \<and>
    ho_access host' = ho_access host + 1 \<and> sv_table (ho_sv host') = sv_table (ho_sv host) \<and>
    server_ok inv len N (ho_sv host') (L[i := j_str J r ''key'' # L ! i]) \<and>
    (\<forall>k. stored (ho_store host') k = (if k = j_str J r ''key'' then Some (j_str J r ''data'') else stored (ho_store host) k)) \<and>
    (\<forall>j < N. counter (sv_list (ho_sv host')) j =
       (if j = i then counter (sv_list (ho_sv host)) i + 1 else counter (sv_list (ho_sv host)) j))"
proof -
  let ?k = "j_str J r ''key''" and ?r = "j_add_str J r ''versionFlag'' ''up-to-date''"
  obtain sv' where sv': "sv_table sv' = sv_table (ho_sv host)" "sv_heap sv' = sv_heap (ho_sv host)" "server_ok inv len N sv' L"
    "\<forall>j < N. counter (sv_list sv') j =
      (if j = i then counter (sv_list (ho_sv host)) i + 1 else counter (sv_list (ho_sv host)) j)"
    "server_handle J (distribution_post_receive J incr) (distribution_pre_send J) io locks_work a fill host r =
      do {
        (global_rc, st, request) \<leftarrow> server_process J io (ho_store host) ?r;
        (rc, sv) \<leftarrow> distribution_pre_send J locks_work a fill sv' request global_rc;
        Some (j_add_str J request ''repFlag'' (reply_flag (if rc \<noteq> 0 then -1 else global_rc)),
          host\<lparr>ho_sv := sv, ho_store := st, ho_access := ho_access host + 1\<rparr>)
      }" using handle_served [OF J ok i r row n, of io a fill] by blast
  note r' = r [unfolded request_for_def]
  obtain st where st: "generic_put io (ho_store host) ?k (j_str J r ''data'') = (st, 0)"
    "\<forall>k. stored st k = (if k = ?k then Some (j_str J r ''data'') else stored (ho_store host) k)"
    using put_ok [OF io new] by blast
  have p: "server_process J io (ho_store host) ?r = Some (0, st, ?r)"
    using r' t st(1) J by (simp add: server_process_def json_simps Let_def)
  obtain sv2 where sv2: "pre_send_create J locks_work a fill sv' ?r = Some (0, sv2)"
    "server_ok inv len N sv2 (L[i := ?k # L ! i])" "sv_table sv2 = sv_table sv'" "sv_list sv2 = sv_list sv'"
    using pre_send_create_ok [OF sv'(3) i, of J ?r a fill] r' J a sv'(2) by (auto simp: json_simps)
  have q: "distribution_pre_send J locks_work a fill sv' ?r 0 = Some (0, sv2)"
    using sv2(1) r' t J by (simp add: distribution_pre_send_def json_simps)
  have "server_handle J (distribution_post_receive J incr) (distribution_pre_send J) io locks_work a fill host r = Some (j_add_str J ?r ''repFlag'' ''done'',
      host\<lparr>ho_sv := sv2, ho_store := st, ho_access := ho_access host + 1\<rparr>)"
    using sv'(5) p q by (simp add: reply_flags)
  then show ?thesis using sv'(1,4) sv2 st(2) J by (simp add: json_simps)
qed

lemma handle_read:
  assumes J: "json_laws J" and ok: "server_ok inv len N (ho_sv host) L" and i: "i < N" and r: "request_for J r i v"
    and row: "mlt_row (sv_table (ho_sv host)) i = (s, v, 0)" and n: "int_ok (ho_access host + 1)"
    and t: "j_int J r ''reqType'' = RT_READ"
    and io: "io_good io x" and x: "stored (ho_store host) (j_str J r ''key'') = Some x" "c_string x" "length x < BUF_GET"
  shows "\<exists>d host'. server_handle J (distribution_post_receive J incr) (distribution_pre_send J) io locks_work a fill host r = Some (d, host') \<and>
    j_has J d ''repFlag'' \<and> j_str J d ''repFlag'' = ''done'' \<and> j_has J d ''getValue'' \<and> j_str J d ''getValue'' = x \<and>
    j_has J d ''versionFlag'' \<and> j_str J d ''versionFlag'' = ''up-to-date'' \<and>
    ho_store host' = ho_store host \<and> sv_table (ho_sv host') = sv_table (ho_sv host) \<and> server_ok inv len N (ho_sv host') L"
proof -
  let ?r = "j_add_str J r ''versionFlag'' ''up-to-date''"
  obtain sv' where sv': "sv_table sv' = sv_table (ho_sv host)" "server_ok inv len N sv' L"
    "server_handle J (distribution_post_receive J incr) (distribution_pre_send J) io locks_work a fill host r =
      do {
        (global_rc, st, request) \<leftarrow> server_process J io (ho_store host) ?r;
        (rc, sv) \<leftarrow> distribution_pre_send J locks_work a fill sv' request global_rc;
        Some (j_add_str J request ''repFlag'' (reply_flag (if rc \<noteq> 0 then -1 else global_rc)),
          host\<lparr>ho_sv := sv, ho_store := st, ho_access := ho_access host + 1\<rparr>)
      }" using handle_served [OF J ok i r row n, of io a fill] by blast
  note r' = r [unfolded request_for_def]
  let ?g = "j_add_str J ?r ''getValue'' x"
  have p: "server_process J io (ho_store host) ?r = Some (0, ho_store host, ?g)"
    using r' t get_ok [OF io x] J by (simp add: server_process_def json_simps Let_def req_type_defs)
  have q: "distribution_pre_send J locks_work a fill sv' ?g 0 = Some (0, sv')"
    using r' t J by (simp add: distribution_pre_send_def json_simps req_type_defs)
  have "server_handle J (distribution_post_receive J incr) (distribution_pre_send J) io locks_work a fill host r = Some (j_add_str J ?g ''repFlag'' ''done'',
      host\<lparr>ho_sv := sv', ho_store := ho_store host, ho_access := ho_access host + 1\<rparr>)"
    using sv'(3) p q by (simp add: reply_flags)
  then show ?thesis using sv'(1,2) J by (simp add: json_simps)
qed

text \<open>Reading a key that is not stored is undefined behaviour of the server.\<close>

lemma handle_read_missing:
  assumes J: "json_laws J" and ok: "server_ok inv len N (ho_sv host) L" and i: "i < N" and r: "request_for J r i v"
    and row: "mlt_row (sv_table (ho_sv host)) i = (s, v, 0)" and n: "int_ok (ho_access host + 1)"
    and t: "j_int J r ''reqType'' = RT_READ" and io: "io_good io x"
    and x: "stored (ho_store host) (j_str J r ''key'') = None"
  shows "server_handle J (distribution_post_receive J incr) (distribution_pre_send J) io locks_work a fill host r = None"
proof -
  note r' = r [unfolded request_for_def]
  have "generic_get io (ho_store host) (j_str J r ''key'') = Some (ho_store host, None)"
    using x io by (simp add: generic_get_def stored_def Let_def io_good_def)
  then have "server_process J io (ho_store host) (j_add_str J r ''versionFlag'' ''up-to-date'') = None"
    using r' t J by (simp add: server_process_def json_simps Let_def req_type_defs)
  then show ?thesis using handle_served [OF J ok i r row n, of io a fill] by auto
qed

end

section \<open>Properties\<close>

definition demo_host :: "'e \<Rightarrow> u32 \<Rightarrow> 'e host" where
  "demo_host e f = \<lparr>ho_sv = \<lparr>sv_table = \<lparr>id_srv = [1, 0], n_ver = [1, 0], mlt_state = [f, 0], mlt_size = 2\<rparr>, sv_list = e,
     sv_md = [None, None], sv_heap = (\<lambda>_. None), sv_self = 1\<rparr>, ho_store = \<lparr>files = (\<lambda>_. None), fds = 0\<rparr>, ho_access = 7\<rparr>"

definition demo_request :: "int \<Rightarrow> int \<Rightarrow> jmap" where
  "demo_request t v = [''key'' \<mapsto> JStr ''k'', ''data'' \<mapsto> JStr ''a word'', ''reqType'' \<mapsto> JInt t, ''index'' \<mapsto> JInt 0,
     ''entryVersion'' \<mapsto> JInt v]"

definition demo_cell :: md_entry where
  "demo_cell = \<lparr>md_ent = 0, md_name = [], md_next = None\<rparr>"

lemma demo_host_ok:
  assumes "good e" and "len e = 2"
  shows "server_ok good len 2 (ho_sv (demo_host e f)) [[], []]"
proof -
  have "holds (\<lambda>_. None) [None, None] [[], []]" using holds_empty [of 2] by (simp add: numeral_2_eq_2)
  then show ?thesis using assms by (simp add: server_ok_def demo_host_def mlt_wf_def mlt_len_def INT_MAX_def)
qed

lemma demo_request_for: "request_for map_json (demo_request t v) 0 v"
  by (simp add: request_for_def demo_request_def map_json_def)

lemma demo_host_row: "mlt_row (sv_table (ho_sv (demo_host e f))) 0 = (1, 1, int_of_u32 f)"
  by (simp add: demo_host_def mlt_row_def int_of_u32_def)

lemma demo_host_fresh: "int_ok (ho_access (demo_host e f) + 1)" "stored (ho_store (demo_host e f)) k = None"
  "sv_heap (ho_sv (demo_host e f)) a = None"
  by (simp_all add: demo_host_def stored_def int_ok_def INT_MIN_def INT_MAX_def)

definition demo_list_windowed :: eacl_windowed where
  "demo_list_windowed = \<lparr>access_count = [0, 0], sai = [0, 0], eacl_size = 2, load_lvl = 0,
     old_accesses = replicate 2 \<lparr>q_count = WINDOW_SIZE, q_used = 0, q_next = 0, q_values = replicate WINDOW_SIZE 0\<rparr>\<rparr>"

definition demo_list_dh :: eacl where
  "demo_list_dh = \<lparr>access_count = [0, 0], sai = [0, 0], eacl_size = 2\<rparr>"

definition demo_list_indedh :: eacl_indedh where
  "demo_list_indedh = \<lparr>access_count = [0, 0], sai = [0, 0], eacl_size = 2, load_lvl = 0\<rparr>"

lemma demo_lists_wf: "eacl_wf_windowed demo_list_windowed" "eacl_len demo_list_windowed = 2"
  "eacl_wf demo_list_dh" "eacl_len demo_list_dh = 2" "eacl_wf demo_list_indedh" "eacl_len demo_list_indedh = 2"
  by (simp_all add: demo_list_windowed_def demo_list_dh_def demo_list_indedh_def eacl_wf_windowed_def eacl_wf_def
      eacl_len_def q_wf_def WINDOW_SIZE_def INT_MAX_def)

text \<open>
  C31: a request that a server of the windowed method must not serve changes nothing but the counter of
  requests: for an entry in transfer the reply is ``wait\&retry'', for another version of the entry than
  the client has it is ``update\&retry'', and it then holds the server in charge and the version.
\<close>

theorem refused_request_changes_nothing:
  assumes "json_laws J" and "server_ok eacl_wf_windowed eacl_len N (ho_sv host) L" and "i < N"
    and "request_for J r i v0" and "mlt_row (sv_table (ho_sv host)) i = (s, v, f)" and "f \<noteq> 0 \<or> v0 \<noteq> v"
    and "int_ok (ho_access host + 1)"
  shows "\<exists>d. server_windowed J io locks_work a fill host r = Some (d, host\<lparr>ho_access := ho_access host + 1\<rparr>) \<and>
    j_str J d ''repFlag'' = (if f \<noteq> 0 then ''wait&retry'' else ''update&retry'') \<and>
    (f = 0 \<longrightarrow> j_int J d ''newSrv'' = s \<and> j_int J d ''newVersion'' = v \<and> j_int J d ''index'' = int i)"
proof (cases "f = 0")
  case True
  then have row: "mlt_row (sv_table (ho_sv host)) i = (s, v, 0)" and v: "v0 \<noteq> v" using assms(5,6) by auto
  show ?thesis
    using sl_windowed.handle_stale [OF assms(1-4) row v assms(7), of io a fill] True
    unfolding server_windowed_def distribution_post_receive_windowed_def distribution_pre_send_windowed_def by auto
next
  case False
  then show ?thesis
    using sl_windowed.handle_moving [OF assms(1-5) _ assms(7), of io a fill] json_simps(7) [OF assms(1)]
    unfolding server_windowed_def distribution_post_receive_windowed_def distribution_pre_send_windowed_def by auto
qed

theorem refused_request_changes_nothing_witness:
  "\<exists>d. server_windowed map_json io_fine locks_work 0 demo_cell (demo_host demo_list_windowed 1) (demo_request 1 1)
     = Some (d, (demo_host demo_list_windowed 1)\<lparr>ho_access := ho_access (demo_host demo_list_windowed 1) + 1\<rparr>) \<and>
    j_str map_json d ''repFlag'' = ''wait&retry''"
proof -
  have ok: "server_ok eacl_wf_windowed eacl_len 2 (ho_sv (demo_host demo_list_windowed 1)) [[], []]"
    by (rule demo_host_ok) (simp_all add: demo_lists_wf)
  have row: "mlt_row (sv_table (ho_sv (demo_host demo_list_windowed 1))) 0 = (1, 1, 1)"
    by (simp add: demo_host_row int_of_u32_def)
  show ?thesis
    using refused_request_changes_nothing [where io = io_fine and a = 0 and fill = demo_cell,
        OF map_json_laws ok _ demo_request_for [of 1 1] row _ demo_host_fresh(1)]
    by auto
qed

text \<open>
  C30: a creation request for the version the server has is served: the reply is ``done'', the value is
  stored under the key and nothing else changes in the storage, the name is added to the names of the
  entry, and the access is counted for this entry only.
\<close>

theorem creation_is_served:
  assumes "json_laws J" and "server_ok eacl_wf eacl_len N (ho_sv host) L" and "i < N"
    and "request_for J r i v" and "mlt_row (sv_table (ho_sv host)) i = (s, v, 0)" and "int_ok (ho_access host + 1)"
    and "j_int J r ''reqType'' = RT_CREATE" "j_has J r ''data''"
    and "io_good io (j_str J r ''data'')" and "stored (ho_store host) (j_str J r ''key'') = None"
    and "sv_heap (ho_sv host) a = None"
  shows "\<exists>d host'. server_dh J io locks_work a fill host r = Some (d, host') \<and> j_str J d ''repFlag'' = ''done'' \<and>
    (\<forall>k. stored (ho_store host') k =
       (if k = j_str J r ''key'' then Some (j_str J r ''data'') else stored (ho_store host) k)) \<and>
    server_ok eacl_wf eacl_len N (ho_sv host') (L[i := j_str J r ''key'' # L ! i]) \<and>
    (\<forall>j < N. access_count (sv_list (ho_sv host')) ! j =
       (if j = i then access_count (sv_list (ho_sv host)) ! i + 1 else access_count (sv_list (ho_sv host)) ! j))"
  using sl_dh.handle_create [OF assms, of fill]
  unfolding server_dh_def distribution_post_receive_dh_def by blast

theorem creation_is_served_witness:
  "\<exists>d host'. server_dh map_json io_fine locks_work 0 demo_cell (demo_host demo_list_dh 0) (demo_request 1 1) = Some (d, host') \<and>
    j_str map_json d ''repFlag'' = ''done'' \<and> stored (ho_store host') ''k'' = Some ''a word'' \<and>
    access_count (sv_list (ho_sv host')) ! 0 = 1"
proof -
  have row: "mlt_row (sv_table (ho_sv (demo_host demo_list_dh 0))) 0 = (1, 1, 0)"
    by (simp add: demo_host_row int_of_u32_def)
  have ok: "server_ok eacl_wf eacl_len 2 (ho_sv (demo_host demo_list_dh 0)) [[], []]"
    by (rule demo_host_ok) (simp_all add: demo_lists_wf)
  have q: "j_int map_json (demo_request 1 1) ''reqType'' = RT_CREATE" "j_has map_json (demo_request 1 1) ''data''"
    "j_str map_json (demo_request 1 1) ''data'' = ''a word''" "j_str map_json (demo_request 1 1) ''key'' = ''k''"
    by (simp_all add: demo_request_def map_json_def RT_CREATE_def)
  have io: "io_good io_fine (j_str map_json (demo_request 1 1) ''data'')"
    by (simp add: q io_good_def io_fine_def BUF_GET_def)
  have c: "access_count (sv_list (ho_sv (demo_host demo_list_dh 0))) ! 0 = 0" by (simp add: demo_host_def demo_list_dh_def)
  from creation_is_served [OF map_json_laws ok _ demo_request_for row demo_host_fresh(1) q(1,2) io demo_host_fresh(2,3), of 0 demo_cell]
  show ?thesis by (auto simp: q c)
qed

text \<open>
  Reading a key that is not stored is undefined behaviour of the server: \<open>generic_get\<close> returns
  \<open>NULL\<close>, and \<open>server.c\<close> makes a JSON string of it without a test.
\<close>

theorem reading_missing_key_is_undefined:
  assumes "json_laws J" and "server_ok eacl_wf eacl_len N (ho_sv host) L" and "i < N"
    and "request_for J r i v" and "mlt_row (sv_table (ho_sv host)) i = (s, v, 0)" and "int_ok (ho_access host + 1)"
    and "j_int J r ''reqType'' = RT_READ" and "io_good io x" and "stored (ho_store host) (j_str J r ''key'') = None"
  shows "server_indedh J io locks_work a fill host r = None"
  using sl_indedh.handle_read_missing [OF assms, of a fill]
  unfolding server_indedh_def distribution_post_receive_indedh_def distribution_pre_send_indedh_def .

theorem reading_missing_key_is_undefined_witness:
  "server_indedh map_json io_fine locks_work 0 demo_cell (demo_host demo_list_indedh 0) (demo_request 2 1) = None"
proof -
  have row: "mlt_row (sv_table (ho_sv (demo_host demo_list_indedh 0))) 0 = (1, 1, 0)"
    by (simp add: demo_host_row int_of_u32_def)
  have ok: "server_ok eacl_wf eacl_len 2 (ho_sv (demo_host demo_list_indedh 0)) [[], []]"
    by (rule demo_host_ok) (simp_all add: demo_lists_wf)
  have q: "j_int map_json (demo_request 2 1) ''reqType'' = RT_READ"
    by (simp add: demo_request_def map_json_def RT_READ_def)
  have io: "io_good io_fine []" by (simp add: io_good_def io_fine_def BUF_GET_def)
  show ?thesis
    by (rule reading_missing_key_is_undefined [OF map_json_laws ok _ demo_request_for row demo_host_fresh(1) q io demo_host_fresh(2)])
      simp
qed

end
