(* ===== verification/Main_Thread.thy ===== *)
theory Main_Thread
  imports Cluster_Threads Server_Main
begin

text \<open>
  The main thread of a server next to its transfer threads: a request is checked, executed and answered in
  three turns, and a redistribution may go on between them.
\<close>

section \<open>The code\<close>

text \<open>
  The handling of a request of \<open>server.c\<close> in three parts: the check by the distribution, the storage, and the bookkeeping of
  the names with the reply.
\<close>

definition main_check ::
  "(lock_env \<Rightarrow> 'e server \<Rightarrow> 'j \<Rightarrow> (int \<times> 'j \<times> 'e server) option) \<Rightarrow> lock_env \<Rightarrow> 'e host \<Rightarrow> 'j \<Rightarrow> (int \<times> 'j \<times> 'e host) option" where
  "main_check post E host request = do {
     n \<leftarrow> c_int (ho_access host + 1);
     (rc, request, sv) \<leftarrow> post E (ho_sv host) request;
     Some (rc, request, host\<lparr>ho_sv := sv, ho_access := n\<rparr>)
   }"

definition main_store :: "'j json \<Rightarrow> io \<Rightarrow> int \<Rightarrow> 'j \<Rightarrow> 'e host \<Rightarrow> (int \<times> 'j \<times> 'e host) option" where
  "main_store J io rc request host = do {
     (global_rc, st, request) \<leftarrow>
       (if rc = - EAGAIN then Some (- EAGAIN, ho_store host, request)
        else if rc = - EALREADY then Some (- EALREADY, ho_store host, request)
        else if rc < 0 then Some (-1, ho_store host, request)
        else server_process J io (ho_store host) request);
     Some (global_rc, request, host\<lparr>ho_store := st\<rparr>)
   }"

definition main_reply ::
  "'j json \<Rightarrow> (lock_env \<Rightarrow> nat \<Rightarrow> md_entry \<Rightarrow> 'e server \<Rightarrow> 'j \<Rightarrow> int \<Rightarrow> (int \<times> 'e server) option) \<Rightarrow> lock_env \<Rightarrow> nat \<Rightarrow> md_entry \<Rightarrow>
   int \<Rightarrow> 'j \<Rightarrow> 'e host \<Rightarrow> ('j \<times> 'e host) option" where
  "main_reply J pre E a fill global_rc request host = do {
     (rc, sv) \<leftarrow> pre E a fill (ho_sv host) request global_rc;
     let global_rc = (if rc \<noteq> 0 then -1 else global_rc);
     Some (j_add_str J request ''repFlag'' (reply_flag global_rc), host\<lparr>ho_sv := sv\<rparr>)
   }"

text \<open>Where the main thread of a server is, and a cluster with the main threads and what they have answered.\<close>

datatype 'j main_pc = Receiving | Checked int 'j | Executed int 'j

record ('e, 'j) running =
  ru_nodes :: "'e xfer_node list"
  ru_pc :: "nat \<Rightarrow> 'j main_pc"
  ru_access :: "nat \<Rightarrow> int"
  ru_replies :: "(nat \<times> 'j) list"

definition host_of :: "('e, 'j) running \<Rightarrow> nat \<Rightarrow> 'e host" where
  "host_of s a = \<lparr>ho_sv = sd_sv (xn_snd (ru_nodes s ! a)), ho_store = sd_store (xn_snd (ru_nodes s ! a)), ho_access = ru_access s a\<rparr>"

definition put_host :: "nat \<Rightarrow> 'e host \<Rightarrow> 'j main_pc \<Rightarrow> ('e, 'j) running \<Rightarrow> ('e, 'j) running" where
  "put_host a h pc s = (let n = ru_nodes s ! a in
     s\<lparr>ru_nodes := (ru_nodes s)[a := n\<lparr>xn_snd := (xn_snd n)\<lparr>sd_sv := ho_sv h, sd_store := ho_store h\<rparr>\<rparr>],
       ru_pc := (ru_pc s)(a := pc), ru_access := (ru_access s)(a := ho_access h)\<rparr>)"

datatype 'j act = Transfer thread | Receive nat 'j | Execute nat | Answer nat

text \<open>A turn of a thread of the cluster; \<open>go\<close> is what the threads of the transfers do.\<close>

fun run_act ::
  "'j json \<Rightarrow> (lock_env \<Rightarrow> 'e server \<Rightarrow> 'j \<Rightarrow> (int \<times> 'j \<times> 'e server) option) \<Rightarrow>
   (lock_env \<Rightarrow> nat \<Rightarrow> md_entry \<Rightarrow> 'e server \<Rightarrow> 'j \<Rightarrow> int \<Rightarrow> (int \<times> 'e server) option) \<Rightarrow> io \<Rightarrow> lock_env \<Rightarrow> (md_heap \<Rightarrow> nat) \<Rightarrow> md_entry \<Rightarrow>
   (thread \<Rightarrow> 'e xfer_node list \<Rightarrow> 'e xfer_node list option) \<Rightarrow> 'j act \<Rightarrow> ('e, 'j) running \<Rightarrow> ('e, 'j) running option" where
  "run_act J post pre io E alloc cell go (Transfer t) s = do { C \<leftarrow> go t (ru_nodes s); Some (s\<lparr>ru_nodes := C\<rparr>) }"
| "run_act J post pre io E alloc cell go (Receive a r) s =
     (case ru_pc s a of
        Receiving \<Rightarrow> do { (rc, r, h) \<leftarrow> main_check post E (host_of s a) r; Some (put_host a h (Checked rc r) s) }
      | _ \<Rightarrow> Some s)"
| "run_act J post pre io E alloc cell go (Execute a) s =
     (case ru_pc s a of
        Checked rc r \<Rightarrow> do { (g, r, h) \<leftarrow> main_store J io rc r (host_of s a); Some (put_host a h (Executed g r) s) }
      | _ \<Rightarrow> Some s)"
| "run_act J post pre io E alloc cell go (Answer a) s =
     (case ru_pc s a of
        Executed g r \<Rightarrow> do {
          (d, h) \<leftarrow> main_reply J pre E (alloc (sv_heap (sd_sv (xn_snd (ru_nodes s ! a))))) cell g r (host_of s a);
          Some ((put_host a h Receiving s)\<lparr>ru_replies := ru_replies s @ [(a, d)]\<rparr>)
        }
      | _ \<Rightarrow> Some s)"

definition run_start :: "'e xfer_node list \<Rightarrow> (nat \<Rightarrow> int) \<Rightarrow> ('e, 'j) running" where
  "run_start C n = \<lparr>ru_nodes = C, ru_pc = (\<lambda>_. Receiving), ru_access = n, ru_replies = []\<rparr>"

section \<open>The three turns are one request\<close>

lemma bind_parts:
  assumes "\<And>g st q. F g st q = G g q (upd st)"
  shows "Option.bind x (\<lambda>(g, st, q). F g st q) = Option.bind (Option.bind x (\<lambda>(g, st, q). Some (g, q, upd st))) (\<lambda>(g, q, h). G g q h)"
  by (cases x) (auto simp: assms)

lemma handle_parts:
  "server_handle J post pre io E a fill host r = do {
     (rc, r, h) \<leftarrow> main_check post E host r;
     (g, r, h) \<leftarrow> main_store J io rc r h;
     main_reply J pre E a fill g r h
   }"
proof (cases "c_int (ho_access host + 1) = None \<or> post E (ho_sv host) r = None")
  case True
  then show ?thesis
  proof
    assume "post E (ho_sv host) r = None"
    then show ?thesis by (cases "c_int (ho_access host + 1)") (simp_all add: server_handle_def main_check_def)
  qed (simp add: server_handle_def main_check_def)
next
  case False
  then obtain n rc q sv where n: "c_int (ho_access host + 1) = Some n" and c: "post E (ho_sv host) r = Some (rc, q, sv)" by auto
  have st: "ho_store (host\<lparr>ho_sv := sv, ho_access := n\<rparr>) = ho_store host" by simp
  show ?thesis
    unfolding server_handle_def main_check_def main_store_def main_reply_def n c bind.bind_lunit prod.case Let_def st
    by (rule bind_parts) (cases host, simp)
qed

text \<open>A request whose three turns follow each other is handled as by \<open>server_handle\<close>.\<close>

lemma whole_request:
  fixes s :: "('e, 'j) running"
  assumes "ru_pc s a = Receiving" and a: "a < length (ru_nodes s)"
    and "server_handle J post pre io E (alloc (sv_heap (sd_sv (xn_snd (ru_nodes s ! a))))) cell (host_of s a) r = Some (d, h)"
    and "\<And>rc r' sv. post E (sd_sv (xn_snd (ru_nodes s ! a))) r = Some (rc, r', sv) \<Longrightarrow> sv_heap sv = sv_heap (sd_sv (xn_snd (ru_nodes s ! a)))"
  shows "forM [Receive a r, Execute a, Answer a] (run_act J post pre io E alloc cell go) s
    = Some ((put_host a h Receiving s)\<lparr>ru_replies := ru_replies s @ [(a, d)]\<rparr>)"
proof -
  obtain rc q h1 g q2 h2 where
    c: "main_check post E (host_of s a) r = Some (rc, q, h1)" "main_store J io rc q h1 = Some (g, q2, h2)"
      "main_reply J pre E (alloc (sv_heap (sd_sv (xn_snd (ru_nodes s ! a))))) cell g q2 h2 = Some (d, h)"
    using assms(3) unfolding handle_parts by (auto simp: Option.bind_eq_Some_conv)
  have heap: "sv_heap (ho_sv h1) = sv_heap (sd_sv (xn_snd (ru_nodes s ! a)))"
    using c(1) assms(4) by (auto simp: main_check_def host_of_def Option.bind_eq_Some_conv)
  have h2: "ho_sv h2 = ho_sv h1" using c(2) by (auto simp: main_store_def Option.bind_eq_Some_conv)
  let ?s1 = "put_host a h1 (Checked rc q) s" and ?s2 = "put_host a h2 (Executed g q2) s"
  have at: "host_of (put_host a k pc s) a = k" "ru_pc (put_host a k pc s) a = pc"
    "sd_sv (xn_snd (ru_nodes (put_host a k pc s) ! a)) = ho_sv k" "ru_replies (put_host a k pc s) = ru_replies s"
    "put_host a k' pc' (put_host a k pc s) = put_host a k' pc' s" for k k' :: "'e host" and pc pc' :: "'j main_pc"
    using assms(2) by (simp_all add: put_host_def host_of_def Let_def)
  have "run_act J post pre io E alloc cell go (Receive a r) s = Some ?s1" using assms(1) c(1) by simp
  moreover have "run_act J post pre io E alloc cell go (Execute a) ?s1 = Some ?s2" using c(2) by (simp add: at)
  moreover have "run_act J post pre io E alloc cell go (Answer a) ?s2 = Some ((put_host a h Receiving s)\<lparr>ru_replies := ru_replies s @ [(a, d)]\<rparr>)"
    using c(3) heap h2 by (simp add: at)
  ultimately show ?thesis by (simp del: run_act.simps)
qed

lemma transfers_only:
  "forM (map Transfer ts) (run_act J post pre io E alloc cell go) s = map_option (\<lambda>C. s\<lparr>ru_nodes := C\<rparr>) (forM ts go (ru_nodes s))"
  by (induction ts arbitrary: s) (simp_all split: option.splits)

section \<open>Reads between the turns of a transfer\<close>

text \<open>The access counters of a server may change at any time.\<close>

definition with_list :: "'e \<Rightarrow> 'e xfer_node \<Rightarrow> 'e xfer_node" where
  "with_list e n = n\<lparr>xn_snd := (xn_snd n)\<lparr>sd_sv := (sd_sv (xn_snd n))\<lparr>sv_list := e\<rparr>\<rparr>\<rparr>"

lemma pc_ok_sv [simp]: "pc_ok ys (s\<lparr>sd_sv := sv\<rparr>) pc = pc_ok ys s pc"
  by (cases pc) simp_all

lemma with_list_simps [simp]:
  "xn_list (with_list e n) = xn_list n" "sent_count (with_list e n) = sent_count n" "in_flight (with_list e n) = in_flight n"
  "gone (with_list e n) = gone n" "landed (with_list e n) = landed n" "xn_in (with_list e n) = xn_in n" "xn_pc (with_list e n) = xn_pc n"
  "sd_store (xn_snd (with_list e n)) = sd_store (xn_snd n)" "sd_sv (xn_snd (with_list e n)) = (sd_sv (xn_snd n))\<lparr>sv_list := e\<rparr>"
  "sd_status (xn_snd (with_list e n)) = sd_status (xn_snd n)" "sd_line (xn_snd (with_list e n)) = sd_line (xn_snd n)"
  "sd_file (xn_snd (with_list e n)) = sd_file (xn_snd n)" "sd_id (xn_snd (with_list e n)) = sd_id (xn_snd n)"
  "xn_rcv (with_list e n) = xn_rcv n" "xn_args (with_list e n) = xn_args n"
  "pc_ok ys (xn_snd (with_list e n)) pc = pc_ok ys (xn_snd n) pc"
  by (simp_all add: with_list_def xn_list_def sent_count_def in_flight_def gone_def landed_def cong: snd_pc.case_cong)

lemma server_ok_list:
  assumes "server_ok good len N sv L" and "good e" "len e = N"
  shows "server_ok good len N (sv\<lparr>sv_list := e\<rparr>) L"
  using assms by (simp add: server_ok_def)

lemma node_list:
  assumes "node_ok good len N hs old new K st0 a B n" and "good e" "len e = N"
  shows "node_ok good len N hs old new K st0 a B (with_list e n)"
proof -
  have "threads_ok N hs old new a B (with_list e n)"
    using assms(1) by (simp add: node_ok_def threads_ok_def Let_def)
  moreover have "shared_ok good len N old new K st0 a (gone n) B (xn_pc n = Listening) ((sd_sv (xn_snd n))\<lparr>sv_list := e\<rparr>) (sd_store (xn_snd n))"
    using assms by (simp add: node_ok_def shared_ok_def server_ok_list)
  ultimately show ?thesis by (simp add: node_ok_def)
qed

lemma cluster_list:
  assumes C: "cluster_ok good len N nb hs old new K D C" and a: "a < nb" and e: "good e" "len e = N"
  shows "cluster_ok good len N nb hs old new K D (C[a := with_list e (C ! a)])"
proof -
  let ?C = "C[a := with_list e (C ! a)]"
  have len: "length C = nb" using C by (simp add: cluster_ok_def)
  have at: "?C ! c = (if c = a then with_list e (C ! a) else C ! c)" for c using len a by simp
  have g: "got ?C b = got C b" for b by (rule got_same) (simp_all add: at)
  have "node_ok good len N hs old new K (D c) c (got C c) (?C ! c) \<and> socket_ok K ?C c" if "c < nb" for c
  proof
    show "node_ok good len N hs old new K (D c) c (got C c) (?C ! c)"
      using C e that by (simp add: cluster_ok_def at node_list)
    have "socket_ok K C c" using C that by (simp add: cluster_ok_def)
    moreover have "xn_in (?C ! d) = xn_in (C ! d)" "in_flight (?C ! d) = in_flight (C ! d)" "xn_list (?C ! d) = xn_list (C ! d)"
      "sent_count (?C ! d) = sent_count (C ! d)" for d by (simp_all add: at)
    ultimately show "socket_ok K ?C c" by (simp add: socket_ok_def)
  qed
  then show ?thesis using len g by (simp add: cluster_ok_def)
qed

text \<open>The row a server has of an entry during the transfers.\<close>

lemma row_now:
  assumes C: "cluster_ok good len N nb hs old new K D C" and a: "a < nb" and i: "i < N"
  shows "mlt_row (sv_table (sd_sv (xn_snd (C ! a)))) i =
    (if xn_pc (C ! a) = Listening then old i
     else if i \<in> gone (C ! a) \<union> got C a then settled_row old new i else updated_row (int a) old new i)"
proof -
  have "shared_ok good len N old new K (D a) a (gone (C ! a)) (got C a) (xn_pc (C ! a) = Listening) (sd_sv (xn_snd (C ! a))) (sd_store (xn_snd (C ! a)))"
    using C a by (simp add: cluster_ok_def node_ok_def)
  then show ?thesis unfolding shared_ok_def using i by blast
qed

text \<open>A server that serves a request of a client with the old or the new row has the keys of the entry.\<close>

lemma served_is_stored:
  assumes m: "good_move N nb old new" and K: "keys_ok N K" and C: "cluster_ok good len N nb hs old new K D C" and a: "a < nb"
    and D: "\<forall>n. stored (D a) n \<noteq> None \<longleftrightarrow> (\<exists>i < N. fst (old i) = int a \<and> n \<in> set (K i))" and i: "i < N" "n \<in> set (K i)"
    and row: "mlt_row (sv_table (sd_sv (xn_snd (C ! a)))) i = (s, v, 0)"
    and client: "fst (old i) = int a \<and> fst (snd (old i)) = v \<or> fst (new i) = int a \<and> fst (snd (new i)) = v"
  shows "\<exists>x. stored (sd_store (xn_snd (C ! a))) n = Some x \<and> (stored (D a) n = Some x \<or> changed old new i \<and> x = ''a word'')"
proof -
  have ch: "changed old new i \<longleftrightarrow> fst (old i) \<noteq> fst (new i)" using m i(1) by (simp add: good_move_def)
  have T: "threads_ok N hs old new a (got C a) (C ! a)" using C a by (simp add: cluster_ok_def node_ok_def)
  have gone: "fst (old i) = int a \<and> changed old new i" if "i \<in> gone (C ! a)"
  proof (cases "xn_pc (C ! a) = Listening")
    case False
    then show ?thesis using gone_entry [OF m T False that] by blast
  qed (use that in simp)
  have now: "stored (sd_store (xn_snd (C ! a))) n \<noteq> None \<longleftrightarrow> i \<in> got C a \<or> i \<notin> gone (C ! a) \<and> fst (old i) = int a"
    by (rule stored_now [OF m K C a D i])
  note r = row_now [OF C a i(1)]
  have "i \<in> got C a \<or> i \<notin> gone (C ! a) \<and> fst (old i) = int a"
  proof (cases "xn_pc (C ! a) = Listening")
    case True
    then have "old i = (s, v, 0)" "i \<notin> gone (C ! a)" using r row by simp_all
    then show ?thesis using client ch by (auto simp: changed_def)
  next
    case False
    then show ?thesis using r row client gone ch by (auto simp: settled_row_def updated_row_def changed_def split: if_splits)
  qed
  moreover have "shared_ok good len N old new K (D a) a (gone (C ! a)) (got C a) (xn_pc (C ! a) = Listening) (sd_sv (xn_snd (C ! a))) (sd_store (xn_snd (C ! a)))"
    using C a by (simp add: cluster_ok_def node_ok_def)
  then have "stored (sd_store (xn_snd (C ! a))) n = (if \<exists>j \<in> got C a. n \<in> set (K j) then Some ''a word''
      else if \<exists>j \<in> gone (C ! a). n \<in> set (K j) then None else stored (D a) n)"
    unfolding shared_ok_def by blast
  moreover have "changed old new i" if j: "j \<in> got C a" "n \<in> set (K j)" for j
  proof -
    note g = got_entry [OF m cluster_threads [OF C] j(1)]
    have "j = i" using keys_apart [OF K g(1) _ j(2)] i g(1) by blast
    then show ?thesis using g(2) by simp
  qed
  ultimately show ?thesis using now by (auto split: if_splits)
qed

text \<open>
  A read of a client that has the old or the new row of the entry and addresses the server the row names, and the answers
  it may get: a value that was stored before or the one the transfers store, or to come again.
\<close>

definition read_request ::
  "'j json \<Rightarrow> nat \<Rightarrow> (nat \<Rightarrow> int \<times> int \<times> int) \<Rightarrow> (nat \<Rightarrow> int \<times> int \<times> int) \<Rightarrow> (nat \<Rightarrow> string list) \<Rightarrow> nat \<Rightarrow> 'j \<Rightarrow> bool" where
  "read_request J N old new K a r \<longleftrightarrow> j_int J r ''reqType'' = RT_READ \<and>
     (\<exists>i < N. \<exists>v. request_for J r i v \<and> j_str J r ''key'' \<in> set (K i) \<and>
       (fst (old i) = int a \<and> fst (snd (old i)) = v \<or> fst (new i) = int a \<and> fst (snd (new i)) = v))"

definition read_answer ::
  "'j json \<Rightarrow> nat \<Rightarrow> (nat \<Rightarrow> int \<times> int \<times> int) \<Rightarrow> (nat \<Rightarrow> int \<times> int \<times> int) \<Rightarrow> (nat \<Rightarrow> string list) \<Rightarrow> (nat \<Rightarrow> store) \<Rightarrow> 'j \<Rightarrow> bool" where
  "read_answer J N old new K D d \<longleftrightarrow>
     j_str J d ''repFlag'' = ''wait&retry'' \<or> j_str J d ''repFlag'' = ''update&retry'' \<or>
     j_str J d ''repFlag'' = ''done'' \<and> (\<exists>i < N. j_str J d ''key'' \<in> set (K i) \<and>
       (stored (D (nat (fst (old i)))) (j_str J d ''key'') = Some (j_str J d ''getValue'') \<or>
        changed old new i \<and> j_str J d ''getValue'' = ''a word''))"

context served_list
begin

lemma handle_read_list:
  assumes J: "json_laws J" and ok: "server_ok inv len N (ho_sv host) L" and i: "i < N" and r: "request_for J r i v"
    and row: "mlt_row (sv_table (ho_sv host)) i = (s, v, 0)" and n: "int_ok (ho_access host + 1)"
    and t: "j_int J r ''reqType'' = RT_READ"
    and io: "io_good io y" and x: "stored (ho_store host) (j_str J r ''key'') = Some x" "c_string x" "length x < BUF_GET"
  shows "\<exists>d e. server_handle J (distribution_post_receive J incr) (distribution_pre_send J) io locks_work a fill host r =
      Some (d, host\<lparr>ho_sv := (ho_sv host)\<lparr>sv_list := e\<rparr>, ho_access := ho_access host + 1\<rparr>) \<and> inv e \<and> len e = N \<and>
    j_str J d ''repFlag'' = ''done'' \<and> j_str J d ''getValue'' = x \<and> j_str J d ''key'' = j_str J r ''key''"
proof -
  let ?r = "j_add_str J r ''versionFlag'' ''up-to-date''"
  let ?g = "j_add_str J ?r ''getValue'' x"
  note r' = r [unfolded request_for_def]
  obtain sv' where sv': "distribution_post_receive J incr locks_work (ho_sv host) r = Some (0, ?r, sv')"
    "sv' = (ho_sv host)\<lparr>sv_list := sv_list sv'\<rparr>" "server_ok inv len N sv' L"
    using post_receive_served [OF J ok i _ _ _ row, of r] r' by blast
  have p: "server_process J io (ho_store host) ?r = Some (0, ho_store host, ?g)"
    using r' t get_ok [OF io x] J by (simp add: server_process_def json_simps Let_def req_type_defs)
  have q: "distribution_pre_send J locks_work a fill sv' ?g 0 = Some (0, sv')"
    using r' t J by (simp add: distribution_pre_send_def json_simps req_type_defs)
  have "server_handle J (distribution_post_receive J incr) (distribution_pre_send J) io locks_work a fill host r =
      Some (j_add_str J ?g ''repFlag'' ''done'', host\<lparr>ho_sv := sv', ho_store := ho_store host, ho_access := ho_access host + 1\<rparr>)"
    using sv'(1) p q n by (simp add: server_handle_def c_conv errno_defs Let_def reply_flags)
  moreover have "inv (sv_list sv')" "len (sv_list sv') = N" using sv'(3) by (simp_all add: server_ok_def)
  moreover have "host\<lparr>ho_sv := sv', ho_store := ho_store host, ho_access := ho_access host + 1\<rparr> =
      host\<lparr>ho_sv := (ho_sv host)\<lparr>sv_list := sv_list sv'\<rparr>, ho_access := ho_access host + 1\<rparr>"
    using sv'(2) by (cases host) simp
  ultimately show ?thesis using J
    by (intro exI [of _ "j_add_str J ?g ''repFlag'' ''done''"] exI [of _ "sv_list sv'"]) (simp add: json_simps)
qed

text \<open>A read at any moment of the transfers.\<close>

lemma read_now:
  assumes J: "json_laws J" and ctx: "xfer_ctx X alloc N nb hs old ids vers K D" and new: "new = message_row ids vers"
    and C: "cluster_ok inv len N nb hs old new K D C" and a: "a < nb" and r: "read_request J N old new K a r"
    and io: "io_good io y" and short: "\<forall>a < nb. \<forall>n x. stored (D a) n = Some x \<longrightarrow> c_string x \<and> length x < BUF_GET"
    and host: "ho_sv host = sd_sv (xn_snd (C ! a))" "ho_store host = sd_store (xn_snd (C ! a))" and n: "int_ok (ho_access host + 1)"
  shows "\<exists>d e. server_handle J (distribution_post_receive J incr) (distribution_pre_send J) io locks_work al fill host r =
      Some (d, host\<lparr>ho_sv := (ho_sv host)\<lparr>sv_list := e\<rparr>, ho_access := ho_access host + 1\<rparr>) \<and> inv e \<and> len e = N \<and>
    read_answer J N old new K D d"
proof -
  note c = ctx [unfolded xfer_ctx_def, folded new]
  have m: "good_move N nb old new" and K: "keys_ok N K"
    and D: "\<forall>n. stored (D a) n \<noteq> None \<longleftrightarrow> (\<exists>i < N. fst (old i) = int a \<and> n \<in> set (K i))" using c a by blast+
  obtain i v where i: "i < N" "request_for J r i v" "j_str J r ''key'' \<in> set (K i)" and t: "j_int J r ''reqType'' = RT_READ"
    and client: "fst (old i) = int a \<and> fst (snd (old i)) = v \<or> fst (new i) = int a \<and> fst (snd (new i)) = v"
    using r by (auto simp: read_request_def)
  have nk: "node_ok inv len N hs old new K (D a) a (got C a) (C ! a)" using C a by (simp add: cluster_ok_def)
  then obtain L where ok: "server_ok inv len N (ho_sv host) L" unfolding host node_ok_def shared_ok_def by blast
  then have l: "inv (sv_list (ho_sv host))" "len (sv_list (ho_sv host)) = N" by (simp_all add: server_ok_def)
  obtain s v' f where row: "mlt_row (sv_table (ho_sv host)) i = (s, v', f)" by (cases "mlt_row (sv_table (ho_sv host)) i")
  have same: "host\<lparr>ho_access := ho_access host + 1\<rparr> = host\<lparr>ho_sv := (ho_sv host)\<lparr>sv_list := sv_list (ho_sv host)\<rparr>, ho_access := ho_access host + 1\<rparr>"
    by (cases host) simp
  consider "f \<noteq> 0" | "f = 0" "v' \<noteq> v" | "f = 0" "v' = v" by blast
  then show ?thesis
  proof cases
    case 1
    note handle_moving [OF J ok i(1,2) row 1 n, of io al fill, unfolded same]
    moreover have "read_answer J N old new K D (j_add_str J r ''repFlag'' ''wait&retry'')" using J by (simp add: read_answer_def json_simps)
    ultimately show ?thesis using l by blast
  next
    case 2
    then have row: "mlt_row (sv_table (ho_sv host)) i = (s, v', 0)" and v: "v \<noteq> v'" using row by simp_all
    from handle_stale [OF J ok i(1,2) row v n, of io al fill, unfolded same] obtain d where
      d: "server_handle J (distribution_post_receive J incr) (distribution_pre_send J) io locks_work al fill host r =
        Some (d, host\<lparr>ho_sv := (ho_sv host)\<lparr>sv_list := sv_list (ho_sv host)\<rparr>, ho_access := ho_access host + 1\<rparr>)"
      "j_str J d ''repFlag'' = ''update&retry''" by blast
    then have "read_answer J N old new K D d" by (simp add: read_answer_def)
    then show ?thesis using d(1) l by blast
  next
    case 3
    then have row: "mlt_row (sv_table (ho_sv host)) i = (s, v, 0)" using row by simp
    obtain x where x: "stored (ho_store host) (j_str J r ''key'') = Some x"
      "stored (D a) (j_str J r ''key'') = Some x \<or> changed old new i \<and> x = ''a word''"
      using served_is_stored [OF m K C a D i(1,3) _ client, of s] row unfolding host by blast
    have xs: "c_string x \<and> length x < BUF_GET" using x(2) short a by (auto simp: c_string_def BUF_GET_def)
    from handle_read_list [OF J ok i(1,2) row n t io x(1), of al fill] xs obtain d e where
      d: "server_handle J (distribution_post_receive J incr) (distribution_pre_send J) io locks_work al fill host r =
        Some (d, host\<lparr>ho_sv := (ho_sv host)\<lparr>sv_list := e\<rparr>, ho_access := ho_access host + 1\<rparr>)" "inv e" "len e = N"
      "j_str J d ''repFlag'' = ''done''" "j_str J d ''getValue'' = x" "j_str J d ''key'' = j_str J r ''key''" by blast
    have "stored (D (nat (fst (old i)))) (j_str J r ''key'') = Some x" if st: "stored (D a) (j_str J r ''key'') = Some x"
    proof -
      obtain j where j: "j < N" "fst (old j) = int a" "j_str J r ''key'' \<in> set (K j)" using st D by blast
      have "j = i" by (rule keys_apart [OF K j(1) i(1) j(3) i(3)])
      then show ?thesis using j(2) st by simp
    qed
    then have "stored (D (nat (fst (old i)))) (j_str J r ''key'') = Some x \<or> changed old new i \<and> x = ''a word''" using x(2) by blast
    then have "read_answer J N old new K D d" unfolding read_answer_def d(4-6) using i(1,3) by blast
    then show ?thesis using d(1-3) by blast
  qed
qed

end

section \<open>Requests and transfers in any order\<close>

text \<open>What the cluster has to do: turns of the transfer threads and whole requests.\<close>

datatype 'j job = Turn thread | Serve nat 'j

fun job_acts :: "'j job \<Rightarrow> 'j act list" where
  "job_acts (Turn t) = [Transfer t]"
| "job_acts (Serve a r) = [Receive a r, Execute a, Answer a]"

fun job_ok ::
  "'j json \<Rightarrow> nat \<Rightarrow> nat \<Rightarrow> (nat \<Rightarrow> int \<times> int \<times> int) \<Rightarrow> (nat \<Rightarrow> int \<times> int \<times> int) \<Rightarrow> (nat \<Rightarrow> string list) \<Rightarrow> 'j job \<Rightarrow> bool" where
  "job_ok J nb N old new K (Turn t) \<longleftrightarrow> t \<in> cluster_threads_of nb"
| "job_ok J nb N old new K (Serve a r) \<longleftrightarrow> a < nb \<and> read_request J N old new K a r"

fun asked :: "'j job \<Rightarrow> nat list" where
  "asked (Turn t) = []"
| "asked (Serve a r) = [a]"

definition run_ok ::
  "('e \<Rightarrow> bool) \<Rightarrow> ('e \<Rightarrow> nat) \<Rightarrow> 'j json \<Rightarrow> nat \<Rightarrow> nat \<Rightarrow> string list \<Rightarrow> (nat \<Rightarrow> int \<times> int \<times> int) \<Rightarrow> (nat \<Rightarrow> int \<times> int \<times> int) \<Rightarrow>
   (nat \<Rightarrow> string list) \<Rightarrow> (nat \<Rightarrow> store) \<Rightarrow> nat \<Rightarrow> ('e, 'j) running \<Rightarrow> bool" where
  "run_ok good len J N nb hs old new K D m s \<longleftrightarrow> cluster_ok good len N nb hs old new K D (ru_nodes s) \<and>
     (\<forall>a. ru_pc s a = Receiving \<and> 0 \<le> ru_access s a \<and> ru_access s a \<le> int m) \<and>
     (\<forall>(a, d) \<in> set (ru_replies s). read_answer J N old new K D d)"

context served_list
begin

lemma post_receive_heap:
  "distribution_post_receive J incr E sv r = Some (rc, r', sv') \<Longrightarrow> sv_heap sv' = sv_heap sv"
  by (auto simp: distribution_post_receive_def Let_def Option.bind_eq_Some_conv split: if_splits prod.splits option.splits)

lemma job_step:
  assumes J: "json_laws J" and ctx: "xfer_ctx X alloc N nb hs old ids vers K D" and new: "new = message_row ids vers"
    and io: "io_good io y" and short: "\<forall>a < nb. \<forall>n x. stored (D a) n = Some x \<longrightarrow> c_string x \<and> length x < BUF_GET"
    and s: "run_ok inv len J N nb hs old new K D m s" and m: "int (Suc m) \<le> INT_MAX" and j: "job_ok J nb N old new K j"
  shows "\<exists>s'. forM (job_acts j) (run_act J (distribution_post_receive J incr) (distribution_pre_send J) io locks_work alloc cell
      (cluster_turn X reset alloc cell hs N fill ids vers)) s = Some s' \<and> run_ok inv len J N nb hs old new K D (Suc m) s' \<and>
    map fst (ru_replies s') = map fst (ru_replies s) @ asked j"
proof (cases j)
  case (Turn t)
  have "xfer_ctx X alloc N nb hs old ids vers K D \<and> cluster_ok inv len N nb hs old (message_row ids vers) K D (ru_nodes s)"
    using ctx s new by (simp add: run_ok_def)
  from threads.turns [OF this, of "[t]" cell fill] j Turn obtain C where
    C: "cluster_turn X reset alloc cell hs N fill ids vers t (ru_nodes s) = Some C" "cluster_ok inv len N nb hs old new K D C"
    unfolding new by (auto split: option.splits)
  have "run_ok inv len J N nb hs old new K D (Suc m) (s\<lparr>ru_nodes := C\<rparr>)"
    using s C(2) by (auto simp: run_ok_def intro: order_trans)
  then show ?thesis using C(1) Turn by simp
next
  case (Serve a r)
  then have a: "a < nb" "read_request J N old new K a r" using j by simp_all
  have C: "cluster_ok inv len N nb hs old new K D (ru_nodes s)" and len: "length (ru_nodes s) = nb"
    using s by (simp_all add: run_ok_def cluster_ok_def)
  have pc: "ru_pc s a = Receiving" "0 \<le> ru_access s a" "ru_access s a \<le> int m" using s by (simp_all add: run_ok_def)
  have n: "int_ok (ho_access (host_of s a) + 1)" using pc m by (simp add: host_of_def int_ok_def INT_MIN_def)
  have h: "ho_sv (host_of s a) = sd_sv (xn_snd (ru_nodes s ! a))" "ho_store (host_of s a) = sd_store (xn_snd (ru_nodes s ! a))"
    by (simp_all add: host_of_def)
  from read_now [OF J ctx new C a io short h n, of "alloc (sv_heap (sd_sv (xn_snd (ru_nodes s ! a))))" cell] obtain d e where
    d: "server_handle J (distribution_post_receive J incr) (distribution_pre_send J) io locks_work
        (alloc (sv_heap (sd_sv (xn_snd (ru_nodes s ! a))))) cell (host_of s a) r =
      Some (d, (host_of s a)\<lparr>ho_sv := (ho_sv (host_of s a))\<lparr>sv_list := e\<rparr>, ho_access := ho_access (host_of s a) + 1\<rparr>)"
    "inv e" "len e = N" "read_answer J N old new K D d" by blast
  let ?h = "(host_of s a)\<lparr>ho_sv := (ho_sv (host_of s a))\<lparr>sv_list := e\<rparr>, ho_access := ho_access (host_of s a) + 1\<rparr>"
  let ?s = "(put_host a ?h Receiving s)\<lparr>ru_replies := ru_replies s @ [(a, d)]\<rparr>"
  have "forM (job_acts j) (run_act J (distribution_post_receive J incr) (distribution_pre_send J) io locks_work alloc cell
      (cluster_turn X reset alloc cell hs N fill ids vers)) s = Some ?s"
    unfolding Serve job_acts.simps by (rule whole_request [where alloc = alloc, OF pc(1) _ d(1)]) (use a len in \<open>simp_all add: post_receive_heap\<close>)
  moreover have "ru_nodes ?s = (ru_nodes s)[a := with_list e (ru_nodes s ! a)]"
    by (simp add: put_host_def host_of_def with_list_def Let_def)
  then have "cluster_ok inv len N nb hs old new K D (ru_nodes ?s)" using cluster_list [where good = inv and len = len, OF C a(1) d(2,3)] by simp
  then have "run_ok inv len J N nb hs old new K D (Suc m) ?s"
    using s d(4) by (auto simp: run_ok_def put_host_def host_of_def Let_def intro: order_trans)
  moreover have "map fst (ru_replies ?s) = map fst (ru_replies s) @ asked j" using Serve by simp
  ultimately show ?thesis by blast
qed

lemma jobs_done:
  assumes J: "json_laws J" and ctx: "xfer_ctx X alloc N nb hs old ids vers K D" and new: "new = message_row ids vers"
    and io: "io_good io y" and short: "\<forall>a < nb. \<forall>n x. stored (D a) n = Some x \<longrightarrow> c_string x \<and> length x < BUF_GET"
    and "run_ok inv len J N nb hs old new K D m s" and "int (m + length js) \<le> INT_MAX" and "\<forall>j \<in> set js. job_ok J nb N old new K j"
  shows "\<exists>s'. forM (concat (map job_acts js)) (run_act J (distribution_post_receive J incr) (distribution_pre_send J) io locks_work alloc cell
      (cluster_turn X reset alloc cell hs N fill ids vers)) s = Some s' \<and> run_ok inv len J N nb hs old new K D (m + length js) s' \<and>
    map fst (ru_replies s') = map fst (ru_replies s) @ concat (map asked js)"
  using assms(6-)
proof (induction js arbitrary: s m)
  case (Cons j js)
  have m: "int (Suc m) \<le> INT_MAX" "job_ok J nb N old new K j" using Cons.prems by simp_all
  from job_step [OF J ctx new io short Cons.prems(1) m, of cell fill] obtain s1 where
    s1: "forM (job_acts j) (run_act J (distribution_post_receive J incr) (distribution_pre_send J) io locks_work alloc cell
        (cluster_turn X reset alloc cell hs N fill ids vers)) s = Some s1" "run_ok inv len J N nb hs old new K D (Suc m) s1"
      "map fst (ru_replies s1) = map fst (ru_replies s) @ asked j" by blast
  from Cons.IH [OF s1(2)] Cons.prems s1(1,3) show ?case by (auto simp: forM_append)
qed simp

lemma reads_served:
  assumes "json_laws J" and ctx: "xfer_ctx X alloc N nb hs old ids vers K D" and new: "new = message_row ids vers"
    and "io_good io y" and "\<forall>a < nb. \<forall>n x. stored (D a) n = Some x \<longrightarrow> c_string x \<and> length x < BUF_GET"
    and pl: "placed inv len N nb old K S D" and js: "int (length js) \<le> INT_MAX" "\<forall>j \<in> set js. job_ok J nb N old new K j"
  shows "\<exists>s. forM (concat (map job_acts js)) (run_act J (distribution_post_receive J incr) (distribution_pre_send J) io locks_work alloc cell
      (cluster_turn X reset alloc cell hs N fill ids vers)) (run_start (xfer_start nb S D) (\<lambda>_. 0)) = Some s \<and>
    map fst (ru_replies s) = concat (map asked js) \<and> (\<forall>(a, d) \<in> set (ru_replies s). read_answer J N old new K D d)"
proof -
  have "run_ok inv len J N nb hs old new K D 0 (run_start (xfer_start nb S D) (\<lambda>_. 0))"
    using start_ok [OF pl] by (simp add: run_ok_def run_start_def)
  from jobs_done [OF assms(1-5) this _ js(2), of cell fill] js(1) show ?thesis by (auto simp: run_ok_def run_start_def)
qed

end

end
