(* ===== verification/Request_Races.thy ===== *)
theory Request_Races
  imports Main_Thread
begin

text \<open>
  A redistribution between the check of a request and its execution: the check is no longer true when the request is executed.
\<close>

section \<open>A request that is overtaken\<close>

lemma placed_list:
  assumes pl: "placed good len N nb row K S D" and e: "good e" "len e = N"
  shows "placed good len N nb row K (S(c := (S c)\<lparr>sv_list := e\<rparr>)) D"
  using assms by (auto simp: placed_def placed_at_def server_ok_list)

lemma start_list:
  "c < nb \<Longrightarrow> (xfer_start nb S D)[c := (xfer_start nb S D ! c)\<lparr>xn_snd := (xn_snd (xfer_start nb S D ! c))\<lparr>sd_sv := sv, sd_store := D c\<rparr>\<rparr>] =
     xfer_start nb (S(c := sv)) D"
  by (rule nth_equalityI) (auto simp: xfer_start_def xfer_node_start_def nth_list_update)

text \<open>A key that is in no entry is on no server.\<close>

lemma unknown_key:
  assumes "placed good len N nb row K S D" and "a < nb" and "\<forall>i < N. n \<notin> set (K i)"
  shows "stored (D a) n = None"
proof -
  have "stored (D a) n \<noteq> None \<longleftrightarrow> (\<exists>i < N. fst (row i) = int a \<and> n \<in> set (K i))" using assms(1,2) unfolding placed_def placed_at_def by blast
  then show ?thesis using assms(3) by blast
qed

context served_list
begin

lemma overtaken:
  assumes J: "json_laws J" and ctx: "xfer_ctx X alloc N nb hs old ids vers K D" and new: "new = message_row ids vers"
    and pl: "placed inv len N nb old K S D"
    and rounds: "nb * (4 * N + 2) \<le> length rounds" "\<forall>r \<in> set rounds. set r = cluster_threads_of nb"
    and c: "c < nb" and i: "i < N" and row: "old i = (s, v, 0)" and r: "request_for J r i v"
  shows "\<exists>C. forM (Receive c r # map Transfer (concat rounds))
      (run_act J (distribution_post_receive J incr) pre io locks_work alloc cell (cluster_turn X reset alloc cell hs N fill ids vers))
      (run_start (xfer_start nb S D) (\<lambda>_. 0)) =
    Some \<lparr>ru_nodes = C, ru_pc = (\<lambda>_. Receiving)(c := Checked 0 (j_add_str J r ''versionFlag'' ''up-to-date'')),
      ru_access = (\<lambda>_. 0)(c := 1), ru_replies = []\<rparr> \<and> length C = nb \<and>
    placed inv len N nb (settled_row old new) (moved_names old new K) (\<lambda>a. sd_sv (xn_snd (C ! a))) (\<lambda>a. sd_store (xn_snd (C ! a)))"
proof -
  let ?go = "cluster_turn X reset alloc cell hs N fill ids vers" and ?r = "j_add_str J r ''versionFlag'' ''up-to-date''"
  have p: "server_ok inv len N (S c) (held N old K c)" "mlt_row (sv_table (S c)) i = (s, v, 0)"
    using pl c i row by (simp_all add: placed_def placed_at_def)
  from post_receive_served [OF J p(1) i _ _ _ p(2), of r] r obtain sv where
    sv: "distribution_post_receive J incr locks_work (S c) r = Some (0, ?r, sv)" "sv = (S c)\<lparr>sv_list := sv_list sv\<rparr>" "server_ok inv len N sv (held N old K c)"
    by (auto simp: request_for_def)
  have e: "inv (sv_list sv)" "len (sv_list sv) = N" using sv(3) by (simp_all add: server_ok_def)
  let ?S = "S(c := (S c)\<lparr>sv_list := sv_list sv\<rparr>)"
  have at: "sd_sv (xn_snd (xfer_start nb S D ! c)) = S c" "sd_store (xn_snd (xfer_start nb S D ! c)) = D c"
    using c by (simp_all add: xfer_start_def xfer_node_start_def)
  let ?s = "\<lparr>ru_nodes = xfer_start nb ?S D, ru_pc = (\<lambda>_. Receiving)(c := Checked 0 ?r), ru_access = (\<lambda>_. 0)(c := 1), ru_replies = []\<rparr>"
  have one: "c_int 1 = Some 1" by (simp add: c_conv int_ok_def INT_MIN_def INT_MAX_def)
  have start: "run_act J (distribution_post_receive J incr) pre io locks_work alloc cell ?go (Receive c r) (run_start (xfer_start nb S D) (\<lambda>_. 0)) = Some ?s"
    using sv(1) start_list [OF c, of S D sv] sv(2) [symmetric] at
    by (simp add: run_start_def main_check_def host_of_def put_host_def Let_def one del: c_conv)
  from fair_schedule [OF ctx new placed_list [where good = inv and len = len, OF pl e, of c] rounds, of cell fill] obtain C where
    C: "forM (concat rounds) ?go (xfer_start nb ?S D) = Some C" "length C = nb"
      "placed inv len N nb (settled_row old new) (moved_names old new K) (\<lambda>a. sd_sv (xn_snd (C ! a))) (\<lambda>a. sd_store (xn_snd (C ! a)))"
    by blast
  with start C show ?thesis by (simp add: transfers_only del: run_act.simps)
qed

lemma creation_overtaken:
  assumes J: "json_laws J" and ctx: "xfer_ctx X alloc N nb hs old ids vers K D" and new: "new = message_row ids vers"
    and pl: "placed inv len N nb old K S D"
    and rounds: "nb * (4 * N + 2) \<le> length rounds" "\<forall>r \<in> set rounds. set r = cluster_threads_of nb"
    and c: "c < nb" and i: "i < N" and row: "old i = (int c, v, 0)" and r: "request_for J r i v" and ch: "changed old new i"
    and t: "j_int J r ''reqType'' = RT_CREATE" "j_has J r ''data''" and io: "io_good io (j_str J r ''data'')"
    and fresh: "\<forall>j < N. j_str J r ''key'' \<notin> set (K j)"
  shows "\<exists>s d. forM ([Receive c r] @ map Transfer (concat rounds) @ [Execute c, Answer c])
      (run_act J (distribution_post_receive J incr) (distribution_pre_send J) io locks_work alloc cell
        (cluster_turn X reset alloc cell hs N fill ids vers)) (run_start (xfer_start nb S D) (\<lambda>_. 0)) = Some s \<and>
    ru_replies s = [(c, d)] \<and> j_str J d ''repFlag'' = ''done'' \<and>
    stored (sd_store (xn_snd (ru_nodes s ! c))) (j_str J r ''key'') = Some (j_str J r ''data'') \<and>
    (\<forall>a < nb. a \<noteq> c \<longrightarrow> stored (sd_store (xn_snd (ru_nodes s ! a))) (j_str J r ''key'') = None) \<and>
    (\<forall>a < nb. fst (mlt_row (sv_table (sd_sv (xn_snd (ru_nodes s ! a)))) i) \<noteq> int c)"
proof -
  let ?k = "j_str J r ''key''" and ?r = "j_add_str J r ''versionFlag'' ''up-to-date''"
  let ?go = "cluster_turn X reset alloc cell hs N fill ids vers"
  let ?act = "run_act J (distribution_post_receive J incr) (distribution_pre_send J) io locks_work alloc cell ?go"
  have m: "good_move N nb old new" and al: "fresh_alloc alloc" using ctx new by (simp_all add: xfer_ctx_def)
  note r' = r [unfolded request_for_def]
  from overtaken [OF J ctx new pl rounds c i row r, of "distribution_pre_send J" io cell fill] obtain C where
    C: "forM (Receive c r # map Transfer (concat rounds)) ?act (run_start (xfer_start nb S D) (\<lambda>_. 0)) =
      Some \<lparr>ru_nodes = C, ru_pc = (\<lambda>_. Receiving)(c := Checked 0 ?r), ru_access = (\<lambda>_. 0)(c := 1), ru_replies = []\<rparr>" (is "_ = Some ?s")
    and len: "length C = nb"
    and fin_pl: "placed inv len N nb (settled_row old new) (moved_names old new K) (\<lambda>a. sd_sv (xn_snd (C ! a))) (\<lambda>a. sd_store (xn_snd (C ! a)))"
    by blast
  have none: "stored (sd_store (xn_snd (C ! a))) ?k = None" if "a < nb" for a
    by (rule unknown_key [OF fin_pl that]) (use fresh in \<open>simp add: moved_names_def\<close>)
  have rows: "mlt_row (sv_table (sd_sv (xn_snd (C ! a)))) i = settled_row old new i" if "a < nb" for a
    using fin_pl that i by (simp add: placed_def placed_at_def)
  have away: "fst (settled_row old new i) \<noteq> int c" using m i row ch by (auto simp: good_move_def settled_row_def)
  let ?sv = "sd_sv (xn_snd (C ! c))" and ?st = "sd_store (xn_snd (C ! c))"
  have ok: "server_ok inv len N ?sv (held N (settled_row old new) (moved_names old new K) c)" and fin: "finite (dom (sv_heap ?sv))"
    using fin_pl c by (simp_all add: placed_def placed_at_def)
  obtain st where st: "generic_put io ?st ?k (j_str J r ''data'') = (st, 0)" "\<forall>k. stored st k = (if k = ?k then Some (j_str J r ''data'') else stored ?st k)"
    using put_ok [OF io none [OF c]] by blast
  have p: "server_process J io ?st ?r = Some (0, st, ?r)" using r' t st(1) J by (simp add: server_process_def json_simps Let_def)
  obtain sv2 where sv2: "pre_send_create J locks_work (alloc (sv_heap ?sv)) cell ?sv ?r = Some (0, sv2)" "sv_table sv2 = sv_table ?sv"
    using pre_send_create_ok [OF ok i, of J ?r "alloc (sv_heap ?sv)" cell] r' J al fin by (auto simp: json_simps fresh_alloc_def)
  have q: "distribution_pre_send J locks_work (alloc (sv_heap ?sv)) cell ?sv ?r 0 = Some (0, sv2)"
    using sv2(1) r' t J by (simp add: distribution_pre_send_def json_simps)
  let ?n1 = "(C ! c)\<lparr>xn_snd := (xn_snd (C ! c))\<lparr>sd_sv := ?sv, sd_store := st\<rparr>\<rparr>" and ?n2 = "(C ! c)\<lparr>xn_snd := (xn_snd (C ! c))\<lparr>sd_sv := sv2, sd_store := st\<rparr>\<rparr>"
  let ?d = "j_add_str J ?r ''repFlag'' ''done''"
  let ?s1 = "\<lparr>ru_nodes = C[c := ?n1], ru_pc = (\<lambda>_. Receiving)(c := Executed 0 ?r), ru_access = (\<lambda>_. 0)(c := 1), ru_replies = []\<rparr>"
  let ?s2 = "\<lparr>ru_nodes = C[c := ?n2], ru_pc = (\<lambda>_. Receiving), ru_access = (\<lambda>_. 0)(c := 1), ru_replies = [(c, ?d)]\<rparr>"
  have "?act (Execute c) ?s = Some ?s1" using p c len by (simp add: main_store_def host_of_def put_host_def Let_def errno_defs)
  moreover have "?act (Answer c) ?s1 = Some ?s2"
    using q c len by (simp add: main_reply_def host_of_def put_host_def Let_def reply_flags fun_upd_idem)
  ultimately have run: "forM ([Receive c r] @ map Transfer (concat rounds) @ [Execute c, Answer c]) ?act (run_start (xfer_start nb S D) (\<lambda>_. 0)) = Some ?s2"
    using C by (simp add: forM_append del: run_act.simps split: option.splits)
  have "stored (sd_store (xn_snd (ru_nodes ?s2 ! c))) ?k = Some (j_str J r ''data'')" using st(2) c len by simp
  moreover have "\<forall>a < nb. a \<noteq> c \<longrightarrow> stored (sd_store (xn_snd (ru_nodes ?s2 ! a))) ?k = None" using none by simp
  moreover have "\<forall>a < nb. fst (mlt_row (sv_table (sd_sv (xn_snd (ru_nodes ?s2 ! a)))) i) \<noteq> int c"
    using rows sv2(2) away c len by (auto simp: nth_list_update)
  moreover have "j_str J ?d ''repFlag'' = ''done''" using J by (simp add: json_simps)
  ultimately show ?thesis using run by (intro exI [of _ ?s2] exI [of _ ?d]) simp
qed

lemma read_overtaken:
  assumes J: "json_laws J" and ctx: "xfer_ctx X alloc N nb hs old ids vers K D" and new: "new = message_row ids vers"
    and pl: "placed inv len N nb old K S D"
    and rounds: "nb * (4 * N + 2) \<le> length rounds" "\<forall>r \<in> set rounds. set r = cluster_threads_of nb"
    and c: "c < nb" and i: "i < N" and row: "old i = (int c, v, 0)" and r: "request_for J r i v" and ch: "changed old new i"
    and t: "j_int J r ''reqType'' = RT_READ" and io: "io_good io y" and key: "j_str J r ''key'' \<in> set (K i)"
  shows "stored (D c) (j_str J r ''key'') \<noteq> None"
    and "forM ([Receive c r] @ map Transfer (concat rounds) @ [Execute c])
      (run_act J (distribution_post_receive J incr) (distribution_pre_send J) io locks_work alloc cell
        (cluster_turn X reset alloc cell hs N fill ids vers)) (run_start (xfer_start nb S D) (\<lambda>_. 0)) = None"
proof -
  let ?k = "j_str J r ''key''" and ?r = "j_add_str J r ''versionFlag'' ''up-to-date''"
  let ?go = "cluster_turn X reset alloc cell hs N fill ids vers"
  let ?act = "run_act J (distribution_post_receive J incr) (distribution_pre_send J) io locks_work alloc cell ?go"
  have m: "good_move N nb old new" and K: "keys_ok N K" using ctx new by (simp_all add: xfer_ctx_def)
  show "stored (D c) ?k \<noteq> None" using pl c i row key unfolding placed_def placed_at_def by force
  note r' = r [unfolded request_for_def]
  from overtaken [OF J ctx new pl rounds c i row r, of "distribution_pre_send J" io cell fill] obtain C where
    C: "forM (Receive c r # map Transfer (concat rounds)) ?act (run_start (xfer_start nb S D) (\<lambda>_. 0)) =
      Some \<lparr>ru_nodes = C, ru_pc = (\<lambda>_. Receiving)(c := Checked 0 ?r), ru_access = (\<lambda>_. 0)(c := 1), ru_replies = []\<rparr>" (is "_ = Some ?s")
    and fin_pl: "placed inv len N nb (settled_row old new) (moved_names old new K) (\<lambda>a. sd_sv (xn_snd (C ! a))) (\<lambda>a. sd_store (xn_snd (C ! a)))"
    by blast
  have away: "fst (settled_row old new i) \<noteq> int c" using m i row ch by (auto simp: good_move_def settled_row_def)
  have "stored (sd_store (xn_snd (C ! c))) ?k \<noteq> None \<longleftrightarrow>
      (\<exists>j < N. fst (settled_row old new j) = int c \<and> ?k \<in> set (moved_names old new K j))"
    using fin_pl c unfolding placed_def placed_at_def by blast
  moreover have "j = i" if "j < N" "?k \<in> set (moved_names old new K j)" for j
    using keys_apart [OF K that(1) i _ key] that(2) by (simp add: moved_names_def split: if_splits)
  ultimately have "stored (sd_store (xn_snd (C ! c))) ?k = None" using away by blast
  then have "generic_get io (sd_store (xn_snd (C ! c))) ?k = Some (sd_store (xn_snd (C ! c)), None)"
    using io by (simp add: generic_get_def stored_def Let_def io_good_def)
  then have "server_process J io (sd_store (xn_snd (C ! c))) ?r = None"
    using r' t J by (simp add: server_process_def json_simps Let_def req_type_defs)
  then have "?act (Execute c) ?s = None" by (simp add: main_store_def host_of_def errno_defs)
  then show "forM ([Receive c r] @ map Transfer (concat rounds) @ [Execute c]) ?act (run_start (xfer_start nb S D) (\<lambda>_. 0)) = None"
    using C by (simp add: forM_append del: run_act.simps split: option.splits)
qed

end

section \<open>A name without its file\<close>

text \<open>
  The sender removes the file of each name it packs, and ends when one is missing. The names packed before are lost then:
  their files are removed and no packet is sent.
\<close>

lemma pack_name_missing:
  assumes X: "xfer_fine X" and h: "holds (sv_heap sv) (sv_md sv) L" and i: "i < length (sv_md sv)" and L: "L ! i = n # ns"
    and n: "stored st n = None"
  shows "\<exists>p. pack_name X (int i) (sv, st, b) = Some (Leave (sv\<lparr>sv_md := (sv_md sv)[i := p]\<rparr>, st, b))"
proof -
  obtain a p c where pop: "md_entry_pop (sv_heap sv) (sv_md sv ! i) = Some (p, Some a)" "sv_heap sv a = Some c" "md_name c = n"
    using holds_pop [OF h i L] by blast
  have "generic_del (xe_io X) st n = (st, -1)" using n by (auto simp: generic_del_def stored_def Let_def)
  then have "pack_name X (int i) (sv, st, b) = Some (Leave (sv\<lparr>sv_md := (sv_md sv)[i := p]\<rparr>, st, b))"
    using X i pop by (simp add: pack_name_def xfer_fine_def locks_work_def rdi_in wri_in Let_def)
  then show ?thesis by blast
qed

lemma pack_names_missing:
  assumes X: "xfer_fine X" and "holds (sv_heap sv) (sv_md sv) L" and "i < length (sv_md sv)" and "L ! i = xs @ n # ys"
    and "\<forall>m \<in> set xs. length m < 40 \<and> stored st m \<noteq> None" and "distinct (xs @ [n])" and "stored st n = None"
    and "buf_ok b" and "length (nb_text b) + length (joined (CHR '','') xs) < 400000000"
  shows "\<exists>h' md' st' b'. pack_names X (int i) (sv, st, b) = Some (Leave (sv\<lparr>sv_heap := h', sv_md := md'\<rparr>, st', b')) \<and>
    (\<forall>k. stored st' k = (if k \<in> set xs then None else stored st k))"
  using assms(2-)
proof (induction xs arbitrary: sv st b L)
  case Nil
  then have nn: "sv_md sv ! i \<noteq> None" using holds_None [OF Nil.prems(1,2)] by simp
  from pack_name_missing [OF X Nil.prems(1,2) _ Nil.prems(6), of ys b] Nil.prems(3) obtain p where
    "pack_name X (int i) (sv, st, b) = Some (Leave (sv\<lparr>sv_md := (sv_md sv)[i := p]\<rparr>, st, b))" by auto
  then show ?case using nn Nil.prems(2)
    by (intro exI [of _ "sv_heap sv"] exI [of _ "(sv_md sv)[i := p]"] exI [of _ st] exI [of _ b])
      (simp add: pack_names.simps [of X "int i" "(sv, st, b)"] rdi_in)
next
  case (Cons m xs)
  note pr = Cons.prems
  have L: "L ! i = m # xs @ n # ys" using pr(3) by simp
  obtain h1 p st1 b1 where 1: "pack_name X (int i) (sv, st, b) = Some (Next (sv\<lparr>sv_heap := h1, sv_md := (sv_md sv)[i := p]\<rparr>, st1, b1))"
    "holds h1 ((sv_md sv)[i := p]) (L[i := xs @ n # ys])" "buf_ok b1" "nb_text b1 = nb_text b @ CHR '','' # m"
    "\<forall>k. stored st1 k = (if k = m then None else stored st k)"
    using pack_name_ok [OF X pr(1,2) L, of st b] pr(4,7,8) by auto
  let ?sv = "sv\<lparr>sv_heap := h1, sv_md := (sv_md sv)[i := p]\<rparr>"
  have iL: "i < length L" using holds_length [OF pr(1)] pr(2) by simp
  have nn: "sv_md sv ! i \<noteq> None" using holds_None [OF pr(1,2)] L by simp
  have "\<exists>h' md' st' b'. pack_names X (int i) (?sv, st1, b1) = Some (Leave (?sv\<lparr>sv_heap := h', sv_md := md'\<rparr>, st', b')) \<and>
    (\<forall>k. stored st' k = (if k \<in> set xs then None else stored st1 k))"
    by (rule Cons.IH [where L = "L[i := xs @ n # ys]"]) (use 1 pr iL in auto)
  then obtain h' md' st' b' where 2: "pack_names X (int i) (?sv, st1, b1) = Some (Leave (?sv\<lparr>sv_heap := h', sv_md := md'\<rparr>, st', b'))"
    "\<forall>k. stored st' k = (if k \<in> set xs then None else stored st1 k)"
    by blast
  have "pack_names X (int i) (sv, st, b) = Some (Leave (sv\<lparr>sv_heap := h', sv_md := md'\<rparr>, st', b'))"
    using 1(1) 2(1) nn pr(2) by (auto simp: pack_names.simps [of X "int i" "(sv, st, b)"] rdi_in)
  moreover have "\<forall>k. stored st' k = (if k \<in> set (m # xs) then None else stored st k)" using 2(2) 1(5) by simp
  ultimately show ?case by blast
qed

text \<open>A deletion whose file is removed but whose name is still listed when the sender packs the entry.\<close>

context served_list
begin

lemma deletion_overtaken:
  assumes J: "json_laws J" and X: "xfer_fine X" and ok: "server_ok inv len N (sd_sv s) L" and i: "i < N"
    and k: "k < length (entries l)" "entries l ! k = int i"
    and names: "names_ok (L ! i)" "\<forall>m \<in> set (L ! i). stored (sd_store s) m \<noteq> None" "L ! i = xs @ n # ys"
    and r: "j_has J r ''key''" "j_str J r ''key'' = n" "j_has J r ''reqType''" "j_int J r ''reqType'' = RT_DELETE"
  shows "\<exists>st s'. main_store J (xe_io X) 0 r \<lparr>ho_sv = sd_sv s, ho_store = sd_store s, ho_access = m\<rparr> =
      Some (0, r, \<lparr>ho_sv = sd_sv s, ho_store = st, ho_access = m\<rparr>) \<and>
    send_out X reset l k (s\<lparr>sd_store := st\<rparr>) = Some (Leave s') \<and> sd_status s' = Failed \<and> sd_sent s' = sd_sent s \<and>
    sv_table (sd_sv s') = sv_table (sd_sv s) \<and>
    (\<forall>q. stored (sd_store s') q = (if q \<in> set (xs @ [n]) then None else stored (sd_store s) q))"
proof -
  have n: "stored (sd_store s) n \<noteq> None" using names by simp
  obtain st where st: "generic_del (xe_io X) (sd_store s) n = (st, 0)" "\<forall>q. stored st q = (if q = n then None else stored (sd_store s) q)"
    using del_any [OF _ n, of "xe_io X" "''a word''"] X unfolding xfer_fine_def by blast
  have "server_process J (xe_io X) (sd_store s) r = Some (0, st, r)"
    using r st(1) by (simp add: server_process_def Let_def req_type_defs)
  then have store: "main_store J (xe_io X) 0 r \<lparr>ho_sv = sd_sv s, ho_store = sd_store s, ho_access = m\<rparr> =
      Some (0, r, \<lparr>ho_sv = sd_sv s, ho_store = st, ho_access = m\<rparr>)" by (simp add: main_store_def errno_defs)
  note ok' = ok [unfolded server_ok_def]
  have i': "i < length (sv_md (sd_sv s))" using ok' i by simp
  have d: "distinct (xs @ [n])" and xs: "\<forall>q \<in> set xs. length q < 40 \<and> stored st q \<noteq> None"
    and len: "length (joined (CHR '','') xs) < 400000000"
    using names st(2) by (auto simp: names_ok_def name_ok_def joined_def)
  obtain h' md' st' b' where p: "pack_names X (int i) (sd_sv s, st, buf_new) = Some (Leave ((sd_sv s)\<lparr>sv_heap := h', sv_md := md'\<rparr>, st', b'))"
    "\<forall>q. stored st' q = (if q \<in> set xs then None else stored st q)"
    using pack_names_missing [OF X _ i' names(3) xs d _ buf_ok_new] ok' st(2) len by (auto simp: buf_new_def)
  let ?s' = "s\<lparr>sd_sv := (sd_sv s)\<lparr>sv_heap := h', sv_md := md'\<rparr>, sd_store := st', sd_status := Failed\<rparr>"
  have "send_out X reset l k (s\<lparr>sd_store := st\<rparr>) = Some (Leave ?s')"
    using X k p(1) by (simp add: send_out_def xfer_fine_def rd_in)
  with store p(2) st(2) show ?thesis by (intro exI [of _ st] exI [of _ ?s']) auto
qed

end

section \<open>Properties\<close>

text \<open>The turns of a cluster of the windowed method.\<close>

definition run_windowed ::
  "'j json \<Rightarrow> io \<Rightarrow> xfer_env \<Rightarrow> (md_heap \<Rightarrow> nat) \<Rightarrow> md_entry \<Rightarrow> string list \<Rightarrow> nat \<Rightarrow> (nat \<Rightarrow> nat \<Rightarrow> int) \<Rightarrow> u32 list \<Rightarrow> u32 list \<Rightarrow>
   'j act \<Rightarrow> (eacl_windowed, 'j) running \<Rightarrow> (eacl_windowed, 'j) running option" where
  "run_windowed J io X alloc cell hs N fill ids vers =
     run_act J (distribution_post_receive_windowed J) (distribution_pre_send_windowed J) io locks_work alloc cell
       (cluster_turn X reset_windowed alloc cell hs N fill ids vers)"

lemmas run_windowed_unfold = run_windowed_def distribution_post_receive_windowed_def distribution_pre_send_windowed_def

text \<open>
  C3. Reads go on during a redistribution: for any order of turns of the transfer threads of all servers and of whole read requests of
  clients that have the row of the old or of the new table, no server has undefined behaviour, every request is answered, and
  the answer is the value of the key (or the one the transfers store for it) or to try again. A key is never missing.
\<close>

theorem reads_during_a_redistribution:
  assumes "json_laws J" and "xfer_ctx X alloc N nb hs old ids vers K D" and "new = message_row ids vers"
    and "io_good io y" and "\<forall>a < nb. \<forall>n x. stored (D a) n = Some x \<longrightarrow> c_string x \<and> length x < BUF_GET"
    and "placed eacl_wf_windowed eacl_len N nb old K S D" and "int (length js) \<le> INT_MAX" "\<forall>j \<in> set js. job_ok J nb N old new K j"
  shows "\<exists>s. forM (concat (map job_acts js)) (run_windowed J io X alloc cell hs N fill ids vers) (run_start (xfer_start nb S D) (\<lambda>_. 0)) = Some s \<and>
    map fst (ru_replies s) = concat (map asked js) \<and> (\<forall>(a, d) \<in> set (ru_replies s). read_answer J N old new K D d)"
  unfolding run_windowed_unfold by (rule sl_windowed.reads_served [OF assms])

text \<open>
  C4. The check of a request and its execution are not one step. A creation that is checked before a table that moves its
  entry is installed, and executed after the transfers (whatever their order), is answered ``done'', but the key is then on the old server only,
  and no server has a table that names this server: the key is lost.
\<close>

theorem creation_overtaken_by_a_transfer_is_lost:
  assumes "json_laws J" and "xfer_ctx X alloc N nb hs old ids vers K D" and "new = message_row ids vers"
    and "placed eacl_wf_windowed eacl_len N nb old K S D"
    and "nb * (4 * N + 2) \<le> length rounds" "\<forall>r \<in> set rounds. set r = cluster_threads_of nb"
    and "c < nb" and "i < N" and "old i = (int c, v, 0)" and "request_for J r i v" and "changed old new i"
    and "j_int J r ''reqType'' = RT_CREATE" "j_has J r ''data''" and "io_good io (j_str J r ''data'')"
    and "\<forall>j < N. j_str J r ''key'' \<notin> set (K j)"
  shows "\<exists>s d. forM ([Receive c r] @ map Transfer (concat rounds) @ [Execute c, Answer c])
      (run_windowed J io X alloc cell hs N fill ids vers) (run_start (xfer_start nb S D) (\<lambda>_. 0)) = Some s \<and>
    ru_replies s = [(c, d)] \<and> j_str J d ''repFlag'' = ''done'' \<and>
    stored (sd_store (xn_snd (ru_nodes s ! c))) (j_str J r ''key'') = Some (j_str J r ''data'') \<and>
    (\<forall>a < nb. a \<noteq> c \<longrightarrow> stored (sd_store (xn_snd (ru_nodes s ! a))) (j_str J r ''key'') = None) \<and>
    (\<forall>a < nb. fst (mlt_row (sv_table (sd_sv (xn_snd (ru_nodes s ! a)))) i) \<noteq> int c)"
  unfolding run_windowed_unfold by (rule sl_windowed.creation_overtaken [OF assms])

text \<open>
  C13. A read of a stored key that is checked before and executed after the transfers does not find it, and
  the server ends with undefined behaviour, the use of the \<open>NULL\<close> that \<open>generic_get\<close> returns.
\<close>

theorem read_overtaken_by_a_transfer_is_undefined:
  assumes "json_laws J" and "xfer_ctx X alloc N nb hs old ids vers K D" and "new = message_row ids vers"
    and "placed eacl_wf_windowed eacl_len N nb old K S D"
    and "nb * (4 * N + 2) \<le> length rounds" "\<forall>r \<in> set rounds. set r = cluster_threads_of nb"
    and "c < nb" and "i < N" and "old i = (int c, v, 0)" and "request_for J r i v" and "changed old new i"
    and "j_int J r ''reqType'' = RT_READ" and "io_good io y" and "j_str J r ''key'' \<in> set (K i)"
  shows "stored (D c) (j_str J r ''key'') \<noteq> None \<and>
    forM ([Receive c r] @ map Transfer (concat rounds) @ [Execute c])
      (run_windowed J io X alloc cell hs N fill ids vers) (run_start (xfer_start nb S D) (\<lambda>_. 0)) = None"
  unfolding run_windowed_unfold by (intro conjI sl_windowed.read_overtaken [OF assms])

text \<open>
  C14. A deletion that is overtaken between the storage and the list of names: the sender meets a name whose file is gone and ends with
  an error in the midst of the entry. No packet is sent, the table keeps the flag of the entry, and the keys packed
  before are removed from the storage without being sent.
\<close>

theorem deletion_overtaken_ends_the_sender:
  assumes "json_laws J" and "xfer_fine X" and "server_ok eacl_wf_windowed eacl_len N (sd_sv s) L" and "i < N"
    and "k < length (entries l)" "entries l ! k = int i"
    and "names_ok (L ! i)" "\<forall>m \<in> set (L ! i). stored (sd_store s) m \<noteq> None" "L ! i = xs @ n # ys"
    and "j_has J r ''key''" "j_str J r ''key'' = n" "j_has J r ''reqType''" "j_int J r ''reqType'' = RT_DELETE"
  shows "\<exists>st s'. main_store J (xe_io X) 0 r \<lparr>ho_sv = sd_sv s, ho_store = sd_store s, ho_access = m\<rparr> =
      Some (0, r, \<lparr>ho_sv = sd_sv s, ho_store = st, ho_access = m\<rparr>) \<and>
    send_out X reset_windowed l k (s\<lparr>sd_store := st\<rparr>) = Some (Leave s') \<and> sd_status s' = Failed \<and> sd_sent s' = sd_sent s \<and>
    sv_table (sd_sv s') = sv_table (sd_sv s) \<and>
    (\<forall>q. stored (sd_store s') q = (if q \<in> set (xs @ [n]) then None else stored (sd_store s) q))"
  by (rule sl_windowed.deletion_overtaken [OF assms])

text \<open>Requests for entry 2 of the two servers of \<open>Cluster_Moves\<close>, which moves from server 0 to server 1.\<close>

definition moving_request :: "int \<Rightarrow> string \<Rightarrow> jmap" where
  "moving_request t k = [''key'' \<mapsto> JStr k, ''data'' \<mapsto> JStr ''new'', ''reqType'' \<mapsto> JInt t, ''index'' \<mapsto> JInt 2, ''entryVersion'' \<mapsto> JInt 0]"

abbreviation (input) moving_act :: "jmap act \<Rightarrow> (eacl_windowed, jmap) running \<Rightarrow> (eacl_windowed, jmap) running option" where
  "moving_act \<equiv> run_windowed map_json io_fine xfer_demo next_cell \<lparr>md_ent = 9, md_name = [], md_next = None\<rparr> [''h0'', ''h1''] 4 (\<lambda>_ _. 0)
     [0, 1, 1, 1] [0, 0, 1, 0]"

abbreviation (input) moving_rounds :: "thread list list" where
  "moving_rounds \<equiv> replicate 36 [Rcv 0, Snd 0, Rcv 1, Snd 1]"

lemma moving_requests:
  "request_for map_json (moving_request t k) 2 0" "j_int map_json (moving_request t k) ''reqType'' = t" "j_has map_json (moving_request t k) ''data''"
  "j_str map_json (moving_request t k) ''key'' = k" "j_str map_json (moving_request t k) ''data'' = ''new''"
  by (simp_all add: request_for_def moving_request_def map_json_def)

lemma moving_ctx: "xfer_ctx xfer_demo next_cell 4 2 [''h0'', ''h1''] (mlt_row (table demo_manager)) [0, 1, 1, 1] [0, 0, 1, 0] moving_keys moving_store"
  using published_ctx [OF moving_facts(1,5) _ _ moving_facts(2) xfer_demo_fine moving_facts(4) next_cell_fresh xfer_hosts _ _
      moving_placed moving_facts(3)] unfolding demo_moves(2,3) by (simp add: same_place_def)

lemma moving_row: "mlt_row (table demo_manager) 2 = (int 0, 0, 0)" "changed (mlt_row (table demo_manager)) (message_row [0, 1, 1, 1] [0, 0, 1, 0]) 2"
  by code_simp+

lemma moving_all_turns: "\<forall>r \<in> set moving_rounds. set r = cluster_threads_of 2" "2 * (4 * 4 + 2) \<le> length moving_rounds"
  by (auto simp: cluster_threads_of_def less_Suc_eq numeral_2_eq_2)

lemma moving_values: "\<forall>a < 2. \<forall>n x. stored (moving_store a) n = Some x \<longrightarrow> c_string x \<and> length x < BUF_GET"
  by (auto simp: stored_def moving_store_def c_string_def BUF_GET_def split: if_splits)

theorem reads_during_a_redistribution_witness:
  "\<exists>s. forM (concat (map job_acts [Turn (Snd 0), Serve 0 (moving_request RT_READ ''k''), Turn (Snd 1), Turn (Rcv 1)]))
      moving_act (run_start (xfer_start 2 moving_server moving_store) (\<lambda>_. 0)) = Some s \<and> map fst (ru_replies s) = [0]"
proof -
  have io: "io_good io_fine []" by (simp add: io_good_def io_fine_def BUF_GET_def)
  have "job_ok map_json 2 4 (mlt_row (table demo_manager)) (message_row [0, 1, 1, 1] [0, 0, 1, 0]) moving_keys (Serve 0 (moving_request RT_READ ''k''))"
    using moving_requests [of RT_READ "''k''"] moving_row(1) unfolding job_ok.simps read_request_def
    by (intro conjI exI [of _ "2 :: nat"] exI [of _ "0 :: int"]) (simp_all add: moving_keys_def)
  then have js: "\<forall>j \<in> set [Turn (Snd 0), Serve 0 (moving_request RT_READ ''k''), Turn (Snd 1), Turn (Rcv 1)].
      job_ok map_json 2 4 (mlt_row (table demo_manager)) (message_row [0, 1, 1, 1] [0, 0, 1, 0]) moving_keys j"
    by (simp add: cluster_threads_of_def)
  from reads_during_a_redistribution [OF map_json_laws moving_ctx refl io moving_values moving_placed _ js, of "\<lparr>md_ent = 9, md_name = [], md_next = None\<rparr>" "\<lambda>_ _. 0"]
  show ?thesis by (force simp: INT_MAX_def)
qed

theorem creation_overtaken_by_a_transfer_is_lost_witness:
  "\<exists>s d. forM ([Receive 0 (moving_request RT_CREATE ''n'')] @ map Transfer (concat moving_rounds) @ [Execute 0, Answer 0]) moving_act
      (run_start (xfer_start 2 moving_server moving_store) (\<lambda>_. 0)) = Some s \<and>
    ru_replies s = [(0, d)] \<and> j_str map_json d ''repFlag'' = ''done'' \<and>
    stored (sd_store (xn_snd (ru_nodes s ! 0))) ''n'' = Some ''new'' \<and> stored (sd_store (xn_snd (ru_nodes s ! 1))) ''n'' = None"
proof -
  note q = moving_requests [of RT_CREATE "''n''"]
  have io: "io_good io_fine (j_str map_json (moving_request RT_CREATE ''n'') ''data'')" by (simp add: q io_good_def io_fine_def BUF_GET_def)
  have fresh: "\<forall>j < 4. j_str map_json (moving_request RT_CREATE ''n'') ''key'' \<notin> set (moving_keys j)" by (simp add: q moving_keys_def)
  obtain s d where s: "forM ([Receive 0 (moving_request RT_CREATE ''n'')] @ map Transfer (concat moving_rounds) @ [Execute 0, Answer 0]) moving_act
      (run_start (xfer_start 2 moving_server moving_store) (\<lambda>_. 0)) = Some s"
    "ru_replies s = [(0, d)]" "j_str map_json d ''repFlag'' = ''done''"
    "stored (sd_store (xn_snd (ru_nodes s ! 0))) ''n'' = Some ''new''"
    "\<forall>a < 2. a \<noteq> 0 \<longrightarrow> stored (sd_store (xn_snd (ru_nodes s ! a))) ''n'' = None"
    using creation_overtaken_by_a_transfer_is_lost [OF map_json_laws moving_ctx refl moving_placed moving_all_turns(2,1) _ _ moving_row(1) q(1)
        moving_row(2) q(2,3) io fresh, of "\<lparr>md_ent = 9, md_name = [], md_next = None\<rparr>" "\<lambda>_ _. 0"]
    unfolding q(4,5) by (elim meta_impE exE conjE) simp_all
  have "stored (sd_store (xn_snd (ru_nodes s ! 1))) ''n'' = None" by (rule mp [OF mp [OF spec [OF s(5), of 1]]]) simp_all
  with s(1-4) show ?thesis by blast
qed

theorem read_overtaken_by_a_transfer_is_undefined_witness:
  "forM ([Receive 0 (moving_request RT_READ ''k'')] @ map Transfer (concat moving_rounds) @ [Execute 0]) moving_act
      (run_start (xfer_start 2 moving_server moving_store) (\<lambda>_. 0)) = None"
proof -
  note q = moving_requests [of RT_READ "''k''"]
  have io: "io_good io_fine []" by (simp add: io_good_def io_fine_def BUF_GET_def)
  have k: "j_str map_json (moving_request RT_READ ''k'') ''key'' \<in> set (moving_keys 2)" by (simp add: q moving_keys_def)
  show ?thesis
    using read_overtaken_by_a_transfer_is_undefined [OF map_json_laws moving_ctx refl moving_placed moving_all_turns(2,1) _ _ moving_row(1) q(1)
        moving_row(2) q(2) io k, of "\<lparr>md_ent = 9, md_name = [], md_next = None\<rparr>" "\<lambda>_ _. 0"] by (elim meta_impE conjE) simp_all
qed

theorem deletion_overtaken_ends_the_sender_witness:
  "\<exists>st s'. send_out xfer_demo reset_windowed \<lparr>entries = [0], servers = [1], t_size = 1\<rparr> 0 (demo_sender\<lparr>sd_store := st\<rparr>) = Some (Leave s') \<and>
    sd_sent s' = [] \<and> stored (sd_store demo_sender) ''k1'' = Some ''v1'' \<and> stored (sd_store s') ''k1'' = None"
proof -
  have sv: "server_ok eacl_wf_windowed eacl_len 3 (sd_sv demo_sender) [[''k1'', ''k2''], [], []]"
    using xfer_from_ok by (simp add: demo_sender_def)
  have st: "\<forall>m \<in> set ([[''k1'', ''k2''], [], []] ! 0). stored (sd_store demo_sender) m \<noteq> None" "names_ok ([[''k1'', ''k2''], [], []] ! 0)"
    using xfer_names_ok by (simp_all add: demo_sender_def xfer_stored)
  note q = moving_requests [of RT_DELETE "''k2''"]
  have r: "j_has map_json (moving_request RT_DELETE ''k2'') ''key''" "j_has map_json (moving_request RT_DELETE ''k2'') ''reqType''"
    using q(1) by (simp_all add: request_for_def)
  obtain st s' where "send_out xfer_demo reset_windowed \<lparr>entries = [0], servers = [1], t_size = 1\<rparr> 0 (demo_sender\<lparr>sd_store := st\<rparr>) = Some (Leave s')"
    "sd_sent s' = sd_sent demo_sender" "\<forall>q. stored (sd_store s') q = (if q \<in> set ([''k1''] @ [''k2'']) then None else stored (sd_store demo_sender) q)"
    using deletion_overtaken_ends_the_sender [where m = 0, OF map_json_laws xfer_demo_fine sv _ _ _ st(2,1) _ r(1) q(4) r(2) q(2),
        of 0 "\<lparr>entries = [0], servers = [1], t_size = 1\<rparr>" "[''k1'']" "[]"] by auto
  then show ?thesis by (intro exI [of _ st] exI [of _ s']) (simp add: demo_sender_def xfer_stored)
qed

end
