(* ===== verification/Cluster_Methods.thy ===== *)
theory Cluster_Methods
  imports Request_Races Manager_Dh Manager_Indedh
begin

text \<open>
  The redistribution by all servers for the managers of the dynamic hashing and the independent method: the servers run the same
  threads, the tables come from other managers.
\<close>

section \<open>The table of these managers\<close>

lemma moved_published:
  assumes t: "table_ok (int nb) t" "mlt_len t = N" and t': "mlt_wf t'" "mlt_len t' = N"
    and load: "length load0 = nb" and mv: "\<forall>e < N. moved load0 (mlt_row t e) (mlt_row t' e)"
    and same: "\<forall>i < N. same_place (old i) (mlt_row t i)" and new: "new = message_row (id_srv t') (n_ver t')"
  shows "good_move N nb old new" "length (id_srv t') = N" "length (n_ver t') = N"
    and "i < N \<Longrightarrow> same_place (settled_row old new i) (mlt_row t' i)" and "int N \<le> INT_MAX"
proof -
  show "length (id_srv t') = N" "length (n_ver t') = N" using t' by (simp_all add: mlt_wf_len)
  show "int N \<le> INT_MAX" using t' by (auto simp: mlt_wf_def mlt_len_def simp flip: uint_nat)
  have n: "same_place (new i) (mlt_row t' i)" if "i < N" for i unfolding new using message_of_table [OF t'(1)] t'(2) that by simp
  have row: "mlt_row t' i = mlt_row t i \<and> 0 \<le> fst (mlt_row t i) \<and> fst (mlt_row t i) < int nb \<or>
      fst (mlt_row t' i) \<noteq> fst (mlt_row t i) \<and> fst (snd (mlt_row t' i)) \<noteq> fst (snd (mlt_row t i)) \<and>
      0 \<le> fst (mlt_row t i) \<and> fst (mlt_row t i) < int nb \<and> 0 \<le> fst (mlt_row t' i) \<and> fst (mlt_row t' i) < int nb" if i: "i < N" for i
  proof -
    obtain s v f where r: "mlt_row t i = (s, v, f)" by (cases "mlt_row t i")
    have own: "0 \<le> s" "s < int nb" using t i r by (auto simp: table_ok_def)
    have "moved load0 (s, v, f) (mlt_row t' i)" using mv i r by metis
    then consider "mlt_row t' i = (s, v, f)" | s' where "mlt_row t' i = (s', v + 1, 0)" "s \<in> large load0" "s' \<in> small load0"
      unfolding moved_def by auto
    then show ?thesis
    proof cases
      case 2
      then have "s' \<noteq> s" "0 \<le> s'" "s' < int nb" using load by (auto simp: large_def small_def)
      then show ?thesis using r own 2(1) by simp
    qed (use r own in simp)
  qed
  show "good_move N nb old new" unfolding good_move_def
  proof (intro allI impI)
    fix i assume i: "i < N"
    have "same_place (old i) (mlt_row t i)" using same i by blast
    then show "0 \<le> fst (old i) \<and> fst (old i) < int nb \<and> 0 \<le> fst (new i) \<and> fst (new i) < int nb \<and> (changed old new i \<longleftrightarrow> fst (old i) \<noteq> fst (new i))"
      using n [OF i] row [OF i] unfolding same_place_def changed_def by (elim disjE conjE) simp_all
  qed
  show "same_place (settled_row old new i) (mlt_row t' i)" if i: "i < N"
  proof -
    have "same_place (old i) (mlt_row t i)" using same i by blast
    then show ?thesis using n [OF i] row [OF i] unfolding same_place_def settled_row_def changed_def by (elim disjE conjE) simp_all
  qed
qed

lemma moved_ctx:
  assumes "table_ok (int nb) t" "mlt_len t = N" "mlt_wf t'" "mlt_len t' = N"
    and "length load0 = nb" "\<forall>e < N. moved load0 (mlt_row t e) (mlt_row t' e)"
    and "\<forall>i < N. same_place (old i) (mlt_row t i)" and "0 < N" "\<forall>a < nb. \<exists>i < N. fst (old i) \<noteq> int a"
    and "xfer_fine X" "xe_hosts X = Some (text_file hs)" "fresh_alloc alloc"
    and "hosts_ok hs" "distinct hs" "nb \<le> length hs"
    and "placed good len N nb old K S D" "keys_ok N K"
  shows "xfer_ctx X alloc N nb hs old (id_srv t') (n_ver t') K D"
proof -
  note p = moved_published [OF assms(1-7) refl]
  have few: "\<forall>a < nb. length (sends (int a) old (message_row (id_srv t') (n_ver t')) N) < N" using some_stay assms(9) by blast
  have "\<forall>a < nb. \<forall>n. stored (D a) n \<noteq> None \<longleftrightarrow> (\<exists>i < N. fst (old i) = int a \<and> n \<in> set (K i))"
    using assms(16) by (simp add: placed_def placed_at_def)
  then show ?thesis unfolding xfer_ctx_def using assms(8,10-15,17) p(1-3,5) few by blast
qed

context served_list
begin

lemma moved_redistribution:
  assumes "table_ok (int nb) t" "mlt_len t = N" "mlt_wf t'" "mlt_len t' = N"
    and "length load0 = nb" "\<forall>e < N. moved load0 (mlt_row t e) (mlt_row t' e)"
    and "\<forall>i < N. same_place (old i) (mlt_row t i)" and "0 < N" "\<forall>a < nb. \<exists>i < N. fst (old i) \<noteq> int a"
    and "xfer_fine X" "xe_hosts X = Some (text_file hs)" "fresh_alloc alloc"
    and "hosts_ok hs" "distinct hs" "nb \<le> length hs"
    and "placed inv len N nb old K S D" "keys_ok N K"
    and rounds: "nb * (4 * N + 2) \<le> length rounds" "\<forall>r \<in> set rounds. set r = cluster_threads_of nb"
  shows "\<exists>C. forM (concat rounds) (cluster_turn X reset alloc cell hs N fill (id_srv t') (n_ver t')) (xfer_start nb S D) = Some C \<and>
    (\<forall>a < nb. xn_pc (C ! a) = Ended \<and> xn_rcv (C ! a) = Await 0 \<and> xn_in (C ! a) = []) \<and>
    (\<exists>row K'. placed inv len N nb row K' (\<lambda>a. sd_sv (xn_snd (C ! a))) (\<lambda>a. sd_store (xn_snd (C ! a))) \<and>
      (\<forall>i < N. same_place (row i) (mlt_row t' i) \<and> mset (K' i) = mset (K i)))"
proof -
  let ?new = "message_row (id_srv t') (n_ver t')"
  note ctx = moved_ctx [OF assms(1-17)]
  note p = moved_published(4) [OF assms(1-7) refl]
  have "mset (moved_names old ?new K i) = mset (K i)" for i by (simp add: moved_names_def)
  then have q: "\<forall>i < N. same_place (settled_row old ?new i) (mlt_row t' i) \<and> mset (moved_names old ?new K i) = mset (K i)" using p by blast
  from fair_schedule [OF ctx refl assms(16) rounds, of cell fill] obtain C where
    C: "forM (concat rounds) (cluster_turn X reset alloc cell hs N fill (id_srv t') (n_ver t')) (xfer_start nb S D) = Some C"
    "\<forall>a < nb. xn_pc (C ! a) = Ended \<and> xn_rcv (C ! a) = Await 0 \<and> xn_in (C ! a) = []"
    "placed inv len N nb (settled_row old ?new) (moved_names old ?new K) (\<lambda>a. sd_sv (xn_snd (C ! a))) (\<lambda>a. sd_store (xn_snd (C ! a)))"
    by (elim exE conjE) (rule that)
  show ?thesis by (rule exI [of _ C]) (intro conjI C(1,2) exI [of _ "settled_row old ?new"] exI [of _ "moved_names old ?new K"] C(3) q)
qed

end

section \<open>Properties\<close>

abbreviation (input) reset_dh :: "eacl \<Rightarrow> int \<Rightarrow> (int \<times> eacl option) option" where
  "reset_dh \<equiv> \<lambda>e. eacl_reset_all_entry_dh (Some e)"

abbreviation (input) reset_indedh :: "eacl_indedh \<Rightarrow> int \<Rightarrow> (int \<times> eacl_indedh option) option" where
  "reset_indedh \<equiv> \<lambda>e. eacl_reset_all_entry_indedh (Some e)"

text \<open>
  C11. In the dynamic hashing method: the manager computes its table without undefined behaviour, and when the servers had its old
  table, then for every schedule in which each thread has its turn often enough, all transfers end, and the keys are where the new table says.
\<close>

theorem dh_redistribution_completes:
  assumes m: "manager_dh_ok N nb m" and "\<forall>i < N. same_place (old i) (mlt_row (dh_table m) i)" and "0 < N" "\<forall>a < nb. \<exists>i < N. fst (old i) \<noteq> int a"
    and "xfer_fine X" "xe_hosts X = Some (text_file hs)" "fresh_alloc alloc"
    and "hosts_ok hs" "distinct hs" "nb \<le> length hs"
    and "placed eacl_wf eacl_len N nb old K S D" "keys_ok N K"
    and rounds: "nb * (4 * N + 2) \<le> length rounds" "\<forall>r \<in> set rounds. set r = cluster_threads_of nb"
  shows "\<exists>m' C. manager_calculate_relab_dh env_fine N (int nb) m = Some (0, m') \<and>
    forM (concat rounds) (cluster_turn X reset_dh alloc cell hs N fill (id_srv (dh_table m')) (n_ver (dh_table m'))) (xfer_start nb S D) = Some C \<and>
    (\<forall>a < nb. xn_pc (C ! a) = Ended \<and> xn_rcv (C ! a) = Await 0 \<and> xn_in (C ! a) = []) \<and>
    (\<exists>row K'. placed eacl_wf eacl_len N nb row K' (\<lambda>a. sd_sv (xn_snd (C ! a))) (\<lambda>a. sd_store (xn_snd (C ! a))) \<and>
      (\<forall>i < N. same_place (row i) (mlt_row (dh_table m') i) \<and> mset (K' i) = mset (K i)))"
proof -
  from manager_calculate_relab_dh_ok [OF m] obtain m' where m': "manager_calculate_relab_dh env_fine N (int nb) m = Some (0, m')"
    "mlt_wf (dh_table m')" "mlt_len (dh_table m') = N"
    "\<forall>e < N. moved (dh_loads (dh_table m) (dh_global_list m) N nb) (mlt_row (dh_table m) e) (mlt_row (dh_table m') e)" by (auto simp: move_inv_def)
  have t: "table_ok (int nb) (dh_table m)" "mlt_len (dh_table m) = N" "length (dh_loads (dh_table m) (dh_global_list m) N nb) = nb"
    using m by (simp_all add: manager_dh_ok_def dh_loads_def)
  from sl_dh.moved_redistribution [OF t(1,2) m'(2,3) t(3) m'(4) assms(2-14), of cell fill] m'(1) show ?thesis by blast
qed

text \<open>
  C12. In the independent method: the manager computes its table from the load levels of the servers without undefined behaviour,
  and when the servers had its old table, then for every schedule in which each thread has its turn often enough, all transfers
  end, no packet is left, and the keys are where the new table says.
\<close>

theorem indedh_redistribution_completes:
  assumes m: "manager_ok N nb m" and "\<forall>i < N. same_place (old i) (mlt_row (table m) i)" and "0 < N" "\<forall>a < nb. \<exists>i < N. fst (old i) \<noteq> int a"
    and "xfer_fine X" "xe_hosts X = Some (text_file hs)" "fresh_alloc alloc"
    and "hosts_ok hs" "distinct hs" "nb \<le> length hs"
    and "placed eacl_wf eacl_len N nb old K S D" "keys_ok N K"
    and rounds: "nb * (4 * N + 2) \<le> length rounds" "\<forall>r \<in> set rounds. set r = cluster_threads_of nb"
  shows "\<exists>m' C. manager_calculate_relab_indedh env_fine N (int nb) m = Some (0, m') \<and>
    forM (concat rounds) (cluster_turn X reset_indedh alloc cell hs N fill (id_srv (table m')) (n_ver (table m'))) (xfer_start nb S D) = Some C \<and>
    (\<forall>a < nb. xn_pc (C ! a) = Ended \<and> xn_rcv (C ! a) = Await 0 \<and> xn_in (C ! a) = []) \<and>
    (\<exists>row K'. placed eacl_wf eacl_len N nb row K' (\<lambda>a. sd_sv (xn_snd (C ! a))) (\<lambda>a. sd_store (xn_snd (C ! a))) \<and>
      (\<forall>i < N. same_place (row i) (mlt_row (table m') i) \<and> mset (K' i) = mset (K i)))"
proof -
  from manager_calculate_relab_indedh_ok [OF m] obtain m' where m': "manager_calculate_relab_indedh env_fine N (int nb) m = Some (0, m')"
    "mlt_wf (table m')" "mlt_len (table m') = N"
    "\<forall>e < N. moved (loads (all_list m) nb) (mlt_row (table m) e) (mlt_row (table m') e)" by (auto simp: move_inv_def)
  have t: "table_ok (int nb) (table m)" "mlt_len (table m) = N" "length (loads (all_list m) nb) = nb"
    using m by (simp_all add: manager_ok_def)
  from sl_indedh.moved_redistribution [OF t(1,2) m'(2,3) t(3) m'(4) assms(2-14), of cell fill] m'(1) show ?thesis by blast
qed

text \<open>The two servers of \<open>Cluster_Moves\<close> with the lists of these methods.\<close>

definition with_lists :: "'f \<Rightarrow> (nat \<Rightarrow> 'e server) \<Rightarrow> nat \<Rightarrow> 'f server" where
  "with_lists e S a = \<lparr>sv_table = sv_table (S a), sv_list = e, sv_md = sv_md (S a), sv_heap = sv_heap (S a), sv_self = sv_self (S a)\<rparr>"

lemma placed_with_lists:
  assumes "placed good len N nb row K S D" and "good' e" "len' e = N"
  shows "placed good' len' N nb row K (with_lists e S) D"
  using assms by (simp add: placed_def placed_at_def server_ok_def with_lists_def)

definition two_servers_dh :: "nat \<Rightarrow> eacl server" where
  "two_servers_dh = with_lists \<lparr>access_count = [0, 0, 0, 0], sai = [0, 0, 0, 0], eacl_size = 4\<rparr> moving_server"

definition two_servers_indedh :: "nat \<Rightarrow> eacl_indedh server" where
  "two_servers_indedh = with_lists \<lparr>access_count = [0, 0, 0, 0], sai = [0, 0, 0, 0], eacl_size = 4, load_lvl = 0\<rparr> moving_server"

lemma two_servers:
  "placed eacl_wf eacl_len 4 2 (mlt_row (table demo_manager)) moving_keys two_servers_dh moving_store"
  "placed eacl_wf eacl_len 4 2 (mlt_row (table demo_manager)) moving_keys two_servers_indedh moving_store"
  unfolding two_servers_dh_def two_servers_indedh_def
  by (rule placed_with_lists [OF moving_placed], simp_all add: eacl_wf_def eacl_len_def INT_MAX_def)+

definition two_manager_dh :: manager_dh where
  "two_manager_dh = \<lparr>dh_global_list = [5, 1, 3, 0], dh_table = table demo_manager, update_needed = 1\<rparr>"

lemma two_hosts: "0 < (4 :: nat)" "distinct [''h0'', ''h1'']" "2 \<le> length [''h0'', ''h1'']"
  by simp_all

lemma two_managers: "manager_dh_ok 4 2 two_manager_dh" "manager_ok 4 2 demo_manager_indedh"
  "table demo_manager_indedh = table demo_manager"
  subgoal by code_simp
  subgoal using manager_inv_ok [OF demo_manager_indedh_inv] by (simp add: INT_MAX_def)
  subgoal by (simp add: demo_manager_indedh_def demo_manager_def)
  done

theorem dh_redistribution_completes_witness:
  "\<exists>m' C. manager_calculate_relab_dh env_fine 4 2 two_manager_dh = Some (0, m') \<and>
    forM (concat moving_rounds) (cluster_turn xfer_demo reset_dh next_cell \<lparr>md_ent = 9, md_name = [], md_next = None\<rparr> [''h0'', ''h1''] 4 (\<lambda>_ _. 0)
      (id_srv (dh_table m')) (n_ver (dh_table m'))) (xfer_start 2 two_servers_dh moving_store) = Some C \<and> xn_pc (C ! 0) = Ended"
proof -
  have t: "\<forall>i < 4. same_place (mlt_row (table demo_manager) i) (mlt_row (dh_table two_manager_dh) i)"
    by (simp add: two_manager_dh_def same_place_def)
  obtain m' C where "manager_calculate_relab_dh env_fine 4 (int 2) two_manager_dh = Some (0, m')"
    "forM (concat moving_rounds) (cluster_turn xfer_demo reset_dh next_cell \<lparr>md_ent = 9, md_name = [], md_next = None\<rparr> [''h0'', ''h1''] 4 (\<lambda>_ _. 0)
      (id_srv (dh_table m')) (n_ver (dh_table m'))) (xfer_start 2 two_servers_dh moving_store) = Some C"
    "\<forall>a < 2. xn_pc (C ! a) = Ended \<and> xn_rcv (C ! a) = Await 0 \<and> xn_in (C ! a) = []"
    using dh_redistribution_completes [OF two_managers(1) t two_hosts(1) moving_facts(2) xfer_demo_fine moving_facts(4) next_cell_fresh xfer_hosts two_hosts(2,3)
      two_servers(1) moving_facts(3) moving_all_turns(2,1), of "\<lparr>md_ent = 9, md_name = [], md_next = None\<rparr>" "\<lambda>_ _. 0"] by blast
  then show ?thesis by (intro exI [of _ m'] exI [of _ C] conjI) simp_all
qed

theorem indedh_redistribution_completes_witness:
  "\<exists>m' C. manager_calculate_relab_indedh env_fine 4 2 demo_manager_indedh = Some (0, m') \<and>
    forM (concat moving_rounds) (cluster_turn xfer_demo reset_indedh next_cell \<lparr>md_ent = 9, md_name = [], md_next = None\<rparr> [''h0'', ''h1''] 4 (\<lambda>_ _. 0)
      (id_srv (table m')) (n_ver (table m'))) (xfer_start 2 two_servers_indedh moving_store) = Some C \<and> xn_pc (C ! 0) = Ended"
proof -
  have t: "\<forall>i < 4. same_place (mlt_row (table demo_manager) i) (mlt_row (table demo_manager_indedh) i)"
    by (simp add: two_managers(3) same_place_def)
  obtain m' C where "manager_calculate_relab_indedh env_fine 4 (int 2) demo_manager_indedh = Some (0, m')"
    "forM (concat moving_rounds) (cluster_turn xfer_demo reset_indedh next_cell \<lparr>md_ent = 9, md_name = [], md_next = None\<rparr> [''h0'', ''h1''] 4 (\<lambda>_ _. 0)
      (id_srv (table m')) (n_ver (table m'))) (xfer_start 2 two_servers_indedh moving_store) = Some C"
    "\<forall>a < 2. xn_pc (C ! a) = Ended \<and> xn_rcv (C ! a) = Await 0 \<and> xn_in (C ! a) = []"
    using indedh_redistribution_completes [OF two_managers(2) t two_hosts(1) moving_facts(2) xfer_demo_fine moving_facts(4) next_cell_fresh xfer_hosts two_hosts(2,3)
      two_servers(2) moving_facts(3) moving_all_turns(2,1), of "\<lparr>md_ent = 9, md_name = [], md_next = None\<rparr>" "\<lambda>_ _. 0"] by blast
  then show ?thesis by (intro exI [of _ m'] exI [of _ C] conjI) simp_all
qed

end
