(* ===== verification/Murmur3.thy ===== *)
theory Murmur3
  imports Prelude
begin

text \<open>
  The hash functions of \<open>src/murmur3.c\<close>. \<open>MurmurHash3_x86_32\<close> places a key on an entry of the
  lookup table (or on a server, in the static method); the two 128-bit functions are in the
  file but not called. Blocks are read in the byte order of the machines the program runs on,
  little-endian. Each function reads exactly the first \<open>len\<close> bytes of the key: with a longer
  \<open>len\<close> than the key has, or a negative one, the C function reads outside the key
  (\<open>None\<close> in \<open>MurmurHash3_x86_32\<close>).
\<close>

unbundle bit_operations_syntax

section \<open>Rotations and finalization mixes\<close>

definition rotl32 :: "u32 \<Rightarrow> nat \<Rightarrow> u32" where
  "rotl32 x r = push_bit r x OR drop_bit (32 - r) x"

definition rotl64 :: "u64 \<Rightarrow> nat \<Rightarrow> u64" where
  "rotl64 x r = push_bit r x OR drop_bit (64 - r) x"

definition fmix32 :: "u32 \<Rightarrow> u32" where
  "fmix32 h0 =
     (let h1 = h0 XOR drop_bit 16 h0;
          h2 = h1 * 0x85ebca6b;
          h3 = h2 XOR drop_bit 13 h2;
          h4 = h3 * 0xc2b2ae35
      in h4 XOR drop_bit 16 h4)"

definition fmix64 :: "u64 \<Rightarrow> u64" where
  "fmix64 k0 =
     (let k1 = k0 XOR drop_bit 33 k0;
          k2 = k1 * 0xff51afd7ed558ccd;
          k3 = k2 XOR drop_bit 33 k2;
          k4 = k3 * 0xc4ceb9fe1a85ec53
      in k4 XOR drop_bit 33 k4)"

section \<open>Reading blocks\<close>

definition le32 :: "u8 list \<Rightarrow> nat \<Rightarrow> u32" where
  "le32 d p = ucast (d ! p) OR push_bit 8 (ucast (d ! (p + 1)))
     OR push_bit 16 (ucast (d ! (p + 2))) OR push_bit 24 (ucast (d ! (p + 3)))"

definition le64 :: "u8 list \<Rightarrow> nat \<Rightarrow> u64" where
  "le64 d p = ucast (le32 d p) OR push_bit 32 (ucast (le32 d (p + 4)))"

section \<open>The 32-bit hash\<close>

definition scramble32 :: "u32 \<Rightarrow> u32" where
  "scramble32 k = rotl32 (k * 0xcc9e2d51) 15 * 0x1b873593"

text \<open>One round of the body.\<close>

definition step32 :: "u32 \<Rightarrow> u32 \<Rightarrow> u32" where
  "step32 k h = rotl32 (h XOR scramble32 k) 13 * 5 + 0xe6546b64"

text \<open>The \<open>switch\<close> on the bytes that are left, whose cases fall through.\<close>

definition tail32 :: "u8 list \<Rightarrow> nat \<Rightarrow> nat \<Rightarrow> u32 \<Rightarrow> u32" where
  "tail32 d p r h =
     (let k = 0;
          k = (if r = 3 then k XOR push_bit 16 (ucast (d ! (p + 2))) else k);
          k = (if r \<ge> 2 then k XOR push_bit 8 (ucast (d ! (p + 1))) else k);
          k = (if r \<ge> 1 then k XOR ucast (d ! p) else k)
      in if r \<ge> 1 then h XOR scramble32 k else h)"

definition murmur32 :: "u8 list \<Rightarrow> nat \<Rightarrow> u32 \<Rightarrow> u32" where
  "murmur32 d len seed =
     (let nblocks = len div 4;
          h = fold (\<lambda>i h. step32 (le32 d (4 * i)) h) [0..<nblocks] seed;
          h = tail32 d (4 * nblocks) (len mod 4) h
      in fmix32 (h XOR word_of_nat len))"

definition MurmurHash3_x86_32 :: "u8 list \<Rightarrow> int \<Rightarrow> u32 \<Rightarrow> u32 option" where
  "MurmurHash3_x86_32 key len seed =
     (if len < 0 \<or> int (length key) < len then None else Some (murmur32 key (nat len) seed))"

section \<open>The 128-bit hash for 32-bit machines\<close>

type_synonym h128 = "u32 \<times> u32 \<times> u32 \<times> u32"

definition scr :: "u32 \<Rightarrow> nat \<Rightarrow> u32 \<Rightarrow> u32 \<Rightarrow> u32" where
  "scr k r c c' = rotl32 (k * c) r * c'"

definition body128 :: "u8 list \<Rightarrow> nat \<Rightarrow> h128 \<Rightarrow> h128" where
  "body128 d i = (\<lambda>(h1, h2, h3, h4).
     let p = 16 * i;
         h1 = h1 XOR scr (le32 d p) 15 0x239b961b 0xab0e9789;
         h1 = (rotl32 h1 19 + h2) * 5 + 0x561ccd1b;
         h2 = h2 XOR scr (le32 d (p + 4)) 16 0xab0e9789 0x38b34ae5;
         h2 = (rotl32 h2 17 + h3) * 5 + 0x0bcaa747;
         h3 = h3 XOR scr (le32 d (p + 8)) 17 0x38b34ae5 0xa1e38b93;
         h3 = (rotl32 h3 15 + h4) * 5 + 0x96cd1c35;
         h4 = h4 XOR scr (le32 d (p + 12)) 18 0xa1e38b93 0x239b961b;
         h4 = (rotl32 h4 13 + h1) * 5 + 0x32ac3b17
     in (h1, h2, h3, h4))"

text \<open>
  The bytes \<open>lo\<close> to \<open>hi - 1\<close> of the tail, of which \<open>r\<close> are there, as one little-endian
  word: what the fall-through cases of the switch accumulate in one \<open>k\<close>.
\<close>

definition tail_word :: "u8 list \<Rightarrow> nat \<Rightarrow> nat \<Rightarrow> nat \<Rightarrow> nat \<Rightarrow> ('w :: len) word" where
  "tail_word d p r lo hi =
     fold (\<lambda>j k. if j < r then k XOR push_bit (8 * (j - lo)) (ucast (d ! (p + j))) else k) (rev [lo..<hi]) 0"

definition tail128 :: "u8 list \<Rightarrow> nat \<Rightarrow> nat \<Rightarrow> h128 \<Rightarrow> h128" where
  "tail128 d p r = (\<lambda>(h1, h2, h3, h4).
     let h4 = (if r \<ge> 13 then h4 XOR scr (tail_word d p r 12 15) 18 0xa1e38b93 0x239b961b else h4);
         h3 = (if r \<ge> 9 then h3 XOR scr (tail_word d p r 8 12) 17 0x38b34ae5 0xa1e38b93 else h3);
         h2 = (if r \<ge> 5 then h2 XOR scr (tail_word d p r 4 8) 16 0xab0e9789 0x38b34ae5 else h2);
         h1 = (if r \<ge> 1 then h1 XOR scr (tail_word d p r 0 4) 15 0x239b961b 0xab0e9789 else h1)
     in (h1, h2, h3, h4))"

definition final128 :: "nat \<Rightarrow> h128 \<Rightarrow> h128" where
  "final128 len = (\<lambda>(h1, h2, h3, h4).
     let n = word_of_nat len;
         h1 = h1 XOR n; h2 = h2 XOR n; h3 = h3 XOR n; h4 = h4 XOR n;
         h1 = h1 + h2 + h3 + h4;
         h2 = h2 + h1; h3 = h3 + h1; h4 = h4 + h1;
         h1 = fmix32 h1; h2 = fmix32 h2; h3 = fmix32 h3; h4 = fmix32 h4;
         h1 = h1 + h2 + h3 + h4;
         h2 = h2 + h1; h3 = h3 + h1; h4 = h4 + h1
     in (h1, h2, h3, h4))"

definition MurmurHash3_x86_128 :: "u8 list \<Rightarrow> nat \<Rightarrow> u32 \<Rightarrow> h128" where
  "MurmurHash3_x86_128 d len seed =
     (let nblocks = len div 16;
          h = fold (body128 d) [0..<nblocks] (seed, seed, seed, seed);
          h = tail128 d (16 * nblocks) (len mod 16) h
      in final128 len h)"

section \<open>The 128-bit hash for 64-bit machines\<close>

definition scr64 :: "u64 \<Rightarrow> nat \<Rightarrow> u64 \<Rightarrow> u64 \<Rightarrow> u64" where
  "scr64 k r c c' = rotl64 (k * c) r * c'"

definition body64 :: "u8 list \<Rightarrow> nat \<Rightarrow> u64 \<times> u64 \<Rightarrow> u64 \<times> u64" where
  "body64 d i = (\<lambda>(h1, h2).
     let p = 16 * i;
         h1 = h1 XOR scr64 (le64 d p) 31 0x87c37b91114253d5 0x4cf5ad432745937f;
         h1 = (rotl64 h1 27 + h2) * 5 + 0x52dce729;
         h2 = h2 XOR scr64 (le64 d (p + 8)) 33 0x4cf5ad432745937f 0x87c37b91114253d5;
         h2 = (rotl64 h2 31 + h1) * 5 + 0x38495ab5
     in (h1, h2))"

definition tail64 :: "u8 list \<Rightarrow> nat \<Rightarrow> nat \<Rightarrow> u64 \<times> u64 \<Rightarrow> u64 \<times> u64" where
  "tail64 d p r = (\<lambda>(h1, h2).
     let h2 = (if r \<ge> 9 then h2 XOR scr64 (tail_word d p r 8 15) 33 0x4cf5ad432745937f 0x87c37b91114253d5 else h2);
         h1 = (if r \<ge> 1 then h1 XOR scr64 (tail_word d p r 0 8) 31 0x87c37b91114253d5 0x4cf5ad432745937f else h1)
     in (h1, h2))"

definition final64 :: "nat \<Rightarrow> u64 \<times> u64 \<Rightarrow> u64 \<times> u64" where
  "final64 len = (\<lambda>(h1, h2).
     let n = word_of_nat len;
         h1 = h1 XOR n; h2 = h2 XOR n;
         h1 = h1 + h2; h2 = h2 + h1;
         h1 = fmix64 h1; h2 = fmix64 h2;
         h1 = h1 + h2; h2 = h2 + h1
     in (h1, h2))"

definition MurmurHash3_x64_128 :: "u8 list \<Rightarrow> nat \<Rightarrow> u32 \<Rightarrow> u64 \<times> u64" where
  "MurmurHash3_x64_128 d len seed =
     (let nblocks = len div 16;
          h = fold (body64 d) [0..<nblocks] (ucast seed, ucast seed);
          h = tail64 d (16 * nblocks) (len mod 16) h
      in final64 len h)"

section \<open>Keys\<close>

text \<open>A C string as the bytes \<open>strlen\<close> counts.\<close>

definition bytes_of :: "string \<Rightarrow> u8 list" where
  "bytes_of s = map (\<lambda>c. word_of_nat (of_char c)) s"

section \<open>Every step is injective\<close>

text \<open>A rotation, a multiplication by an odd constant and a xor with a shift lose no bit.\<close>

lemma rotl32_eq: "r < 32 \<Longrightarrow> rotl32 x r = word_rotl r x"
proof (rule bit_word_eqI)
  fix n
  assume r: "r < 32" and "n < LENGTH(32)"
  then have n: "n < 32" by simp
  have m: "(n + 32 - r) mod 32 = (if r \<le> n then n - r else 32 + n - r)"
    using n r by (auto simp: mod_if)
  have out: "\<not> bit x (32 + n - r)" if "r \<le> n"
    using bit_imp_le_length [of x "32 + n - r"] that by auto
  show "bit (rotl32 x r) n = bit (word_rotl r x) n"
    using n r m out
    by (auto simp: rotl32_def bit_or_iff bit_push_bit_iff bit_drop_bit_eq bit_word_rotl_iff)
qed

lemma inj_rotl32: "r < 32 \<Longrightarrow> inj (\<lambda>x. rotl32 x r)"
  by (rule inj_on_inverseI [where g = "word_rotr r"]) (simp add: rotl32_eq word_rot_rl)

lemma inj_mult_const:
  fixes c c' :: "'a :: len word"
  assumes "c * c' = 1"
  shows "inj (\<lambda>x. x * c)"
  by (rule inj_on_inverseI [where g = "\<lambda>x. x * c'"]) (simp add: mult.assoc assms)

lemma inj_xor_const: "inj (\<lambda>x :: 'a :: len word. x XOR c)"
  by (rule inj_on_inverseI [where g = "\<lambda>x. x XOR c"]) (simp add: xor.assoc)

lemma inj_add_const: "inj (\<lambda>x :: 'a :: len word. x + c)"
  by (rule inj_on_inverseI [where g = "\<lambda>x. x - c"]) simp

text \<open>The highest bits of \<open>x XOR (x >> n)\<close> are those of \<open>x\<close>, and each bit gives the next ones.\<close>

lemma inj_xor_shift:
  assumes "0 < n"
  shows "inj (\<lambda>x :: 'a :: len word. x XOR drop_bit n x)"
proof (rule injI)
  fix x y :: "'a word"
  assume eq: "x XOR drop_bit n x = y XOR drop_bit n y"
  have b: "bit x i = bit y i" if "i < LENGTH('a)" for i
    using that
  proof (induction "LENGTH('a) - i" arbitrary: i rule: less_induct)
    case less
    have hi: "bit x (n + i) = bit y (n + i)"
    proof (cases "n + i < LENGTH('a)")
      case True
      then show ?thesis using less.hyps [of "n + i"] assms less.prems by simp
    next
      case False
      then show ?thesis using bit_imp_le_length by (metis not_less)
    qed
    have "bit (x XOR drop_bit n x) i = bit (y XOR drop_bit n y) i" by (simp only: eq)
    then show ?case using hi by (auto simp: bit_xor_iff bit_drop_bit_eq)
  qed
  show "x = y" by (rule bit_word_eqI) (simp add: b)
qed

lemma inj_fmix32: "inj fmix32"
proof -
  have eq: "fmix32 = (\<lambda>h. h XOR drop_bit 16 h) \<circ> (\<lambda>h. h * 0xc2b2ae35) \<circ> (\<lambda>h. h XOR drop_bit 13 h) \<circ>
      (\<lambda>h. h * 0x85ebca6b) \<circ> (\<lambda>h. h XOR drop_bit 16 h)"
    by (simp add: fun_eq_iff fmix32_def Let_def)
  have m1: "inj (\<lambda>h :: u32. h * 0xc2b2ae35)" by (rule inj_mult_const [of _ "0x7ed1b41d"]) simp
  have m2: "inj (\<lambda>h :: u32. h * 0x85ebca6b)" by (rule inj_mult_const [of _ "0xa5cb9243"]) simp
  show ?thesis unfolding eq by (intro inj_compose inj_xor_shift m1 m2) simp_all
qed

lemma inj_fmix64: "inj fmix64"
proof -
  have eq: "fmix64 = (\<lambda>h. h XOR drop_bit 33 h) \<circ> (\<lambda>h. h * 0xc4ceb9fe1a85ec53) \<circ> (\<lambda>h. h XOR drop_bit 33 h) \<circ>
      (\<lambda>h. h * 0xff51afd7ed558ccd) \<circ> (\<lambda>h. h XOR drop_bit 33 h)"
    by (simp add: fun_eq_iff fmix64_def Let_def)
  have m1: "inj (\<lambda>h :: u64. h * 0xc4ceb9fe1a85ec53)" by (rule inj_mult_const [of _ "0x9cb4b2f8129337db"]) simp
  have m2: "inj (\<lambda>h :: u64. h * 0xff51afd7ed558ccd)" by (rule inj_mult_const [of _ "0x4f74430c22a54005"]) simp
  show ?thesis unfolding eq by (intro inj_compose inj_xor_shift m1 m2) simp_all
qed

lemma inj_scramble32: "inj scramble32"
proof -
  have eq: "scramble32 = (\<lambda>k. k * 0x1b873593) \<circ> (\<lambda>k. rotl32 k 15) \<circ> (\<lambda>k. k * 0xcc9e2d51)"
    by (simp add: fun_eq_iff scramble32_def)
  have m1: "inj (\<lambda>h :: u32. h * 0x1b873593)" by (rule inj_mult_const [of _ "0x56ed309b"]) simp
  have m2: "inj (\<lambda>h :: u32. h * 0xcc9e2d51)" by (rule inj_mult_const [of _ "0xdee13bb1"]) simp
  show ?thesis unfolding eq by (intro inj_compose inj_rotl32 m1 m2) simp_all
qed

lemma inj_step_outer: "inj (\<lambda>x. rotl32 x 13 * 5 + 0xe6546b64)"
proof -
  have eq: "(\<lambda>x. rotl32 x 13 * 5 + 0xe6546b64) = (\<lambda>x. x + 0xe6546b64) \<circ> (\<lambda>x. x * 5) \<circ> (\<lambda>x. rotl32 x 13)"
    by (simp add: fun_eq_iff)
  have m1: "inj (\<lambda>h :: u32. h * 5)" by (rule inj_mult_const [of _ "0xcccccccd"]) simp
  show ?thesis unfolding eq by (intro inj_compose inj_rotl32 inj_add_const m1) simp_all
qed

text \<open>A round is injective in the state and in the block.\<close>

lemma step32_state: "step32 k h = step32 k h' \<longleftrightarrow> h = h'"
  using injD [OF inj_step_outer] injD [OF inj_xor_const] unfolding step32_def by metis

lemma step32_block: "step32 k h = step32 k' h \<longleftrightarrow> k = k'"
  using injD [OF inj_step_outer] injD [OF inj_xor_const] injD [OF inj_scramble32]
  unfolding step32_def by (metis xor.commute)

section \<open>Keys that differ in one block\<close>

lemma bit_byte_out: "8 \<le> n \<Longrightarrow> \<not> bit (b :: u8) n"
  using bit_imp_le_length [of b n] by auto

lemma bit_le32:
  assumes "j < 4" and "n < 8"
  shows "bit (le32 d p) (8 * j + n) = bit (d ! (p + j)) n"
proof -
  consider "j = 0" | "j = 1" | "j = 2" | "j = 3" using assms(1) by linarith
  then show ?thesis
    using assms(2) by cases
      (auto simp: le32_def bit_or_iff bit_push_bit_iff bit_unsigned_iff bit_byte_out)
qed

lemma le32_inj: "le32 d p = le32 d' p' \<Longrightarrow> j < 4 \<Longrightarrow> d ! (p + j) = d' ! (p' + j)"
proof (rule bit_word_eqI)
  fix n
  assume eq: "le32 d p = le32 d' p'" and j: "j < 4" and "n < LENGTH(8)"
  then have n: "n < 8" by simp
  show "bit (d ! (p + j)) n = bit (d' ! (p' + j)) n"
    using bit_le32 [OF j n, of d p] bit_le32 [OF j n, of d' p'] eq by simp
qed

lemma le32_cong: "(\<And>j. j < 4 \<Longrightarrow> d ! (p + j) = d' ! (p + j)) \<Longrightarrow> le32 d p = le32 d' p"
proof -
  assume eq: "\<And>j. j < 4 \<Longrightarrow> d ! (p + j) = d' ! (p + j)"
  show ?thesis using eq [of 0] eq [of 1] eq [of 2] eq [of 3] by (simp add: le32_def)
qed

text \<open>The word the tail switch builds.\<close>

definition tail_key :: "u8 list \<Rightarrow> nat \<Rightarrow> nat \<Rightarrow> u32" where
  "tail_key d p r =
     (if r \<ge> 1 then ucast (d ! p) else 0) XOR (if r \<ge> 2 then push_bit 8 (ucast (d ! (p + 1))) else 0)
     XOR (if r = 3 then push_bit 16 (ucast (d ! (p + 2))) else 0)"

lemma tail32_eq: "r < 4 \<Longrightarrow> tail32 d p r h = (if r = 0 then h else h XOR scramble32 (tail_key d p r))"
  by (simp add: tail32_def tail_key_def Let_def xor.commute xor.left_commute)

lemma bit_tail_key:
  assumes "r < 4" and "j < r" and "n < 8"
  shows "bit (tail_key d p r) (8 * j + n) = bit (d ! (p + j)) n"
proof -
  consider "j = 0" | "j = 1" | "j = 2" using assms(1,2) by linarith
  then show ?thesis
    using assms by cases
      (auto simp: tail_key_def bit_xor_iff bit_push_bit_iff bit_unsigned_iff bit_byte_out)
qed

lemma tail_key_inj:
  "r < 4 \<Longrightarrow> tail_key d p r = tail_key d' p r \<Longrightarrow> j < r \<Longrightarrow> d ! (p + j) = d' ! (p + j)"
proof (rule bit_word_eqI)
  fix n
  assume r: "r < 4" and eq: "tail_key d p r = tail_key d' p r" and j: "j < r" and "n < LENGTH(8)"
  then have n: "n < 8" by simp
  show "bit (d ! (p + j)) n = bit (d' ! (p + j)) n"
    using bit_tail_key [OF r j n, of d p] bit_tail_key [OF r j n, of d' p] eq by simp
qed

lemma tail_key_cong: "(\<And>j. j < r \<Longrightarrow> d ! (p + j) = d' ! (p + j)) \<Longrightarrow> tail_key d p r = tail_key d' p r"
proof -
  assume eq: "\<And>j. j < r \<Longrightarrow> d ! (p + j) = d' ! (p + j)"
  have "r \<ge> 1 \<Longrightarrow> d ! p = d' ! p" using eq [of 0] by simp
  moreover have "r \<ge> 2 \<Longrightarrow> d ! (p + 1) = d' ! (p + 1)" using eq [of 1] by simp
  moreover have "r = 3 \<Longrightarrow> d ! (p + 2) = d' ! (p + 2)" using eq [of 2] by simp
  ultimately show ?thesis by (simp add: tail_key_def)
qed

text \<open>The state after the body.\<close>

abbreviation body32 :: "u8 list \<Rightarrow> nat list \<Rightarrow> u32 \<Rightarrow> u32" where
  "body32 d is h \<equiv> fold (\<lambda>i h. step32 (le32 d (4 * i)) h) is h"

lemma body32_state: "body32 d is h = body32 d is h' \<longleftrightarrow> h = h'"
  by (induction "is" arbitrary: h h') (simp_all add: step32_state)

lemma body32_cong:
  "(\<And>i. i \<in> set is \<Longrightarrow> le32 d (4 * i) = le32 d' (4 * i)) \<Longrightarrow> body32 d is h = body32 d' is h"
  by (rule fold_cong) auto

lemma body32_one_block:
  assumes k: "k < n" and diff: "le32 d (4 * k) \<noteq> le32 d' (4 * k)"
    and same: "\<And>i. i < n \<Longrightarrow> i \<noteq> k \<Longrightarrow> le32 d (4 * i) = le32 d' (4 * i)"
  shows "body32 d [0..<n] h \<noteq> body32 d' [0..<n] h"
proof -
  have split: "[0..<n] = [0..<k] @ k # [Suc k..<n]"
    using k upt_add_eq_append [of 0 k "n - k"] by (simp add: upt_conv_Cons)
  have pre: "body32 d [0..<k] h = body32 d' [0..<k] h"
    and post: "\<And>g. body32 d [Suc k..<n] g = body32 d' [Suc k..<n] g"
    using same k by (auto intro!: body32_cong)
  show ?thesis
    unfolding split by (simp add: pre post body32_state step32_block diff)
qed

lemma murmur32_differs:
  assumes k: "k \<le> len div 4" and j: "j < len" "d ! j \<noteq> d' ! j"
    and same: "\<And>i. i < len \<Longrightarrow> i div 4 \<noteq> k \<Longrightarrow> d ! i = d' ! i"
  shows "murmur32 d len seed \<noteq> murmur32 d' len seed"
proof -
  let ?n = "len div 4" and ?r = "len mod 4"
  have len: "len = 4 * ?n + ?r" "?r < 4" by simp_all
  have jk: "j div 4 = k" using same [OF j(1)] j(2) by blast
  then have j4: "j = 4 * k + j mod 4" by (metis mult_div_mod_eq)
  let ?h = "body32 d [0..<?n] seed" and ?h' = "body32 d' [0..<?n] seed"
  have same_block: "le32 d (4 * i) = le32 d' (4 * i)" if "i < ?n" "i \<noteq> k" for i
    using that len(1) by (intro le32_cong same) auto
  have mur: "murmur32 d len seed = murmur32 d' len seed \<longleftrightarrow>
      tail32 d (4 * ?n) ?r ?h = tail32 d' (4 * ?n) ?r ?h'"
    using injD [OF inj_fmix32] injD [OF inj_xor_const] unfolding murmur32_def Let_def by metis
  show ?thesis
  proof (cases "k < ?n")
    case True
    have "le32 d (4 * k) \<noteq> le32 d' (4 * k)"
      using le32_inj [of d "4 * k" d' "4 * k" "j mod 4"] j4 j(2) by auto
    with body32_one_block [OF True this same_block] have "?h \<noteq> ?h'" by blast
    moreover have "tail_key d (4 * ?n) ?r = tail_key d' (4 * ?n) ?r"
      using True mult_div_mod_eq [of 4 len] by (intro tail_key_cong same) (linarith, simp)
    ultimately show ?thesis
      using len(2) injD [OF inj_xor_const] by (auto simp: mur tail32_eq)
  next
    case False
    then have kn: "k = ?n" using k by simp
    then have r: "j mod 4 < ?r" using j4 j(1) len(1) by linarith
    have h: "?h = ?h'" using same_block kn by (intro body32_cong) auto
    have "tail_key d (4 * ?n) ?r \<noteq> tail_key d' (4 * ?n) ?r"
      using tail_key_inj [OF len(2) _ r, of d "4 * ?n" d'] j4 j(2) kn by auto
    then have "scramble32 (tail_key d (4 * ?n) ?r) \<noteq> scramble32 (tail_key d' (4 * ?n) ?r)"
      using injD [OF inj_scramble32] by blast
    then have "?h XOR scramble32 (tail_key d (4 * ?n) ?r) \<noteq> ?h' XOR scramble32 (tail_key d' (4 * ?n) ?r)"
      using injD [OF inj_xor_const] unfolding h xor.commute [of ?h'] by blast
    with len(2) r show ?thesis by (auto simp: mur tail32_eq)
  qed
qed

section \<open>A published test vector\<close>

lemma murmur_steps:
  "bytes_of ''test'' = [116, 101, 115, 116]"
  "le32 [116, 101, 115, 116] 0 = 1953719668"
  "scramble32 1953719668 = 1180652008"
  "step32 1953719668 0 = 2038798171"
  "step32 1953719668 1 = 2038839131"
  "fmix32 2038798175 = 0xba6bd213"
  "fmix32 2038839135 = 0x99c02ae2"
  by (simp_all add: bytes_of_def of_char_of le32_def scramble32_def rotl32_def step32_def fmix32_def)

lemma murmur_test:
  "MurmurHash3_x86_32 (bytes_of ''test'') 4 0 = Some 0xba6bd213"
  "MurmurHash3_x86_32 (bytes_of ''test'') 4 1 = Some 0x99c02ae2"
  by (simp_all add: MurmurHash3_x86_32_def murmur32_def tail32_def murmur_steps)

section \<open>Properties\<close>

text \<open>
  The hash distinguishes keys that differ in one block: two keys of the same length whose
  bytes differ, all differences being in one block of four bytes (or in the tail), have different
  hashes for the same seed, because every step of \<open>MurmurHash3_x86_32\<close> is a bijection of the state.
\<close>

theorem one_block_changes_hash:
  assumes "length key = n" and "length key' = n" and "j < n" and "key ! j \<noteq> key' ! j"
    and "\<forall>i < n. i div 4 \<noteq> j div 4 \<longrightarrow> key ! i = key' ! i"
  shows "MurmurHash3_x86_32 key (int n) seed \<noteq> MurmurHash3_x86_32 key' (int n) seed"
  using murmur32_differs [of "j div 4" n j key key' seed] assms
  by (simp add: MurmurHash3_x86_32_def div_le_mono less_imp_le)

theorem one_block_changes_hash_witness:
  "MurmurHash3_x86_32 [1, 2, 3, 4, 5] (int 5) 1 \<noteq> MurmurHash3_x86_32 [9, 2, 7, 4, 5] (int 5) 1"
proof (rule one_block_changes_hash [where j = 0])
  show "\<forall>i < 5. i div 4 \<noteq> 0 div 4 \<longrightarrow> [1, 2, 3, 4, 5 :: u8] ! i = [9, 2, 7, 4, 5] ! i"
  proof (intro allI impI)
    fix i :: nat assume "i < 5" "i div 4 \<noteq> 0 div 4"
    then have "i = 4" by (cases "i < 4") simp_all
    then show "[1, 2, 3, 4, 5 :: u8] ! i = [9, 2, 7, 4, 5] ! i" by simp
  qed
qed simp_all

text \<open>
  The finalization mixes of the 32-bit and the 64-bit functions are bijections.
\<close>

theorem fmix_bijective: "bij fmix32 \<and> bij fmix64"
  using finite_UNIV_inj_surj [OF _ inj_fmix32] finite_UNIV_inj_surj [OF _ inj_fmix64] inj_fmix32 inj_fmix64
  by (simp add: bij_def)

end
