(* ===== verification/Client.thy ===== *)
theory Client
  imports Server_Main Murmur3
begin

text \<open>
  The client: \<open>distribution_dh_c.c\<close> (and its copies for the other methods), \<open>request.c\<close> and
  \<open>client_api.c\<close>. The servers it is connected to are a list of states and a function that serves a
  request in such a state.
\<close>

section \<open>\<open>distribution_dh_c.c\<close>\<close>

text \<open>The entry of a key; \<open>N\<close> is the number of entries.\<close>

definition entry_of_key :: "nat \<Rightarrow> string \<Rightarrow> int option" where
  "entry_of_key N key = do {
     h_out \<leftarrow> MurmurHash3_x86_32 (bytes_of key) (int (length key)) 1;
     if N = 0 then None else Some (int (unat h_out mod N))
   }"

definition distribution_assign_srv_by_key ::
  "'j json \<Rightarrow> nat \<Rightarrow> lock_env \<Rightarrow> mlt \<Rightarrow> string \<Rightarrow> 'j \<Rightarrow> (int \<times> 'j) option" where
  "distribution_assign_srv_by_key J N E table key request = do {
     index \<leftarrow> entry_of_key N key;
     (rc, out) \<leftarrow> mlt_get_entry E (Some table) index True;
     case (if rc \<noteq> 0 then None else out) of
       None \<Rightarrow> Some (-1, request)
     | Some (num_srv, version, state) \<Rightarrow>
         let request = j_add_int J request ''id_srv'' num_srv;
             request = j_add_int J request ''index'' index;
             request = j_add_int J request ''entryVersion'' version
         in Some (0, request)
   }"

definition distribution_pre_send_c ::
  "'j json \<Rightarrow> nat \<Rightarrow> lock_env \<Rightarrow> mlt \<Rightarrow> 'j \<Rightarrow> (int \<times> 'j) option" where
  "distribution_pre_send_c J N E table request =
     (if \<not> j_has J request ''key'' then Some (-1, request)
      else do {
        (rc, request) \<leftarrow> distribution_assign_srv_by_key J N E table (j_str J request ''key'') request;
        Some (if rc \<noteq> 0 then -1 else 0, request)
      })"

definition distribution_post_receive_c ::
  "'j json \<Rightarrow> lock_env \<Rightarrow> mlt \<Rightarrow> 'j \<Rightarrow> (int \<times> mlt) option" where
  "distribution_post_receive_c J E table reply =
     (if \<not> j_has J reply ''versionFlag'' then Some (-1, table)
      else if j_str J reply ''versionFlag'' \<noteq> ''up-to-date'' then
        if \<not> j_has J reply ''newSrv'' then Some (-1, table)
        else if \<not> j_has J reply ''newVersion'' then Some (-1, table)
        else if \<not> j_has J reply ''index'' then Some (-1, table)
        else do {
          (rc, out) \<leftarrow> mlt_update_entry E (Some table) (j_int J reply ''index'') (j_int J reply ''newSrv'')
            (j_int J reply ''newVersion'') 0;
          table \<leftarrow> out;
          Some (if rc \<noteq> 0 then -1 else 0, table)
        }
      else Some (0, table))"

text \<open>The copies of the code in the other methods.\<close>

definition distribution_pre_send_c_indedh ::
  "'j json \<Rightarrow> nat \<Rightarrow> lock_env \<Rightarrow> mlt \<Rightarrow> 'j \<Rightarrow> (int \<times> 'j) option" where
  "distribution_pre_send_c_indedh = distribution_pre_send_c"

definition distribution_post_receive_c_indedh ::
  "'j json \<Rightarrow> lock_env \<Rightarrow> mlt \<Rightarrow> 'j \<Rightarrow> (int \<times> mlt) option" where
  "distribution_post_receive_c_indedh = distribution_post_receive_c"

definition distribution_pre_send_c_windowed ::
  "'j json \<Rightarrow> nat \<Rightarrow> lock_env \<Rightarrow> mlt \<Rightarrow> 'j \<Rightarrow> (int \<times> 'j) option" where
  "distribution_pre_send_c_windowed = distribution_pre_send_c"

definition distribution_post_receive_c_windowed ::
  "'j json \<Rightarrow> lock_env \<Rightarrow> mlt \<Rightarrow> 'j \<Rightarrow> (int \<times> mlt) option" where
  "distribution_post_receive_c_windowed = distribution_post_receive_c"

section \<open>\<open>distribution_sh_c.c\<close>\<close>

text \<open>The static method: the server of a key is its hash modulo the number of servers.\<close>

definition distribution_assign_srv_by_key_sh :: "'j json \<Rightarrow> int \<Rightarrow> string \<Rightarrow> 'j \<Rightarrow> (int \<times> 'j) option" where
  "distribution_assign_srv_by_key_sh J nb_srv key request = do {
     num_srv \<leftarrow> MurmurHash3_x86_32 (bytes_of key) (int (length key)) 1;
     if u32_of_int nb_srv = 0 then None
     else Some (0, j_add_int J request ''id_srv'' (int_of_u32 (num_srv mod u32_of_int nb_srv)))
   }"

text \<open>
  Its \<open>distribution_pre_send\<close> calls this function and then compares its own variable \<open>rc\<close>, which nothing
  has written, with 0, and it ends without a return value: undefined behaviour for every request with a key.
\<close>

definition distribution_pre_send_c_sh :: "'j json \<Rightarrow> int \<Rightarrow> 'j \<Rightarrow> (int \<times> 'j) option" where
  "distribution_pre_send_c_sh J nb_srv request =
     (if \<not> j_has J request ''key'' then Some (-1, request)
      else do {
        (_, request) \<leftarrow> distribution_assign_srv_by_key_sh J nb_srv (j_str J request ''key'') request;
        None
      })"

definition distribution_post_receive_c_sh :: "'j json \<Rightarrow> lock_env \<Rightarrow> mlt \<Rightarrow> 'j \<Rightarrow> (int \<times> mlt) option" where
  "distribution_post_receive_c_sh J E table reply = Some (0, table)"

lemma static_pre_send_undefined: "j_has J request ''key'' \<Longrightarrow> distribution_pre_send_c_sh J nb_srv request = None"
  by (simp add: distribution_pre_send_c_sh_def bind_eq_None_conv)

section \<open>\<open>request.c\<close>\<close>

text \<open>
  \<open>create_request\<close> with its static counter; \<open>None\<close> in the result is the \<open>NULL\<close> of a failed
  \<open>asprintf\<close>.
\<close>

definition create_request :: "'j json \<Rightarrow> bool \<Rightarrow> int \<Rightarrow> string \<Rightarrow> ('j option \<times> int) option" where
  "create_request J asprintf_ok next_id key =
     (let request = j_add_str J (j_new J) ''key'' key in
      if \<not> asprintf_ok then Some (None, next_id)
      else do {
        n \<leftarrow> c_int (next_id + 1);
        Some (Some (j_add_str J request ''reqID'' (dec next_id)), n)
      })"

definition create_request_create ::
  "'j json \<Rightarrow> bool \<Rightarrow> int \<Rightarrow> string \<Rightarrow> string \<Rightarrow> ('j option \<times> int) option" where
  "create_request_create J ok next_id key data = do {
     (request, n) \<leftarrow> create_request J ok next_id key;
     Some (map_option (\<lambda>r. j_add_str J (j_add_int J r ''reqType'' 1) ''data'' data) request, n)
   }"

definition create_request_read :: "'j json \<Rightarrow> bool \<Rightarrow> int \<Rightarrow> string \<Rightarrow> ('j option \<times> int) option" where
  "create_request_read J ok next_id key = do {
     (request, n) \<leftarrow> create_request J ok next_id key;
     Some (map_option (\<lambda>r. j_add_int J r ''reqType'' 2) request, n)
   }"

definition create_request_update ::
  "'j json \<Rightarrow> bool \<Rightarrow> int \<Rightarrow> string \<Rightarrow> string \<Rightarrow> ('j option \<times> int) option" where
  "create_request_update J ok next_id key data = do {
     (request, n) \<leftarrow> create_request J ok next_id key;
     Some (map_option (\<lambda>r. j_add_str J (j_add_int J r ''reqType'' 3) ''data'' data) request, n)
   }"

definition create_request_delete :: "'j json \<Rightarrow> bool \<Rightarrow> int \<Rightarrow> string \<Rightarrow> ('j option \<times> int) option" where
  "create_request_delete J ok next_id key = do {
     (request, n) \<leftarrow> create_request J ok next_id key;
     Some (map_option (\<lambda>r. j_add_int J r ''reqType'' 4) request, n)
   }"

section \<open>\<open>client_api.c\<close>\<close>

text \<open>The state of a client: its table, the counter of \<open>request.c\<close>, the servers behind its sockets.\<close>

record 'h client =
  cl_table :: mlt
  cl_next :: int
  cl_servers :: "'h list"

text \<open>
  The reply pointer of the caller: \<open>NULL\<close>, a document, or a document that has been released.
  Releasing it a second time is undefined behaviour.
\<close>

datatype 'j reply = No_reply | Reply 'j | Released

definition put_reply :: "'j reply \<Rightarrow> unit option" where
  "put_reply r = (case r of Released \<Rightarrow> None | _ \<Rightarrow> Some ())"

text \<open>What the methods differ in: the two functions called around the exchange.\<close>

record 'j dist_method =
  me_pre :: "lock_env \<Rightarrow> mlt \<Rightarrow> 'j \<Rightarrow> (int \<times> 'j) option"
  me_post :: "lock_env \<Rightarrow> mlt \<Rightarrow> 'j \<Rightarrow> (int \<times> mlt) option"

definition method_dh :: "'j json \<Rightarrow> nat \<Rightarrow> 'j dist_method" where
  "method_dh J N = \<lparr>me_pre = distribution_pre_send_c J N, me_post = distribution_post_receive_c J\<rparr>"

definition method_indedh :: "'j json \<Rightarrow> nat \<Rightarrow> 'j dist_method" where
  "method_indedh J N =
     \<lparr>me_pre = distribution_pre_send_c_indedh J N, me_post = distribution_post_receive_c_indedh J\<rparr>"

definition method_windowed :: "'j json \<Rightarrow> nat \<Rightarrow> 'j dist_method" where
  "method_windowed J N =
     \<lparr>me_pre = distribution_pre_send_c_windowed J N, me_post = distribution_post_receive_c_windowed J\<rparr>"

lemma method_same: "method_indedh = method_dh" "method_windowed = method_dh"
  by (simp_all add: fun_eq_iff method_dh_def method_indedh_def method_windowed_def distribution_pre_send_c_indedh_def
      distribution_post_receive_c_indedh_def distribution_pre_send_c_windowed_def
      distribution_post_receive_c_windowed_def)

definition client_request ::
  "'j json \<Rightarrow> 'j dist_method \<Rightarrow> lock_env \<Rightarrow> ('h \<Rightarrow> 'j \<Rightarrow> ('j \<times> 'h) option) \<Rightarrow> 'h client \<Rightarrow> 'j \<Rightarrow>
   (int \<times> 'j reply \<times> 'h client) option" where
  "client_request J M E serve cl request = do {
     (rc, request) \<leftarrow> me_pre M E (cl_table cl) request;
     if rc \<noteq> 0 then Some (-1, No_reply, cl)
     else do {
       let srv_id = j_int J request ''id_srv'';
       host \<leftarrow> rdi (cl_servers cl) srv_id;
       (answer, host) \<leftarrow> serve host (j_wire J request);
       hosts \<leftarrow> wri (cl_servers cl) srv_id host;
       let cl = cl\<lparr>cl_servers := hosts\<rparr>;
       let reply = j_wire J answer;
       if \<not> j_has J reply ''repFlag'' then Some (-1, Reply reply, cl)
       else
         let flag = j_str J reply ''repFlag'' in
         if flag = ''wait&retry'' then Some (- EALREADY, Reply reply, cl)
         else if flag \<noteq> ''done'' \<and> flag \<noteq> ''update&retry'' then Some (-1, Reply reply, cl)
         else do {
           (rc, t) \<leftarrow> me_post M E (cl_table cl) reply;
           let cl = cl\<lparr>cl_table := t\<rparr>;
           if rc \<noteq> 0 then Some (-1, Released, cl)
           else Some (if flag = ''done'' then 0 else - EAGAIN, Reply reply, cl)
         }
     }
   }"

text \<open>The part that the requests for creation, update and deletion have in common.\<close>

definition client_write ::
  "'j json \<Rightarrow> 'j dist_method \<Rightarrow> lock_env \<Rightarrow> ('h \<Rightarrow> 'j \<Rightarrow> ('j \<times> 'h) option) \<Rightarrow> 'h client \<Rightarrow> ('j option \<times> int) option \<Rightarrow>
   (int \<times> 'h client) option" where
  "client_write J M E serve cl req = do {
     (request, n) \<leftarrow> req;
     let cl = cl\<lparr>cl_next := n\<rparr>;
     case request of
       None \<Rightarrow> Some (-1, cl)
     | Some r \<Rightarrow> do {
         (rc, reply, cl) \<leftarrow> client_request J M E serve cl r;
         _ \<leftarrow> put_reply reply;
         Some (rc, cl)
       }
   }"

definition client_request_create ::
  "'j json \<Rightarrow> 'j dist_method \<Rightarrow> lock_env \<Rightarrow> ('h \<Rightarrow> 'j \<Rightarrow> ('j \<times> 'h) option) \<Rightarrow> bool \<Rightarrow> 'h client \<Rightarrow> string \<Rightarrow> string \<Rightarrow>
   (int \<times> 'h client) option" where
  "client_request_create J M E serve ok cl key data =
     client_write J M E serve cl (create_request_create J ok (cl_next cl) key data)"

definition client_request_update ::
  "'j json \<Rightarrow> 'j dist_method \<Rightarrow> lock_env \<Rightarrow> ('h \<Rightarrow> 'j \<Rightarrow> ('j \<times> 'h) option) \<Rightarrow> bool \<Rightarrow> 'h client \<Rightarrow> string \<Rightarrow> string \<Rightarrow>
   (int \<times> 'h client) option" where
  "client_request_update J M E serve ok cl key data =
     client_write J M E serve cl (create_request_update J ok (cl_next cl) key data)"

definition client_request_delete ::
  "'j json \<Rightarrow> 'j dist_method \<Rightarrow> lock_env \<Rightarrow> ('h \<Rightarrow> 'j \<Rightarrow> ('j \<times> 'h) option) \<Rightarrow> bool \<Rightarrow> 'h client \<Rightarrow> string \<Rightarrow>
   (int \<times> 'h client) option" where
  "client_request_delete J M E serve ok cl key =
     client_write J M E serve cl (create_request_delete J ok (cl_next cl) key)"

text \<open>A read also gives the value, if the reply has one; without it the result is -1.\<close>

definition client_request_read ::
  "'j json \<Rightarrow> 'j dist_method \<Rightarrow> lock_env \<Rightarrow> ('h \<Rightarrow> 'j \<Rightarrow> ('j \<times> 'h) option) \<Rightarrow> bool \<Rightarrow> 'h client \<Rightarrow> string \<Rightarrow>
   (int \<times> string option \<times> 'h client) option" where
  "client_request_read J M E serve ok cl key = do {
     (request, n) \<leftarrow> create_request_read J ok (cl_next cl) key;
     let cl = cl\<lparr>cl_next := n\<rparr>;
     case request of
       None \<Rightarrow> Some (-1, None, cl)
     | Some r \<Rightarrow> do {
         (rc, reply, cl) \<leftarrow> client_request J M E serve cl r;
         case reply of
           No_reply \<Rightarrow> Some (-1, None, cl)
         | Released \<Rightarrow> None
         | Reply d \<Rightarrow>
             if \<not> j_has J d ''getValue'' then Some (-1, None, cl)
             else Some (rc, Some (j_str J d ''getValue''), cl)
       }
   }"

section \<open>The steps of an exchange\<close>

lemma entry_of_key_ok: "0 < N \<Longrightarrow> \<exists>i < N. entry_of_key N key = Some (int i)"
  by (simp add: entry_of_key_def MurmurHash3_x86_32_def bytes_of_def)

text \<open>The request with the three fields the client adds.\<close>

definition addressed :: "'j json \<Rightarrow> 'j \<Rightarrow> nat \<Rightarrow> int \<Rightarrow> int \<Rightarrow> 'j" where
  "addressed J r i s v =
     j_add_int J (j_add_int J (j_add_int J r ''id_srv'' s) ''index'' (int i)) ''entryVersion'' v"

lemma pre_send_c_ok:
  assumes "j_has J r ''key''" and "entry_of_key N (j_str J r ''key'') = Some (int i)"
    and "mlt_wf t" "mlt_len t = N" "i < N" and "mlt_row t i = (s, v, f)"
  shows "distribution_pre_send_c J N locks_work t r = Some (0, addressed J r i s v)"
  using assms
  by (simp add: distribution_pre_send_c_def distribution_assign_srv_by_key_def mlt_get_in locks_work_def addressed_def)

lemma addressed_for:
  assumes J: "json_laws J" and r: "j_has J r ''key''" "j_has J r ''reqType''"
    and ok: "int_ok (int i)" "int_ok s" "int_ok v"
  shows "request_for J (j_wire J (addressed J r i s v)) i v"
    and "j_int J (addressed J r i s v) ''id_srv'' = s"
    and "j_str J (j_wire J (addressed J r i s v)) ''key'' = j_str J r ''key''"
    and "j_int J (j_wire J (addressed J r i s v)) ''reqType'' = j_int J r ''reqType''"
    and "j_has J (j_wire J (addressed J r i s v)) ''data'' = j_has J r ''data''"
    and "j_has J r ''data'' \<Longrightarrow> j_str J (j_wire J (addressed J r i s v)) ''data'' = j_str J r ''data''"
  using r ok by (simp_all add: request_for_def addressed_def json_simps [OF J])

lemma client_request_step:
  assumes "me_pre M E (cl_table cl) r = Some (0, r')" and "j_int J r' ''id_srv'' = int k" and "k < length (cl_servers cl)"
    and "serve (cl_servers cl ! k) (j_wire J r') = Some (d, h)" and "j_has J (j_wire J d) ''repFlag''"
  shows "client_request J M E serve cl r =
    (let cl = cl\<lparr>cl_servers := (cl_servers cl)[k := h]\<rparr>;
         reply = j_wire J d;
         flag = j_str J reply ''repFlag''
     in if flag = ''wait&retry'' then Some (- EALREADY, Reply reply, cl)
        else if flag \<noteq> ''done'' \<and> flag \<noteq> ''update&retry'' then Some (-1, Reply reply, cl)
        else do {
          (rc, t) \<leftarrow> me_post M E (cl_table cl) reply;
          let cl = cl\<lparr>cl_table := t\<rparr>;
          if rc \<noteq> 0 then Some (-1, Released, cl)
          else Some (if flag = ''done'' then 0 else - EAGAIN, Reply reply, cl)
        })"
  using assms by (simp add: client_request_def rdi_in wri_in Let_def)

lemma post_receive_c_fresh:
  assumes "j_has J d ''versionFlag''" and "j_str J d ''versionFlag'' = ''up-to-date''"
  shows "distribution_post_receive_c J E t d = Some (0, t)"
  using assms by (simp add: distribution_post_receive_c_def)

lemma post_receive_c_stale:
  assumes "j_has J d ''versionFlag''" "j_str J d ''versionFlag'' = ''out-of-date''"
    and "j_has J d ''newSrv''" "j_int J d ''newSrv'' = s" "j_has J d ''newVersion''" "j_int J d ''newVersion'' = v"
    and "j_has J d ''index''" "j_int J d ''index'' = int i"
    and "mlt_wf t" "i < mlt_len t" "row_ok (s, v, 0)"
  shows "distribution_post_receive_c J locks_work t d = Some (0, mlt_put t i (s, v, 0))"
  using assms by (simp add: distribution_post_receive_c_def mlt_update_in locks_work_def)

text \<open>A creation request.\<close>

lemma create_request_create_ok:
  assumes J: "json_laws J" and n: "int_ok (n + 1)"
  shows "\<exists>r. create_request_create J True n key data = Some (Some r, n + 1) \<and> j_has J r ''key'' \<and>
    j_str J r ''key'' = key \<and> j_has J r ''reqType'' \<and> j_int J r ''reqType'' = RT_CREATE \<and>
    j_has J r ''data'' \<and> j_str J r ''data'' = data"
  using n by (simp add: create_request_create_def create_request_def c_conv json_simps [OF J] RT_CREATE_def
    int_ok_def INT_MIN_def INT_MAX_def)

lemma create_request_read_ok:
  assumes J: "json_laws J" and n: "int_ok (n + 1)"
  shows "\<exists>r. create_request_read J True n key = Some (Some r, n + 1) \<and> j_has J r ''key'' \<and>
    j_str J r ''key'' = key \<and> j_has J r ''reqType'' \<and> j_int J r ''reqType'' = RT_READ \<and>
    \<not> j_has J r ''getValue''"
  using n by (simp add: create_request_read_def create_request_def c_conv json_simps [OF J] RT_READ_def
    int_ok_def INT_MIN_def INT_MAX_def)

text \<open>The invariant of a client of \<open>N\<close> entries: every entry is on one of its servers.\<close>

definition client_ok :: "nat \<Rightarrow> 'h client \<Rightarrow> bool" where
  "client_ok N cl \<longleftrightarrow> 0 < N \<and> mlt_wf (cl_table cl) \<and> mlt_len (cl_table cl) = N \<and> 0 \<le> cl_next cl \<and> 
     (\<forall>i < N. \<exists>s v f. mlt_row (cl_table cl) i = (int s, v, f) \<and> s < length (cl_servers cl))"

end
