(* ===== verification/Cluster.thy ===== *)
theory Cluster
  imports Client
begin

text \<open>
  Clients and servers together: what a request of \<open>client_api.c\<close> does when it is handled by
  \<open>server.c\<close> over one of the distribution methods. The lemmas are proved once in the locale
  \<open>served_list\<close> and used through its interpretations; the properties at the end are about the
  three methods.
\<close>

section \<open>Exchanges, for any access list\<close>


text \<open>One server process of a cluster, as a client's socket reaches it.\<close>

definition reach ::
  "'j json \<Rightarrow> ('e \<Rightarrow> int \<Rightarrow> (int \<times> 'e option) option) \<Rightarrow> io \<Rightarrow> ('e host \<Rightarrow> nat) \<Rightarrow> md_entry \<Rightarrow> 'e host \<Rightarrow> 'j \<Rightarrow>
   ('j \<times> 'e host) option" where
  "reach J incr io alloc fill h r =
     server_handle J (distribution_post_receive J incr) (distribution_pre_send J) io locks_work (alloc h) fill h r"

context served_list
begin

lemma client_stale:
  assumes J: "json_laws J" and cl: "client_ok N cl" and r: "j_has J r ''key''" "j_has J r ''reqType''"
    and key: "entry_of_key N (j_str J r ''key'') = Some (int i)" "i < N"
    and row: "mlt_row (cl_table cl) i = (int k, v0, f0)" "k < length (cl_servers cl)"
    and ok: "server_ok inv len N (ho_sv (cl_servers cl ! k)) L"
    and srv: "mlt_row (sv_table (ho_sv (cl_servers cl ! k))) i = (s, v, 0)" "v0 \<noteq> v" "0 \<le> s"
    and n: "int_ok (ho_access (cl_servers cl ! k) + 1)"
  shows "\<exists>d. client_request J (method_dh J N) locks_work (reach J incr io alloc fill) cl r =
      Some (- EAGAIN, Reply d, cl\<lparr>cl_table := mlt_put (cl_table cl) i (s, v, 0),
        cl_servers := (cl_servers cl)[k := (cl_servers cl ! k)\<lparr>ho_access := ho_access (cl_servers cl ! k) + 1\<rparr>]\<rparr>) \<and>
      j_has J d ''getValue'' = j_has J r ''getValue''"
proof -
  let ?h = "cl_servers cl ! k" and ?q = "addressed J r i (int k) v0"
  have t: "mlt_wf (cl_table cl)" "mlt_len (cl_table cl) = N" using cl by (auto simp: client_ok_def)
  have io: "int_ok (int i)" "int_ok (int k)" "int_ok v0"
    using mlt_wf_idx(1) [OF t(1)] t(2) key(2) mlt_row_int_ok [OF row(1)] by auto
  have rok: "row_ok (s, v, 0)" using srv mlt_row_int_ok [OF srv(1)] by (simp add: row_ok.simps)
  have pre: "me_pre (method_dh J N) locks_work (cl_table cl) r = Some (0, ?q)"
    using pre_send_c_ok [OF r(1) key(1) t key(2) row(1)] by (simp add: method_dh_def)
  note q = addressed_for [OF J r io]
  obtain d where d: "reach J incr io alloc fill ?h (j_wire J ?q) = Some (d, ?h\<lparr>ho_access := ho_access ?h + 1\<rparr>)"
    "j_has J d ''repFlag''" "j_str J d ''repFlag'' = ''update&retry''"
    "j_has J d ''versionFlag''" "j_str J d ''versionFlag'' = ''out-of-date''"
    "j_has J d ''newSrv''" "j_int J d ''newSrv'' = s" "j_has J d ''newVersion''" "j_int J d ''newVersion'' = v"
    "j_has J d ''index''" "j_int J d ''index'' = int i" "j_has J d ''getValue'' = j_has J (j_wire J ?q) ''getValue''"
    using handle_stale [OF J ok key(2) q(1) srv(1,2) n, of io "alloc ?h" fill] unfolding reach_def by blast
  have post: "me_post (method_dh J N) locks_work (cl_table cl) (j_wire J d) = Some (0, mlt_put (cl_table cl) i (s, v, 0))"
    using d(4-11) t key(2) rok unfolding method_dh_def
    by (simp add: json_simps [OF J] post_receive_c_stale)
  have "client_request J (method_dh J N) locks_work (reach J incr io alloc fill) cl r =
      Some (- EAGAIN, Reply (j_wire J d), cl\<lparr>cl_table := mlt_put (cl_table cl) i (s, v, 0),
        cl_servers := (cl_servers cl)[k := ?h\<lparr>ho_access := ho_access ?h + 1\<rparr>]\<rparr>)"
    using d(2,3) post
    by (subst client_request_step [where serve = "reach J incr io alloc fill" and cl = cl and k = k, OF pre q(2) row(2) d(1)]) (simp_all add: json_simps [OF J] Let_def)
  moreover have "j_has J (j_wire J d) ''getValue'' = j_has J r ''getValue''"
    using d(12) by (simp add: json_simps [OF J] addressed_def)
  ultimately show ?thesis by blast
qed

lemma client_create_fresh:
  assumes J: "json_laws J" and cl: "client_ok N cl"
    and key: "entry_of_key N key = Some (int i)" "i < N"
    and row: "mlt_row (cl_table cl) i = (int k, v, f0)" "k < length (cl_servers cl)"
    and h: "h = cl_servers cl ! k" and ok: "server_ok inv len N (ho_sv h) L"
    and srv: "mlt_row (sv_table (ho_sv h)) i = (s, v, 0)"
    and io: "io_good io data" and new: "stored (ho_store h) key = None" and a: "sv_heap (ho_sv h) (alloc h) = None"
    and n: "int_ok (ho_access h + 1)" "int_ok (cl_next cl + 1)"
  shows "\<exists>h'. client_request_create J (method_dh J N) locks_work (reach J incr io alloc fill) True cl key data =
      Some (0, cl\<lparr>cl_next := cl_next cl + 1, cl_servers := (cl_servers cl)[k := h']\<rparr>) \<and>
    ho_access h' = ho_access h + 1 \<and> sv_table (ho_sv h') = sv_table (ho_sv h) \<and>
    server_ok inv len N (ho_sv h') (L[i := key # L ! i]) \<and>
    (\<forall>k. stored (ho_store h') k = (if k = key then Some data else stored (ho_store h) k))"
proof -
  let ?cl = "cl\<lparr>cl_next := cl_next cl + 1\<rparr>"
  obtain r where r: "create_request_create J True (cl_next cl) key data = Some (Some r, cl_next cl + 1)"
    "j_has J r ''key''" "j_str J r ''key'' = key" "j_has J r ''reqType''" "j_int J r ''reqType'' = RT_CREATE"
    "j_has J r ''data''" "j_str J r ''data'' = data"
    using create_request_create_ok [OF J n(2)] by blast
  let ?q = "addressed J r i (int k) v"
  have t: "mlt_wf (cl_table cl)" "mlt_len (cl_table cl) = N" using cl by (auto simp: client_ok_def)
  have rng: "int_ok (int i)" "int_ok (int k)" "int_ok v"
    using mlt_wf_idx(1) [OF t(1)] t(2) key(2) mlt_row_int_ok [OF row(1)] by auto
  note q = addressed_for [OF J r(2,4) rng]
  have pre: "me_pre (method_dh J N) locks_work (cl_table ?cl) r = Some (0, ?q)"
    using pre_send_c_ok [OF r(2) _ t key(2) row(1)] key(1) r(3) by (simp add: method_dh_def)
  obtain d h' where d: "reach J incr io alloc fill (cl_servers ?cl ! k) (j_wire J ?q) = Some (d, h')"
    "j_has J d ''repFlag''" "j_str J d ''repFlag'' = ''done''" "j_has J d ''versionFlag''" "j_str J d ''versionFlag'' = ''up-to-date''"
    "ho_access h' = ho_access h + 1" "sv_table (ho_sv h') = sv_table (ho_sv h)"
    "server_ok inv len N (ho_sv h') (L[i := key # L ! i])"
    "\<forall>k. stored (ho_store h') k = (if k = key then Some data else stored (ho_store h) k)"
    using handle_create [OF J ok key(2) q(1) srv n(1), of io "alloc h" fill] q r io new a h
    unfolding reach_def by auto
  have "client_request J (method_dh J N) locks_work (reach J incr io alloc fill) ?cl r =
      Some (0, Reply (j_wire J d), ?cl\<lparr>cl_servers := (cl_servers cl)[k := h']\<rparr>)"
    using d(2-5) row(2)
    by (subst client_request_step [where serve = "reach J incr io alloc fill" and cl = ?cl and k = k, OF pre q(2) _ d(1)])
      (simp_all add: json_simps [OF J] Let_def post_receive_c_fresh method_dh_def)
  then show ?thesis using d(6-) r(1)
    by (intro exI [of _ h']) (simp add: client_request_create_def client_write_def put_reply_def)
qed

lemma client_read_fresh:
  assumes J: "json_laws J" and cl: "client_ok N cl"
    and key: "entry_of_key N key = Some (int i)" "i < N"
    and row: "mlt_row (cl_table cl) i = (int k, v, f0)" "k < length (cl_servers cl)"
    and h: "h = cl_servers cl ! k" and ok: "server_ok inv len N (ho_sv h) L"
    and srv: "mlt_row (sv_table (ho_sv h)) i = (s, v, 0)"
    and io: "io_good io x" and x: "stored (ho_store h) key = Some x" "c_string x" "length x < BUF_GET"
    and n: "int_ok (ho_access h + 1)" "int_ok (cl_next cl + 1)"
  shows "\<exists>h'. client_request_read J (method_dh J N) locks_work (reach J incr io alloc fill) True cl key =
      Some (0, Some x, cl\<lparr>cl_next := cl_next cl + 1, cl_servers := (cl_servers cl)[k := h']\<rparr>) \<and>
    ho_store h' = ho_store h \<and> sv_table (ho_sv h') = sv_table (ho_sv h) \<and> server_ok inv len N (ho_sv h') L"
proof -
  let ?cl = "cl\<lparr>cl_next := cl_next cl + 1\<rparr>"
  obtain r where r: "create_request_read J True (cl_next cl) key = Some (Some r, cl_next cl + 1)"
    "j_has J r ''key''" "j_str J r ''key'' = key" "j_has J r ''reqType''" "j_int J r ''reqType'' = RT_READ"
    using create_request_read_ok [OF J n(2)] by blast
  let ?q = "addressed J r i (int k) v"
  have t: "mlt_wf (cl_table cl)" "mlt_len (cl_table cl) = N" using cl by (auto simp: client_ok_def)
  have rng: "int_ok (int i)" "int_ok (int k)" "int_ok v"
    using mlt_wf_idx(1) [OF t(1)] t(2) key(2) mlt_row_int_ok [OF row(1)] by auto
  note q = addressed_for [OF J r(2,4) rng]
  have pre: "me_pre (method_dh J N) locks_work (cl_table ?cl) r = Some (0, ?q)"
    using pre_send_c_ok [OF r(2) _ t key(2) row(1)] key(1) r(3) by (simp add: method_dh_def)
  obtain d h' where d: "reach J incr io alloc fill (cl_servers ?cl ! k) (j_wire J ?q) = Some (d, h')"
    "j_has J d ''repFlag''" "j_str J d ''repFlag'' = ''done''" "j_has J d ''getValue''" "j_str J d ''getValue'' = x"
    "j_has J d ''versionFlag''" "j_str J d ''versionFlag'' = ''up-to-date''"
    "ho_store h' = ho_store h" "sv_table (ho_sv h') = sv_table (ho_sv h)" "server_ok inv len N (ho_sv h') L"
    using handle_read [OF J ok key(2) q(1) srv n(1) _ io, of "alloc h" fill] q r x h
    unfolding reach_def by auto
  have "client_request J (method_dh J N) locks_work (reach J incr io alloc fill) ?cl r =
      Some (0, Reply (j_wire J d), ?cl\<lparr>cl_servers := (cl_servers cl)[k := h']\<rparr>)"
    using d(2-7) row(2)
    by (subst client_request_step [where serve = "reach J incr io alloc fill" and cl = ?cl and k = k, OF pre q(2) _ d(1)])
      (simp_all add: json_simps [OF J] Let_def post_receive_c_fresh method_dh_def)
  then show ?thesis using d(4,5,8-) r(1)
    by (intro exI [of _ h']) (simp add: client_request_read_def json_simps [OF J])
qed

lemma client_create_stale:
  assumes J: "json_laws J" and cl: "client_ok N cl"
    and key: "entry_of_key N key = Some (int i)" "i < N"
    and row: "mlt_row (cl_table cl) i = (int k, v0, f0)" "k < length (cl_servers cl)"
    and ok: "server_ok inv len N (ho_sv (cl_servers cl ! k)) L"
    and srv: "mlt_row (sv_table (ho_sv (cl_servers cl ! k))) i = (s, v, 0)" "v0 \<noteq> v" "0 \<le> s"
    and n: "int_ok (ho_access (cl_servers cl ! k) + 1)" "int_ok (cl_next cl + 1)"
  shows "client_request_create J (method_dh J N) locks_work (reach J incr io alloc fill) True cl key data =
      Some (- EAGAIN, cl\<lparr>cl_next := cl_next cl + 1, cl_table := mlt_put (cl_table cl) i (s, v, 0),
        cl_servers := (cl_servers cl)[k := (cl_servers cl ! k)\<lparr>ho_access := ho_access (cl_servers cl ! k) + 1\<rparr>]\<rparr>)"
proof -
  let ?cl = "cl\<lparr>cl_next := cl_next cl + 1\<rparr>"
  obtain r where r: "create_request_create J True (cl_next cl) key data = Some (Some r, cl_next cl + 1)"
    "j_has J r ''key''" "j_str J r ''key'' = key" "j_has J r ''reqType''"
    using create_request_create_ok [OF J n(2)] by blast
  have "client_ok N ?cl" using cl by (auto simp: client_ok_def)
  from client_stale [OF J this r(2,4), of i k v0 f0 L s v io alloc fill] obtain d where
    "client_request J (method_dh J N) locks_work (reach J incr io alloc fill) ?cl r =
      Some (- EAGAIN, Reply d, ?cl\<lparr>cl_table := mlt_put (cl_table cl) i (s, v, 0),
        cl_servers := (cl_servers cl)[k := (cl_servers cl ! k)\<lparr>ho_access := ho_access (cl_servers cl ! k) + 1\<rparr>]\<rparr>)"
    using assms r by auto
  then show ?thesis using r(1) by (simp add: client_request_create_def client_write_def put_reply_def)
qed

lemma client_read_stale:
  assumes J: "json_laws J" and cl: "client_ok N cl"
    and key: "entry_of_key N key = Some (int i)" "i < N"
    and row: "mlt_row (cl_table cl) i = (int k, v0, f0)" "k < length (cl_servers cl)"
    and ok: "server_ok inv len N (ho_sv (cl_servers cl ! k)) L"
    and srv: "mlt_row (sv_table (ho_sv (cl_servers cl ! k))) i = (s, v, 0)" "v0 \<noteq> v" "0 \<le> s"
    and n: "int_ok (ho_access (cl_servers cl ! k) + 1)" "int_ok (cl_next cl + 1)"
  shows "client_request_read J (method_dh J N) locks_work (reach J incr io alloc fill) True cl key =
      Some (-1, None, cl\<lparr>cl_next := cl_next cl + 1, cl_table := mlt_put (cl_table cl) i (s, v, 0),
        cl_servers := (cl_servers cl)[k := (cl_servers cl ! k)\<lparr>ho_access := ho_access (cl_servers cl ! k) + 1\<rparr>]\<rparr>)"
proof -
  let ?cl = "cl\<lparr>cl_next := cl_next cl + 1\<rparr>"
  obtain r where r: "create_request_read J True (cl_next cl) key = Some (Some r, cl_next cl + 1)"
    "j_has J r ''key''" "j_str J r ''key'' = key" "j_has J r ''reqType''" "\<not> j_has J r ''getValue''"
    using create_request_read_ok [OF J n(2)] by blast
  have "client_ok N ?cl" using cl by (auto simp: client_ok_def)
  from client_stale [OF J this r(2,4), of i k v0 f0 L s v io alloc fill] obtain d where
    "client_request J (method_dh J N) locks_work (reach J incr io alloc fill) ?cl r =
      Some (- EAGAIN, Reply d, ?cl\<lparr>cl_table := mlt_put (cl_table cl) i (s, v, 0),
        cl_servers := (cl_servers cl)[k := (cl_servers cl ! k)\<lparr>ho_access := ho_access (cl_servers cl ! k) + 1\<rparr>]\<rparr>)"
    "\<not> j_has J d ''getValue''"
    using assms r by auto
  then show ?thesis using r(1) by (simp add: client_request_read_def)
qed

text \<open>A created key reads back.\<close>

lemma client_create_read:
  assumes J: "json_laws J" and cl: "client_ok N cl"
    and key: "entry_of_key N key = Some (int i)" "i < N"
    and row: "mlt_row (cl_table cl) i = (int k, v, f0)" "k < length (cl_servers cl)"
    and h: "h = cl_servers cl ! k" and ok: "server_ok inv len N (ho_sv h) L"
    and srv: "mlt_row (sv_table (ho_sv h)) i = (s, v, 0)"
    and io: "io_good io data" and new: "stored (ho_store h) key = None" and a: "sv_heap (ho_sv h) (alloc h) = None"
    and n: "0 \<le> ho_access h" "int_ok (ho_access h + 2)" "int_ok (cl_next cl + 2)"
    and data: "c_string data" "length data < BUF_GET"
  shows "\<exists>cl1 cl2. client_request_create J (method_dh J N) locks_work (reach J incr io alloc fill) True cl key data
        = Some (0, cl1) \<and>
      client_request_read J (method_dh J N) locks_work (reach J incr io alloc fill) True cl1 key = Some (0, Some data, cl2)"
proof -
  have n': "int_ok (ho_access h + 1)" "int_ok (cl_next cl + 1)" "0 \<le> cl_next cl"
    using n cl by (simp_all add: int_ok_def INT_MIN_def client_ok_def)
  from client_create_fresh [where alloc = alloc and h = h, OF J cl key row h ok srv io new a n'(1,2), of fill]
  obtain h' where h': "client_request_create J (method_dh J N) locks_work (reach J incr io alloc fill) True cl key data =
      Some (0, cl\<lparr>cl_next := cl_next cl + 1, cl_servers := (cl_servers cl)[k := h']\<rparr>)"
    "ho_access h' = ho_access h + 1" "sv_table (ho_sv h') = sv_table (ho_sv h)"
    "server_ok inv len N (ho_sv h') (L[i := key # L ! i])" "stored (ho_store h') key = Some data" by auto
  define c where "c = cl\<lparr>cl_next := cl_next cl + 1, cl_servers := (cl_servers cl)[k := h']\<rparr>"
  have c: "client_ok N c" "cl_table c = cl_table cl" "cl_servers c ! k = h'" "k < length (cl_servers c)"
    "cl_next c = cl_next cl + 1"
    using cl row(2) by (auto simp: c_def client_ok_def)
  have row': "mlt_row (cl_table c) i = (int k, v, f0)" using c(2) row(1) by simp
  have srv': "mlt_row (sv_table (ho_sv h')) i = (s, v, 0)" using srv h'(3) by simp
  have m: "int_ok (ho_access h' + 1)" "int_ok (cl_next c + 1)" using n h'(2) c(5) by (simp_all add: ac_simps)
  from client_read_fresh [where alloc = alloc and h = h', OF J c(1) key row' c(4) c(3) [symmetric] h'(4) srv' io h'(5) data m, of fill]
  show ?thesis using h'(1) unfolding c_def by blast
qed

text \<open>The owner of the entry has changed: the second attempt is served by the new one.\<close>

lemma client_create_moved:
  assumes J: "json_laws J" and cl: "client_ok N cl"
    and key: "entry_of_key N key = Some (int i)" "i < N"
    and row: "mlt_row (cl_table cl) i = (int k1, v0, f0)"
    and k: "k1 < length (cl_servers cl)" "k2 < length (cl_servers cl)" "k1 \<noteq> k2"
    and h: "h1 = cl_servers cl ! k1" "h2 = cl_servers cl ! k2"
    and ok1: "server_ok inv len N (ho_sv h1) L1" and srv1: "mlt_row (sv_table (ho_sv h1)) i = (int k2, v, 0)" "v0 \<noteq> v"
    and ok2: "server_ok inv len N (ho_sv h2) L2" and srv2: "mlt_row (sv_table (ho_sv h2)) i = (int k2, v, 0)"
    and io: "io_good io data" and new: "stored (ho_store h2) key = None" and a: "sv_heap (ho_sv h2) (alloc h2) = None"
    and n: "int_ok (ho_access h1 + 1)" "int_ok (ho_access h2 + 1)" "int_ok (cl_next cl + 2)" "0 \<le> cl_next cl"
  shows "\<exists>cl1 cl2. client_request_create J (method_dh J N) locks_work (reach J incr io alloc fill) True cl key data
        = Some (- EAGAIN, cl1) \<and>
      (\<forall>k < length (cl_servers cl). ho_store (cl_servers cl1 ! k) = ho_store (cl_servers cl ! k)) \<and>
      client_request_create J (method_dh J N) locks_work (reach J incr io alloc fill) True cl1 key data = Some (0, cl2) \<and>
      mlt_row (cl_table cl2) i = (int k2, v, 0) \<and>
      (\<forall>k. k \<noteq> k2 \<longrightarrow> ho_store (cl_servers cl2 ! k) = ho_store (cl_servers cl ! k)) \<and>
      server_ok inv len N (ho_sv (cl_servers cl2 ! k2)) (L2[i := key # L2 ! i]) \<and>
      (\<forall>x. stored (ho_store (cl_servers cl2 ! k2)) x = (if x = key then Some data else stored (ho_store h2) x)) \<and>
      cl_next cl2 = cl_next cl + 2 \<and> length (cl_servers cl2) = length (cl_servers cl) \<and>
      cl_servers cl2 ! k1 = h1\<lparr>ho_access := ho_access h1 + 1\<rparr> \<and> ho_access (cl_servers cl2 ! k2) = ho_access h2 + 1 \<and>
      (\<forall>k. k \<noteq> k1 \<and> k \<noteq> k2 \<longrightarrow> cl_servers cl2 ! k = cl_servers cl ! k)"
proof -
  have n': "int_ok (cl_next cl + 1)" using n(3,4) by (simp add: int_ok_def INT_MIN_def)
  define c where "c = cl\<lparr>cl_next := cl_next cl + 1, cl_table := mlt_put (cl_table cl) i (int k2, v, 0),
    cl_servers := (cl_servers cl)[k1 := h1\<lparr>ho_access := ho_access h1 + 1\<rparr>]\<rparr>"
  have first: "client_request_create J (method_dh J N) locks_work (reach J incr io alloc fill) True cl key data
      = Some (- EAGAIN, c)"
    using client_create_stale [OF J cl key row k(1), of L1 "int k2" v io alloc fill data] ok1 srv1 n(1) n' h by (simp add: c_def)
  have t: "mlt_wf (cl_table cl)" "mlt_len (cl_table cl) = N" using cl by (auto simp: client_ok_def)
  have rok: "row_ok (int k2, v, 0)" using mlt_row_int_ok [OF srv1(1)] by (simp add: row_ok.simps)
  have cl': "client_ok N c"
    using cl t rok k mlt_row_put [OF t(1) _ rok] by (auto simp: client_ok_def c_def)
  have row': "mlt_row (cl_table c) i = (int k2, v, 0)" using t rok key(2) by (simp add: mlt_row_put c_def)
  have h2c: "cl_servers c ! k2 = h2" "k2 < length (cl_servers c)" "cl_next c = cl_next cl + 1"
    using k h by (simp_all add: c_def)
  have "int_ok (cl_next c + 1)" using n(3) h2c(3) by (simp add: ac_simps)
  from client_create_fresh [where alloc = alloc and h = h2, OF J cl' key row' h2c(2) h2c(1) [symmetric] ok2 srv2 io new a n(2) this, of fill]
  obtain h' where h': "client_request_create J (method_dh J N) locks_work (reach J incr io alloc fill) True c key data =
      Some (0, c\<lparr>cl_next := cl_next c + 1, cl_servers := (cl_servers c)[k2 := h']\<rparr>)"
    "server_ok inv len N (ho_sv h') (L2[i := key # L2 ! i])"
    "\<forall>k. stored (ho_store h') k = (if k = key then Some data else stored (ho_store h2) k)"
    "ho_access h' = ho_access h2 + 1"
    by blast
  have "ho_store ((cl_servers c)[k2 := h'] ! k) = ho_store (cl_servers cl ! k)" if "k \<noteq> k2" for k
    using that h k(1) by (cases "k = k1") (simp_all add: c_def)
  moreover have "\<forall>k < length (cl_servers cl). ho_store (cl_servers c ! k) = ho_store (cl_servers cl ! k)"
    using h k(1) by (simp add: c_def nth_list_update)
  moreover have "cl_servers c ! k1 = h1\<lparr>ho_access := ho_access h1 + 1\<rparr>" "length (cl_servers c) = length (cl_servers cl)"
    "\<forall>k. k \<noteq> k1 \<longrightarrow> cl_servers c ! k = cl_servers cl ! k"
    using k(1) by (simp_all add: c_def)
  ultimately show ?thesis
    using first h' h2c(2,3) row' k(3)
    by (intro exI [of _ c] exI [of _ "c\<lparr>cl_next := cl_next c + 1, cl_servers := (cl_servers c)[k2 := h']\<rparr>"] conjI)
      simp_all
qed

end
section \<open>The three methods\<close>

definition serve_dh ::
  "'j json \<Rightarrow> io \<Rightarrow> (eacl host \<Rightarrow> nat) \<Rightarrow> md_entry \<Rightarrow> eacl host \<Rightarrow> 'j \<Rightarrow> ('j \<times> eacl host) option" where
  "serve_dh J io alloc fill h = server_dh J io locks_work (alloc h) fill h"

definition serve_indedh ::
  "'j json \<Rightarrow> io \<Rightarrow> (eacl_indedh host \<Rightarrow> nat) \<Rightarrow> md_entry \<Rightarrow> eacl_indedh host \<Rightarrow> 'j \<Rightarrow> ('j \<times> eacl_indedh host) option" where
  "serve_indedh J io alloc fill h = server_indedh J io locks_work (alloc h) fill h"

definition serve_windowed ::
  "'j json \<Rightarrow> io \<Rightarrow> (eacl_windowed host \<Rightarrow> nat) \<Rightarrow> md_entry \<Rightarrow> eacl_windowed host \<Rightarrow> 'j \<Rightarrow>
   ('j \<times> eacl_windowed host) option" where
  "serve_windowed J io alloc fill h = server_windowed J io locks_work (alloc h) fill h"

lemma serve_reach:
  "serve_dh J io alloc fill = reach J (\<lambda>e. eacl_incr_access (Some e)) io alloc fill"
  "serve_indedh J io alloc_i fill = reach J (\<lambda>e. eacl_incr_access_indedh (Some e)) io alloc_i fill"
  "serve_windowed J io alloc_w fill = reach J (\<lambda>e. eacl_incr_access_windowed (Some e)) io alloc_w fill"
  by (simp_all add: fun_eq_iff reach_def serve_dh_def serve_indedh_def serve_windowed_def server_dh_def
      server_indedh_def server_windowed_def distribution_post_receive_dh_def distribution_post_receive_indedh_def
      distribution_post_receive_windowed_def distribution_pre_send_indedh_def distribution_pre_send_windowed_def)

text \<open>
  A cluster for the witnesses: two entries, a client that has them on server 0 with version 0,
  and servers that have them on server 1 with version 1.
\<close>

definition cluster_table :: "u32 \<Rightarrow> mlt" where
  "cluster_table s = \<lparr>id_srv = [s, s], n_ver = [s, s], mlt_state = [0, 0], mlt_size = 2\<rparr>"

definition cluster_host :: "'e \<Rightarrow> u32 \<Rightarrow> int \<Rightarrow> 'e host" where
  "cluster_host e s self =
     \<lparr>ho_sv = \<lparr>sv_table = cluster_table s, sv_list = e, sv_md = [None, None], sv_heap = (\<lambda>_. None), sv_self = self\<rparr>,
      ho_store = \<lparr>files = (\<lambda>_. None), fds = 0\<rparr>, ho_access = 0\<rparr>"

definition cluster_client :: "'e \<Rightarrow> u32 \<Rightarrow> 'e host client" where
  "cluster_client e s = \<lparr>cl_table = cluster_table 0, cl_next = 0,
     cl_servers = [cluster_host e s 0, cluster_host e s 1]\<rparr>"

definition cluster_list :: eacl where
  "cluster_list = \<lparr>access_count = [0, 0], sai = [0, 0], eacl_size = 2\<rparr>"

definition cluster_list_indedh :: eacl_indedh where
  "cluster_list_indedh = \<lparr>access_count = [0, 0], sai = [0, 0], eacl_size = 2, load_lvl = 0\<rparr>"

definition cluster_list_windowed :: eacl_windowed where
  "cluster_list_windowed = \<lparr>access_count = [0, 0], sai = [0, 0], eacl_size = 2, load_lvl = 0,
     old_accesses = replicate 2 \<lparr>q_count = WINDOW_SIZE, q_used = 0, q_next = 0, q_values = replicate WINDOW_SIZE 0\<rparr>\<rparr>"

definition cluster_cell :: md_entry where
  "cluster_cell = \<lparr>md_ent = 0, md_name = [], md_next = None\<rparr>"

lemma cluster_table_wf: "mlt_wf (cluster_table s)" "mlt_len (cluster_table s) = 2"
  by (simp_all add: cluster_table_def mlt_wf_def mlt_len_def INT_MAX_def)

lemma cluster_row: "i < 2 \<Longrightarrow> mlt_row (cluster_table s) i = (int_of_u32 s, int_of_u32 s, 0)"
  by (auto simp: cluster_table_def mlt_row_def less_Suc_eq numeral_2_eq_2 int_of_u32_def)

lemma cluster_server_ok:
  assumes "good e" and "len e = 2"
  shows "server_ok good len 2 (ho_sv (cluster_host e s self)) [[], []]"
  using assms holds_empty [of 2]
  by (simp add: server_ok_def cluster_host_def cluster_table_wf numeral_2_eq_2)

lemma cluster_client_ok: "client_ok 2 (cluster_client e s)"
  by (auto simp: client_ok_def cluster_client_def cluster_table_wf cluster_row int_of_u32_def)

lemma cluster_lists: "eacl_wf cluster_list" "eacl_len cluster_list = 2"
  "eacl_wf cluster_list_indedh" "eacl_len cluster_list_indedh = 2"
  "eacl_wf_windowed cluster_list_windowed" "eacl_len cluster_list_windowed = 2"
  by (simp_all add: eacl_wf_def eacl_wf_windowed_def eacl_len_def q_wf_def cluster_list_def cluster_list_indedh_def
      cluster_list_windowed_def INT_MAX_def WINDOW_SIZE_def)

lemma cluster_key: "entry_of_key 2 ''test'' = Some 0"
  by (simp add: entry_of_key_def murmur_test murmur_steps(1) [unfolded bytes_of_def])

section \<open>Properties\<close>

text \<open>
  C5: a client whose table is out of date reaches the right owner at the second attempt. The
  entry of the key has moved: the client's row is an old version naming server k1, the
  servers k1 and k2 have the new version naming k2, and the entry is not in transfer. Then the
  first \<open>client_request_create\<close> returns \<open>-EAGAIN\<close> and leaves every storage as it was; the
  second returns 0, the client's row is the servers' one, the key is stored on k2 (and nothing
  else changes in any storage), and k2 keeps its invariant with the name added to the names it
  is in charge of.
\<close>

theorem create_follows_moved_entry:
  assumes J: "json_laws J" and cl: "client_ok N cl"
    and key: "entry_of_key N key = Some (int i)" "i < N"
    and row: "mlt_row (cl_table cl) i = (int k1, v0, f0)"
    and k: "k1 < length (cl_servers cl)" "k2 < length (cl_servers cl)" "k1 \<noteq> k2"
    and h: "h1 = cl_servers cl ! k1" "h2 = cl_servers cl ! k2"
    and srv1: "server_ok eacl_wf eacl_len N (ho_sv h1) L1"
      "mlt_row (sv_table (ho_sv h1)) i = (int k2, v, 0)" "v0 \<noteq> v"
    and srv2: "server_ok eacl_wf eacl_len N (ho_sv h2) L2"
      "mlt_row (sv_table (ho_sv h2)) i = (int k2, v, 0)"
    and store: "io_good io data" "stored (ho_store h2) key = None" "sv_heap (ho_sv h2) (alloc h2) = None"
    and n: "int_ok (ho_access h1 + 1)" "int_ok (ho_access h2 + 1)" "int_ok (cl_next cl + 2)" "0 \<le> cl_next cl"
  shows "\<exists>cl1 cl2.
      client_request_create J (method_dh J N) locks_work (serve_dh J io alloc fill) True cl key data = Some (- EAGAIN, cl1) \<and>
      (\<forall>k < length (cl_servers cl). ho_store (cl_servers cl1 ! k) = ho_store (cl_servers cl ! k)) \<and>
      client_request_create J (method_dh J N) locks_work (serve_dh J io alloc fill) True cl1 key data = Some (0, cl2) \<and>
      mlt_row (cl_table cl2) i = (int k2, v, 0) \<and>
      (\<forall>k. k \<noteq> k2 \<longrightarrow> ho_store (cl_servers cl2 ! k) = ho_store (cl_servers cl ! k)) \<and>
      server_ok eacl_wf eacl_len N (ho_sv (cl_servers cl2 ! k2)) (L2[i := key # L2 ! i]) \<and>
      (\<forall>x. stored (ho_store (cl_servers cl2 ! k2)) x = (if x = key then Some data else stored (ho_store h2) x))"
  unfolding serve_reach
  using sl_dh.client_create_moved [where alloc = alloc and ?h2.0 = h2 and io = io and fill = fill and data = data, OF J cl key row k h srv1 srv2 store n]
  by blast

theorem create_follows_moved_entry_witness:
  "\<exists>cl1 cl2.
      client_request_create map_json (method_dh map_json 2) locks_work (serve_dh map_json io_fine (\<lambda>_. 0) cluster_cell) True
        (cluster_client cluster_list 1) ''test'' ''a word'' = Some (- EAGAIN, cl1) \<and>
      client_request_create map_json (method_dh map_json 2) locks_work (serve_dh map_json io_fine (\<lambda>_. 0) cluster_cell) True
        cl1 ''test'' ''a word'' = Some (0, cl2) \<and>
      stored (ho_store (cl_servers cl2 ! 1)) ''test'' = Some ''a word''"
proof -
  have r: "mlt_row (cluster_table 1) 0 = (int 1, 1, 0)" "mlt_row (cluster_table 0) 0 = (int 0, 0, 0)"
    by (simp_all add: cluster_row int_of_u32_def)
  show ?thesis
    using create_follows_moved_entry [OF map_json_laws cluster_client_ok, of "''test''" 0 cluster_list 1 0 0 0 1
        "cluster_host cluster_list 1 0" "cluster_host cluster_list 1 1" "[[], []]" 1 "[[], []]" io_fine "''a word''" "\<lambda>_. 0" cluster_cell]
      cluster_key cluster_server_ok [of eacl_wf cluster_list eacl_len 1] cluster_lists r
    by (auto simp: cluster_client_def cluster_host_def io_good_def io_fine_def stored_def BUF_GET_def int_ok_def
        INT_MAX_def INT_MIN_def)
qed

text \<open>
  C29: what a client creates it reads back: with an up-to-date table, after \<open>client_request_create\<close>
  of a new key has returned 0, \<open>client_request_read\<close> of the key returns 0 and the data, if the
  data is a string that fits in the 10-byte buffer of \<open>generic_get\<close>.
\<close>

theorem created_key_reads_back:
  assumes J: "json_laws J" and cl: "client_ok N cl"
    and key: "entry_of_key N key = Some (int i)" "i < N"
    and row: "mlt_row (cl_table cl) i = (int k, v, f0)" "k < length (cl_servers cl)"
    and h: "h = cl_servers cl ! k"
    and srv: "server_ok eacl_wf eacl_len N (ho_sv h) L" "mlt_row (sv_table (ho_sv h)) i = (s, v, 0)"
    and store: "io_good io data" "stored (ho_store h) key = None" "sv_heap (ho_sv h) (alloc h) = None"
    and n: "0 \<le> ho_access h" "int_ok (ho_access h + 2)" "int_ok (cl_next cl + 2)"
    and data: "c_string data" "length data < BUF_GET"
  shows "\<exists>cl1 cl2.
      client_request_create J (method_indedh J N) locks_work (serve_indedh J io alloc fill) True cl key data = Some (0, cl1) \<and>
      client_request_read J (method_indedh J N) locks_work (serve_indedh J io alloc fill) True cl1 key
        = Some (0, Some data, cl2)"
  unfolding serve_reach method_same
  by (rule sl_indedh.client_create_read [where alloc = alloc and h = h, OF J cl key row h srv store n data])

theorem created_key_reads_back_witness:
  "\<exists>cl1 cl2.
      client_request_create map_json (method_indedh map_json 2) locks_work (serve_indedh map_json io_fine (\<lambda>_. 0) cluster_cell) True
        (cluster_client cluster_list_indedh 0) ''test'' ''a word'' = Some (0, cl1) \<and>
      client_request_read map_json (method_indedh map_json 2) locks_work (serve_indedh map_json io_fine (\<lambda>_. 0) cluster_cell) True
        cl1 ''test'' = Some (0, Some ''a word'', cl2)"
proof -
  have r: "mlt_row (cluster_table 0) 0 = (int 0, 0, 0)" by (simp add: cluster_row int_of_u32_def)
  have ok: "server_ok eacl_wf eacl_len 2 (ho_sv (cluster_host cluster_list_indedh 0 0)) [[], []]"
    by (rule cluster_server_ok) (simp_all add: cluster_lists)
  show ?thesis
    using cluster_key r ok
    by (intro created_key_reads_back [where i = 0 and k = 0 and v = 0 and ?f0.0 = 0 and s = 0 and L = "[[], []]"
          and h = "cluster_host cluster_list_indedh 0 0", OF map_json_laws cluster_client_ok])
      (auto simp: cluster_client_def cluster_host_def io_good_def io_fine_def stored_def BUF_GET_def int_ok_def
        INT_MAX_def INT_MIN_def c_string_def)
qed

text \<open>
  A read with an out-of-date table always fails, even though the server says ``retry'': the
  reply has no \<open>getValue\<close>, so \<open>client_request_read\<close> returns -1 and not the \<open>-EAGAIN\<close> for which
  \<open>client.c\<close> repeats a request. The table of the client is brought up to date nevertheless.
\<close>

theorem stale_read_is_not_retried:
  assumes J: "json_laws J" and cl: "client_ok N cl"
    and key: "entry_of_key N key = Some (int i)" "i < N"
    and row: "mlt_row (cl_table cl) i = (int k, v0, f0)" "k < length (cl_servers cl)"
    and h: "h = cl_servers cl ! k" and ok: "server_ok eacl_wf_windowed eacl_len N (ho_sv h) L"
    and srv: "mlt_row (sv_table (ho_sv h)) i = (s, v, 0)" "v0 \<noteq> v" "0 \<le> s"
    and n: "int_ok (ho_access h + 1)" "int_ok (cl_next cl + 1)"
  shows "\<exists>cl'. client_request_read J (method_windowed J N) locks_work (serve_windowed J io alloc fill) True cl key
        = Some (-1, None, cl') \<and>
      (\<forall>j < N. mlt_row (cl_table cl') j = (if j = i then (s, v, 0) else mlt_row (cl_table cl) j))"
proof -
  have t: "mlt_wf (cl_table cl)" "mlt_len (cl_table cl) = N" using cl by (auto simp: client_ok_def)
  have "row_ok (s, v, 0)" using srv mlt_row_int_ok [OF srv(1)] by (simp add: row_ok.simps)
  then show ?thesis
    using sl_windowed.client_read_stale [OF J cl key row, of L s v] ok srv n t unfolding serve_reach method_same h
    by (simp add: mlt_row_put)
qed

theorem stale_read_is_not_retried_witness:
  "\<exists>cl'. client_request_read map_json (method_windowed map_json 2) locks_work
      (serve_windowed map_json io_fine (\<lambda>_. 0) cluster_cell) True (cluster_client cluster_list_windowed 1) ''test''
        = Some (-1, None, cl') \<and>
      (\<forall>j < 2. mlt_row (cl_table cl') j =
         (if j = 0 then (1, 1, 0) else mlt_row (cl_table (cluster_client cluster_list_windowed 1)) j))"
proof -
  have r: "mlt_row (cluster_table 0) 0 = (int 0, 0, 0)" "mlt_row (cluster_table 1) 0 = (1, 1, 0)"
    by (simp_all add: cluster_row int_of_u32_def)
  have ok: "server_ok eacl_wf_windowed eacl_len 2 (ho_sv (cluster_host cluster_list_windowed 1 0)) [[], []]"
    by (rule cluster_server_ok) (simp_all add: cluster_lists)
  show ?thesis
    using cluster_key r ok
    by (intro stale_read_is_not_retried [where i = 0 and k = 0 and ?v0.0 = 0 and ?f0.0 = 0 and v = 1 and s = 1
          and L = "[[], []]" and h = "cluster_host cluster_list_windowed 1 0", OF map_json_laws cluster_client_ok])
      (auto simp: cluster_client_def cluster_host_def int_ok_def INT_MAX_def INT_MIN_def)
qed

end
