(* ===== verification/Client_Main.thy ===== *)
theory Client_Main
  imports Cluster Load_Transfer
begin

text \<open>
  The client program \<open>client.c\<close>: the connection to the hosts of the configuration
  (\<open>client_init_context\<close> of \<open>client_api.c\<close>), the trace of requests it reads from a file, and the loop that
  makes them, where a request is made again as long as the API asks for it.
\<close>

section \<open>The context of a client\<close>

text \<open>
  \<open>connect\<close> is what \<open>client_init_connexion\<close> gives for the name of a host: a socket, behind which is a server, or
  \<open>NULL\<close> when the name cannot be formatted or the socket not be made.
\<close>

definition client_init_connexion :: "bool \<Rightarrow> (string \<Rightarrow> 'h option) \<Rightarrow> string \<Rightarrow> 'h option" where
  "client_init_connexion asprintf_ok new_req host = (if \<not> asprintf_ok then None else new_req host)"

text \<open>The loop over the lines of the file of hosts; \<open>Leave\<close> when a connection fails.\<close>

function connect_hosts :: "(string \<Rightarrow> 'h option) \<Rightarrow> int \<Rightarrow> string \<Rightarrow> 'h list \<Rightarrow> (string \<times> 'h list) flow" where
  "connect_hosts connect nb_srv file hs =
     (if \<not> int (length hs) < nb_srv then Next (file, hs)
      else case fgets max_id_size file of
          None \<Rightarrow> Next (file, hs)
        | Some (l, file') \<Rightarrow>
            (case connect (chop (up_to_nul l)) of
               None \<Rightarrow> Leave (file', hs)
             | Some h \<Rightarrow> connect_hosts connect nb_srv file' (hs @ [h])))"
  by pat_completeness auto
termination
  by (relation "measure (\<lambda>(connect, nb_srv, file, hs). length file)")
    (auto simp: max_id_size_def numeral_eq_Suc dest!: fgets_less)

declare connect_hosts.simps [simp del]

record 'h context_env =
  ce_malloc :: bool
  ce_hosts :: "string option"
  ce_malloc_id :: bool
  ce_connect :: "string \<Rightarrow> 'h option"

text \<open>\<open>distribution_init\<close> of the clients with a table.\<close>

definition distribution_init_c :: "(int \<Rightarrow> int \<times> mlt option) \<Rightarrow> int \<Rightarrow> int \<times> mlt option" where
  "distribution_init_c mlt_init_result nb = (let (rc, t) = mlt_init_result nb in (if rc \<noteq> 0 then -1 else 0, t))"

text \<open>
  The number of servers joined_to, or a value below 1. Of the variables only the sockets and the table matter
  later.
\<close>

definition client_init_context ::
  "'h context_env \<Rightarrow> (int \<Rightarrow> int \<times> mlt option) \<Rightarrow> int \<Rightarrow> (int \<times> 'h list \<times> mlt option) option" where
  "client_init_context V init nb_srv =
     (if \<not> ce_malloc V then Some (0, [], None)
      else case ce_hosts V of
          None \<Rightarrow> Some (0, [], None)
        | Some file \<Rightarrow>
            if \<not> ce_malloc_id V then Some (0, [], None)
            else (case connect_hosts (ce_connect V) nb_srv file [] of
                Leave (file, hs) \<Rightarrow> Some (- int (length hs), hs, None)
              | Next (file, hs) \<Rightarrow>
                  if int (length hs) < nb_srv then Some (- int (length hs), hs, None)
                  else let (rc, t) = init (int (length hs)) in
                    if rc \<noteq> 0 then Some (- int (length hs), hs, t) else Some (int (length hs), hs, t)))"

section \<open>The trace\<close>

definition MAX_SIZE :: nat where
  "MAX_SIZE = 50"

text \<open>The code of the kinds of requests in a trace; any other word leaves the element of the array as it is.\<close>

definition type_code :: "string \<Rightarrow> int \<Rightarrow> int" where
  "type_code type old =
     (let t = old;
          t = (if type = ''create'' then 1 else t);
          t = (if type = ''get'' then 2 else t);
          t = (if type = ''update'' then 3 else t)
      in if type = ''delete'' then 4 else t)"

text \<open>
  One line: \<open>strcmp\<close> and the format of \<open>asprintf\<close> are applied to what \<open>strtok\<close> returns, \<open>NULL\<close> when
  there is no token.
\<close>

definition parse_line :: "string \<Rightarrow> int \<Rightarrow> (int \<times> string) option" where
  "parse_line l old = do {
     (type, rest) \<leftarrow> strtok CHR '','' l;
     (key, _) \<leftarrow> strtok CHR '','' rest;
     Some (type_code type old, key)
   }"

text \<open>\<open>Leave\<close> when the file ends before \<open>nb_req\<close> lines; \<open>old\<close> is what the array of types contains.\<close>

definition read_trace :: "(nat \<Rightarrow> int) \<Rightarrow> nat \<Rightarrow> string \<Rightarrow> (string \<times> (int \<times> string) list) flow option" where
  "read_trace old nb_req file =
     forE [0..<nb_req] (\<lambda>i (file, rs).
       case fgets MAX_SIZE file of
         None \<Rightarrow> Some (Leave (file, rs))
       | Some (l, file') \<Rightarrow> do {
           r \<leftarrow> parse_line (chop (up_to_nul l)) (old i);
           Some (Next (file', rs @ [r]))
         }) (file, [])"

section \<open>The requests\<close>

record 'c api =
  a_create :: "'c \<Rightarrow> string \<Rightarrow> string \<Rightarrow> (int \<times> 'c) option"
  a_read :: "'c \<Rightarrow> string \<Rightarrow> (int \<times> string option \<times> 'c) option"
  a_update :: "'c \<Rightarrow> string \<Rightarrow> string \<Rightarrow> (int \<times> 'c) option"
  a_delete :: "'c \<Rightarrow> string \<Rightarrow> (int \<times> 'c) option"

text \<open>One attempt, and whether the same request is made again.\<close>

definition attempt :: "'c api \<Rightarrow> string \<Rightarrow> int \<times> string \<Rightarrow> 'c \<Rightarrow> (bool \<times> 'c) option" where
  "attempt A data r c =
     (if fst r = 1 then do {
        (rc, c) \<leftarrow> a_create A c (snd r) data;
        Some (rc = - EAGAIN \<or> rc = - EALREADY, c)
      } else if fst r = 2 then do {
        (rc, value, c) \<leftarrow> a_read A c (snd r);
        Some (rc = - EAGAIN, c)
      } else if fst r = 3 then do {
        (rc, c) \<leftarrow> a_update A c (snd r) data;
        Some (rc = - EAGAIN, c)
      } else if fst r = 4 then do {
        (rc, c) \<leftarrow> a_delete A c (snd r);
        Some (rc = - EAGAIN, c)
      } else Some (False, c))"

text \<open>The loop does not return while a request has to be made again and again.\<close>

partial_function (option) run_requests :: "'c api \<Rightarrow> string \<Rightarrow> (int \<times> string) list \<Rightarrow> 'c \<Rightarrow> 'c option" where
  "run_requests A data rs c =
     (case rs of
        [] \<Rightarrow> Some c
      | r # rs' \<Rightarrow> Option.bind (attempt A data r c) (\<lambda>(again, c).
          run_requests A data (if again then rs else rs') c))"

text \<open>
  \<open>main\<close>. Arrays whose length is not positive are undefined behaviour, and so is a read into the buffer that \<open>malloc\<close>
  did not give. \<open>joined_to\<close> makes the state of the API from the joined_to servers and the table.
\<close>

definition client_main ::
  "'h context_env \<Rightarrow> (int \<Rightarrow> int \<times> mlt option) \<Rightarrow> ('h list \<Rightarrow> mlt option \<Rightarrow> 'c) \<Rightarrow> 'c api \<Rightarrow> bool \<Rightarrow> (string \<Rightarrow> string option) \<Rightarrow>
   (nat \<Rightarrow> int) \<Rightarrow> string list \<Rightarrow> (int \<times> 'c option) option" where
  "client_main V init joined_to A malloc_ok open_file old argv =
     (case argv of
        nb_servers # nb_req # path # _ \<Rightarrow> do {
          nb_servers \<leftarrow> atoi nb_servers;
          nb_req \<leftarrow> atoi nb_req;
          (rc, hs, t) \<leftarrow> client_init_context V init nb_servers;
          if rc < 1 then Some (-1, None)
          else case open_file path of
              None \<Rightarrow> Some (-1, None)
            | Some file \<Rightarrow>
                if nb_req \<le> 0 \<or> \<not> malloc_ok then None
                else do {
                  f \<leftarrow> read_trace old (nat nb_req) file;
                  case f of
                    Leave _ \<Rightarrow> Some (-1, None)
                  | Next (file, rs) \<Rightarrow> do {
                      c \<leftarrow> run_requests A ''a word'' rs (joined_to hs t);
                      Some (0, Some c)
                    }
                }
        }
      | _ \<Rightarrow> Some (-1, None))"


section \<open>Connecting to the hosts\<close>

text \<open>A line that \<open>fgets\<close> reads whole into a buffer of \<open>n\<close> bytes.\<close>

definition line_fits :: "nat \<Rightarrow> string \<Rightarrow> bool" where
  "line_fits n l \<longleftrightarrow> length l + 2 \<le> n \<and> newline \<notin> set l \<and> c_string l"

lemma line_read:
  assumes "line_fits n l"
  shows "fgets n (l @ newline # s) = Some (l @ [newline], s)" and "chop (up_to_nul (l @ [newline])) = l"
proof -
  have l: "newline \<notin> set l" "c_string l" using assms by (simp_all add: line_fits_def)
  show "fgets n (l @ newline # s) = Some (l @ [newline], s)" using assms by (intro fgets_line) (simp_all add: line_fits_def)
  have "up_to_nul (l @ [newline]) = l @ [newline]" using l(2) by (auto simp: up_to_nul_def c_string_def takeWhile_eq_all_conv)
  then show "chop (up_to_nul (l @ [newline])) = l" using l(1) by simp
qed

lemma connect_hosts_ok:
  assumes "\<forall>n \<in> set names. line_fits max_id_size n" and "list_all2 (\<lambda>n h. connect n = Some h) names hs"
  shows "connect_hosts connect (int (length gs + length names)) (text_file (names @ tail)) gs = Next (text_file tail, gs @ hs)"
  using assms
proof (induction names arbitrary: gs hs)
  case Nil
  then show ?case by (simp add: connect_hosts.simps [of connect])
next
  case (Cons n names)
  obtain h hs' where h: "connect n = Some h" "hs = h # hs'" "list_all2 (\<lambda>n h. connect n = Some h) names hs'"
    using Cons.prems(2) by (cases hs) auto
  have "line_fits max_id_size n" using Cons.prems(1) by simp
  note l = line_read [OF this]
  have "connect_hosts connect (int (length gs + length (n # names))) (text_file ((n # names) @ tail)) gs =
      connect_hosts connect (int (length (gs @ [h]) + length names)) (text_file (names @ tail)) (gs @ [h])"
    using l h(1) by (subst connect_hosts.simps) simp
  then show ?case using Cons.IH [OF _ h(3), of "gs @ [h]"] Cons.prems(1) h(2) by simp
qed

definition context_fine :: "'h context_env \<Rightarrow> string list \<Rightarrow> 'h list \<Rightarrow> bool" where
  "context_fine V names hs \<longleftrightarrow> ce_malloc V \<and> ce_malloc_id V \<and> ce_hosts V = Some (text_file names) \<and>
     (\<forall>n \<in> set names. line_fits max_id_size n) \<and> list_all2 (\<lambda>n h. ce_connect V n = Some h) names hs"

lemma init_context_ok:
  assumes V: "context_fine V names hs" and init: "init (int (length hs)) = (0, t)"
  shows "client_init_context V init (int (length hs)) = Some (int (length hs), hs, t)"
proof -
  have "length names = length hs" using V list_all2_lengthD by (auto simp: context_fine_def)
  then show ?thesis
    using connect_hosts_ok [of names "ce_connect V" hs "[]" "[]"] V init by (simp add: client_init_context_def context_fine_def)
qed

section \<open>Reading the trace\<close>

definition type_word :: "int \<Rightarrow> string" where
  "type_word t = (if t = 1 then ''create'' else if t = 2 then ''get'' else if t = 3 then ''update'' else ''delete'')"

definition trace_line :: "int \<times> string \<Rightarrow> string" where
  "trace_line r = type_word (fst r) @ '','' @ snd r"

definition trace_ok :: "int \<times> string \<Rightarrow> bool" where
  "trace_ok r \<longleftrightarrow> fst r \<in> {1, 2, 3, 4} \<and> token_ok CHR '','' (snd r) \<and> line_fits MAX_SIZE (trace_line r)"

lemma parse_trace_line:
  assumes "trace_ok r"
  shows "parse_line (trace_line r) old = Some r"
proof -
  have r: "fst r \<in> {1, 2, 3, 4}" "token_ok CHR '','' (snd r)" using assms by (simp_all add: trace_ok_def)
  have "token_ok CHR '','' (type_word (fst r))" by (simp add: token_ok_def type_word_def)
  then have "strtok CHR '','' (trace_line r) = Some (type_word (fst r), snd r)"
    by (simp add: trace_line_def strtok_token)
  moreover have "type_code (type_word (fst r)) old = fst r" using r(1) by (auto simp: type_code_def type_word_def Let_def)
  ultimately show ?thesis using strtok_token(2) [OF r(2)] by (simp add: parse_line_def)
qed

lemma read_trace_ok:
  assumes "\<forall>r \<in> set rs. trace_ok r"
  shows "read_trace old (length rs) (text_file (map trace_line rs @ tail)) = Some (Next (text_file tail, rs))"
proof -
  let ?P = "\<lambda>i s. s = (text_file (map trace_line (drop i rs) @ tail), take i rs)"
  have "\<exists>s. read_trace old (length rs) (text_file (map trace_line rs @ tail)) = Some (Next s) \<and> ?P (length rs) s"
    unfolding read_trace_def
  proof (rule forE_upt_rule [where P = ?P])
    fix i and s :: "string \<times> (int \<times> string) list"
    assume i: "i < length rs" and s: "?P i s"
    have ok: "trace_ok (rs ! i)" using assms i by simp
    then have l: "line_fits MAX_SIZE (trace_line (rs ! i))" by (simp add: trace_ok_def)
    have "text_file (map trace_line (drop i rs) @ tail) = trace_line (rs ! i) @ newline # text_file (map trace_line (drop (Suc i) rs) @ tail)"
      using Cons_nth_drop_Suc [OF i] by (metis append_Cons list.simps(9) text_file_simps(2))
    then show "\<exists>t'. (case s of (file, rs) \<Rightarrow> case fgets MAX_SIZE file of None \<Rightarrow> Some (Leave (file, rs))
       | Some (l, file') \<Rightarrow> do { r \<leftarrow> parse_line (chop (up_to_nul l)) (old i); Some (Next (file', rs @ [r])) }) = Some (Next t') \<and> ?P (Suc i) t'"
      using s line_read [OF l] parse_trace_line [OF ok] take_Suc_conv_app_nth [OF i] by simp
  qed simp
  then show ?thesis by simp
qed

section \<open>Making the requests\<close>

text \<open>What a request comes to after all its attempts, and a list of requests one after the other.\<close>

inductive settles :: "'c api \<Rightarrow> string \<Rightarrow> int \<times> string \<Rightarrow> 'c \<Rightarrow> 'c \<Rightarrow> bool" for A data r where
  settled: "attempt A data r c = Some (False, c') \<Longrightarrow> settles A data r c c'"
| retried: "attempt A data r c = Some (True, c1) \<Longrightarrow> settles A data r c1 c' \<Longrightarrow> settles A data r c c'"

inductive replays :: "'c api \<Rightarrow> string \<Rightarrow> (int \<times> string) list \<Rightarrow> 'c \<Rightarrow> 'c \<Rightarrow> bool" for A data where
  no_request: "replays A data [] c c"
| next_request: "settles A data r c c1 \<Longrightarrow> replays A data rs c1 c' \<Longrightarrow> replays A data (r # rs) c c'"

inductive_cases replaysE: "replays A data rs c c'"

inductive_simps replays_simps: "replays A data [] c c'" "replays A data (r # rs) c c'"

lemma run_settles: "settles A data r c c' \<Longrightarrow> run_requests A data (r # rs) c = run_requests A data rs c'"
proof (induction rule: settles.induct)
  case (settled c c')
  then show ?case by (subst run_requests.simps) simp
next
  case (retried c c1 c')
  then show ?case by (subst run_requests.simps) simp
qed

lemma run_replays: "replays A data rs c c' \<Longrightarrow> run_requests A data rs c = Some c'"
proof (induction rule: replays.induct)
  case (no_request c)
  then show ?case by (simp add: run_requests.simps [of A data "[]"])
next
  case (next_request r c c1 rs c')
  then show ?case by (simp add: run_settles)
qed

lemma replays_run:
  assumes "run_requests A data rs c = Some c'"
  shows "replays A data rs c c'"
proof (rule run_requests.raw_induct [OF _ assms, of replays])
  fix run :: "'c api \<Rightarrow> string \<Rightarrow> (int \<times> string) list \<Rightarrow> 'c \<Rightarrow> 'c option" and A :: "'c api" and data rs and c c' :: 'c
  assume IH: "\<And>A data rs c c'. run A data rs c = Some c' \<Longrightarrow> replays A data rs c c'"
    and run: "(case rs of [] \<Rightarrow> Some c | r # rs' \<Rightarrow> Option.bind (attempt A data r c) (\<lambda>(again, c).
      run A data (if again then rs else rs') c)) = Some c'"
  show "replays A data rs c c'"
  proof (cases rs)
    case Nil
    then show ?thesis using run by (auto intro: replays.no_request)
  next
    case (Cons r rs')
    then obtain again c1 where a: "attempt A data r c = Some (again, c1)" "run A data (if again then rs else rs') c1 = Some c'"
      using run by (auto simp: bind_eq_Some_conv)
    show ?thesis
    proof (cases again)
      case True
      then have "replays A data rs c1 c'" using a(2) IH by simp
      then show ?thesis using a(1) True Cons by (auto simp: replays_simps intro: settles.retried)
    next
      case False
      then have "replays A data rs' c1 c'" using a(2) IH by simp
      then show ?thesis using a(1) False Cons by (auto simp: replays_simps intro: settles.settled)
    qed
  qed
qed

section \<open>What a replay is\<close>

text \<open>
  The specification of the program, in terms of calls of the API only. A request is a line of the trace; a history is
  a list of calls with their return values; \<open>performs\<close> says that the calls, made one after the other, return these values
  and lead from one state of the API to another.
\<close>

datatype request = CreateKey string | GetKey string | UpdateKey string | DeleteKey string

primrec request_line :: "request \<Rightarrow> string" where
  "request_line (CreateKey k) = ''create,'' @ k"
| "request_line (GetKey k) = ''get,'' @ k"
| "request_line (UpdateKey k) = ''update,'' @ k"
| "request_line (DeleteKey k) = ''delete,'' @ k"

primrec request_key :: "request \<Rightarrow> string" where
  "request_key (CreateKey k) = k"
| "request_key (GetKey k) = k"
| "request_key (UpdateKey k) = k"
| "request_key (DeleteKey k) = k"

definition request_ok :: "request \<Rightarrow> bool" where
  "request_ok r \<longleftrightarrow> token_ok CHR '','' (request_key r) \<and> line_fits MAX_SIZE (request_line r)"

inductive performs :: "'c api \<Rightarrow> string \<Rightarrow> (request \<times> int) list \<Rightarrow> 'c \<Rightarrow> 'c \<Rightarrow> bool" for A data where
  no_call: "performs A data [] c c"
| call_create: "a_create A c k data = Some (rc, c1) \<Longrightarrow> performs A data H c1 c' \<Longrightarrow> performs A data ((CreateKey k, rc) # H) c c'"
| call_read: "a_read A c k = Some (rc, v, c1) \<Longrightarrow> performs A data H c1 c' \<Longrightarrow> performs A data ((GetKey k, rc) # H) c c'"
| call_update: "a_update A c k data = Some (rc, c1) \<Longrightarrow> performs A data H c1 c' \<Longrightarrow> performs A data ((UpdateKey k, rc) # H) c c'"
| call_delete: "a_delete A c k = Some (rc, c1) \<Longrightarrow> performs A data H c1 c' \<Longrightarrow> performs A data ((DeleteKey k, rc) # H) c c'"

inductive_simps performs_simps: "performs A data [] c c'" "performs A data ((CreateKey k, rc) # H) c c'"
  "performs A data ((GetKey k, rc) # H) c c'" "performs A data ((UpdateKey k, rc) # H) c c'"
  "performs A data ((DeleteKey k, rc) # H) c c'"

text \<open>
  The return values after which a request is made again. After \<open>-EALREADY\<close>, the entry is being transferred, this is the
  case for creations only.
\<close>

primrec again_after :: "request \<Rightarrow> int set" where
  "again_after (CreateKey k) = {- EAGAIN, - EALREADY}"
| "again_after (GetKey k) = {- EAGAIN}"
| "again_after (UpdateKey k) = {- EAGAIN}"
| "again_after (DeleteKey k) = {- EAGAIN}"

text \<open>
  The answers to one request: all but the last ask for another attempt, the last does not. A session is the history of
  the requests of a trace in their order, each with its answers.
\<close>

definition answers_to :: "request \<Rightarrow> int list \<Rightarrow> bool" where
  "answers_to r as \<longleftrightarrow> as \<noteq> [] \<and> set (butlast as) \<subseteq> again_after r \<and> last as \<notin> again_after r"

definition session :: "request list \<Rightarrow> (request \<times> int) list \<Rightarrow> bool" where
  "session rs H \<longleftrightarrow> (\<exists>ass. list_all2 answers_to rs ass \<and> H = concat (map2 (\<lambda>r as. map (Pair r) as) rs ass))"

text \<open>The request as the program keeps it in its two arrays.\<close>

primrec coded :: "request \<Rightarrow> int \<times> string" where
  "coded (CreateKey k) = (1, k)"
| "coded (GetKey k) = (2, k)"
| "coded (UpdateKey k) = (3, k)"
| "coded (DeleteKey k) = (4, k)"

lemma coded_line: "trace_line (coded r) = request_line r"
  by (cases r) (simp_all add: trace_line_def type_word_def)

lemma coded_ok: "trace_ok (coded r) \<longleftrightarrow> request_ok r"
proof -
  have "fst (coded r) \<in> {1, 2, 3, 4}" "snd (coded r) = request_key r" by (cases r; simp)+
  then show ?thesis by (simp add: trace_ok_def request_ok_def coded_line)
qed

lemma attempt_performs:
  "attempt A data (coded r) c = Some (again, c1) \<longleftrightarrow> (\<exists>rc. performs A data [(r, rc)] c c1 \<and> again = (rc \<in> again_after r))"
  by (cases r) (auto simp: attempt_def performs_simps bind_eq_Some_conv)

lemma performs_append: "performs A data (H @ H') c c' \<longleftrightarrow> (\<exists>c1. performs A data H c c1 \<and> performs A data H' c1 c')"
proof (induction H arbitrary: c)
  case Nil
  then show ?case by (simp add: performs_simps)
next
  case (Cons x H)
  then show ?case by (cases x; cases "fst x") (auto simp: performs_simps)
qed

lemma performs_ConsI: "performs A data [x] c c1 \<Longrightarrow> performs A data H c1 c' \<Longrightarrow> performs A data (x # H) c c'"
  using performs_append [of A data "[x]" H c c'] by auto

lemma performs_ConsE:
  assumes "performs A data (x # H) c c'"
  obtains c1 where "performs A data [x] c c1" "performs A data H c1 c'"
  using performs_append [of A data "[x]" H c c'] assms by auto

lemma answers_to_simps: "\<not> answers_to r []" "answers_to r (rc # as) \<longleftrightarrow> (if as = [] then rc \<notin> again_after r else rc \<in> again_after r \<and> answers_to r as)"
  by (auto simp: answers_to_def)

lemma settles_performs:
  "settles A data (coded r) c c' \<Longrightarrow> \<exists>as. answers_to r as \<and> performs A data (map (Pair r) as) c c'"
proof (induction rule: settles.induct)
  case (settled c c')
  then obtain rc where "performs A data [(r, rc)] c c'" "rc \<notin> again_after r" by (auto simp: attempt_performs)
  then show ?case by (intro exI [of _ "[rc]"]) (simp add: answers_to_simps)
next
  case (retried c c1 c')
  then obtain rc as where r: "performs A data [(r, rc)] c c1" "rc \<in> again_after r"
    "answers_to r as" "performs A data (map (Pair r) as) c1 c'" by (auto simp: attempt_performs)
  have "performs A data (map (Pair r) (rc # as)) c c'" using performs_ConsI [OF r(1,4)] by simp
  moreover have "answers_to r (rc # as)" using r(2,3) by (cases as) (simp_all add: answers_to_simps)
  ultimately show ?case by blast
qed

lemma performs_settles:
  "answers_to r as \<Longrightarrow> performs A data (map (Pair r) as) c c' \<Longrightarrow> settles A data (coded r) c c'"
proof (induction as arbitrary: c)
  case (Cons rc as)
  from Cons.prems(2) have "performs A data ((r, rc) # map (Pair r) as) c c'" by simp
  then obtain c1 where c1: "performs A data [(r, rc)] c c1" "performs A data (map (Pair r) as) c1 c'"
    by (rule performs_ConsE)
  have "attempt A data (coded r) c = Some (rc \<in> again_after r, c1)" using c1(1) by (auto simp: attempt_performs)
  then show ?case
    using Cons.prems(1) c1(2) Cons.IH [OF _ c1(2)]
    by (cases "as = []") (simp_all add: answers_to_simps performs_simps settles.settled settles.retried)
qed (simp add: answers_to_simps)

lemma session_simps:
  "session [] H \<longleftrightarrow> H = []"
  "session (r # rs) H \<longleftrightarrow> (\<exists>as H'. answers_to r as \<and> session rs H' \<and> H = map (Pair r) as @ H')"
proof -
  show "session [] H \<longleftrightarrow> H = []" by (simp add: session_def)
  show "session (r # rs) H \<longleftrightarrow> (\<exists>as H'. answers_to r as \<and> session rs H' \<and> H = map (Pair r) as @ H')" (is "?l = ?r")
  proof
    assume ?l
    then obtain as ass where "answers_to r as" "list_all2 answers_to rs ass"
      "H = map (Pair r) as @ concat (map2 (\<lambda>r as. map (Pair r) as) rs ass)" by (auto simp: session_def list_all2_Cons1)
    then show ?r unfolding session_def by blast
  next
    assume ?r
    then obtain as ass where "answers_to r as" "list_all2 answers_to rs ass"
      "H = map (Pair r) as @ concat (map2 (\<lambda>r as. map (Pair r) as) rs ass)" by (auto simp: session_def)
    then show ?l unfolding session_def by (intro exI [of _ "as # ass"]) simp
  qed
qed

lemma replays_session: "replays A data (map coded rs) c c' \<longleftrightarrow> (\<exists>H. session rs H \<and> performs A data H c c')"
proof (induction rs arbitrary: c)
  case Nil
  then show ?case by (simp add: replays_simps session_simps performs_simps)
next
  case (Cons r rs)
  have "replays A data (map coded (r # rs)) c c' \<longleftrightarrow>
      (\<exists>c1 as. answers_to r as \<and> performs A data (map (Pair r) as) c c1 \<and> (\<exists>H. session rs H \<and> performs A data H c1 c'))"
    using settles_performs performs_settles by (fastforce simp: replays_simps Cons.IH)
  also have "\<dots> \<longleftrightarrow> (\<exists>H. session (r # rs) H \<and> performs A data H c c')"
    by (simp add: session_simps) (blast intro: performs_append [THEN iffD2] dest: performs_append [THEN iffD1])
  finally show ?case .
qed

section \<open>Properties\<close>

text \<open>
  C21: the client program replays its trace. With hosts it can connect to and a trace file with the lines of the requests
  \<open>rs\<close>, \<open>main\<close> returns 0 with the API in the state \<open>c\<close> exactly when a session of these requests leads to \<open>c\<close>: the
  calls of the API are those of the requests in their order, creations and updates with the data of the program, each made
  again as long as it returns \<open>-EAGAIN\<close>, a creation also as long as it returns \<open>-EALREADY\<close>, and not once more. A
  request that is never answered otherwise is a program that does not return.
\<close>

theorem client_replays_the_trace:
  assumes "context_fine V names hs" and "init (int (length hs)) = (0, t)"
    and "0 < length hs" "int (length hs) \<le> INT_MAX" and "0 < length rs" "int (length rs) \<le> INT_MAX"
    and "\<forall>r \<in> set rs. request_ok r" and "open_file path = Some (text_file (map request_line rs @ tail))"
  shows "client_main V init joined_to A True open_file old [dec (int (length hs)), dec (int (length rs)), path] = Some (0, Some c) \<longleftrightarrow>
    (\<exists>H. session rs H \<and> performs A ''a word'' H (joined_to hs t) c)"
proof -
  let ?rs = "map coded rs"
  have n: "atoi (dec (int (length hs))) = Some (int (length hs))" "atoi (dec (int (length rs))) = Some (int (length rs))"
    using atoi_dec [of _ "[]"] assms(3-6) by simp_all
  have "\<forall>r \<in> set ?rs. trace_ok r" using assms(7) by (simp add: coded_ok)
  from read_trace_ok [OF this, of old tail]
  have "read_trace old (length rs) (text_file (map request_line rs @ tail)) = Some (Next (text_file tail, ?rs))"
    by (simp add: coded_line comp_def)
  then have "client_main V init joined_to A True open_file old [dec (int (length hs)), dec (int (length rs)), path] =
      map_option (\<lambda>c. (0, Some c)) (run_requests A ''a word'' ?rs (joined_to hs t))"
    using n init_context_ok [where init = init, OF assms(1,2)] assms(3,5,8)
    by (cases "run_requests A ''a word'' ?rs (joined_to hs t)") (simp_all add: client_main_def)
  then show ?thesis
    using run_replays [of A "''a word''" ?rs "joined_to hs t" c] replays_run [of A "''a word''" ?rs "joined_to hs t" c]
    by (auto simp: replays_session)
qed

text \<open>An API that answers the first creation with \<open>-EAGAIN\<close>; its state is the list of what it was asked.\<close>

definition demo_api :: "(int \<times> string) list api" where
  "demo_api = \<lparr>a_create = (\<lambda>c key data. Some (if c = [] then - EAGAIN else 0, c @ [(1, key)])),
     a_read = (\<lambda>c key. Some (0, Some ''a word'', c @ [(2, key)])),
     a_update = (\<lambda>c key data. Some (0, c @ [(3, key)])), a_delete = (\<lambda>c key. Some (0, c @ [(4, key)]))\<rparr>"

definition demo_context :: "string context_env" where
  "demo_context = \<lparr>ce_malloc = True, ce_hosts = Some (text_file [''h0'']), ce_malloc_id = True, ce_connect = Some\<rparr>"

lemma demo_context_fine: "context_fine demo_context [''h0''] [''h0'']"
  by (simp add: context_fine_def demo_context_def line_fits_def max_id_size_def)

lemma demo_requests_ok: "\<forall>r \<in> set [CreateKey ''k'', DeleteKey ''k'']. request_ok r"
  by (simp add: request_ok_def token_ok_def line_fits_def MAX_SIZE_def)

theorem client_replays_the_trace_witness:
  "client_main demo_context (\<lambda>nb. (0, None)) (\<lambda>hs t. []) demo_api True
      (\<lambda>_. Some (text_file (map request_line [CreateKey ''k'', DeleteKey ''k''] @ []))) (\<lambda>_. 7)
      [dec (int (length [''h0''])), dec (int (length [CreateKey ''k'', DeleteKey ''k''])), ''trace''] =
    Some (0, Some [(1, ''k''), (1, ''k''), (4, ''k'')])"
proof -
  have "session [CreateKey ''k'', DeleteKey ''k''] [(CreateKey ''k'', - EAGAIN), (CreateKey ''k'', 0), (DeleteKey ''k'', 0)]"
    unfolding session_def by (rule exI [of _ "[[- EAGAIN, 0], [0]]"]) (simp add: answers_to_def EAGAIN_def EALREADY_def)
  moreover have "performs demo_api ''a word'' [(CreateKey ''k'', - EAGAIN), (CreateKey ''k'', 0), (DeleteKey ''k'', 0)] []
      [(1, ''k''), (1, ''k''), (4, ''k'')]"
    by (simp add: performs_simps demo_api_def)
  ultimately show ?thesis
    using client_replays_the_trace [where joined_to = "\<lambda>hs t. []" and init = "\<lambda>nb. (0, None)" and A = demo_api and tail = "[]" and path = "''trace''"
        and open_file = "\<lambda>_. Some (text_file (map request_line [CreateKey ''k'', DeleteKey ''k''] @ []))" and old = "\<lambda>_. 7",
        OF demo_context_fine _ _ _ _ _ demo_requests_ok]
    by (simp add: INT_MAX_def) blast
qed

text \<open>
  A line of the trace that is too long. When the line of a creation has more than 49
  characters, the program makes the request with the first 42 characters of the key, and takes the rest of the line for
  the next request: it has no comma, hence no key, and \<open>asprintf\<close> is called with \<open>NULL\<close>.
\<close>

theorem long_line_breaks_the_trace:
  assumes "CHR '','' \<notin> set key" "newline \<notin> set key" "c_string key" and "42 < length key" "length key < 42 + 48"
  shows "read_trace old 1 (text_file (trace_line (1, key) # tail)) = Some (Next (drop 42 key @ newline # text_file tail, [(1, take 42 key)])) \<and>
    read_trace old 2 (text_file (trace_line (1, key) # tail)) = None"
proof -
  let ?l = "''create,'' @ key"
  have "fgets MAX_SIZE (?l @ newline # text_file tail) = Some (take (MAX_SIZE - 1) ?l, drop (MAX_SIZE - 1) ?l @ newline # text_file tail)"
    by (rule fgets_piece) (use assms in \<open>simp_all add: MAX_SIZE_def\<close>)
  then have one: "fgets MAX_SIZE (?l @ newline # text_file tail) = Some (''create,'' @ take 42 key, drop 42 key @ newline # text_file tail)"
    by (simp add: MAX_SIZE_def)
  have sub: "set (take 42 key) \<subseteq> set key" "set (drop 42 key) \<subseteq> set key" by (simp_all add: set_take_subset set_drop_subset)
  have t1: "up_to_nul (''create,'' @ take 42 key) = ''create,'' @ take 42 key" "newline \<notin> set (''create,'' @ take 42 key)"
    using assms(2,3) sub(1) by (auto simp: up_to_nul_def c_string_def takeWhile_eq_all_conv)
  have tok: "token_ok CHR '','' (take 42 key)" "token_ok CHR '','' (drop 42 key)" "token_ok CHR '','' ''create''"
    using assms(1,4) sub by (auto simp: token_ok_def)
  have p1: "parse_line (''create,'' @ take 42 key) t = Some (1, take 42 key)" for t
    using strtok_token(1) [OF tok(3), of "take 42 key"] strtok_token(2) [OF tok(1)] by (simp add: parse_line_def type_code_def)
  have fit: "line_fits MAX_SIZE (drop 42 key)" using assms(2,3,5) sub(2) by (auto simp: line_fits_def MAX_SIZE_def c_string_def)
  have p2: "parse_line (drop 42 key) t = None" for t
    using strtok_token(2) [OF tok(2)] by (simp add: parse_line_def strtok_def)
  have "[0..<2] = [0, Suc 0]" by (simp add: numeral_2_eq_2)
  then show ?thesis
    using one line_read [OF fit] t1 p1 p2 by (simp add: read_trace_def trace_line_def type_word_def)
qed

theorem long_line_breaks_the_trace_witness:
  "read_trace (\<lambda>_. 0) 2 (text_file [trace_line (1, replicate 50 (CHR ''k''))]) = None"
  using long_line_breaks_the_trace [of "replicate 50 (CHR ''k'')" "\<lambda>_. 0" "[]"] by (simp add: c_string_def)

section \<open>The program over the API\<close>

text \<open>The functions of \<open>client_api.c\<close> as the program calls them, and the static variables at its start.\<close>

definition program_api ::
  "'j json \<Rightarrow> 'j dist_method \<Rightarrow> lock_env \<Rightarrow> ('h \<Rightarrow> 'j \<Rightarrow> ('j \<times> 'h) option) \<Rightarrow> 'h client api" where
  "program_api J M E serve =
     \<lparr>a_create = (\<lambda>c key data. client_request_create J M E serve True c key data),
      a_read = (\<lambda>c key. client_request_read J M E serve True c key),
      a_update = (\<lambda>c key data. client_request_update J M E serve True c key data),
      a_delete = (\<lambda>c key. client_request_delete J M E serve True c key)\<rparr>"

definition program_start :: "'h list \<Rightarrow> mlt option \<Rightarrow> 'h client" where
  "program_start hs t = \<lparr>cl_table = the t, cl_next = 0, cl_servers = hs\<rparr>"

text \<open>The table of a client that has just started.\<close>

lemma fresh_client:
  assumes N: "0 < N" "int N \<le> INT_MAX" and hs: "0 < length hs"
  obtains t where "distribution_init_c (\<lambda>nb. mlt_init True True True 0 True (int N) nb) (int (length hs)) = (0, Some t)"
    "client_ok N (program_start hs (Some t))" "\<And>i. i < N \<Longrightarrow> mlt_row t i = (int (i mod length hs), 0, 0)"
proof -
  obtain t where t: "mlt_init True True True 0 True (int N) (int (length hs)) = (0, Some t)" "mlt_wf t" "mlt_len t = N"
    "\<And>i. i < N \<Longrightarrow> mlt_row t i = (int (i mod length hs), 0, 0)"
    using mlt_init_ok [of "int N" "int (length hs)"] mlt_row_of_init [of "int N" _ "int (length hs)"] N hs
    by (auto simp: mlt_row_def int_of_u32_def zmod_int)
  have "client_ok N (program_start hs (Some t))"
    using t(2-4) N hs by (auto simp: client_ok_def program_start_def)
  then show thesis using t(1,4) that by (simp add: distribution_init_c_def)
qed

text \<open>
  C16: the client program, the API and the servers together: a program that starts with the initial table and finds
  the entry of its key moved to another server ends, and \<open>main\<close> returns 0. It has made its request exactly twice: two
  numbers of requests are used, the old and the new owner have each counted one request, and nothing else has changed on the old
  owner, nothing at all on the other servers. The storage of the new owner has the key with the data of the program in addition to
  what it had, so that a key that was nowhere is on the new owner only, and the table has the new row.
\<close>

theorem program_follows_moved_entry:
  assumes J: "json_laws J" and N: "0 < N" "int N \<le> INT_MAX"
    and V: "context_fine V names hs" "0 < length hs" "int (length hs) \<le> INT_MAX"
    and key: "entry_of_key N key = Some (int i)" "i < N" "trace_ok (1, key)"
    and k: "k1 = i mod length hs" "k2 < length hs" "k1 \<noteq> k2"
    and srv1: "server_ok eacl_wf_windowed eacl_len N (ho_sv (hs ! k1)) L1"
      "mlt_row (sv_table (ho_sv (hs ! k1))) i = (int k2, v, 0)" "v \<noteq> 0"
    and srv2: "server_ok eacl_wf_windowed eacl_len N (ho_sv (hs ! k2)) L2"
      "mlt_row (sv_table (ho_sv (hs ! k2))) i = (int k2, v, 0)"
    and store: "io_good io ''a word''" "stored (ho_store (hs ! k2)) key = None" "sv_heap (ho_sv (hs ! k2)) (alloc (hs ! k2)) = None"
    and n: "int_ok (ho_access (hs ! k1) + 1)" "int_ok (ho_access (hs ! k2) + 1)"
  shows "\<exists>cl. client_main V (distribution_init_c (\<lambda>nb. mlt_init True True True 0 True (int N) nb)) program_start
      (program_api J (method_windowed J N) locks_work (serve_windowed J io alloc fill)) True
      (\<lambda>_. Some (text_file (map trace_line [(1, key)] @ []))) old [dec (int (length hs)), dec (int (length [(1 :: int, key)])), path]
        = Some (0, Some cl) \<and>
    cl_next cl = 2 \<and> length (cl_servers cl) = length hs \<and>
    cl_servers cl ! k1 = (hs ! k1)\<lparr>ho_access := ho_access (hs ! k1) + 1\<rparr> \<and>
    ho_access (cl_servers cl ! k2) = ho_access (hs ! k2) + 1 \<and>
    (\<forall>k. k \<noteq> k1 \<and> k \<noteq> k2 \<longrightarrow> cl_servers cl ! k = hs ! k) \<and>
    (\<forall>x. stored (ho_store (cl_servers cl ! k2)) x = (if x = key then Some ''a word'' else stored (ho_store (hs ! k2)) x)) \<and>
    ((\<forall>k < length hs. stored (ho_store (hs ! k)) key = None) \<longrightarrow>
      (\<forall>k < length hs. stored (ho_store (cl_servers cl ! k)) key = (if k = k2 then Some ''a word'' else None))) \<and>
    mlt_row (cl_table cl) i = (int k2, v, 0)"
proof -
  obtain t where t: "distribution_init_c (\<lambda>nb. mlt_init True True True 0 True (int N) nb) (int (length hs)) = (0, Some t)"
    "client_ok N (program_start hs (Some t))" "\<And>i. i < N \<Longrightarrow> mlt_row t i = (int (i mod length hs), 0, 0)"
    using fresh_client [OF N V(2)] by blast
  let ?c = "program_start hs (Some t)" and ?A = "program_api J (method_windowed J N) locks_work (serve_windowed J io alloc fill)"
  have c: "cl_servers ?c = hs" "cl_table ?c = t" "cl_next ?c = 0" by (simp_all add: program_start_def)
  have row: "mlt_row (cl_table ?c) i = (int k1, 0, 0)" using t(3) key(2) k(1) c by simp
  have kk: "k1 < length (cl_servers ?c)" "k2 < length (cl_servers ?c)" "k1 \<noteq> k2" using k V(2) c by simp_all
  have h: "hs ! k1 = cl_servers ?c ! k1" "hs ! k2 = cl_servers ?c ! k2" using c by simp_all
  have m: "int_ok (cl_next ?c + 2)" "0 \<le> cl_next ?c" using c by (simp_all add: int_ok_def INT_MIN_def INT_MAX_def)
  have v: "0 \<noteq> v" using srv1(3) by simp
  let ?serve = "reach J (\<lambda>e. eacl_incr_access_windowed (Some e)) io alloc fill"
  have api: "a_create ?A = client_request_create J (method_dh J N) locks_work ?serve True"
    by (simp add: program_api_def serve_reach method_same)
  from sl_windowed.client_create_moved [where alloc = alloc and fill = fill and data = "''a word''", OF J t(2) key(1,2) row kk h srv1(1,2) v srv2 store n m]
  obtain c1 c2 where two: "a_create ?A ?c key ''a word'' = Some (- EAGAIN, c1)" "a_create ?A c1 key ''a word'' = Some (0, c2)"
    "mlt_row (cl_table c2) i = (int k2, v, 0)" "cl_next c2 = cl_next ?c + 2" "length (cl_servers c2) = length (cl_servers ?c)"
    "cl_servers c2 ! k1 = (hs ! k1)\<lparr>ho_access := ho_access (hs ! k1) + 1\<rparr>"
    "ho_access (cl_servers c2 ! k2) = ho_access (hs ! k2) + 1"
    "\<forall>k. k \<noteq> k1 \<and> k \<noteq> k2 \<longrightarrow> cl_servers c2 ! k = cl_servers ?c ! k"
    "\<forall>x. stored (ho_store (cl_servers c2 ! k2)) x = (if x = key then Some ''a word'' else stored (ho_store (hs ! k2)) x)"
    unfolding api by blast
  note two = two [unfolded c]
  have "settles ?A ''a word'' (1, key) ?c c2"
    by (rule settles.retried [where ?c1.0 = c1], simp add: attempt_def two(1), rule settles.settled)
      (simp add: attempt_def two(2) EAGAIN_def EALREADY_def)
  then have "replays ?A ''a word'' [(1, key)] ?c c2" by (simp add: replays_simps)
  then have "run_requests ?A ''a word'' [(1, key)] ?c = Some c2" by (rule run_replays)
  moreover have "atoi (dec (int (length hs))) = Some (int (length hs))" "atoi (dec (int (length [(1 :: int, key)]))) = Some 1"
    using atoi_dec [of _ "[]"] V by (simp_all add: INT_MAX_def)
  moreover have "read_trace old (length [(1 :: int, key)]) (text_file (map trace_line [(1, key)] @ [])) = Some (Next (text_file [], [(1, key)]))"
    by (rule read_trace_ok) (use key(3) in simp)
  ultimately have "client_main V (distribution_init_c (\<lambda>nb. mlt_init True True True 0 True (int N) nb)) program_start ?A True
      (\<lambda>_. Some (text_file (map trace_line [(1, key)] @ []))) old [dec (int (length hs)), dec (int (length [(1 :: int, key)])), path]
        = Some (0, Some c2)"
    using init_context_ok [where init = "distribution_init_c (\<lambda>nb. mlt_init True True True 0 True (int N) nb)", OF V(1) t(1)] V(2)
    by (simp add: client_main_def)
  moreover have "\<forall>k < length hs. stored (ho_store (cl_servers c2 ! k)) key = (if k = k2 then Some ''a word'' else None)"
    if none: "\<forall>k < length hs. stored (ho_store (hs ! k)) key = None"
  proof (intro allI impI)
    fix k assume "k < length hs"
    then show "stored (ho_store (cl_servers c2 ! k)) key = (if k = k2 then Some ''a word'' else None)"
      using none two(6,8,9) by (cases "k = k1"; cases "k = k2") simp_all
  qed
  moreover have "cl_next c2 = 2" using two(4) by simp
  ultimately show ?thesis using two(3,5-9) by blast
qed

text \<open>Two hosts with the servers of the cluster of \<open>Cluster\<close>, where both entries are on the second server.\<close>

definition moved_context :: "eacl_windowed host context_env" where
  "moved_context = \<lparr>ce_malloc = True, ce_hosts = Some (text_file [''h0'', ''h1'']), ce_malloc_id = True,
     ce_connect = (\<lambda>n. Some (cluster_host cluster_list_windowed 1 (if n = ''h0'' then 0 else 1)))\<rparr>"

theorem program_follows_moved_entry_witness:
  "\<exists>cl. client_main moved_context (distribution_init_c (\<lambda>nb. mlt_init True True True 0 True (int 2) nb)) program_start
      (program_api map_json (method_windowed map_json 2) locks_work (serve_windowed map_json io_fine (\<lambda>_. 0) cluster_cell)) True
      (\<lambda>_. Some (text_file (map trace_line [(1, ''test'')] @ []))) (\<lambda>_. 0)
      [dec (int (length [cluster_host cluster_list_windowed 1 0, cluster_host cluster_list_windowed 1 1])),
       dec (int (length [(1 :: int, ''test'')])), ''trace''] = Some (0, Some cl) \<and>
     cl_next cl = 2 \<and> stored (ho_store (cl_servers cl ! 1)) ''test'' = Some ''a word''"
proof -
  let ?hs = "[cluster_host cluster_list_windowed 1 0, cluster_host cluster_list_windowed 1 1]"
  have V: "context_fine moved_context [''h0'', ''h1''] ?hs"
    by (simp add: context_fine_def moved_context_def line_fits_def max_id_size_def)
  have key: "entry_of_key 2 ''test'' = Some (int 0)" "trace_ok (1, ''test'')"
    using cluster_key by (simp_all add: trace_ok_def token_ok_def line_fits_def MAX_SIZE_def trace_line_def type_word_def)
  have ok: "server_ok eacl_wf_windowed eacl_len 2 (ho_sv (cluster_host cluster_list_windowed 1 s)) [[], []]" for s
    by (rule cluster_server_ok) (simp_all add: cluster_lists)
  have row: "mlt_row (sv_table (ho_sv (cluster_host cluster_list_windowed 1 s))) 0 = (int 1, 1, 0)" for s
    using cluster_row [of 0 1] by (simp add: cluster_host_def int_of_u32_def)
  have io: "io_good io_fine ''a word''" by (simp add: io_good_def io_fine_def BUF_GET_def)
  have st: "stored (ho_store (?hs ! 1)) ''test'' = None" "sv_heap (ho_sv (?hs ! 1)) 0 = None"
    "int_ok (ho_access (?hs ! 0) + 1)" "int_ok (ho_access (?hs ! 1) + 1)"
    by (simp_all add: cluster_host_def stored_def int_ok_def INT_MAX_def INT_MIN_def)
  have n: "0 < (2 :: nat)" "int 2 \<le> INT_MAX" "0 < length ?hs" "int (length ?hs) \<le> INT_MAX" "0 < (2 :: nat)" "0 = 0 mod length ?hs" "1 < length ?hs"
    "(0 :: nat) \<noteq> 1" "(1 :: int) \<noteq> 0"
    by (simp_all add: INT_MAX_def)
  have r: "mlt_row (sv_table (ho_sv (?hs ! 0))) 0 = (int 1, 1, 0)" "mlt_row (sv_table (ho_sv (?hs ! 1))) 0 = (int 1, 1, 0)"
    using row by simp_all
  have o: "server_ok eacl_wf_windowed eacl_len 2 (ho_sv (?hs ! 0)) [[], []]" "server_ok eacl_wf_windowed eacl_len 2 (ho_sv (?hs ! 1)) [[], []]"
    using ok by simp_all
  from program_follows_moved_entry [where alloc = "\<lambda>_. 0" and fill = cluster_cell and old = "\<lambda>_. 0" and path = "''trace''",
      OF map_json_laws n(1,2) V n(3,4) key(1) n(5) key(2) n(6-8) o(1) r(1) n(9) o(2) r(2) io st]
  show ?thesis by (elim exE conjE) (intro exI conjI, assumption+, simp)
qed

end
