(* ===== verification/Tools.thy ===== *)
theory Tools
  imports Client_Main
begin

text \<open>
  The small program \<open>check_index.c\<close> beside the servers and the clients: the entry of a key and the server of that entry
  in the table all programs start with. Its agreement with the placement of requests by a client is the equivalence
  proved here.
\<close>

section \<open>\<open>check_index.c\<close>\<close>

text \<open>
  The tool prints the entry of a key and the server the initial table assigns it: the result is the exit code and what
  is printed.
\<close>

definition check_index ::
  "nat \<Rightarrow> (int \<Rightarrow> int \<times> mlt option) \<Rightarrow> lock_env \<Rightarrow> string list \<Rightarrow> (int \<times> (string \<times> int \<times> int) option) option" where
  "check_index N init E argv =
     (case argv of
        name # nb # _ \<Rightarrow> do {
          nb \<leftarrow> atoi nb;
          let (rc, t) = init nb;
          if rc \<noteq> 0 then Some (-1, None)
          else do {
            h_out \<leftarrow> MurmurHash3_x86_32 (bytes_of name) (int (length name)) 1;
            index \<leftarrow> (if N = 0 then None else Some (int (unat h_out mod N)));
            (rc, out) \<leftarrow> mlt_get_entry E t index True;
            Some (case (if rc \<noteq> 0 then None else out) of
                None \<Rightarrow> (-1, None)
              | Some (num_srv, version, state) \<Rightarrow> (0, Some (name, index, num_srv)))
          }
        }
      | _ \<Rightarrow> Some (-1, None))"

section \<open>The tool and the clients agree\<close>

text \<open>
  C38: the tool and the clients agree: what \<open>check_index\<close> prints for a key and a number of servers is the entry and
  the server to which a client that has just started with as many servers addresses a request for the key.
\<close>

theorem check_index_is_the_clients_choice:
  assumes J: "json_laws J" and N: "0 < N" "int N \<le> INT_MAX" and hs: "0 < length hs" "int (length hs) \<le> INT_MAX"
    and r: "j_has J r ''key''" "j_str J r ''key'' = key"
  shows "\<exists>t i s r'. distribution_init_c (\<lambda>nb. mlt_init True True True 0 True (int N) nb) (int (length hs)) = (0, Some t) \<and>
    check_index N (\<lambda>nb. mlt_init True True True 0 True (int N) nb) locks_work [key, dec (int (length hs))] = Some (0, Some (key, i, s)) \<and>
    me_pre (method_windowed J N) locks_work t r = Some (0, r') \<and> j_int J r' ''index'' = i \<and> j_int J r' ''id_srv'' = s \<and>
    s = i mod int (length hs)"
proof -
  obtain t where t: "distribution_init_c (\<lambda>nb. mlt_init True True True 0 True (int N) nb) (int (length hs)) = (0, Some t)"
    "client_ok N (program_start hs (Some t))" "\<And>i. i < N \<Longrightarrow> mlt_row t i = (int (i mod length hs), 0, 0)"
    using fresh_client [OF N hs(1)] by blast
  obtain i where i: "i < N" "entry_of_key N key = Some (int i)" using entry_of_key_ok [OF N(1)] by blast
  have wf: "mlt_wf t" "mlt_len t = N" using t(2) by (auto simp: client_ok_def program_start_def)
  have row: "mlt_row t i = (int (i mod length hs), 0, 0)" by (rule t(3) [OF i(1)])
  have init: "mlt_init True True True 0 True (int N) (int (length hs)) = (0, Some t)"
    using t(1) by (auto simp: distribution_init_c_def split: prod.splits if_splits)
  have h: "\<exists>h. MurmurHash3_x86_32 (bytes_of key) (int (length key)) 1 = Some h \<and> unat h mod N = i"
    using i(2) N(1) by (auto simp: entry_of_key_def bind_eq_Some_conv)
  have a: "atoi (dec (int (length hs))) = Some (int (length hs))" using atoi_dec [of _ "[]"] hs by simp
  have "check_index N (\<lambda>nb. mlt_init True True True 0 True (int N) nb) locks_work [key, dec (int (length hs))] =
      Some (0, Some (key, int i, int (i mod length hs)))"
    using h N(1) a init mlt_get_in [OF wf(1), of i locks_work] wf(2) i(1) row
    by (auto simp: check_index_def locks_work_def)
  moreover have "me_pre (method_windowed J N) locks_work t r = Some (0, addressed J r i (int (i mod length hs)) 0)"
    using pre_send_c_ok [of J r N i t "int (i mod length hs)" 0 0] r i wf row by (simp add: method_same method_dh_def)
  moreover have "int_ok (int i)" "int_ok (int (i mod length hs))"
    using i(1) N hs by (auto simp: int_ok_def INT_MIN_def intro: order_trans [of _ "int (length hs)"])
  ultimately show ?thesis using t(1) json_simps [OF J] by (simp add: addressed_def zmod_int)
qed

theorem check_index_is_the_clients_choice_witness:
  "\<exists>i s. check_index 5 (\<lambda>nb. mlt_init True True True 0 True (int 5) nb) locks_work [''k'', dec (int (length [(), ()]))] = Some (0, Some (''k'', i, s)) \<and>
     s = i mod int (length [(), ()])"
proof -
  have "j_has map_json [''key'' \<mapsto> JStr ''k''] ''key''" "j_str map_json [''key'' \<mapsto> JStr ''k''] ''key'' = ''k''"
    by (simp_all add: map_json_def)
  moreover have "0 < (5 :: nat)" "int 5 \<le> INT_MAX" "0 < length [(), ()]" "int (length [(), ()]) \<le> INT_MAX"
    by (simp_all add: INT_MAX_def)
  ultimately show ?thesis
    using check_index_is_the_clients_choice [OF map_json_laws, of 5 "[(), ()]" "[''key'' \<mapsto> JStr ''k'']" "''k''"] by blast
qed

end
