(* ===== verification/Same_Text.thy ===== *)
theory Same_Text
  imports Manager_Start Tools Redistribution
begin

text \<open>
  The methods are files with the same functions. Where the text of a function is the same in several files, the other theories
  translate one of them; here are the others by name, so that each file has its function in the model.
\<close>

section \<open>\<open>manager_v2_indedh.c\<close>, as \<open>manager_windowed.c\<close>\<close>

definition manager_init_v2 where "manager_init_v2 = manager_init"
definition usrHandler2_v2 where "usrHandler2_v2 = usrHandler2"
definition manager_merge_eacl_v2 where "manager_merge_eacl_v2 = manager_merge_eacl"
definition manager_sort_subset_v2 where "manager_sort_subset_v2 = manager_sort_subset"
definition manager_balance_load_v2 where "manager_balance_load_v2 = manager_balance_load_windowed"

section \<open>\<open>manager_indedh.c\<close>, as \<open>manager_windowed.c\<close> and \<open>manager_dh.c\<close>\<close>

definition manager_init_indedh where "manager_init_indedh = manager_init"
definition usrHandler2_indedh where "usrHandler2_indedh = usrHandler2"
definition manager_merge_eacl_indedh where "manager_merge_eacl_indedh = manager_merge_eacl"
definition qsort_comparator_indedh where "qsort_comparator_indedh = qsort_comparator"
definition manager_balance_load_indedh where "manager_balance_load_indedh = manager_balance_load_dh"
definition find_index_indedh where "find_index_indedh = find_index"

section \<open>\<open>manager_dh.c\<close>, as \<open>manager_windowed.c\<close>\<close>

definition manager_merge_eacl_dh where "manager_merge_eacl_dh = manager_merge_eacl"

section \<open>The servers, as \<open>distribution_dh_s.c\<close>\<close>

definition cut_indedh where "cut_indedh = cut"
definition cut_windowed where "cut_windowed = cut"
definition load_args_sort_indedh where "load_args_sort_indedh = load_args_sort"
definition load_args_sort_windowed where "load_args_sort_windowed = load_args_sort"

section \<open>The clients\<close>

definition distribution_init_c_dh where "distribution_init_c_dh = distribution_init_c"
definition distribution_init_c_indedh where "distribution_init_c_indedh = distribution_init_c"
definition distribution_assign_srv_by_key_indedh where "distribution_assign_srv_by_key_indedh = distribution_assign_srv_by_key"
definition distribution_assign_srv_by_key_windowed where "distribution_assign_srv_by_key_windowed = distribution_assign_srv_by_key"

end
