(* ===== verification/Gen_Timestep.thy ===== *)
theory Gen_Timestep
  imports Tools
begin

text \<open>
  \<open>gen_timestep.c\<close>: it generates one step of a trace for one server of the static method. The two limits the program computes in
  floating point, \<open>max_request * factor\<close> and \<open>1 / factor - 1\<close>, are compared with integers only: these
  comparisons are the arguments \<open>fl_keys\<close> and \<open>fl_updates\<close>. The result is the exit code with the content of the file.
\<close>

section \<open>The code\<close>

record float_env =
  fl_keys :: "int \<Rightarrow> string \<Rightarrow> int \<Rightarrow> bool"
  fl_updates :: "string \<Rightarrow> int \<Rightarrow> bool"

definition gen_name :: "string \<Rightarrow> u64 \<Rightarrow> string" where
  "gen_name ts k = ''step'' @ ts @ ''_'' @ dec (sint k)"

definition gen_line :: "string \<Rightarrow> string \<Rightarrow> u64 \<Rightarrow> string" where
  "gen_line ts type k = ts @ '','' @ type @ '','' @ gen_name ts k @ '','' @ dec (sint k) @ [CHR 0x0A]"

text \<open>The inner loop: updates of a key until their number or the number of all requests is reached.\<close>

function gen_updates :: "(int \<Rightarrow> bool) \<Rightarrow> int \<Rightarrow> string \<Rightarrow> int \<Rightarrow> int \<Rightarrow> string \<Rightarrow> (int \<times> int \<times> string) option" where
  "gen_updates again max_request l req all_req out =
     (if \<not> again req then Some (req, all_req, out)
      else
        let out = out @ l; n = all_req + 1 in
        if \<not> int_ok (req + 1) \<or> \<not> int_ok n \<or> \<not> int_ok (max_request - 1) then None
        else if max_request - 1 \<le> n then Some (req + 1, n, out)
        else gen_updates again max_request l (req + 1) n out)"
  by pat_completeness auto
termination by (relation "measure (\<lambda>(again, m, l, req, n, out). nat (m - n))") auto

declare gen_updates.simps [simp del]

definition gen_key :: "(int \<Rightarrow> bool) \<Rightarrow> int \<Rightarrow> string \<Rightarrow> u64 \<Rightarrow> int \<Rightarrow> string \<Rightarrow> (int \<times> string) option" where
  "gen_key again max_request ts k all_req out = do {
     let out = out @ gen_line ts ''create'' k;
     n \<leftarrow> c_int (all_req + 1);
     (req, n, out) \<leftarrow> gen_updates again max_request (gen_line ts ''update'' k) 1 n out;
     let out = out @ gen_line ts ''delete'' k;
     req \<leftarrow> c_int (req + 1);
     n \<leftarrow> c_int (n + 1);
     Some (n, out)
   }"

definition key_server :: "int \<Rightarrow> string \<Rightarrow> int option" where
  "key_server nb_srv name = do {
     h_out \<leftarrow> MurmurHash3_x86_32 (bytes_of name) (int (length name)) 1;
     if u32_of_int nb_srv = 0 then None else Some (int_of_u32 (h_out mod u32_of_int nb_srv))
   }"

partial_function (option) gen_keys ::
    "(int \<Rightarrow> bool) \<Rightarrow> (int \<Rightarrow> bool) \<Rightarrow> int \<Rightarrow> int \<Rightarrow> int \<Rightarrow> string \<Rightarrow> u64 \<Rightarrow> int \<Rightarrow> int \<Rightarrow> string \<Rightarrow> string option" where
  "gen_keys more_keys more_updates srv_id nb_srv max_request ts k n_key all_req out =
     (if \<not> more_keys n_key then Some out
      else Option.bind (key_server nb_srv (gen_name ts k)) (\<lambda>num_srv.
        if num_srv = srv_id then
          Option.bind (gen_key more_updates max_request ts k all_req out) (\<lambda>r. case r of (n, out) \<Rightarrow>
            Option.bind (c_int (n_key + 1)) (\<lambda>n_key.
              gen_keys more_keys more_updates srv_id nb_srv max_request ts (k + 1) n_key n out))
        else gen_keys more_keys more_updates srv_id nb_srv max_request ts (k + 1) n_key all_req out))"

definition gen_timestep :: "float_env \<Rightarrow> bool \<Rightarrow> string list \<Rightarrow> string \<Rightarrow> (int \<times> string) option" where
  "gen_timestep F fopen argv file =
     (case argv of
        srv_txt # max_req # factor # nb # ts # path # _ \<Rightarrow> do {
          srv_id \<leftarrow> atoi srv_txt;
          max_request \<leftarrow> atoi max_req;
          nb_srv \<leftarrow> atoi nb;
          if \<not> fopen then Some (-1, file)
          else do {
            out \<leftarrow> gen_keys (fl_keys F max_request factor) (fl_updates F factor) srv_id nb_srv max_request ts 0 0 0 file;
            Some (0, out)
          }
        }
      | _ \<Rightarrow> Some (-1, file))"

section \<open>What is written\<close>

definition job_lines :: "string \<Rightarrow> u64 \<Rightarrow> nat \<Rightarrow> string" where
  "job_lines ts k m = gen_line ts ''create'' k @ concat (replicate m (gen_line ts ''update'' k)) @ gen_line ts ''delete'' k"

lemma gen_updates_ok:
  assumes "1 \<le> req" "req \<le> n" "n + 1 \<le> INT_MAX" "max_request \<le> INT_MAX" "0 \<le> max_request"
  shows "\<exists>m. gen_updates again max_request l req n out = Some (req + int m, n + int m, out @ concat (replicate m l)) \<and>
    (\<forall>j < m. again (req + int j)) \<and> (m = 0 \<longleftrightarrow> \<not> again req) \<and> (n + int m \<le> n + 1 \<or> n + int m < max_request)"
  using assms
proof (induction again max_request l req n out rule: gen_updates.induct)
  case (1 again max_request l req n out)
  have ok: "int_ok (req + 1)" "int_ok (n + 1)" "int_ok (max_request - 1)" using "1.prems" by (auto simp: int_ok_def INT_MIN_def)
  show ?case
  proof (cases "again req \<and> n + 1 < max_request - 1")
    case True
    then have "\<exists>m. gen_updates again max_request l (req + 1) (n + 1) (out @ l) = Some (req + 1 + int m, n + 1 + int m, (out @ l) @ concat (replicate m l)) \<and>
        (\<forall>j < m. again (req + 1 + int j)) \<and> (m = 0 \<longleftrightarrow> \<not> again (req + 1)) \<and> (n + 1 + int m \<le> n + 1 + 1 \<or> n + 1 + int m < max_request)"
      using "1.IH" [OF _ refl refl] "1.prems" ok by auto
    then obtain m where m: "gen_updates again max_request l (req + 1) (n + 1) (out @ l) = Some (req + 1 + int m, n + 1 + int m, (out @ l) @ concat (replicate m l))"
      "\<forall>j < m. again (req + 1 + int j)" "n + 1 + int m \<le> n + 1 + 1 \<or> n + 1 + int m < max_request" by blast
    have "gen_updates again max_request l req n out = gen_updates again max_request l (req + 1) (n + 1) (out @ l)"
      using True ok by (subst gen_updates.simps) (simp add: Let_def)
    moreover have "\<forall>j < Suc m. again (req + int j)"
    proof (intro allI impI)
      fix j assume "j < Suc m"
      then show "again (req + int j)" using True m(2) by (cases j) (auto simp: add.assoc)
    qed
    ultimately show ?thesis using m(1,3) True by (intro exI [of _ "Suc m"]) auto
  next
    case False
    then show ?thesis
    proof (cases "again req")
      case True
      then have "gen_updates again max_request l req n out = Some (req + 1, n + 1, out @ l)"
        using False ok by (subst gen_updates.simps) (simp add: Let_def)
      then show ?thesis using True by (intro exI [of _ 1]) simp
    qed (auto simp: gen_updates.simps [of again max_request l req n out])
  qed
qed

lemma gen_key_ok:
  assumes "0 \<le> n" "n + 3 \<le> INT_MAX" "max_request + 1 \<le> INT_MAX" "0 \<le> max_request"
  shows "\<exists>m n'. gen_key again max_request ts k n out = Some (n', out @ job_lines ts k m) \<and> 0 \<le> n' \<and> (n' \<le> n + 3 \<or> n' \<le> max_request) \<and>
    (\<forall>j < m. again (1 + int j)) \<and> (m = 0 \<longleftrightarrow> \<not> again 1)"
proof -
  have n: "1 \<le> n + 1" "n + 1 + 1 \<le> INT_MAX" "max_request \<le> INT_MAX" using assms by simp_all
  from gen_updates_ok [OF _ n(1) n(2) n(3) assms(4), of again "gen_line ts ''update'' k" "out @ gen_line ts ''create'' k"] obtain m where
    m: "gen_updates again max_request (gen_line ts ''update'' k) 1 (n + 1) (out @ gen_line ts ''create'' k) =
      Some (1 + int m, n + 1 + int m, (out @ gen_line ts ''create'' k) @ concat (replicate m (gen_line ts ''update'' k)))"
    "\<forall>j < m. again (1 + int j)" "m = 0 \<longleftrightarrow> \<not> again 1" "n + 1 + int m \<le> n + 1 + 1 \<or> n + 1 + int m < max_request" by auto
  have c: "int_ok (n + 1)" "int_ok (2 + int m)" "int_ok (2 + (n + int m))"
    using assms m(4) by (auto simp: int_ok_def INT_MIN_def)
  have "gen_key again max_request ts k n out = Some (n + 2 + int m, out @ job_lines ts k m)"
    using m(1) c by (simp add: gen_key_def Let_def job_lines_def c_int_ok)
  then show ?thesis using m(2-4) assms(1) by (intro exI [of _ m] exI [of _ "n + 2 + int m"]) auto
qed

lemma key_server_ok:
  assumes "0 < nb" "nb \<le> INT_MAX"
  shows "\<exists>s. key_server nb name = Some s \<and> 0 \<le> s \<and> s < nb"
proof -
  have u: "uint (u32_of_int nb) = nb" using assms by (intro uint_u32_of_int) (auto simp: int_ok_def INT_MIN_def)
  obtain h where h: "MurmurHash3_x86_32 (bytes_of name) (int (length name)) 1 = Some h" by (simp add: MurmurHash3_x86_32_def bytes_of_def)
  have "uint (h mod u32_of_int nb) = uint h mod nb" using u by (simp add: uint_mod)
  then have "0 \<le> uint (h mod u32_of_int nb) \<and> uint (h mod u32_of_int nb) < nb" using assms(1) by simp
  moreover from this have "int_of_u32 (h mod u32_of_int nb) = uint (h mod u32_of_int nb)" using assms(2) by (intro int_of_u32_small) auto
  moreover have "u32_of_int nb \<noteq> 0" using u assms(1) by auto
  ultimately show ?thesis using h by (simp add: key_server_def)
qed

text \<open>The numbers below \<open>K\<close> whose key the static method gives to the server.\<close>

definition keys_of :: "int \<Rightarrow> int \<Rightarrow> string \<Rightarrow> nat \<Rightarrow> nat \<Rightarrow> u64 list" where
  "keys_of sid nb ts k K = filter (\<lambda>w. key_server nb (gen_name ts w) = Some sid) (map word_of_nat [k..<K])"

lemma keys_of_step:
  "k < K \<Longrightarrow> keys_of sid nb ts k K =
     (if key_server nb (gen_name ts (word_of_nat k)) = Some sid then [word_of_nat k] else []) @ keys_of sid nb ts (Suc k) K"
  by (simp add: keys_of_def upt_conv_Cons)

lemma gen_keys_ok:
  assumes nb: "0 < nb" "nb \<le> INT_MAX" and mx: "0 \<le> max_request" "max_request + 3 * int n + 3 \<le> INT_MAX"
    and keys: "\<And>j. 0 \<le> j \<Longrightarrow> j \<le> int n \<Longrightarrow> more_keys j \<longleftrightarrow> j < int n"
    and "n_key \<le> n" "n - n_key \<le> length (keys_of sid nb ts k K)" "k \<le> K"
    and "0 \<le> c" "c \<le> max_request + 3 * int n_key"
  shows "\<exists>ms. length ms = n - n_key \<and> (\<forall>m \<in> set ms. (\<forall>j < m. upd (1 + int j)) \<and> (m = 0 \<longleftrightarrow> \<not> upd 1)) \<and>
    gen_keys more_keys upd sid nb max_request ts (word_of_nat k) (int n_key) c out =
      Some (out @ concat (map2 (job_lines ts) (take (n - n_key) (keys_of sid nb ts k K)) ms))"
  using assms(6-)
proof (induction "K - k" arbitrary: k n_key c out)
  case 0
  then have "n_key = n" by (simp add: keys_of_def)
  then show ?case using keys [of "int n"] by (simp add: gen_keys.simps)
next
  case (Suc d)
  then have kK: "k < K" by simp
  let ?w = "word_of_nat k :: u64"
  obtain s where s: "key_server nb (gen_name ts ?w) = Some s" using key_server_ok [OF nb] by blast
  have w: "word_of_nat (Suc k) = ?w + 1" by simp
  show ?case
  proof (cases "n_key = n")
    case True
    then show ?thesis using keys [of "int n"] by (simp add: gen_keys.simps)
  next
    case False
    then have more: "more_keys (int n_key)" using keys [of "int n_key"] Suc.prems(1) by simp
    show ?thesis
    proof (cases "s = sid")
      case True
      have step: "keys_of sid nb ts k K = ?w # keys_of sid nb ts (Suc k) K" using s True keys_of_step [OF kK] by simp
      have c: "0 \<le> c" "c + 3 \<le> INT_MAX" "max_request + 1 \<le> INT_MAX" using Suc.prems False mx by auto
      from gen_key_ok [OF c mx(1), of upd ts ?w out] obtain m c' where
        m: "gen_key upd max_request ts ?w c out = Some (c', out @ job_lines ts ?w m)" "0 \<le> c'" "c' \<le> c + 3 \<or> c' \<le> max_request"
        "\<forall>j < m. upd (1 + int j)" "m = 0 \<longleftrightarrow> \<not> upd 1" by blast
      have n1: "Suc n_key \<le> n" "n - Suc n_key \<le> length (keys_of sid nb ts (Suc k) K)" using Suc.prems(1,2) False step by auto
      have "d = K - Suc k" "Suc k \<le> K" "c' \<le> max_request + 3 * int (Suc n_key)" using Suc.hyps(2) kK m(3) Suc.prems(5) by auto
      from Suc.hyps(1) [OF this(1) n1 this(2) m(2) this(3), of "out @ job_lines ts ?w m"] obtain ms where
        ms: "length ms = n - Suc n_key" "\<forall>m \<in> set ms. (\<forall>j < m. upd (1 + int j)) \<and> (m = 0 \<longleftrightarrow> \<not> upd 1)"
        "gen_keys more_keys upd sid nb max_request ts (?w + 1) (int n_key + 1) c' (out @ job_lines ts ?w m) =
          Some ((out @ job_lines ts ?w m) @ concat (map2 (job_lines ts) (take (n - Suc n_key) (keys_of sid nb ts (Suc k) K)) ms))"
        by (auto simp: add.commute)
      have "int_ok (int n_key + 1)" using mx n1(1) by (auto simp: int_ok_def INT_MIN_def)
      then have "gen_keys more_keys upd sid nb max_request ts ?w (int n_key) c out =
          gen_keys more_keys upd sid nb max_request ts (?w + 1) (int n_key + 1) c' (out @ job_lines ts ?w m)"
        using more s True m(1) by (subst gen_keys.simps) (simp add: c_int_ok)
      moreover have "n - n_key = Suc (n - Suc n_key)" using n1(1) by simp
      ultimately show ?thesis using ms m(4,5) step by (intro exI [of _ "m # ms"]) simp
    next
      case other: False
      have step: "keys_of sid nb ts k K = keys_of sid nb ts (Suc k) K" using s other keys_of_step [OF kK] by simp
      have "d = K - Suc k" "Suc k \<le> K" "n - n_key \<le> length (keys_of sid nb ts (Suc k) K)" using Suc.hyps(2) kK Suc.prems(2) step by auto
      from Suc.hyps(1) [OF this(1) Suc.prems(1) this(3,2) Suc.prems(4,5), of out] show ?thesis
        using more s other unfolding step w by (subst gen_keys.simps) simp
    qed
  qed
qed

section \<open>Properties\<close>

text \<open>
  C39. The program writes, for the first keys \<open>step<timestamp>_<k>\<close> that the static method gives to the server, in this order,
  one creation, some updates and one deletion each, after what was in the file. It writes as many keys as the first limit allows, and
  no update beyond the second limit.
\<close>

theorem gen_timestep_writes_the_jobs:
  assumes "atoi a1 = Some sid" "atoi a2 = Some max_request" "atoi a4 = Some nb" and "0 < nb" "nb \<le> INT_MAX"
    and "0 \<le> max_request" "max_request + 3 * int n + 3 \<le> INT_MAX"
    and "\<And>j. 0 \<le> j \<Longrightarrow> j \<le> int n \<Longrightarrow> fl_keys F max_request a3 j \<longleftrightarrow> j < int n"
    and "n \<le> length (keys_of sid nb ts 0 K)"
  shows "\<exists>ms. length ms = n \<and> (\<forall>m \<in> set ms. (\<forall>j < m. fl_updates F a3 (1 + int j)) \<and> (m = 0 \<longleftrightarrow> \<not> fl_updates F a3 1)) \<and>
    gen_timestep F True [a1, a2, a3, a4, ts, a6] file =
      Some (0, file @ concat (map2 (job_lines ts) (take n (keys_of sid nb ts 0 K)) ms))"
proof -
  from gen_keys_ok [where n_key = 0 and k = 0 and c = 0 and K = K and ts = ts and sid = sid and upd = "fl_updates F a3" and out = "file",
      OF assms(4-8)] assms(6,9) obtain ms where
    "length ms = n" "\<forall>m \<in> set ms. (\<forall>j < m. fl_updates F a3 (1 + int j)) \<and> (m = 0 \<longleftrightarrow> \<not> fl_updates F a3 1)"
    "gen_keys (fl_keys F max_request a3) (fl_updates F a3) sid nb max_request ts 0 0 0 file =
      Some (file @ concat (map2 (job_lines ts) (take n (keys_of sid nb ts 0 K)) ms))" by auto
  then show ?thesis using assms(1-3) by (intro exI [of _ ms]) (simp add: gen_timestep_def)
qed

text \<open>
  A server number that is not below the number of servers is not refused: no key is ever found, and the program does not end.
\<close>

theorem gen_timestep_never_ends:
  assumes "atoi a1 = Some sid" "atoi a2 = Some max_request" "atoi a4 = Some nb" and "0 < nb" "nb \<le> INT_MAX" and "nb \<le> sid"
    and "fl_keys F max_request a3 0"
  shows "gen_timestep F True [a1, a2, a3, a4, ts, a6] file = None"
proof -
  have "n_key = 0 \<and> mk 0 \<and> s = sid \<and> b = nb \<longrightarrow> False"
    if "gen_keys mk upd s b mx ts k n_key c out = Some y" for mk upd s b mx ts k n_key c out y
  proof (rule gen_keys.raw_induct [OF _ that, of "\<lambda>mk upd s b mx ts k n_key c out y. n_key = 0 \<and> mk 0 \<and> s = sid \<and> b = nb \<longrightarrow> False"], intro impI)
    fix g mk upd s b mx ts k n_key c out y
    assume IH: "\<And>mk upd s b mx ts k n_key c out y. g mk upd s b mx ts k n_key c out = Some y \<Longrightarrow> n_key = 0 \<and> mk 0 \<and> s = sid \<and> b = nb \<longrightarrow> False"
      and body: "(if \<not> mk n_key then Some out
        else Option.bind (key_server b (gen_name ts k)) (\<lambda>num.
          if num = s then Option.bind (gen_key upd mx ts k c out) (\<lambda>r. case r of (n, out) \<Rightarrow>
            Option.bind (c_int (n_key + 1)) (\<lambda>n_key. g mk upd s b mx ts (k + 1) n_key n out))
          else g mk upd s b mx ts (k + 1) n_key c out)) = Some y"
      and z: "n_key = 0 \<and> mk 0 \<and> s = sid \<and> b = nb"
    obtain num where num: "key_server b (gen_name ts k) = Some num" "num < nb" using key_server_ok [OF assms(4,5)] z by blast
    then have "g mk upd s b mx ts (k + 1) n_key c out = Some y" using body z assms(6) by simp
    from IH [OF this] z show False by blast
  qed
  from this [of "fl_keys F max_request a3" "fl_updates F a3" sid nb max_request ts 0 0 0 "file"] assms(7)
  have "gen_keys (fl_keys F max_request a3) (fl_updates F a3) sid nb max_request ts 0 0 0 file = None"
    by (cases "gen_keys (fl_keys F max_request a3) (fl_updates F a3) sid nb max_request ts 0 0 0 file") auto
  then show ?thesis using assms(1-3) by (simp add: gen_timestep_def)
qed

definition demo_floats :: float_env where
  "demo_floats = \<lparr>fl_keys = (\<lambda>_ _ j. j < 1), fl_updates = (\<lambda>_ r. r < 2)\<rparr>"

lemma demo_arguments: "atoi ''0'' = Some 0" "atoi ''1'' = Some 1" "atoi ''10'' = Some 10"
  by code_simp+

theorem gen_timestep_writes_the_jobs_witness:
  "\<exists>m. gen_timestep demo_floats True [''0'', ''10'', ''0.5'', ''1'', ''5'', ''trace''] [] = Some (0, job_lines ''5'' 0 m) \<and> m \<noteq> 0"
proof -
  have "key_server 1 (gen_name ''5'' 0) = Some 0" using key_server_ok [of 1 "gen_name ''5'' 0"] by (force simp: INT_MAX_def)
  then have k: "keys_of 0 1 ''5'' 0 1 = [0]" by (simp add: keys_of_def)
  have "\<exists>ms. length ms = 1 \<and> (\<forall>m \<in> set ms. (\<forall>j < m. fl_updates demo_floats ''0.5'' (1 + int j)) \<and> (m = 0 \<longleftrightarrow> \<not> fl_updates demo_floats ''0.5'' 1)) \<and>
    gen_timestep demo_floats True [''0'', ''10'', ''0.5'', ''1'', ''5'', ''trace''] [] =
      Some (0, [] @ concat (map2 (job_lines ''5'') (take 1 (keys_of 0 1 ''5'' 0 1)) ms))"
    by (rule gen_timestep_writes_the_jobs [OF demo_arguments(1,3,2)]) (simp_all add: k [simplified] INT_MAX_def demo_floats_def)
  then show ?thesis unfolding k by (auto simp: length_Suc_conv demo_floats_def)
qed

theorem gen_timestep_never_ends_witness:
  "gen_timestep demo_floats True [''1'', ''10'', ''0.5'', ''1'', ''5'', ''trace''] [] = None"
  by (rule gen_timestep_never_ends [OF demo_arguments(2,3,2)]) (simp_all add: INT_MAX_def demo_floats_def)

end
