(* ===== verification/Server_Signals.thy ===== *)
theory Server_Signals
  imports Redistribution Manager_Protocol
begin

text \<open>
  What a server does beside the requests: the actions of the two signals and the thread that listens to
  the manager, of the four files \<open>distribution_*_s.c\<close>. A signal ends a step: the SAI are computed and,
  in the methods with epochs, the server asks for a redistribution when its load is too far from the mean.
  The listener answers the request of the manager for the SAI of an epoch and installs the tables it publishes
  (\<open>Redistribution\<close>). Both work on the same state; each action and each turn of the listener is one step.
  An interrupted receive is not modelled.
\<close>

section \<open>State\<close>

text \<open>
  What the signal handlers and the listener work on: the state of the server and its storage, the names of the
  files with which the end of a step is acknowledged, and the messages pushed to the manager.
\<close>

record ('e, 'm) node =
  nd_sv :: "'e server"
  nd_store :: store
  nd_files :: "string list"
  nd_pushed :: "'m list"

text \<open>
  In the two methods with epochs also the variables of the epochs (\<open>sig_atomic_t\<close> is \<open>int\<close>) and
  the mean load of the last table.
\<close>

record 'e epoch_node = "('e, to_manager_msg) node" +
  nd_mean :: u32
  nd_epoch :: int
  nd_eacl_epoch :: int

section \<open>Acknowledgements\<close>

definition SCRATCH_dh :: string where
  "SCRATCH_dh = ''/mnt/scratch/tmp_ack/dh/''"

definition SCRATCH_indedh :: string where
  "SCRATCH_indedh = ''/mnt/scratch/tmp_ack/indedh/''"

definition SCRATCH_windowed :: string where
  "SCRATCH_windowed = ''/mnt/scratch/tmp_ack/windowed/''"

definition SCRATCH_sh :: string where
  "SCRATCH_sh = ''/mnt/scratch/tmp_ack/sh/''"

text \<open>The format \<open>%svm%dUSR-0\<close>, or with 1 after a redistribution.\<close>

definition ack_name :: "string \<Rightarrow> int \<Rightarrow> string \<Rightarrow> string" where
  "ack_name dir self k = dir @ ''vm'' @ dec self @ ''USR-'' @ k"

text \<open>
  \<open>open (name, O_WRONLY | O_EXCL | O_CREAT, 0664)\<close>: it fails when the file exists. \<open>can\<close> says
  which files can be created at all.
\<close>

definition open_excl :: "(string \<Rightarrow> bool) \<Rightarrow> string \<Rightarrow> string list \<Rightarrow> bool \<times> string list" where
  "open_excl can name present =
     (if name \<in> set present \<or> \<not> can name then (False, present) else (True, name # present))"

definition acknowledge ::
  "(string \<Rightarrow> bool) \<Rightarrow> string \<Rightarrow> string \<Rightarrow> ('e, 'm, 'z) node_scheme \<Rightarrow> bool \<times> ('e, 'm, 'z) node_scheme" where
  "acknowledge can dir k s =
     (let (ok, present) = open_excl can (ack_name dir (sv_self (nd_sv s)) k) (nd_files s)
      in (ok, s\<lparr>nd_files := present\<rparr>))"

section \<open>\<open>distribution_signal1_action\<close>\<close>

text \<open>A failed acknowledgement is an error in \<open>dh\<close> and \<open>sh\<close>, in the two others it is printed only.\<close>

definition distribution_signal1_action_dh ::
  "(string \<Rightarrow> bool) \<Rightarrow> ('e, 'm) node \<Rightarrow> int \<times> ('e, 'm) node" where
  "distribution_signal1_action_dh can s =
     (let (ok, s) = acknowledge can SCRATCH_dh ''0'' s in if \<not> ok then (-1, s) else (0, s))"

definition distribution_signal1_action_sh ::
  "(string \<Rightarrow> bool) \<Rightarrow> ('e, 'm) node \<Rightarrow> int \<times> ('e, 'm) node" where
  "distribution_signal1_action_sh can s =
     (let (ok, s) = acknowledge can SCRATCH_sh ''0'' s in if \<not> ok then (-1, s) else (0, s))"

definition distribution_signal1_action_indedh ::
  "(string \<Rightarrow> bool) \<Rightarrow> 'e epoch_node \<Rightarrow> int \<times> 'e epoch_node" where
  "distribution_signal1_action_indedh can s = (let (ok, s) = acknowledge can SCRATCH_indedh ''0'' s in (0, s))"

definition distribution_signal1_action_windowed ::
  "(string \<Rightarrow> bool) \<Rightarrow> 'e epoch_node \<Rightarrow> int \<times> 'e epoch_node" where
  "distribution_signal1_action_windowed can s = (let (ok, s) = acknowledge can SCRATCH_windowed ''0'' s in (0, s))"

section \<open>\<open>distribution_signal2_action\<close>\<close>

text \<open>The access list after one of its operations.\<close>

definition set_list :: "'e \<Rightarrow> ('e, 'm, 'z) node_scheme \<Rightarrow> ('e, 'm, 'z) node_scheme" where
  "set_list l s = s\<lparr>nd_sv := (nd_sv s)\<lparr>sv_list := l\<rparr>\<rparr>"

definition distribution_signal2_action_sh ::
  "(string \<Rightarrow> bool) \<Rightarrow> ('e, 'm) node \<Rightarrow> int \<times> ('e, 'm) node" where
  "distribution_signal2_action_sh can s =
     (let (ok, s) = acknowledge can SCRATCH_sh ''0'' s in if \<not> ok then (-1, s) else (0, s))"

text \<open>Dynamic hashing: the SAI go to the manager; the result of the reset is not used.\<close>

definition distribution_signal2_action_dh ::
  "bool \<Rightarrow> (eacl, u32 list) node \<Rightarrow> (int \<times> (eacl, u32 list) node) option" where
  "distribution_signal2_action_dh send_ok s = do {
     (rc, l) \<leftarrow> eacl_calculate_sai_dh (Some (sv_list (nd_sv s)));
     l \<leftarrow> l;
     let s = set_list l s;
     if rc \<noteq> 0 then Some (-1, s)
     else if \<not> send_ok then Some (-1, s)
     else do {
       let s = s\<lparr>nd_pushed := nd_pushed s @ [sai l]\<rparr>;
       (rc, l) \<leftarrow> eacl_reset_access_dh (Some l);
       l \<leftarrow> l;
       Some (0, set_list l s)
     }
   }"

definition PERCENT :: u32 where
  "PERCENT = 10"

text \<open>The thresholds, in 32-bit arithmetic.\<close>

definition threshold_max :: "u32 \<Rightarrow> u32" where
  "threshold_max mean = mean + (PERCENT * mean) div 100"

definition threshold_min :: "u32 \<Rightarrow> u32" where
  "threshold_min mean = mean - (PERCENT * mean) div 100"

text \<open>
  The timing of the independent method: the file of results that cannot be opened ends the action, and when
  the write fails the path is printed after its memory was freed. \<open>Some None\<close>: go on.
\<close>

definition eval_timing :: "bool \<Rightarrow> bool \<Rightarrow> int option option" where
  "eval_timing open_ok write_ok = (if \<not> open_ok then Some (Some (-1)) else if \<not> write_ok then None else Some None)"

text \<open>
  The part after the thresholds: \<open>lvl\<close> is what \<open>eacl_read_load_lvl\<close> returns, an \<open>int\<close>, which the
  comparison with an unsigned threshold converts.
\<close>

definition signal2_decide ::
  "(string \<Rightarrow> bool) \<Rightarrow> string \<Rightarrow> bool \<Rightarrow> int \<Rightarrow> 'e epoch_node \<Rightarrow> int \<times> 'e epoch_node" where
  "signal2_decide can dir send_ok lvl s =
     (if u32_of_int lvl \<le> threshold_max (nd_mean s) \<and> threshold_min (nd_mean s) \<le> u32_of_int lvl then
        let (ok, s) = acknowledge can dir ''0'' s in (0, s)
      else if \<not> send_ok then (-1, s)
      else (0, s\<lparr>nd_pushed := nd_pushed s @ [HELP_MSG (nd_epoch s)]\<rparr>))"

definition signal2_epochs ::
  "('e option \<Rightarrow> (int \<times> 'e option) option) \<Rightarrow> ('e option \<Rightarrow> (int \<times> 'e option) option) \<Rightarrow> ('e option \<Rightarrow> int) \<Rightarrow>
   int option option \<Rightarrow> (string \<Rightarrow> bool) \<Rightarrow> string \<Rightarrow> bool \<Rightarrow> 'e epoch_node \<Rightarrow> (int \<times> 'e epoch_node) option" where
  "signal2_epochs calculate reset level timing can dir send_ok s = do {
     n \<leftarrow> c_int (nd_epoch s + 1);
     let s = s\<lparr>nd_epoch := n\<rparr>;
     (rc, l) \<leftarrow> calculate (Some (sv_list (nd_sv s)));
     l \<leftarrow> l;
     let s = set_list l s;
     if rc \<noteq> 0 then Some (-1, s)
     else do {
       let s = s\<lparr>nd_eacl_epoch := nd_epoch s\<rparr>;
       (rc, l) \<leftarrow> reset (Some l);
       l \<leftarrow> l;
       let s = set_list l s;
       if rc \<noteq> 0 then Some (-1, s)
       else do {
         t \<leftarrow> timing;
         case t of
           Some rc \<Rightarrow> Some (rc, s)
         | None \<Rightarrow> Some (signal2_decide can dir send_ok (level (Some l)) s)
       }
     }
   }"

definition distribution_signal2_action_indedh ::
  "bool \<Rightarrow> bool \<Rightarrow> (string \<Rightarrow> bool) \<Rightarrow> bool \<Rightarrow> eacl_indedh epoch_node \<Rightarrow> (int \<times> eacl_indedh epoch_node) option" where
  "distribution_signal2_action_indedh open_ok write_ok can send_ok =
     signal2_epochs eacl_calculate_sai_indedh eacl_reset_access_indedh eacl_read_load_lvl
       (eval_timing open_ok write_ok) can SCRATCH_indedh send_ok"

definition distribution_signal2_action_windowed ::
  "(string \<Rightarrow> bool) \<Rightarrow> bool \<Rightarrow> eacl_windowed epoch_node \<Rightarrow> (int \<times> eacl_windowed epoch_node) option" where
  "distribution_signal2_action_windowed can send_ok =
     signal2_epochs eacl_calculate_sai_windowed eacl_reset_access_windowed eacl_read_load_lvl_windowed
       (Some None) can SCRATCH_windowed send_ok"


section \<open>The handlers of \<open>server.c\<close>\<close>

text \<open>
  \<open>usr1_handler\<close> and \<open>usr2_handler\<close>: the counter of requests is written out and reset, then the method
  acts, whose result is only printed. When the write fails the message of the error prints the path,
  whose memory has been freed before. The result is the number written, if any, the counter and the node.
\<close>

definition usr_handler ::
  "bool \<Rightarrow> bool \<Rightarrow> ('n \<Rightarrow> (int \<times> 'n) option) \<Rightarrow> int \<Rightarrow> 'n \<Rightarrow> (int option \<times> int \<times> 'n) option" where
  "usr_handler open_ok write_ok action served s =
     (if \<not> open_ok then Some (None, served, s)
      else if \<not> write_ok then None
      else do {
        (rc, s) \<leftarrow> action s;
        Some (Some served, 0, s)
      })"

section \<open>The listener\<close>

text \<open>
  Where the thread is: at the receive, in the loop around \<open>sleep\<close> until the SAI of an epoch are
  there, in a \<open>pthread_join\<close> that does not return, or gone because its socket could not be opened.
\<close>

datatype listener_pc = Listening | Await_eacl int | Joining | Gone

record ('n, 'i) listener =
  ln_pc :: listener_pc
  ln_node :: 'n
  ln_in :: "'i list"

definition listener_start :: "bool \<Rightarrow> 'n \<Rightarrow> ('n, 'i) listener" where
  "listener_start socket_ok s = \<lparr>ln_pc = (if socket_ok then Listening else Gone), ln_node = s, ln_in = []\<rparr>"

text \<open>The answer to a request for the SAI; a failed send is printed only.\<close>

definition send_eacl ::
  "bool \<Rightarrow> ('z eacl_indedh_scheme) epoch_node \<Rightarrow> ('z eacl_indedh_scheme) epoch_node option" where
  "send_eacl send_ok s = do {
     let l = sv_list (nd_sv s);
     words \<leftarrow> (if unat (eacl_size l) \<le> length (sai l) then Some (take (unat (eacl_size l)) (sai l)) else None);
     Some (if send_ok
           then s\<lparr>nd_pushed := nd_pushed s @ [EACL_MSG (sv_self (nd_sv s)) words (load_lvl l)]\<rparr>
           else s)
   }"

text \<open>
  A new table, with \<open>install_table\<close> of the method as \<open>inst\<close>. A thread that waits for a message that does not
  come keeps the listener in \<open>pthread_join\<close>. A failed acknowledgement is printed only.
\<close>

definition after_install ::
  "(string \<Rightarrow> bool) \<Rightarrow> string \<Rightarrow> unit option \<Rightarrow> 'e sender flow \<times> 'e receiver flow \<Rightarrow> ('e, 'm, 'z) node_scheme \<Rightarrow>
   (listener_pc \<times> ('e, 'm, 'z) node_scheme) option" where
  "after_install can dir timing fg s =
     (let f = flow_state (fst fg); g = flow_state (snd fg);
          s = s\<lparr>nd_sv := rv_sv g, nd_store := rv_store g\<rparr> in
      if sd_status f = Blocked \<or> rv_status g = Blocked then Some (Joining, s)
      else do {
        _ \<leftarrow> timing;
        Some (Listening, snd (acknowledge can dir ''1'' s))
      })"

text \<open>
  The timing of the independent method here: when the file cannot be opened the path is freed twice, when
  the write fails it is printed after it was freed.
\<close>

definition distrib_timing :: "bool \<Rightarrow> bool \<Rightarrow> unit option" where
  "distrib_timing open_ok write_ok = (if open_ok \<and> write_ok then Some () else None)"

definition listener_ask ::
  "bool \<Rightarrow> int \<Rightarrow> (('z eacl_indedh_scheme) epoch_node, from_manager_msg) listener \<Rightarrow>
   (('z eacl_indedh_scheme) epoch_node, from_manager_msg) listener option" where
  "listener_ask send_ok epoch_needed st =
     (if epoch_needed < nd_eacl_epoch (ln_node st) then Some st
      else if epoch_needed > nd_eacl_epoch (ln_node st) then Some (st\<lparr>ln_pc := Await_eacl epoch_needed\<rparr>)
      else do { s \<leftarrow> send_eacl send_ok (ln_node st); Some (st\<lparr>ln_node := s\<rparr>) })"

type_synonym 'e installer = "u32 list \<Rightarrow> u32 list \<Rightarrow> 'e server \<Rightarrow> store \<Rightarrow> ('e sender flow \<times> 'e receiver flow) option"

definition listener_mlt ::
  "'e installer \<Rightarrow> unit option \<Rightarrow> (string \<Rightarrow> bool) \<Rightarrow> string \<Rightarrow> u32 list \<Rightarrow> u32 list \<Rightarrow> u32 \<Rightarrow>
   ('e epoch_node, from_manager_msg) listener \<Rightarrow> ('e epoch_node, from_manager_msg) listener option" where
  "listener_mlt inst timing can dir ids vers mean st = do {
     let s = (ln_node st)\<lparr>nd_mean := mean\<rparr>;
     fg \<leftarrow> inst ids vers (nd_sv s) (nd_store s);
     (pc, s) \<leftarrow> after_install can dir timing fg s;
     Some (st\<lparr>ln_pc := pc, ln_node := s\<rparr>)
   }"

text \<open>One turn of the loop; it waits while no message is there.\<close>

definition listener_turn ::
  "('z eacl_indedh_scheme) installer \<Rightarrow> unit option \<Rightarrow> (string \<Rightarrow> bool) \<Rightarrow> string \<Rightarrow> bool \<Rightarrow>
   (('z eacl_indedh_scheme) epoch_node, from_manager_msg) listener \<Rightarrow>
   (('z eacl_indedh_scheme) epoch_node, from_manager_msg) listener option" where
  "listener_turn inst timing can dir send_ok st =
     (case ln_pc st of
        Listening \<Rightarrow>
          (case ln_in st of
             [] \<Rightarrow> Some st
           | ASK_MSG epoch_needed # q \<Rightarrow> listener_ask send_ok epoch_needed (st\<lparr>ln_in := q\<rparr>)
           | MLT_MSG ids vers mean # q \<Rightarrow> listener_mlt inst timing can dir ids vers mean (st\<lparr>ln_in := q\<rparr>))
      | Await_eacl epoch_needed \<Rightarrow>
          if nd_eacl_epoch (ln_node st) < epoch_needed then Some st
          else do { s \<leftarrow> send_eacl send_ok (ln_node st); Some (st\<lparr>ln_pc := Listening, ln_node := s\<rparr>) }
      | Joining \<Rightarrow> Some st
      | Gone \<Rightarrow> Some st)"

definition thread_manager_listener_indedh where
  "thread_manager_listener_indedh X alloc cell N init_result fill replies ps open_ok write_ok can send_ok st =
     listener_turn (\<lambda>ids vers. install_table_indedh X alloc cell N init_result fill ids vers replies ps)
       (distrib_timing open_ok write_ok) can SCRATCH_indedh send_ok st"

definition thread_manager_listener_windowed where
  "thread_manager_listener_windowed X alloc cell N init_result fill replies ps can send_ok st =
     listener_turn (\<lambda>ids vers. install_table_windowed X alloc cell N init_result fill ids vers replies ps)
       (Some ()) can SCRATCH_windowed send_ok st"

text \<open>Dynamic hashing: every message is a table.\<close>

definition thread_mlt_updater where
  "thread_mlt_updater X alloc cell N init_result fill replies ps can st =
     (case (ln_pc st, ln_in st) of
        (Listening, (ids, vers) # q) \<Rightarrow> do {
          let s = ln_node st;
          fg \<leftarrow> install_table_dh X alloc cell N init_result fill ids vers replies ps (nd_sv s) (nd_store s);
          (pc, s) \<leftarrow> after_install can SCRATCH_dh (Some ()) fg s;
          Some (st\<lparr>ln_pc := pc, ln_node := s, ln_in := q\<rparr>)
        }
      | _ \<Rightarrow> Some st)"

text \<open>The listener thread and the handler of \<open>SIGUSR2\<close> on one node, as a step function over events.\<close>

datatype server_event = Publish from_manager_msg | Signal2 | Turn bool

fun server_step ::
  "(bool \<Rightarrow> ('n, from_manager_msg) listener \<Rightarrow> ('n, from_manager_msg) listener option) \<Rightarrow>
   ('n \<Rightarrow> (int \<times> 'n) option) \<Rightarrow> server_event \<Rightarrow> ('n, from_manager_msg) listener \<Rightarrow>
   ('n, from_manager_msg) listener option" where
  "server_step turn signal2 (Publish msg) st = Some (st\<lparr>ln_in := ln_in st @ [msg]\<rparr>)"
| "server_step turn signal2 Signal2 st = do { (rc, s) \<leftarrow> signal2 (ln_node st); Some (st\<lparr>ln_node := s\<rparr>) }"
| "server_step turn signal2 (Turn send_ok) st = turn send_ok st"


section \<open>One signal\<close>

lemma set_list_simps:
  "nd_sv (set_list l s) = (nd_sv s)\<lparr>sv_list := l\<rparr>" "nd_files (set_list l s) = nd_files s"
  "nd_pushed (set_list l s) = nd_pushed s" "nd_store (set_list l s) = nd_store s"
  by (simp_all add: set_list_def)

lemma set_list_epochs:
  fixes s :: "'e epoch_node"
  shows "nd_epoch (set_list l s) = nd_epoch s" "nd_mean (set_list l s) = nd_mean s" "nd_eacl_epoch (set_list l s) = nd_eacl_epoch s"
    "set_list l (s\<lparr>nd_epoch := a\<rparr>) = (set_list l s)\<lparr>nd_epoch := a\<rparr>"
    "set_list l (s\<lparr>nd_eacl_epoch := a\<rparr>) = (set_list l s)\<lparr>nd_eacl_epoch := a\<rparr>"
    "set_list l (set_list l' s) = set_list l s"
  by (cases s; simp add: set_list_def)+

text \<open>What the action relies on: the SAI can be computed and the counters reset.\<close>

locale stepped_list =
  fixes calculate reset :: "'e option \<Rightarrow> (int \<times> 'e option) option"
    and level :: "'e option \<Rightarrow> int"
    and len :: "'e \<Rightarrow> nat"
    and inv :: "'e \<Rightarrow> bool"
  assumes step: "inv e \<Longrightarrow> \<exists>e1 e2. calculate (Some e) = Some (0, Some e1) \<and> reset (Some e1) = Some (0, Some e2) \<and>
      inv e2 \<and> len e2 = len e"
begin

lemma signal2_ok:
  assumes ok: "server_ok inv len N (nd_sv s) L" and n: "int_ok (nd_epoch s + 1)"
  shows "\<exists>e1 e s'. calculate (Some (sv_list (nd_sv s))) = Some (0, Some e1) \<and> reset (Some e1) = Some (0, Some e) \<and>
    s' = (set_list e s)\<lparr>nd_epoch := nd_epoch s + 1, nd_eacl_epoch := nd_epoch s + 1\<rparr> \<and>
    signal2_epochs calculate reset level (Some None) can dir send_ok s
      = Some (signal2_decide can dir send_ok (level (Some e)) s') \<and>
    server_ok inv len N (nd_sv s') L"
proof -
  obtain e1 e where e: "calculate (Some (sv_list (nd_sv s))) = Some (0, Some e1)" "reset (Some e1) = Some (0, Some e)"
    "inv e" "len e = len (sv_list (nd_sv s))"
    using step [of "sv_list (nd_sv s)"] ok by (auto simp: server_ok_def)
  let ?s' = "(set_list e s)\<lparr>nd_epoch := nd_epoch s + 1, nd_eacl_epoch := nd_epoch s + 1\<rparr>"
  have "signal2_epochs calculate reset level (Some None) can dir send_ok s
      = Some (signal2_decide can dir send_ok (level (Some e)) ?s')"
    using e n by (simp add: signal2_epochs_def c_conv set_list_simps set_list_epochs)
  moreover have "server_ok inv len N (nd_sv ?s') L" using e ok by (simp add: server_ok_def set_list_simps)
  ultimately show ?thesis using e(1,2) by blast
qed

end

interpretation st_indedh: stepped_list eacl_calculate_sai_indedh eacl_reset_access_indedh eacl_read_load_lvl eacl_len eacl_wf
proof
  fix e :: eacl_indedh
  assume e: "eacl_wf e"
  let ?ss = "map (\<lambda>i. sai_avg (sai e ! i) (access_count e ! i)) [0..<eacl_len e]"
  have "eacl_wf (e\<lparr>sai := ?ss, load_lvl := sum_list ?ss\<rparr>)" using e by (simp add: eacl_wf_def eacl_len_def)
  from reset_indedh [OF this] calculate_indedh [OF e]
  show "\<exists>e1 e2. eacl_calculate_sai_indedh (Some e) = Some (0, Some e1) \<and>
      eacl_reset_access_indedh (Some e1) = Some (0, Some e2) \<and> eacl_wf e2 \<and> eacl_len e2 = eacl_len e"
    using e by (simp add: Let_def eacl_wf_def eacl_len_def)
qed

interpretation st_windowed: stepped_list eacl_calculate_sai_windowed eacl_reset_access_windowed eacl_read_load_lvl_windowed
  eacl_len eacl_wf_windowed
proof
  fix e :: eacl_windowed
  assume e: "eacl_wf_windowed e"
  let ?ss = "map (\<lambda>i. sai_avg (q_mean (old_accesses e ! i)) (access_count e ! i)) [0..<eacl_len e]"
  let ?e1 = "e\<lparr>sai := ?ss, load_lvl := sum_list ?ss\<rparr>"
  have w: "eacl_wf_windowed ?e1" "eacl_len ?e1 = eacl_len e"
    using e by (simp_all add: eacl_wf_windowed_def eacl_wf_def eacl_len_def)
  obtain e2 where e2: "eacl_reset_access_windowed (Some ?e1) = Some (0, Some e2)" using reset_windowed [OF w(1)] by blast
  have "eacl_calculate_sai_windowed (Some e) = Some (0, Some ?e1)" using calculate_windowed [OF e] by (simp add: Let_def)
  with e2 show "\<exists>e1 e2. eacl_calculate_sai_windowed (Some e) = Some (0, Some e1) \<and>
      eacl_reset_access_windowed (Some e1) = Some (0, Some e2) \<and> eacl_wf_windowed e2 \<and> eacl_len e2 = eacl_len e"
    using reset_windowed_wf [OF w(1) e2] w(2) by auto
qed

text \<open>The thresholds as numbers: a tenth of the mean, as long as the product does not wrap.\<close>

lemma thresholds:
  assumes "10 * unat m < 2 ^ 32"
  shows "unat (threshold_max m) = unat m + unat m div 10" "unat (threshold_min m) = unat m - unat m div 10"
proof -
  have "unat (10 * m) = 10 * unat m" using assms by (simp add: unat_word_ariths)
  then have d: "unat ((10 * m) div 100) = unat m div 10" by (simp add: unat_div div_mult_mult1 [of 10 "unat m" 10, simplified])
  have "unat m + unat m div 10 < 2 ^ 32" using assms by linarith
  then show "unat (threshold_max m) = unat m + unat m div 10"
    using d by (simp add: threshold_max_def PERCENT_def unat_word_ariths)
  have "(10 * m) div 100 \<le> m" using d by (simp add: word_le_nat_alt)
  then show "unat (threshold_min m) = unat m - unat m div 10"
    using d by (simp add: threshold_min_def PERCENT_def unat_sub)
qed

section \<open>Well-typed nodes\<close>

text \<open>
  The messages a server may push: help for an epoch it has reached, and access lists with its number and one SAI per
  entry.
\<close>

fun pushed_ok :: "nat \<Rightarrow> int \<Rightarrow> int \<Rightarrow> to_manager_msg \<Rightarrow> bool" where
  "pushed_ok N self k (HELP_MSG e) = (0 < e \<and> e \<le> k)"
| "pushed_ok N self k (EACL_MSG i words ld) = (i = self \<and> length words = N)"

definition node_ok :: "nat \<Rightarrow> nat \<Rightarrow> int \<Rightarrow> string list list \<Rightarrow> eacl_windowed epoch_node \<Rightarrow> bool" where
  "node_ok N nb k L s \<longleftrightarrow> server_ok eacl_wf_windowed eacl_len N (nd_sv s) L \<and>
     0 \<le> sv_self (nd_sv s) \<and> sv_self (nd_sv s) < int nb \<and>
     0 \<le> nd_eacl_epoch s \<and> nd_eacl_epoch s \<le> nd_epoch s \<and> nd_epoch s \<le> k \<and>
     (\<forall>msg \<in> set (nd_pushed s). pushed_ok N (sv_self (nd_sv s)) (nd_epoch s) msg)"

lemma pushed_ok_mono: "pushed_ok N self k msg \<Longrightarrow> k \<le> k' \<Longrightarrow> pushed_ok N self k' msg"
  by (cases msg) auto

lemma acknowledged: "snd (acknowledge can dir k s) =
    s\<lparr>nd_files := snd (open_excl can (ack_name dir (sv_self (nd_sv s)) k) (nd_files s))\<rparr>"
  by (simp add: acknowledge_def split: prod.split)

lemma decide_simps:
  assumes "signal2_decide can dir send_ok lvl s = (rc, s')"
  shows "nd_sv s' = nd_sv s \<and> nd_epoch s' = nd_epoch s \<and> nd_eacl_epoch s' = nd_eacl_epoch s \<and>
    (nd_pushed s' = nd_pushed s \<or> nd_pushed s' = nd_pushed s @ [HELP_MSG (nd_epoch s)])"
proof -
  have "s' = snd (signal2_decide can dir send_ok lvl s)" using assms by simp
  then have "s' = snd (acknowledge can dir ''0'' s) \<or> s' = s \<or> s' = s\<lparr>nd_pushed := nd_pushed s @ [HELP_MSG (nd_epoch s)]\<rparr>"
    by (simp add: signal2_decide_def case_prod_beta)
  then show ?thesis unfolding acknowledged by (elim disjE) simp_all
qed

lemma signal2_typed:
  assumes ok: "node_ok N nb k L s" and k: "k < INT_MAX"
  shows "\<exists>rc s'. distribution_signal2_action_windowed can send_ok s = Some (rc, s') \<and> node_ok N nb (k + 1) L s'"
proof -
  note ok' = ok [unfolded node_ok_def]
  have n: "int_ok (nd_epoch s + 1)" using ok' k by (simp add: int_ok_def INT_MIN_def)
  obtain e s1 where s1: "s1 = (set_list e s)\<lparr>nd_epoch := nd_epoch s + 1, nd_eacl_epoch := nd_epoch s + 1\<rparr>"
    "distribution_signal2_action_windowed can send_ok s
       = Some (signal2_decide can SCRATCH_windowed send_ok (eacl_read_load_lvl_windowed (Some e)) s1)"
    "server_ok eacl_wf_windowed eacl_len N (nd_sv s1) L"
    using st_windowed.signal2_ok [of N s L can SCRATCH_windowed send_ok] ok' n
    unfolding distribution_signal2_action_windowed_def by blast
  obtain rc s' where s': "signal2_decide can SCRATCH_windowed send_ok (eacl_read_load_lvl_windowed (Some e)) s1 = (rc, s')"
    by fastforce
  have m: "pushed_ok N (sv_self (nd_sv s)) (nd_epoch s + 1) msg" if "msg \<in> set (nd_pushed s)" for msg
    using ok' that by (auto intro: pushed_ok_mono)
  have "node_ok N nb (k + 1) L s'"
    using s1(1,3) ok' m decide_simps [OF s'] by (auto simp: node_ok_def set_list_simps)
  then show ?thesis using s1(2) s' by simp
qed

lemma send_eacl_typed:
  assumes ok: "node_ok N nb k L s"
  shows "\<exists>s'. send_eacl send_ok s = Some s' \<and> node_ok N nb k L s'"
proof -
  note ok' = ok [unfolded node_ok_def server_ok_def]
  have "length (sai (sv_list (nd_sv s))) = N" "unat (eacl_size (sv_list (nd_sv s))) = N"
    using ok' by (auto simp: eacl_wf_windowed_def eacl_wf_def eacl_len_def)
  then show ?thesis using ok by (simp add: send_eacl_def node_ok_def Let_def ball_Un)
qed

text \<open>Between two tables: only requests for the SAI come from the manager.\<close>

fun is_ask_event :: "server_event \<Rightarrow> bool" where
  "is_ask_event (Publish msg) = is_ask msg"
| "is_ask_event Signal2 = True"
| "is_ask_event (Turn send_ok) = True"

definition listener_ok ::
  "nat \<Rightarrow> nat \<Rightarrow> int \<Rightarrow> string list list \<Rightarrow> (eacl_windowed epoch_node, from_manager_msg) listener \<Rightarrow> bool" where
  "listener_ok N nb k L st \<longleftrightarrow> node_ok N nb k L (ln_node st) \<and> (\<forall>msg \<in> set (ln_in st). is_ask msg)"

lemma turn_typed:
  assumes ok: "listener_ok N nb k L st"
  shows "\<exists>st'. listener_turn inst timing can dir send_ok st = Some st' \<and> listener_ok N nb k L st'"
proof -
  obtain s' where s': "send_eacl send_ok (ln_node st) = Some s'" "node_ok N nb k L s'"
    using send_eacl_typed ok unfolding listener_ok_def by blast
  show ?thesis
  proof (cases "ln_pc st")
    case Listening
    show ?thesis
    proof (cases "ln_in st")
      case (Cons msg q)
      then obtain e where "msg = ASK_MSG e" using ok by (cases msg) (auto simp: listener_ok_def)
      then show ?thesis using Listening Cons ok s' by (auto simp: listener_turn_def listener_ask_def listener_ok_def)
    qed (use Listening ok in \<open>simp add: listener_turn_def\<close>)
  qed (use ok s' in \<open>auto simp: listener_turn_def listener_ok_def\<close>)
qed

lemma node_ok_mono: "node_ok N nb k L s \<Longrightarrow> k \<le> k' \<Longrightarrow> node_ok N nb k' L s"
  by (auto simp: node_ok_def)

lemma server_step_typed:
  assumes ok: "listener_ok N nb k L st" and k: "k < INT_MAX" and ev: "is_ask_event ev"
  shows "\<exists>st'. server_step (listener_turn inst timing can dir) (distribution_signal2_action_windowed can' send_ok) ev st = Some st' \<and>
    listener_ok N nb (k + 1) L st'"
proof -
  have mono: "listener_ok N nb (k + 1) L u" if "listener_ok N nb k L u" for u
    using that node_ok_mono [of N nb k L "ln_node u" "k + 1"] by (simp add: listener_ok_def)
  show ?thesis
  proof (cases ev)
    case (Publish msg)
    then show ?thesis using ok ev mono [OF ok] by (simp add: listener_ok_def)
  next
    case Signal2
    then show ?thesis using signal2_typed [of N nb k L "ln_node st" can' send_ok] ok k by (auto simp: listener_ok_def)
  next
    case (Turn so)
    then show ?thesis using turn_typed [OF ok] mono by fastforce
  qed
qed

lemma server_run_typed:
  "listener_ok N nb k L st \<Longrightarrow> k + int (length evs) \<le> INT_MAX \<Longrightarrow> \<forall>ev \<in> set evs. is_ask_event ev \<Longrightarrow>
   \<exists>st'. forM evs (server_step (listener_turn inst timing can dir) (distribution_signal2_action_windowed can' send_ok)) st = Some st' \<and>
     listener_ok N nb (k + int (length evs)) L st'"
proof (induction evs arbitrary: k st)
  case (Cons ev evs)
  obtain st1 where st1: "server_step (listener_turn inst timing can dir) (distribution_signal2_action_windowed can' send_ok) ev st = Some st1"
    "listener_ok N nb (k + 1) L st1"
    using server_step_typed [OF Cons.prems(1), of ev inst timing can dir can' send_ok] Cons.prems(2,3) by auto
  have "\<exists>st'. forM evs (server_step (listener_turn inst timing can dir) (distribution_signal2_action_windowed can' send_ok)) st1 = Some st' \<and>
     listener_ok N nb (k + 1 + int (length evs)) L st'"
    by (rule Cons.IH [OF st1(2)]) (use Cons.prems in auto)
  with st1(1) show ?case by (simp add: add.assoc)
qed simp


section \<open>Properties\<close>

text \<open>A load within a tenth of the mean.\<close>

definition within_tenth :: "u32 \<Rightarrow> u32 \<Rightarrow> bool" where
  "within_tenth mean lvl \<longleftrightarrow> unat mean - unat mean div 10 \<le> unat lvl \<and> unat lvl \<le> unat mean + unat mean div 10"

text \<open>
  C23: the second signal ends a step of the windowed method: the SAI are those of
  \<open>eacl_calculate_sai\<close>, the counters are reset, both epochs go up by one and the invariant of the server
  holds. The server asks the manager for help, with the new epoch, exactly when its load is not within
  a tenth of the mean of the last table; otherwise it creates the file that acknowledges the step, if it can.
\<close>

theorem signal_asks_outside_thresholds:
  assumes "server_ok eacl_wf_windowed eacl_len N (nd_sv s) L" and "int_ok (nd_epoch s + 1)" and "10 * unat (nd_mean s) < 2 ^ 32"
  shows "\<exists>e1 e s'. eacl_calculate_sai_windowed (Some (sv_list (nd_sv s))) = Some (0, Some e1) \<and>
    eacl_reset_access_windowed (Some e1) = Some (0, Some e) \<and>
    distribution_signal2_action_windowed can True s = Some (0, s') \<and>
    sv_list (nd_sv s') = e \<and> server_ok eacl_wf_windowed eacl_len N (nd_sv s') L \<and>
    nd_epoch s' = nd_epoch s + 1 \<and> nd_eacl_epoch s' = nd_epoch s + 1 \<and>
    nd_pushed s' = (if within_tenth (nd_mean s) (load_lvl e) then nd_pushed s else nd_pushed s @ [HELP_MSG (nd_epoch s + 1)]) \<and>
    nd_files s' = (if within_tenth (nd_mean s) (load_lvl e)
      then snd (open_excl can (ack_name SCRATCH_windowed (sv_self (nd_sv s)) ''0'') (nd_files s)) else nd_files s)"
proof -
  obtain e1 e s1 where s1: "eacl_calculate_sai_windowed (Some (sv_list (nd_sv s))) = Some (0, Some e1)"
    "eacl_reset_access_windowed (Some e1) = Some (0, Some e)"
    "s1 = (set_list e s)\<lparr>nd_epoch := nd_epoch s + 1, nd_eacl_epoch := nd_epoch s + 1\<rparr>"
    "distribution_signal2_action_windowed can True s
       = Some (signal2_decide can SCRATCH_windowed True (eacl_read_load_lvl_windowed (Some e)) s1)"
    "server_ok eacl_wf_windowed eacl_len N (nd_sv s1) L"
    using st_windowed.signal2_ok [OF assms(1,2), of can SCRATCH_windowed True]
    unfolding distribution_signal2_action_windowed_def by blast
  have lvl: "u32_of_int (eacl_read_load_lvl_windowed (Some e)) = load_lvl e"
    by (simp add: eacl_read_load_lvl_windowed_def eacl_read_load_lvl_def)
  have mean: "nd_mean s1 = nd_mean s" using s1(3) by (simp add: set_list_epochs)
  have calm: "load_lvl e \<le> threshold_max (nd_mean s) \<and> threshold_min (nd_mean s) \<le> load_lvl e \<longleftrightarrow>
      within_tenth (nd_mean s) (load_lvl e)"
    using thresholds [OF assms(3)] by (auto simp: within_tenth_def word_le_nat_alt)
  define s' where "s' = (if within_tenth (nd_mean s) (load_lvl e) then snd (acknowledge can SCRATCH_windowed ''0'' s1)
          else s1\<lparr>nd_pushed := nd_pushed s1 @ [HELP_MSG (nd_epoch s1)]\<rparr>)"
  have d: "signal2_decide can SCRATCH_windowed True (eacl_read_load_lvl_windowed (Some e)) s1 = (0, s')"
    unfolding signal2_decide_def lvl mean calm s'_def by (simp add: case_prod_beta)
  have "nd_sv s' = nd_sv s1" "nd_epoch s' = nd_epoch s1" "nd_eacl_epoch s' = nd_eacl_epoch s1"
    "nd_pushed s' = (if within_tenth (nd_mean s) (load_lvl e) then nd_pushed s else nd_pushed s @ [HELP_MSG (nd_epoch s + 1)])"
    "nd_files s' = (if within_tenth (nd_mean s) (load_lvl e)
      then snd (open_excl can (ack_name SCRATCH_windowed (sv_self (nd_sv s)) ''0'') (nd_files s)) else nd_files s)"
    by (simp_all add: s'_def acknowledged s1(3) set_list_simps)
  then show ?thesis using s1(1,2,4,5) d
    by - (rule exI [of _ e1], rule exI [of _ e], rule exI [of _ s'], simp add: s1(3) set_list_simps)
qed

definition signal_demo :: "eacl_windowed epoch_node" where
  "signal_demo = \<lparr>nd_sv = xfer_from, nd_store = xfer_store, nd_files = [], nd_pushed = [], nd_mean = 0,
     nd_epoch = 4, nd_eacl_epoch = 4\<rparr>"

theorem signal_asks_outside_thresholds_witness:
  "\<exists>s'. distribution_signal2_action_windowed (\<lambda>_. True) True signal_demo = Some (0, s') \<and> nd_epoch s' = 5 \<and>
     nd_eacl_epoch s' = 5"
proof -
  have "server_ok eacl_wf_windowed eacl_len 3 (nd_sv signal_demo) [[''k1'', ''k2''], [], []]"
    using xfer_from_ok by (simp add: signal_demo_def)
  moreover have "int_ok (nd_epoch signal_demo + 1)" "10 * unat (nd_mean signal_demo) < 2 ^ 32" "nd_epoch signal_demo = 4"
    by (simp_all add: signal_demo_def int_ok_def INT_MIN_def INT_MAX_def)
  ultimately show ?thesis using signal_asks_outside_thresholds [of 3 signal_demo "[[''k1'', ''k2''], [], []]" "\<lambda>_. True"] by auto
qed

text \<open>
  The interval around the mean: its ends are a tenth of the mean away as long as ten times the mean
  is a 32-bit number; above that the product wraps, and at a mean of 429496730 the interval is that number
  alone, so that every other load asks for a redistribution.
\<close>

theorem thresholds_are_a_tenth:
  "(10 * unat m < 2 ^ 32 \<longrightarrow>
      unat (threshold_max m) = unat m + unat m div 10 \<and> unat (threshold_min m) = unat m - unat m div 10) \<and>
   threshold_max 429496730 = 429496730 \<and> threshold_min 429496730 = 429496730"
  using thresholds [of m] by (simp add: threshold_max_def threshold_min_def PERCENT_def)

theorem thresholds_are_a_tenth_witness:
  "unat (threshold_max 1000) = 1100 \<and> unat (threshold_min 1000) = 900"
  using thresholds_are_a_tenth [of 1000] by simp

text \<open>
  The acknowledgement of the first signal is a file that must not exist. The first one is created; a second
  signal, before somebody removed the file, leaves the files as they are, which dynamic hashing and the static
  method report with -1, while the two methods with epochs return 0.
\<close>

theorem second_acknowledgement_fails:
  assumes "can (ack_name SCRATCH_dh (sv_self (nd_sv s)) ''0'')" "can (ack_name SCRATCH_sh (sv_self (nd_sv s)) ''0'')"
    and "can (ack_name SCRATCH_windowed (sv_self (nd_sv t)) ''0'')" "can (ack_name SCRATCH_indedh (sv_self (nd_sv t)) ''0'')"
    and "nd_files s = []" "nd_files t = []"
  shows "\<exists>s1 s2 t1 t2. distribution_signal1_action_dh can s = (0, s1) \<and> distribution_signal1_action_dh can s1 = (-1, s1) \<and>
    distribution_signal1_action_sh can s = (0, s2) \<and> distribution_signal1_action_sh can s2 = (-1, s2) \<and>
    distribution_signal1_action_windowed can t = (0, t1) \<and> distribution_signal1_action_windowed can t1 = (0, t1) \<and>
    distribution_signal1_action_indedh can t = (0, t2) \<and> distribution_signal1_action_indedh can t2 = (0, t2) \<and>
    (\<forall>k \<in> {nd_files s1, nd_files s2, nd_files t1, nd_files t2}. length k = 1)"
  using assms
  by (simp add: distribution_signal1_action_dh_def distribution_signal1_action_sh_def
      distribution_signal1_action_windowed_def distribution_signal1_action_indedh_def acknowledge_def open_excl_def)

theorem second_acknowledgement_fails_witness:
  "\<exists>t1. distribution_signal1_action_windowed (\<lambda>_. True) signal_demo = (0, t1) \<and>
     distribution_signal1_action_windowed (\<lambda>_. True) t1 = (0, t1)"
  using second_acknowledgement_fails [of "\<lambda>_. True"
      "\<lparr>nd_sv = xfer_from, nd_store = xfer_store, nd_files = [], nd_pushed = []\<rparr> :: (eacl_windowed, u32 list) node" signal_demo]
  by (simp add: signal_demo_def) blast

text \<open>
  C24: between two tables of the manager, the listener thread and the handler of the second signal of a windowed
  server work on well-typed data, in any order of requests, signals and turns: nothing
  is undefined, the epoch of the SAI never passes that of the server, the server keeps its invariant and its names, and what
  it pushes is help for an epoch it has reached or a list with its own number and one SAI per entry.
\<close>

theorem listener_is_typed:
  assumes "listener_ok N nb k L st" and "k + int (length evs) \<le> INT_MAX" and "\<forall>ev \<in> set evs. is_ask_event ev"
  shows "\<exists>st'. forM evs (server_step (thread_manager_listener_windowed X alloc cell N init_result fill replies ps can)
      (distribution_signal2_action_windowed can' send_ok)) st = Some st' \<and> listener_ok N nb (k + int (length evs)) L st'"
proof -
  have "thread_manager_listener_windowed X alloc cell N init_result fill replies ps can =
      listener_turn (\<lambda>ids vers. install_table_windowed X alloc cell N init_result fill ids vers replies ps) (Some ()) can SCRATCH_windowed"
    by (intro ext) (simp add: thread_manager_listener_windowed_def)
  then show ?thesis using server_run_typed [OF assms] by simp
qed

theorem listener_is_typed_witness:
  "\<exists>st'. forM [Publish (ASK_MSG 5), Turn True, Signal2, Turn True]
      (server_step (thread_manager_listener_windowed xfer_demo next_cell \<lparr>md_ent = 9, md_name = [], md_next = None\<rparr> 3
         (0, None) (\<lambda>_ _. 0) [] [] (\<lambda>_. True)) (distribution_signal2_action_windowed (\<lambda>_. True) True))
      (listener_start True signal_demo) = Some st' \<and> listener_ok 3 2 8 [[''k1'', ''k2''], [], []] st'"
proof -
  have "sv_self xfer_from = 0" by (simp add: xfer_from_def)
  then have "listener_ok 3 2 4 [[''k1'', ''k2''], [], []] (listener_start True signal_demo)"
    using xfer_from_ok by (simp add: listener_ok_def node_ok_def listener_start_def signal_demo_def)
  from listener_is_typed [OF this, of "[Publish (ASK_MSG 5), Turn True, Signal2, Turn True]"]
  show ?thesis by (simp add: INT_MAX_def)
qed

end
