(* ===== verification/Epoch_Round.thy ===== *)
theory Epoch_Round
  imports Server_Signals Manager_Windowed
begin

text \<open>
  The manager of \<open>manager_windowed.c\<close> and the listeners of \<open>distribution_windowed_s.c\<close> in one round of the
  protocol: the request for the SAI of an epoch, the answers of servers that have them, and the
  table the manager then publishes.
\<close>

section \<open>A round\<close>

text \<open>What a server answers to a request for its SAI.\<close>

definition answer :: "eacl_windowed epoch_node \<Rightarrow> to_manager_msg" where
  "answer s = EACL_MSG (sv_self (nd_sv s)) (sai (sv_list (nd_sv s))) (load_lvl (sv_list (nd_sv s)))"

lemma asked_in_step:
  assumes ok: "node_ok N nb k L (ln_node u)" and u: "ln_pc u = Listening" "ln_in u = []" and e: "nd_eacl_epoch (ln_node u) = e"
  shows "forM [Publish (ASK_MSG e), Turn True] (server_step (listener_turn inst timing can dir) sig) u =
    Some (u\<lparr>ln_node := (ln_node u)\<lparr>nd_pushed := nd_pushed (ln_node u) @ [answer (ln_node u)]\<rparr>\<rparr>)"
proof -
  have "length (sai (sv_list (nd_sv (ln_node u)))) = N" "unat (eacl_size (sv_list (nd_sv (ln_node u)))) = N"
    using ok by (auto simp: node_ok_def server_ok_def eacl_wf_windowed_def eacl_wf_def eacl_len_def)
  then show ?thesis using u e
    by (cases u) (simp add: listener_turn_def listener_ask_def send_eacl_def answer_def Let_def)
qed

abbreviation relab_windowed :: "nat \<Rightarrow> nat \<Rightarrow> manager \<Rightarrow> (int \<times> manager) option" where
  "relab_windowed N nb \<equiv> manager_calculate_relab_windowed env_fine N (int nb)"

text \<open>The manager with one more answer merged.\<close>

definition took :: "nat \<Rightarrow> nat \<Rightarrow> u32 list \<Rightarrow> u32 \<Rightarrow> manager \<Rightarrow> manager" where
  "took N a ws l m = m\<lparr>global_list := merged N ws (global_list m), all_list := (all_list m)[a := l]\<rparr>"

lemma took_inv:
  assumes "manager_inv N nb k m" and "msg_ok N nb (EACL_MSG (int a) ws l)"
  shows "manager_inv N nb k (took N a ws l m)" and "epoch (took N a ws l m) = epoch m"
  using manager_inv_merge [OF assms] by (simp_all add: took_def)

lemma main_run_app: "main_run relab N nb (xs @ ys) st =
    (case main_run relab N nb xs st of None \<Rightarrow> None | Some st' \<Rightarrow> main_run relab N nb ys st')"
  by (simp add: main_run_def forM_append split: option.split)

lemma collect_one:
  assumes inv: "manager_inv N nb k (ms_man st)" and st: "ms_pc st = Collecting j" "ms_in st = []"
    and msg: "msg_ok N nb (EACL_MSG (int a) ws l)"
  shows "main_run relab N nb [Arrive (EACL_MSG (int a) ws l), Loop True] st =
    (let st1 = st\<lparr>ms_pc := Collecting (j + 1), ms_man := took N a ws l (ms_man st)\<rparr>
     in if j + 1 < nb then Some st1 else main_relab relab True st1)"
proof -
  have "manager_merge_eacl N ws (global_list (ms_man st)) = Some (merged N ws (global_list (ms_man st)))"
    by (rule merge_ok) (use inv msg in \<open>simp_all add: manager_inv_def\<close>)
  moreover have "wri (all_list (ms_man st)) (int a) l = Some ((all_list (ms_man st))[a := l])"
    using inv msg by (simp add: manager_inv_def wri_in)
  ultimately show ?thesis using st
    by (cases st) (simp add: main_run_def main_loop_def main_collect_def took_def Let_def split: option.split)
qed

text \<open>
  The SAI of an entry after the lists \<open>xs\<close> have come one after the other: the last that is not 0, or the old one when
  there is none.
\<close>

definition last_sai :: "u32 \<Rightarrow> u32 list \<Rightarrow> u32" where
  "last_sai old xs = last (old # filter (\<lambda>x. x \<noteq> 0) xs)"

lemma last_sai_simps [simp]:
  "last_sai old [] = old" "last_sai old (x # xs) = last_sai (if x \<noteq> 0 then x else old) xs"
  by (simp_all add: last_sai_def)

lemma last_sai_snoc: "last_sai old (xs @ [x]) = (if x \<noteq> 0 then x else last_sai old xs)"
  by (simp add: last_sai_def)

text \<open>All the answers but the last.\<close>

lemma collect_most:
  assumes "\<forall>a \<in> set as. msg_ok N nb (EACL_MSG (int a) (ws a) (l a))" and "j + length as < nb"
    and "manager_inv N nb k (ms_man st)" and "ms_pc st = Collecting j" "ms_in st = []"
  shows "\<exists>m. main_run relab N nb (concat (map (\<lambda>a. [Arrive (EACL_MSG (int a) (ws a) (l a)), Loop True]) as)) st =
      Some (st\<lparr>ms_pc := Collecting (j + length as), ms_man := m\<rparr>) \<and> manager_inv N nb k m \<and> epoch m = epoch (ms_man st) \<and>
    (\<forall>a \<in> set as. all_list m ! a = l a) \<and> (\<forall>a. a \<notin> set as \<longrightarrow> all_list m ! a = all_list (ms_man st) ! a) \<and>
    table m = table (ms_man st) \<and>
    (\<forall>i < N. global_list m ! i = last_sai (global_list (ms_man st) ! i) (map (\<lambda>a. ws a ! i) as))"
  using assms
proof (induction as arbitrary: j st)
  case Nil
  then show ?case by (intro exI [of _ "ms_man st"]) (cases st, simp add: main_run_def)
next
  case (Cons a as)
  have msg: "msg_ok N nb (EACL_MSG (int a) (ws a) (l a))" using Cons.prems(1) by simp
  let ?st1 = "st\<lparr>ms_pc := Collecting (j + 1), ms_man := took N a (ws a) (l a) (ms_man st)\<rparr>"
  have one: "main_run relab N nb [Arrive (EACL_MSG (int a) (ws a) (l a)), Loop True] st = Some ?st1"
    using collect_one [OF Cons.prems(3-5) msg] Cons.prems(2) by simp
  obtain m where m: "main_run relab N nb (concat (map (\<lambda>a. [Arrive (EACL_MSG (int a) (ws a) (l a)), Loop True]) as)) ?st1 =
      Some (?st1\<lparr>ms_pc := Collecting (j + 1 + length as), ms_man := m\<rparr>)" "manager_inv N nb k m" "epoch m = epoch (ms_man ?st1)"
    "\<forall>a \<in> set as. all_list m ! a = l a" "\<forall>a. a \<notin> set as \<longrightarrow> all_list m ! a = all_list (ms_man ?st1) ! a"
    "table m = table (ms_man ?st1)" "\<forall>i < N. global_list m ! i = last_sai (global_list (ms_man ?st1) ! i) (map (\<lambda>a. ws a ! i) as)"
    using Cons.IH [of "j + 1" ?st1] Cons.prems took_inv [OF Cons.prems(3) msg] by auto
  have "length (all_list (ms_man st)) = nb" "a < nb" using Cons.prems(3) msg by (auto simp: manager_inv_def)
  then have "all_list (took N a (ws a) (l a) (ms_man st)) ! b = (if b = a then l a else all_list (ms_man st) ! b)" for b
    by (simp add: took_def)
  moreover have "main_run relab N nb (concat (map (\<lambda>a. [Arrive (EACL_MSG (int a) (ws a) (l a)), Loop True]) (a # as))) st =
      Some (st\<lparr>ms_pc := Collecting (j + length (a # as)), ms_man := m\<rparr>)"
    unfolding list.map concat.simps main_run_app one using m(1) by simp
  moreover have "\<forall>i < N. global_list m ! i = last_sai (global_list (ms_man st) ! i) (map (\<lambda>a. ws a ! i) (a # as))"
    using m(7) by (simp add: took_def merged_def)
  moreover have "table m = table (ms_man st)" using m(6) by (simp add: took_def)
  ultimately show ?case using m(2-5) took_inv(2) [OF Cons.prems(3) msg]
    by (intro exI [of _ m]) auto
qed


text \<open>All the answers, and the table.\<close>

lemma collect_all:
  assumes inv: "main_inv N nb k st" "k < INT_MAX" and st: "ms_pc st = Collecting 0" "ms_in st = []"
    and ord: "distinct as" "set as = {..<nb}"
    and msg: "\<And>a. a < nb \<Longrightarrow> msg_ok N nb (EACL_MSG (int a) (ws a) (l a))"
  shows "\<exists>st'. main_run (relab_windowed N nb) N nb (concat (map (\<lambda>a. [Arrive (EACL_MSG (int a) (ws a) (l a)), Loop True]) as)) st = Some st' \<and>
    main_inv N nb (k + 1) st' \<and> ms_pc st' = Waiting \<and> ms_in st' = [] \<and> epoch_processed (ms_man st') = 1 \<and>
    (\<forall>a < nb. all_list (ms_man st') ! a = l a) \<and>
    (\<forall>i < N. global_list (ms_man st') ! i = last_sai (global_list (ms_man st) ! i) (map (\<lambda>a. ws a ! i) as)) \<and>
    (\<forall>i < N. mlt_row (table (ms_man st')) i = mlt_row (table (ms_man st)) i \<or>
       (\<exists>s v f s'. mlt_row (table (ms_man st)) i = (s, v, f) \<and> mlt_row (table (ms_man st')) i = (s', v + 1, 0) \<and>
          0 \<le> s' \<and> s' < int nb \<and> 0 < rel_load (all_list (ms_man st')) nb (nat s) \<and> rel_load (all_list (ms_man st')) nb (nat s') < 0)) \<and>
    ms_out st' = ms_out st @ [MLT_MSG (id_srv (table (ms_man st'))) (n_ver (table (ms_man st')))
      (u32_of_int (load_total (all_list (ms_man st')) nb div int nb))]"
proof -
  have m0: "manager_inv N nb k (ms_man st)" and nb: "0 < nb" using inv(1) by (simp_all add: main_inv_def manager_inv_def)
  have len: "length as = nb" using ord distinct_card [OF ord(1)] by simp
  obtain bs z where as: "as = bs @ [z]" using nb len by (cases as rule: rev_cases) auto
  have z: "z < nb" and bs: "set bs = {..<nb} - {z}" "length bs + 1 = nb" using ord len as by auto
  let ?run = "\<lambda>as. main_run (relab_windowed N nb) N nb (concat (map (\<lambda>a. [Arrive (EACL_MSG (int a) (ws a) (l a)), Loop True]) as))"
  obtain m where m: "?run bs st = Some (st\<lparr>ms_pc := Collecting (length bs), ms_man := m\<rparr>)" "manager_inv N nb k m"
    "epoch m = epoch (ms_man st)" "\<forall>a \<in> set bs. all_list m ! a = l a" "table m = table (ms_man st)"
    "\<forall>i < N. global_list m ! i = last_sai (global_list (ms_man st) ! i) (map (\<lambda>a. ws a ! i) bs)"
    using collect_most [of bs N nb ws l 0 k st "relab_windowed N nb"] m0 st bs msg by auto
  let ?st1 = "st\<lparr>ms_pc := Collecting (length bs), ms_man := m\<rparr>"
  let ?st2 = "?st1\<lparr>ms_pc := Collecting (length bs + 1), ms_man := took N z (ws z) (l z) m\<rparr>"
  have two: "main_run (relab_windowed N nb) N nb [Arrive (EACL_MSG (int z) (ws z) (l z)), Loop True] ?st1 = main_relab (relab_windowed N nb) True ?st2"
    using collect_one [of N nb k ?st1 "length bs" z "ws z" "l z"] m(2) st bs(2) msg [OF z] by (simp add: Let_def)
  have run: "?run as st = main_relab (relab_windowed N nb) True ?st2"
    unfolding as map_append concat_append main_run_app m(1) using two by simp
  have t: "manager_inv N nb k (took N z (ws z) (l z) m)" "epoch (took N z (ws z) (l z) m) = epoch m"
    using took_inv [OF m(2) msg [OF z]] by blast+
  have "main_inv N nb k ?st2" using inv(1) t m(3) by (simp add: main_inv_def)
  from rw.relab_step_ok [OF this inv(2), of True] obtain st' where
    st': "main_relab (relab_windowed N nb) True ?st2 = Some st'" "main_inv N nb (k + 1) st'" by blast
  obtain m' where m': "relab_windowed N nb (took N z (ws z) (l z) m) = Some (0, m')"
    "m' = (took N z (ws z) (l z) m)\<lparr>mean_load := u32_of_int (load_total (all_list (took N z (ws z) (l z) m)) nb div int nb), table := table m'\<rparr>"
    "\<forall>i < N. mlt_row (table m') i = mlt_row (table (took N z (ws z) (l z) m)) i \<or>
       (\<exists>s v f s'. mlt_row (table (took N z (ws z) (l z) m)) i = (s, v, f) \<and> mlt_row (table m') i = (s', v + 1, 0) \<and>
          0 \<le> s' \<and> s' < int nb \<and> 0 < rel_load (all_list (took N z (ws z) (l z) m)) nb (nat s) \<and>
          rel_load (all_list (took N z (ws z) (l z) m)) nb (nat s') < 0)"
    using manager_calculate_relab_windowed_ok [OF manager_inv_ok [OF t(1) inv(2)]] by blast
  have al: "all_list m' = all_list (took N z (ws z) (l z) m)"
    "mean_load m' = u32_of_int (load_total (all_list (took N z (ws z) (l z) m)) nb div int nb)"
    "global_list m' = merged N (ws z) (global_list m)"
    by (subst m'(2), simp add: took_def)+
  have gl: "\<forall>i < N. global_list m' ! i = last_sai (global_list (ms_man st) ! i) (map (\<lambda>a. ws a ! i) as)"
    using m(6) al(3) by (simp add: as merged_def last_sai_snoc)
  have tb: "table (took N z (ws z) (l z) m) = table (ms_man st)" using m(5) by (simp add: took_def)
  have "length (all_list m) = nb" using m(2) by (simp add: manager_inv_def)
  then have "all_list m' ! a = l a" if "a < nb" for a
    using al(1) m(4) bs(1) that z by (cases "a = z") (auto simp: took_def)
  moreover have "st' = ?st2\<lparr>ms_pc := Waiting, ms_man := m'\<lparr>epoch_processed := 1\<rparr>,
      ms_out := ms_out st @ [MLT_MSG (id_srv (table m')) (n_ver (table m')) (mean_load m')]\<rparr>"
    using st'(1) m'(1) by (simp add: main_relab_def Let_def)
  ultimately show ?thesis using run st' al(1,2) gl m'(3) [unfolded tb, folded al(1)] st(2) by (intro exI [of _ st']) simp
qed

section \<open>Property of a round\<close>

definition in_step :: "nat \<Rightarrow> nat \<Rightarrow> int \<Rightarrow> int \<Rightarrow> (nat \<Rightarrow> (eacl_windowed epoch_node, from_manager_msg) listener) \<Rightarrow> bool" where
  "in_step N nb k e S \<longleftrightarrow> (\<forall>a < nb. (\<exists>L. node_ok N nb k L (ln_node (S a))) \<and> ln_pc (S a) = Listening \<and> ln_in (S a) = [] \<and>
     sv_self (nd_sv (ln_node (S a))) = int a \<and> nd_eacl_epoch (ln_node (S a)) = e \<and>
     level_ok nb (load_lvl (sv_list (nd_sv (ln_node (S a))))) \<and>
     (\<forall>w \<in> set (sai (sv_list (nd_sv (ln_node (S a))))). level_ok nb w))"

text \<open>
  C8: a round of the windowed method completes. When the manager has asked for the SAI of an epoch and
  all servers have those of this epoch, every server answers with one message; in whatever order the
  answers arrive, the manager then knows the load of every server, and of every entry the last SAI in this order that is
  not 0, or the one it had; it has moved entries only from servers above the mean of these loads to servers below it, publishes the
  new table with this mean, and waits for the next message.
\<close>

theorem epoch_round_completes:
  assumes "main_inv N nb k st" "k < INT_MAX" and "ms_pc st = Collecting 0" "ms_in st = []"
    and "in_step N nb k e S" and "distinct order" "set order = {..<nb}"
  shows "(\<forall>a < nb. forM [Publish (ASK_MSG e), Turn True]
        (server_step (thread_manager_listener_windowed X alloc cell N init_result fill replies ps can) sig) (S a) =
      Some ((S a)\<lparr>ln_node := (ln_node (S a))\<lparr>nd_pushed := nd_pushed (ln_node (S a)) @ [answer (ln_node (S a))]\<rparr>\<rparr>)) \<and>
    (\<exists>st'. main_run (relab_windowed N nb) N nb (concat (map (\<lambda>a. [Arrive (answer (ln_node (S a))), Loop True]) order)) st = Some st' \<and>
      main_inv N nb (k + 1) st' \<and> ms_pc st' = Waiting \<and> epoch_processed (ms_man st') = 1 \<and>
      (\<forall>a < nb. all_list (ms_man st') ! a = load_lvl (sv_list (nd_sv (ln_node (S a))))) \<and>
      (\<forall>i < N. global_list (ms_man st') ! i =
        last_sai (global_list (ms_man st) ! i) (map (\<lambda>a. sai (sv_list (nd_sv (ln_node (S a)))) ! i) order)) \<and>
      (\<forall>i < N. mlt_row (table (ms_man st')) i = mlt_row (table (ms_man st)) i \<or>
         (\<exists>s v f s'. mlt_row (table (ms_man st)) i = (s, v, f) \<and> mlt_row (table (ms_man st')) i = (s', v + 1, 0) \<and>
            0 \<le> s' \<and> s' < int nb \<and> 0 < rel_load (all_list (ms_man st')) nb (nat s) \<and>
            rel_load (all_list (ms_man st')) nb (nat s') < 0)) \<and>
      ms_out st' = ms_out st @ [MLT_MSG (id_srv (table (ms_man st'))) (n_ver (table (ms_man st')))
        (u32_of_int (load_total (all_list (ms_man st')) nb div int nb))])"
proof
  note S = assms(5) [unfolded in_step_def]
  have w: "thread_manager_listener_windowed X alloc cell N init_result fill replies ps can =
      listener_turn (\<lambda>ids vers. install_table_windowed X alloc cell N init_result fill ids vers replies ps) (Some ()) can SCRATCH_windowed"
    by (intro ext) (simp add: thread_manager_listener_windowed_def)
  show "\<forall>a < nb. forM [Publish (ASK_MSG e), Turn True]
        (server_step (thread_manager_listener_windowed X alloc cell N init_result fill replies ps can) sig) (S a) =
      Some ((S a)\<lparr>ln_node := (ln_node (S a))\<lparr>nd_pushed := nd_pushed (ln_node (S a)) @ [answer (ln_node (S a))]\<rparr>\<rparr>)"
    unfolding w using S asked_in_step by blast
  have msg: "answer (ln_node (S a)) = EACL_MSG (int a) (sai (sv_list (nd_sv (ln_node (S a))))) (load_lvl (sv_list (nd_sv (ln_node (S a)))))"
    "msg_ok N nb (answer (ln_node (S a)))" if "a < nb" for a
  proof -
    obtain L where "node_ok N nb k L (ln_node (S a))" using S \<open>a < nb\<close> by blast
    then have "length (sai (sv_list (nd_sv (ln_node (S a))))) = N"
      by (auto simp: node_ok_def server_ok_def eacl_wf_windowed_def eacl_wf_def eacl_len_def)
    then show "answer (ln_node (S a)) = EACL_MSG (int a) (sai (sv_list (nd_sv (ln_node (S a))))) (load_lvl (sv_list (nd_sv (ln_node (S a)))))"
      "msg_ok N nb (answer (ln_node (S a)))" using S that by (simp_all add: answer_def)
  qed
  have as: "map (\<lambda>a. [Arrive (answer (ln_node (S a))), Loop True]) order =
      map (\<lambda>a. [Arrive (EACL_MSG (int a) (sai (sv_list (nd_sv (ln_node (S a))))) (load_lvl (sv_list (nd_sv (ln_node (S a)))))), Loop True]) order"
    using msg(1) assms(7) by simp
  have msg_ok: "msg_ok N nb (EACL_MSG (int a) (sai (sv_list (nd_sv (ln_node (S a))))) (load_lvl (sv_list (nd_sv (ln_node (S a))))))"
    if "a < nb" for a using msg [OF that] by (simp only:)
  show "\<exists>st'. main_run (relab_windowed N nb) N nb (concat (map (\<lambda>a. [Arrive (answer (ln_node (S a))), Loop True]) order)) st = Some st' \<and>
      main_inv N nb (k + 1) st' \<and> ms_pc st' = Waiting \<and> epoch_processed (ms_man st') = 1 \<and>
      (\<forall>a < nb. all_list (ms_man st') ! a = load_lvl (sv_list (nd_sv (ln_node (S a))))) \<and>
      (\<forall>i < N. global_list (ms_man st') ! i =
        last_sai (global_list (ms_man st) ! i) (map (\<lambda>a. sai (sv_list (nd_sv (ln_node (S a)))) ! i) order)) \<and>
      (\<forall>i < N. mlt_row (table (ms_man st')) i = mlt_row (table (ms_man st)) i \<or>
         (\<exists>s v f s'. mlt_row (table (ms_man st)) i = (s, v, f) \<and> mlt_row (table (ms_man st')) i = (s', v + 1, 0) \<and>
            0 \<le> s' \<and> s' < int nb \<and> 0 < rel_load (all_list (ms_man st')) nb (nat s) \<and>
            rel_load (all_list (ms_man st')) nb (nat s') < 0)) \<and>
      ms_out st' = ms_out st @ [MLT_MSG (id_srv (table (ms_man st'))) (n_ver (table (ms_man st')))
        (u32_of_int (load_total (all_list (ms_man st')) nb div int nb))]"
    unfolding as
    using collect_all [OF assms(1-4,6,7), of "\<lambda>a. sai (sv_list (nd_sv (ln_node (S a))))" "\<lambda>a. load_lvl (sv_list (nd_sv (ln_node (S a))))",
        OF msg_ok] by blast
qed

text \<open>Two servers with three entries each, asked for the epoch 4.\<close>

definition round_server :: "nat \<Rightarrow> (eacl_windowed epoch_node, from_manager_msg) listener" where
  "round_server a = listener_start True (signal_demo\<lparr>nd_sv := xfer_from\<lparr>sv_self := int a\<rparr>\<rparr>)"

definition round_manager :: main_state where
  "round_manager = \<lparr>ms_pc = Collecting 0, ms_man = \<lparr>global_list = [5, 1, 3], table = demo_table [0, 1, 0], all_list = [8, 1],
     mean_load = 0, epoch = 4, epoch_processed = 0\<rparr>, ms_in = [], ms_out = [ASK_MSG 4]\<rparr>"

lemma round_demo: "main_inv 3 2 4 round_manager" "in_step 3 2 4 4 round_server"
proof -
  show "main_inv 3 2 4 round_manager" by code_simp
  have "server_ok eacl_wf_windowed eacl_len 3 (xfer_from\<lparr>sv_self := int a\<rparr>) [[''k1'', ''k2''], [], []]" for a
    using xfer_from_ok by (simp add: server_ok_def)
  moreover have "level_ok 2 (load_lvl (sv_list xfer_from))" "\<forall>w \<in> set (sai (sv_list xfer_from)). level_ok 2 w" by code_simp+
  ultimately show "in_step 3 2 4 4 round_server"
    by (auto simp: in_step_def round_server_def listener_start_def signal_demo_def node_ok_def)
qed

theorem epoch_round_completes_witness:
  "\<exists>st'. main_run (relab_windowed 3 2) 3 2 (concat (map (\<lambda>a. [Arrive (answer (ln_node (round_server a))), Loop True]) [1, 0])) round_manager = Some st' \<and>
     ms_pc st' = Waiting"
proof -
  have "ms_pc round_manager = Collecting 0" "ms_in round_manager = []" "(4 :: int) < INT_MAX" "distinct [1 :: nat, 0]" "set [1, 0] = {..<2 :: nat}"
    by (auto simp: round_manager_def INT_MAX_def)
  from epoch_round_completes [OF round_demo(1) this(3,1,2) round_demo(2) this(4,5)] show ?thesis by blast
qed

end
