(* ===== verification/Cluster_Epochs.thy ===== *)
theory Cluster_Epochs
  imports Server_Signals
begin

text \<open>
  The manager with epochs and its servers as one system: a step relation over the turns of the
  processes, their signals and the arrival of messages in any order, and what it means that the signals
  of an epoch reach the processes at different times. An answer of a server is counted on its whole way, which gives
  the invariant \<open>stalled\<close>.
\<close>

section \<open>The system\<close>

text \<open>
  The manager, the servers, how many of the messages the manager has published have reached each server, and how
  many of those a server has pushed have reached the manager. The channels keep the order of their messages.
\<close>

record 'e system =
  sy_man :: main_state
  sy_srv :: "nat \<Rightarrow> ('e epoch_node, from_manager_msg) listener"
  sy_seen :: "nat \<Rightarrow> nat"
  sy_taken :: "nat \<Rightarrow> nat"

definition set_server :: "nat \<Rightarrow> ('e epoch_node, from_manager_msg) listener \<Rightarrow> 'e system \<Rightarrow> 'e system" where
  "set_server a u s = s\<lparr>sy_srv := (sy_srv s)(a := u)\<rparr>"

text \<open>
  The steps, in any order: a turn of the manager or of a listener, a signal to one of them, and the arrival
  of a message. \<open>turn a\<close> and \<open>sig a\<close> are what the listener and the handler of server \<open>a\<close> do.
\<close>

inductive sys_step ::
  "(manager \<Rightarrow> (int \<times> manager) option) \<Rightarrow> nat \<Rightarrow> nat \<Rightarrow>
   (nat \<Rightarrow> bool \<Rightarrow> ('e epoch_node, from_manager_msg) listener \<Rightarrow> ('e epoch_node, from_manager_msg) listener option) \<Rightarrow>
   (nat \<Rightarrow> 'e epoch_node \<Rightarrow> (int \<times> 'e epoch_node) option) \<Rightarrow> 'e system \<Rightarrow> 'e system \<Rightarrow> bool"
  for relab N nb turn sig where
  manager: "ev = Loop ok \<or> ev = Sigusr2 \<Longrightarrow> main_step relab N nb ev (sy_man s) = Some m \<Longrightarrow>
    sys_step relab N nb turn sig s (s\<lparr>sy_man := m\<rparr>)"
| published: "a < nb \<Longrightarrow> sy_seen s a < length (ms_out (sy_man s)) \<Longrightarrow>
    server_step (turn a) (sig a) (Publish (ms_out (sy_man s) ! sy_seen s a)) (sy_srv s a) = Some u \<Longrightarrow>
    sys_step relab N nb turn sig s ((set_server a u s)\<lparr>sy_seen := (sy_seen s)(a := Suc (sy_seen s a))\<rparr>)"
| pushed: "a < nb \<Longrightarrow> sy_taken s a < length (nd_pushed (ln_node (sy_srv s a))) \<Longrightarrow>
    main_step relab N nb (Arrive (nd_pushed (ln_node (sy_srv s a)) ! sy_taken s a)) (sy_man s) = Some m \<Longrightarrow>
    sys_step relab N nb turn sig s (s\<lparr>sy_man := m, sy_taken := (sy_taken s)(a := Suc (sy_taken s a))\<rparr>)"
| server: "a < nb \<Longrightarrow> ev = Turn ok \<or> ev = Signal2 \<Longrightarrow>
    server_step (turn a) (sig a) ev (sy_srv s a) = Some u \<Longrightarrow>
    sys_step relab N nb turn sig s (set_server a u s)"

inductive_cases sys_stepE: "sys_step relab N nb turn sig s t"

section \<open>How many answers there can be\<close>

fun is_eacl :: "to_manager_msg \<Rightarrow> bool" where
  "is_eacl (HELP_MSG e) = False"
| "is_eacl (EACL_MSG i words ld) = True"

definition eacls :: "to_manager_msg list \<Rightarrow> nat" where
  "eacls ms = length (filter is_eacl ms)"

definition ask_count :: "from_manager_msg list \<Rightarrow> nat" where
  "ask_count ms = length (filter is_ask ms)"

lemma eacls_simps [simp]: "eacls [] = 0" "eacls (m # ms) = (if is_eacl m then 1 else 0) + eacls ms"
  "eacls (ms @ ns) = eacls ms + eacls ns"
  by (simp_all add: eacls_def)

lemma ask_count_simps [simp]: "ask_count [] = 0" "ask_count (m # ms) = (if is_ask m then 1 else 0) + ask_count ms"
  "ask_count (ms @ ns) = ask_count ms + ask_count ns"
  by (simp_all add: ask_count_def)

text \<open>The answers of a server that are on their way, and those it may still give to the published messages \<open>out\<close>.\<close>

definition flying :: "nat \<Rightarrow> ('e epoch_node, from_manager_msg) listener \<Rightarrow> nat" where
  "flying taken u = eacls (drop taken (nd_pushed (ln_node u)))"

definition own_asks :: "('e epoch_node, from_manager_msg) listener \<Rightarrow> nat" where
  "own_asks u = ask_count (ln_in u) + (case ln_pc u of Await_eacl e \<Rightarrow> 1 | _ \<Rightarrow> 0)"

definition pending :: "from_manager_msg list \<Rightarrow> nat \<Rightarrow> ('e epoch_node, from_manager_msg) listener \<Rightarrow> nat" where
  "pending pub seen u = own_asks u + ask_count (drop seen pub)"

definition answers :: "main_state \<Rightarrow> nat" where
  "answers m = eacls (ms_in m) + (case ms_pc m of Collecting j \<Rightarrow> j | _ \<Rightarrow> 0)"

text \<open>A server that has passed the epoch \<open>e\<close>, for which \<open>e\<close> is the newest it can be asked for.\<close>

fun ask_upto :: "int \<Rightarrow> from_manager_msg \<Rightarrow> bool" where
  "ask_upto e (ASK_MSG e') = (e' \<le> e)"
| "ask_upto e (MLT_MSG ids vers mean) = True"

definition ahead :: "int \<Rightarrow> ('e epoch_node, from_manager_msg) listener \<Rightarrow> bool" where
  "ahead e u \<longleftrightarrow> e < nd_eacl_epoch (ln_node u) \<and> nd_eacl_epoch (ln_node u) \<le> nd_epoch (ln_node u) \<and>
     (\<forall>x. ln_pc u \<noteq> Await_eacl x) \<and> (\<forall>msg \<in> set (ln_in u). ask_upto e msg)"

text \<open>The quantity that no step increases, with the server \<open>z\<close> left out of those that may answer.\<close>

definition budget :: "nat \<Rightarrow> nat \<Rightarrow> from_manager_msg list \<Rightarrow> 'e system \<Rightarrow> nat" where
  "budget nb z out s = answers (sy_man s) + (\<Sum>a < nb. flying (sy_taken s a) (sy_srv s a)) +
     (\<Sum>a \<in> {..<nb} - {z}. pending out (sy_seen s a) (sy_srv s a))"

definition stalled :: "nat \<Rightarrow> nat \<Rightarrow> int \<Rightarrow> from_manager_msg list \<Rightarrow> 'e system \<Rightarrow> bool" where
  "stalled nb z e out s \<longleftrightarrow> (\<exists>j. ms_pc (sy_man s) = Collecting j) \<and> ms_out (sy_man s) = out \<and>
     budget nb z out s < nb \<and> ahead e (sy_srv s z) \<and> (\<forall>msg \<in> set out. ask_upto e msg)"

text \<open>One server changed: the sum changes by its part.\<close>

lemma sum_one:
  fixes f g :: "nat \<Rightarrow> nat"
  assumes "finite A" "a \<in> A" and "\<And>b. b \<noteq> a \<Longrightarrow> g b = f b"
  shows "sum g A + f a = sum f A + g a"
proof -
  have "sum g (A - {a}) = sum f (A - {a})" by (rule sum.cong) (use assms(3) in auto)
  then show ?thesis using assms(1,2) by (simp add: sum.remove [of A a])
qed

section \<open>What one listener does\<close>

lemma send_eacl_effect:
  assumes "send_eacl ok s = Some s'"
  shows "nd_epoch s' = nd_epoch s \<and> nd_eacl_epoch s' = nd_eacl_epoch s \<and>
    (nd_pushed s' = nd_pushed s \<or> (\<exists>m. is_eacl m \<and> nd_pushed s' = nd_pushed s @ [m]))"
proof -
  let ?l = "sv_list (nd_sv s)"
  have "s' = s \<or> s' = s\<lparr>nd_pushed := nd_pushed s @ [EACL_MSG (sv_self (nd_sv s)) (take (unat (eacl_size ?l)) (sai ?l)) (load_lvl ?l)]\<rparr>"
    using assms by (auto simp: send_eacl_def Let_def split: if_splits)
  then show ?thesis by auto
qed

lemma listener_mlt_effect:
  assumes "listener_mlt inst timing can dir ids vers mean st = Some u"
  shows "nd_epoch (ln_node u) = nd_epoch (ln_node st) \<and> nd_eacl_epoch (ln_node u) = nd_eacl_epoch (ln_node st) \<and>
    nd_pushed (ln_node u) = nd_pushed (ln_node st) \<and> ln_in u = ln_in st \<and> (ln_pc u = Listening \<or> ln_pc u = Joining)"
proof -
  let ?s = "(ln_node st)\<lparr>nd_mean := mean\<rparr>"
  obtain fg pc s where s: "after_install can dir timing fg ?s = Some (pc, s)" "u = st\<lparr>ln_pc := pc, ln_node := s\<rparr>"
    using assms by (auto simp: listener_mlt_def Let_def split: Option.bind_splits)
  let ?s1 = "?s\<lparr>nd_sv := rv_sv (flow_state (snd fg)), nd_store := rv_store (flow_state (snd fg))\<rparr>"
  have "s = ?s1 \<or> s = snd (acknowledge can dir ''1'' ?s1)" "pc = Listening \<or> pc = Joining"
    using s(1) by (auto simp: after_install_def Let_def split: if_splits Option.bind_splits)
  then show ?thesis unfolding acknowledged using s(2) by auto
qed


text \<open>
  What the system relies on: a turn gives at most one answer for each request it takes, none when the server is
  ahead, and a signal gives none and lets no epoch go back.
\<close>

locale epoch_server =
  fixes turn :: "nat \<Rightarrow> bool \<Rightarrow> ('e epoch_node, from_manager_msg) listener \<Rightarrow> ('e epoch_node, from_manager_msg) listener option"
    and sig :: "nat \<Rightarrow> 'e epoch_node \<Rightarrow> (int \<times> 'e epoch_node) option"
  assumes turn_law: "turn a ok st = Some u \<Longrightarrow> \<exists>ms. nd_pushed (ln_node u) = nd_pushed (ln_node st) @ ms \<and>
      eacls ms + own_asks u \<le> own_asks st \<and> (ahead e st \<longrightarrow> ahead e u \<and> eacls ms = 0)"
    and sig_law: "sig a s = Some (rc, s') \<Longrightarrow> \<exists>ms. nd_pushed s' = nd_pushed s @ ms \<and> eacls ms = 0 \<and>
      (nd_eacl_epoch s \<le> nd_epoch s \<longrightarrow> nd_eacl_epoch s \<le> nd_eacl_epoch s' \<and> nd_eacl_epoch s' \<le> nd_epoch s')"
begin

lemma server_law:
  assumes st: "server_step (turn a) (sig a) ev st = Some u" and ev: "ev = Turn ok \<or> ev = Signal2"
  shows "\<exists>ms. nd_pushed (ln_node u) = nd_pushed (ln_node st) @ ms \<and> eacls ms + own_asks u \<le> own_asks st \<and>
    (ahead e st \<longrightarrow> ahead e u \<and> eacls ms = 0)"
  using ev
proof
  assume "ev = Turn ok"
  then show ?thesis using st turn_law [of a ok st u e] by simp
next
  assume "ev = Signal2"
  then obtain rc s' where s': "sig a (ln_node st) = Some (rc, s')" "u = st\<lparr>ln_node := s'\<rparr>"
    using st by (auto split: Option.bind_splits)
  then show ?thesis using sig_law [OF s'(1)] by (auto simp: own_asks_def ahead_def)
qed

end

text \<open>The listener and the handlers of the two methods with epochs.\<close>

lemma turn_effect:
  assumes st: "listener_turn inst timing can dir ok st = Some u"
  shows "\<exists>ms. nd_pushed (ln_node u) = nd_pushed (ln_node st) @ ms \<and> eacls ms + own_asks u \<le> own_asks st \<and>
    (ahead e st \<longrightarrow> ahead e u \<and> eacls ms = 0)"
proof -
  have send: "\<exists>ms. nd_pushed s = nd_pushed (ln_node st) @ ms \<and> eacls ms \<le> 1 \<and> nd_epoch s = nd_epoch (ln_node st) \<and>
      nd_eacl_epoch s = nd_eacl_epoch (ln_node st)" if "send_eacl ok (ln_node st) = Some s" for s
    using send_eacl_effect [OF that] by auto
  show ?thesis
  proof (cases "ln_pc st")
    case Listening
    show ?thesis
    proof (cases "ln_in st")
      case Nil
      then show ?thesis using Listening st by (auto simp: listener_turn_def)
    next
      case (Cons msg q)
      show ?thesis
      proof (cases msg)
        case (ASK_MSG x)
        then have "listener_ask ok x (st\<lparr>ln_in := q\<rparr>) = Some u" using Listening Cons st by (simp add: listener_turn_def)
        then consider "u = st\<lparr>ln_in := q\<rparr>" "x < nd_eacl_epoch (ln_node st)" |
          "u = st\<lparr>ln_in := q, ln_pc := Await_eacl x\<rparr>" "nd_eacl_epoch (ln_node st) < x" |
          s where "send_eacl ok (ln_node st) = Some s" "u = st\<lparr>ln_in := q, ln_node := s\<rparr>" "x = nd_eacl_epoch (ln_node st)"
          by (auto simp: listener_ask_def bind_eq_Some_conv split: if_splits)
        then show ?thesis
        proof cases
          case 1
          then show ?thesis using Cons ASK_MSG Listening by (auto simp: own_asks_def ahead_def)
        next
          case 2
          then show ?thesis using Cons ASK_MSG Listening by (auto simp: own_asks_def ahead_def)
        next
          case 3
          then show ?thesis using Cons ASK_MSG Listening send [OF 3(1)] by (auto simp: own_asks_def ahead_def)
        qed
      next
        case (MLT_MSG ids vers mean)
        then have "listener_mlt inst timing can dir ids vers mean (st\<lparr>ln_in := q\<rparr>) = Some u"
          using Listening Cons st by (simp add: listener_turn_def)
        from listener_mlt_effect [OF this] show ?thesis
          using Cons MLT_MSG Listening by (auto simp: own_asks_def ahead_def)
      qed
    qed
  next
    case (Await_eacl x)
    have "u = st \<or> (\<exists>s. send_eacl ok (ln_node st) = Some s \<and> u = st\<lparr>ln_pc := Listening, ln_node := s\<rparr>)"
      using st Await_eacl by (simp add: listener_turn_def bind_eq_Some_conv split: if_splits) blast+
    then consider "u = st" | s where "send_eacl ok (ln_node st) = Some s" "u = st\<lparr>ln_pc := Listening, ln_node := s\<rparr>" by blast
    then show ?thesis
    proof cases
      case 2
      then show ?thesis using Await_eacl send [OF 2(1)] by (auto simp: own_asks_def ahead_def)
    qed auto
  qed (use st in \<open>auto simp: listener_turn_def\<close>)
qed

lemma signal_effect:
  assumes "signal2_epochs calculate reset level timing can dir ok s = Some (rc, s')"
  shows "\<exists>ms. nd_pushed s' = nd_pushed s @ ms \<and> eacls ms = 0 \<and>
    (nd_eacl_epoch s \<le> nd_epoch s \<longrightarrow> nd_eacl_epoch s \<le> nd_eacl_epoch s' \<and> nd_eacl_epoch s' \<le> nd_epoch s')"
proof -
  have d: "\<exists>ms. nd_pushed t' = nd_pushed t @ ms \<and> eacls ms = 0 \<and> nd_epoch t' = nd_epoch t \<and> nd_eacl_epoch t' = nd_eacl_epoch t"
    if "signal2_decide can dir ok lvl t = (r, t')" for lvl r and t t' :: "'a epoch_node"
    using decide_simps [OF that] by auto
  let ?a = "\<lambda>l. (set_list l s)\<lparr>nd_epoch := nd_epoch s + 1\<rparr>"
  let ?b = "\<lambda>l. (set_list l s)\<lparr>nd_epoch := nd_epoch s + 1, nd_eacl_epoch := nd_epoch s + 1\<rparr>"
  have "(\<exists>l. s' = ?a l) \<or> (\<exists>l. s' = ?b l) \<or> (\<exists>l. signal2_decide can dir ok (level (Some l)) (?b l) = (rc, s'))"
    using assms unfolding signal2_epochs_def Let_def
    by (simp add: set_list_epochs bind_eq_Some_conv split: if_splits option.splits prod.splits) blast+
  then show ?thesis
  proof (elim disjE exE)
    fix l assume "signal2_decide can dir ok (level (Some l)) (?b l) = (rc, s')"
    from d [OF this] show ?thesis by (auto simp: set_list_simps)
  qed (auto simp: set_list_simps set_list_epochs)
qed

interpretation es_windowed: epoch_server
  "\<lambda>a. thread_manager_listener_windowed (X a) (alloc a) cell N init_result fill (replies a) (ps a) can"
  "\<lambda>a. distribution_signal2_action_windowed can send_ok" for X alloc cell N init_result fill replies ps can send_ok
  by unfold_locales (auto simp: thread_manager_listener_windowed_def distribution_signal2_action_windowed_def
      intro: turn_effect signal_effect)

interpretation es_indedh: epoch_server
  "\<lambda>a. thread_manager_listener_indedh (X a) (alloc a) cell N init_result fill (replies a) (ps a) open_ok write_ok can"
  "\<lambda>a. distribution_signal2_action_indedh open_ok write_ok can send_ok"
  for X alloc cell N init_result fill replies ps open_ok write_ok can send_ok
  by unfold_locales (auto simp: thread_manager_listener_indedh_def distribution_signal2_action_indedh_def
      intro: turn_effect signal_effect)


section \<open>A server ahead of the manager\<close>

lemma manager_effect:
  assumes st: "main_step relab N nb ev m = Some m'" and ev: "ev = Loop ok \<or> ev = Sigusr2"
    and m: "ms_pc m = Collecting j" "answers m < nb"
  shows "(\<exists>j. ms_pc m' = Collecting j) \<and> ms_out m' = ms_out m \<and> answers m' \<le> answers m"
  using ev
proof
  assume "ev = Sigusr2"
  then show ?thesis using st m by (auto simp: answers_def bind_eq_Some_conv)
next
  assume "ev = Loop ok"
  then have l: "main_loop relab N nb ok m = Some m'" using st by simp
  show ?thesis
  proof (cases "ms_in m")
    case Nil
    then show ?thesis using l m by (simp add: main_loop_def)
  next
    case (Cons msg q)
    show ?thesis
    proof (cases msg)
      case (HELP_MSG x)
      then show ?thesis using l m Cons by (auto simp: main_loop_def answers_def)
    next
      case (EACL_MSG i ws ld)
      have "j + 1 < nb" using m Cons EACL_MSG by (simp add: answers_def)
      then show ?thesis using l m Cons EACL_MSG
        by (auto simp: main_loop_def main_collect_def answers_def bind_eq_Some_conv Let_def)
    qed
  qed
qed

lemma eacls_drop: "eacls (drop k (ms @ ns)) \<le> eacls (drop k ms) + eacls ns"
proof -
  have "length (filter is_eacl (drop i ns)) \<le> length (filter is_eacl ns)" for i
    by (metis append_take_drop_id filter_append le_add2 length_append)
  then show ?thesis by (simp add: eacls_def)
qed

lemma budget_server:
  assumes "z < nb" "a < nb" and "sy_man t = sy_man s" and "sy_taken t = sy_taken s"
    and "\<And>b. b \<noteq> a \<Longrightarrow> sy_srv t b = sy_srv s b \<and> sy_seen t b = sy_seen s b"
    and "a \<noteq> z \<Longrightarrow> flying (sy_taken s a) (sy_srv t a) + pending out (sy_seen t a) (sy_srv t a)
        \<le> flying (sy_taken s a) (sy_srv s a) + pending out (sy_seen s a) (sy_srv s a)"
    and "a = z \<Longrightarrow> flying (sy_taken s a) (sy_srv t a) \<le> flying (sy_taken s a) (sy_srv s a)"
  shows "budget nb z out t \<le> budget nb z out s"
proof -
  let ?f = "\<lambda>s a. flying (sy_taken s a) (sy_srv s a)" and ?p = "\<lambda>s a. pending out (sy_seen s a) (sy_srv s a)"
  have f: "sum (?f t) {..<nb} + ?f s a = sum (?f s) {..<nb} + ?f t a"
    by (rule sum_one) (use assms(2,4,5) in simp_all)
  show ?thesis
  proof (cases "a = z")
    case True
    have "sum (?p t) ({..<nb} - {z}) = sum (?p s) ({..<nb} - {z})" by (rule sum.cong) (use assms(5) True in auto)
    then show ?thesis using f assms(3,4) assms(7) [OF True] by (simp add: budget_def)
  next
    case False
    have "sum (?p t) ({..<nb} - {z}) + ?p s a = sum (?p s) ({..<nb} - {z}) + ?p t a"
      by (rule sum_one) (use assms(2,5) False in simp_all)
    then show ?thesis using f assms(3,4) assms(6) [OF False] by (simp add: budget_def)
  qed
qed

context epoch_server
begin

lemma stalled_step:
  assumes s: "stalled nb z e out s" and z: "z < nb" and st: "sys_step relab N nb turn sig s t"
  shows "stalled nb z e out t"
proof -
  note s' = s [unfolded stalled_def]
  obtain j where j: "ms_pc (sy_man s) = Collecting j" using s' by blast
  have ans: "answers (sy_man s) < nb" using s' by (simp add: budget_def)
  from st show ?thesis
  proof (cases rule: sys_step.cases)
    case (manager ev ok m)
    from manager_effect [OF manager(3,2) j ans] have "(\<exists>j. ms_pc m = Collecting j) \<and> ms_out m = ms_out (sy_man s) \<and>
        answers m \<le> answers (sy_man s)" .
    then show ?thesis using s' manager(1) by (auto simp: stalled_def budget_def)
  next
    case (published a u)
    let ?msg = "ms_out (sy_man s) ! sy_seen s a"
    have u: "u = (sy_srv s a)\<lparr>ln_in := ln_in (sy_srv s a) @ [?msg]\<rparr>" using published(4) by simp
    have out: "ms_out (sy_man s) = out" using s' by blast
    have d: "drop (sy_seen s a) out = ?msg # drop (Suc (sy_seen s a)) out"
      using published(3) out Cons_nth_drop_Suc [of "sy_seen s a" out] by simp
    have "budget nb z out t \<le> budget nb z out s"
      by (rule budget_server [OF z published(2)])
        (use d u in \<open>simp_all add: published(1) set_server_def flying_def pending_def own_asks_def\<close>)
    moreover have "?msg \<in> set out" using published(3) out by simp
    ultimately show ?thesis using s' u by (auto simp: stalled_def ahead_def published(1) set_server_def)
  next
    case (pushed a m)
    let ?p = "nd_pushed (ln_node (sy_srv s a))"
    have m: "m = (sy_man s)\<lparr>ms_in := ms_in (sy_man s) @ [?p ! sy_taken s a]\<rparr>" using pushed(4) by simp
    have d: "drop (sy_taken s a) ?p = ?p ! sy_taken s a # drop (Suc (sy_taken s a)) ?p"
      using pushed(3) Cons_nth_drop_Suc [of "sy_taken s a" ?p] by simp
    have "sum (\<lambda>a. flying (sy_taken t a) (sy_srv t a)) {..<nb} + flying (sy_taken s a) (sy_srv s a) =
        sum (\<lambda>a. flying (sy_taken s a) (sy_srv s a)) {..<nb} + flying (sy_taken t a) (sy_srv t a)"
      by (rule sum_one) (use pushed(2) in \<open>simp_all add: pushed(1)\<close>)
    then have "budget nb z out t \<le> budget nb z out s"
      using d m by (simp add: budget_def pushed(1) flying_def answers_def split: pc.splits)
    then show ?thesis using s' m by (auto simp: stalled_def pushed(1))
  next
    case (server a ev ok u)
    obtain ms where ms: "nd_pushed (ln_node u) = nd_pushed (ln_node (sy_srv s a)) @ ms" "eacls ms + own_asks u \<le> own_asks (sy_srv s a)"
      "ahead e (sy_srv s a) \<Longrightarrow> ahead e u \<and> eacls ms = 0"
      using server_law [OF server(4,3), of e] by blast
    have f: "flying (sy_taken s a) u \<le> flying (sy_taken s a) (sy_srv s a) + eacls ms"
      using eacls_drop [of "sy_taken s a" "nd_pushed (ln_node (sy_srv s a))" ms] by (simp add: flying_def ms(1))
    have "budget nb z out t \<le> budget nb z out s"
      by (rule budget_server [OF z server(2)])
        (use f ms s' in \<open>auto simp: server(1) set_server_def pending_def\<close>)
    then show ?thesis using s' ms(3) by (auto simp: stalled_def server(1) set_server_def)
  qed
qed

lemma stalled_for_ever:
  "(sys_step relab N nb turn sig)\<^sup>*\<^sup>* s t \<Longrightarrow> stalled nb z e out s \<Longrightarrow> z < nb \<Longrightarrow> stalled nb z e out t"
  by (induction rule: rtranclp_induct) (auto intro: stalled_step)

end


section \<open>Property\<close>

text \<open>The manager has just asked all servers, which have nothing else to read, for the SAI of the epoch \<open>e\<close>.\<close>

definition just_asked :: "nat \<Rightarrow> int \<Rightarrow> from_manager_msg list \<Rightarrow> 'e system \<Rightarrow> bool" where
  "just_asked nb e old s \<longleftrightarrow> ms_pc (sy_man s) = Collecting 0 \<and> ms_in (sy_man s) = [] \<and>
     ms_out (sy_man s) = old @ [ASK_MSG e] \<and> (\<forall>msg \<in> set old. ask_upto e msg) \<and>
     (\<forall>a < nb. sy_taken s a = length (nd_pushed (ln_node (sy_srv s a))) \<and> sy_seen s a = length old \<and>
        ln_in (sy_srv s a) = [] \<and> ln_pc (sy_srv s a) = Listening)"

lemma just_asked_stalled:
  assumes s: "just_asked nb e old s" and z: "z < nb" "e < nd_eacl_epoch (ln_node (sy_srv s z))"
    "nd_eacl_epoch (ln_node (sy_srv s z)) \<le> nd_epoch (ln_node (sy_srv s z))"
  shows "stalled nb z e (old @ [ASK_MSG e]) s"
proof -
  note s' = s [unfolded just_asked_def]
  let ?out = "old @ [ASK_MSG e]"
  have "sum (\<lambda>a. flying (sy_taken s a) (sy_srv s a)) {..<nb} = (\<Sum>a < nb. 0)"
    by (rule sum.cong) (use s' in \<open>auto simp: flying_def\<close>)
  moreover have "sum (\<lambda>a. pending ?out (sy_seen s a) (sy_srv s a)) ({..<nb} - {z}) = (\<Sum>a \<in> {..<nb} - {z}. 1)"
    by (rule sum.cong) (use s' in \<open>auto simp: pending_def own_asks_def\<close>)
  moreover have "card ({..<nb} - {z}) < nb" using z(1) by simp
  ultimately have "budget nb z ?out s < nb" using s' by (simp add: budget_def answers_def)
  then show ?thesis using s' z by (auto simp: stalled_def ahead_def)
qed

text \<open>
  C10: one server that is an epoch ahead blocks the cluster. When the manager has just asked for the SAI
  of an epoch and the signal of the next one has already reached one server, this server ignores the
  request: then in every state that the manager, the servers and the channels can reach, whatever signals and help
  messages follow, the manager is still collecting and has published nothing more.
\<close>

theorem server_ahead_stalls_the_cluster:
  assumes "just_asked nb e old s" and "z < nb" "e < nd_eacl_epoch (ln_node (sy_srv s z))"
    and "nd_eacl_epoch (ln_node (sy_srv s z)) \<le> nd_epoch (ln_node (sy_srv s z))"
    and "(sys_step relab N nb (\<lambda>a. thread_manager_listener_windowed (X a) (alloc a) cell N init_result fill (replies a) (ps a) can)
        (\<lambda>a. distribution_signal2_action_windowed can send_ok))\<^sup>*\<^sup>* s t"
  shows "\<exists>j < nb. ms_pc (sy_man t) = Collecting j \<and> ms_out (sy_man t) = old @ [ASK_MSG e]"
proof -
  have "stalled nb z e (old @ [ASK_MSG e]) t"
    using es_windowed.stalled_for_ever [OF assms(5) just_asked_stalled [OF assms(1-4)] assms(2)] .
  then obtain j where "ms_pc (sy_man t) = Collecting j" "answers (sy_man t) < nb" "ms_out (sy_man t) = old @ [ASK_MSG e]"
    by (auto simp: stalled_def budget_def)
  then show ?thesis by (auto simp: answers_def)
qed

text \<open>Two servers, of which the second is at epoch 5 when the manager asks for 4.\<close>

definition stall_server :: "nat \<Rightarrow> (eacl_windowed epoch_node, from_manager_msg) listener" where
  "stall_server a = listener_start True (signal_demo\<lparr>nd_epoch := 4 + int a, nd_eacl_epoch := 4 + int a\<rparr>)"

definition stall_system :: "eacl_windowed system" where
  "stall_system = \<lparr>sy_man = \<lparr>ms_pc = Collecting 0, ms_man = \<lparr>global_list = [5, 1, 3], table = demo_table [0, 1, 0],
      all_list = [8, 1], mean_load = 0, epoch = 4, epoch_processed = 0\<rparr>, ms_in = [], ms_out = [ASK_MSG 4]\<rparr>,
    sy_srv = stall_server, sy_seen = (\<lambda>_. 0), sy_taken = (\<lambda>_. 0)\<rparr>"

theorem server_ahead_stalls_the_cluster_witness:
  "\<exists>j < 2. ms_pc (sy_man (stall_system\<lparr>sy_man := (sy_man stall_system)\<lparr>ms_man := (ms_man (sy_man stall_system))\<lparr>epoch := 5\<rparr>\<rparr>\<rparr>)) = Collecting j"
proof -
  let ?t = "stall_system\<lparr>sy_man := (sy_man stall_system)\<lparr>ms_man := (ms_man (sy_man stall_system))\<lparr>epoch := 5\<rparr>\<rparr>\<rparr>"
  have a: "just_asked 2 4 [] stall_system"
    by (simp add: just_asked_def stall_system_def stall_server_def listener_start_def signal_demo_def)
  have e: "nd_eacl_epoch (ln_node (sy_srv stall_system 1)) = 5" "nd_epoch (ln_node (sy_srv stall_system 1)) = 5"
    by (simp_all add: stall_system_def stall_server_def listener_start_def)
  let ?step = "sys_step (\<lambda>_. None) 3 2 (\<lambda>a. thread_manager_listener_windowed xfer_demo next_cell \<lparr>md_ent = 9, md_name = [], md_next = None\<rparr> 3
         (0, None) (\<lambda>_ _. 0) [] [] (\<lambda>_. True)) (\<lambda>a. distribution_signal2_action_windowed (\<lambda>_. True) True)"
  have "main_step (\<lambda>_. None) 3 2 Sigusr2 (sy_man stall_system) = Some (sy_man ?t)"
    by (simp add: stall_system_def usrHandler2_def c_conv int_ok_def INT_MIN_def INT_MAX_def)
  then have "?step stall_system (stall_system\<lparr>sy_man := sy_man ?t\<rparr>)" by (rule sys_step.manager [rotated]) simp
  then have "?step\<^sup>*\<^sup>* stall_system ?t" by simp
  from server_ahead_stalls_the_cluster [OF a _ _ _ this, of 1] e show ?thesis by auto
qed

end
