(* ===== verification/Server_Init.thy ===== *)
theory Server_Init
  imports Load_Transfer
begin

text \<open>
  The start and the end of a server: \<open>distribution_init\<close> and \<open>distribution_finalize\<close> of the four
  files \<open>distribution_*_s.c\<close>, and \<open>main\<close> of \<open>server.c\<close> up to its loop. A start that succeeds
  establishes the invariant \<open>server_ok\<close> of the handling of requests; the end gives the cells of the lists
  of names back.
\<close>

section \<open>The code\<close>

text \<open>
  What the system gives to the initialisation: the file \<open>server.cfg\<close> (\<open>None\<close> when it cannot be
  opened), memory, the locks of the entries, the socket to the manager and the thread.
\<close>

record init_env =
  ie_malloc_id :: bool
  ie_srv :: "string option"
  ie_malloc_md :: bool
  ie_garbage :: "nat \<Rightarrow> md_ptr"
  ie_lock :: "nat \<Rightarrow> int"
  ie_push :: bool
  ie_thread :: int

text \<open>The static variables; \<open>None\<close> before they are initialised.\<close>

record 'e boot =
  bt_table :: "mlt option"
  bt_list :: "'e option"
  bt_self :: int
  bt_md :: "md_ptr list option"
  bt_push :: bool
  bt_listener :: bool

definition boot_static :: "'e boot" where
  "boot_static = \<lparr>bt_table = None, bt_list = None, bt_self = 0, bt_md = None, bt_push = False, bt_listener = False\<rparr>"

text \<open>How a call ends: it returns, or the calling thread has left by \<open>pthread_exit\<close>.\<close>

datatype call_end = Returned int | Thread_exit

text \<open>
  The number of the server: what follows the first \<open>=\<close> after \<open>ID\<close>. A line without one of them is
  a string function applied to \<open>NULL\<close>.
\<close>

definition number_of_line :: "string \<Rightarrow> int option" where
  "number_of_line l = do {
     v \<leftarrow> strstr l ''ID'';
     v \<leftarrow> strchr v CHR ''='';
     atoi (drop 1 v)
   }"

text \<open>
  The part of \<open>distribution_init\<close> that reads \<open>server.cfg\<close>, in all four methods.
\<close>

definition read_own_id :: "init_env \<Rightarrow> (int + int) option" where
  "read_own_id V =
     (if \<not> ie_malloc_id V then Some (Inl 0)
      else case ie_srv V of
          None \<Rightarrow> Some (Inl (-1))
        | Some file \<Rightarrow>
            (case fgets max_id_size file of
               None \<Rightarrow> Some (Inl (-1))
             | Some (l, rest) \<Rightarrow> map_option Inr (number_of_line (chop (up_to_nul l)))))"

text \<open>The lists of names and their locks: a lock that cannot be created leaves the loop.\<close>

definition init_lists :: "init_env \<Rightarrow> nat \<Rightarrow> md_ptr list flow option" where
  "init_lists V N =
     forE [0..<N] (\<lambda>i md. do {
         md \<leftarrow> wr md i None;
         Some (if - ie_lock V i \<noteq> 0 then Leave md else Next md)
       }) (map (ie_garbage V) [0..<N])"

definition distribution_init ::
  "init_env \<Rightarrow> nat \<Rightarrow> int \<times> mlt option \<Rightarrow> int \<times> 'e option \<Rightarrow> (call_end \<times> 'e boot) option" where
  "distribution_init V N mlt_result eacl_result =
     (let b = boot_static\<lparr>bt_table := snd mlt_result\<rparr> in
      if fst mlt_result \<noteq> 0 then Some (Returned (-1), b)
      else let b = b\<lparr>bt_list := snd eacl_result\<rparr> in
      if fst eacl_result \<noteq> 0 then Some (Returned (-1), b)
      else do {
        r \<leftarrow> read_own_id V;
        case r of
          Inl rc \<Rightarrow> Some (Returned rc, b)
        | Inr n \<Rightarrow>
            let b = b\<lparr>bt_self := n\<rparr> in
            if \<not> ie_malloc_md V then Some (Returned (-1), b)
            else do {
              f \<leftarrow> init_lists V N;
              let b = b\<lparr>bt_md := Some (flow_state f)\<rparr>;
              case f of
                Leave _ \<Rightarrow> Some (Returned (-1), b)
              | Next _ \<Rightarrow>
                  if \<not> ie_push V then Some (Thread_exit, b)
                  else let b = b\<lparr>bt_push := True\<rparr> in
                  if ie_thread V \<noteq> 0 then Some (Returned (-1), b)
                  else Some (Returned 0, b\<lparr>bt_listener := True\<rparr>)
            }
      })"

text \<open>
  The three methods with a table. In the two with epochs the function first sets \<open>epoch\<close>,
  \<open>eacl_epoch\<close> and \<open>mean_load\<close> to 0; these variables are in \<open>Server_Signals\<close>.
\<close>

definition distribution_init_dh ::
  "init_env \<Rightarrow> nat \<Rightarrow> int \<times> mlt option \<Rightarrow> int \<times> eacl option \<Rightarrow> (call_end \<times> eacl boot) option" where
  "distribution_init_dh = distribution_init"

definition distribution_init_indedh ::
  "init_env \<Rightarrow> nat \<Rightarrow> int \<times> mlt option \<Rightarrow> int \<times> eacl_indedh option \<Rightarrow> (call_end \<times> eacl_indedh boot) option" where
  "distribution_init_indedh = distribution_init"

definition distribution_init_windowed ::
  "init_env \<Rightarrow> nat \<Rightarrow> int \<times> mlt option \<Rightarrow> int \<times> eacl_windowed option \<Rightarrow> (call_end \<times> eacl_windowed boot) option" where
  "distribution_init_windowed = distribution_init"

text \<open>The static method has nothing but its number.\<close>

definition distribution_init_sh :: "init_env \<Rightarrow> (int \<times> int) option" where
  "distribution_init_sh V = do {
     r \<leftarrow> read_own_id V;
     Some (case r of Inl rc \<Rightarrow> (rc, 0) | Inr n \<Rightarrow> (0, n))
   }"

subsection \<open>\<open>distribution_finalize\<close>\<close>

text \<open>Emptying a list: each cell is taken from the list and given back.\<close>

partial_function (option) free_list :: "md_heap \<Rightarrow> md_ptr \<Rightarrow> md_heap option" where
  "free_list h head =
     (if head = None then Some h
      else Option.bind (md_entry_pop h head) (\<lambda>(head', elem).
        case elem of None \<Rightarrow> None | Some a \<Rightarrow> free_list (h(a := None)) head'))"

text \<open>
  The results of the destructors, of \<open>pthread_cancel\<close> and of \<open>pthread_join\<close> are at most printed. The
  arrays of the table, of the access list and of the lists are gone afterwards, which \<open>None\<close>
  stands for.
\<close>

definition distribution_finalize :: "nat \<Rightarrow> 'e server \<Rightarrow> (int \<times> md_heap) option" where
  "distribution_finalize N sv = do {
     h \<leftarrow> forM [0..<N] (\<lambda>i h. do { head \<leftarrow> rd (sv_md sv) i; free_list h head }) (sv_heap sv);
     Some (0, h)
   }"

definition distribution_finalize_dh :: "nat \<Rightarrow> eacl server \<Rightarrow> (int \<times> md_heap) option" where
  "distribution_finalize_dh = distribution_finalize"

definition distribution_finalize_indedh :: "nat \<Rightarrow> eacl_indedh server \<Rightarrow> (int \<times> md_heap) option" where
  "distribution_finalize_indedh = distribution_finalize"

definition distribution_finalize_windowed :: "nat \<Rightarrow> eacl_windowed server \<Rightarrow> (int \<times> md_heap) option" where
  "distribution_finalize_windowed = distribution_finalize"

definition distribution_finalize_sh :: int where
  "distribution_finalize_sh = 0"

text \<open>The handler of \<open>SIGINT\<close>: the exit code is 0 whatever the finalisation returns.\<close>

definition int_handler :: "nat \<Rightarrow> 'e server \<Rightarrow> (int \<times> md_heap) option" where
  "int_handler N sv = do { (rc, h) \<leftarrow> distribution_finalize N sv; Some (0, h) }"

subsection \<open>\<open>main\<close> of the server up to its loop\<close>

text \<open>
  The same line is read a second time, with \<open>read\<close>: nothing terminates the bytes in the buffer,
  so that \<open>strchr\<close> goes on in what \<open>malloc\<close> left behind them.
\<close>

definition buffer_line :: "string \<Rightarrow> string option" where
  "buffer_line buf =
     (let l = takeWhile (\<lambda>c. c \<noteq> newline \<and> c \<noteq> CHR 0x00) buf in
      if length l = length buf then None else Some l)"

record start_env =
  se_socket :: bool
  se_malloc :: bool
  se_srv :: "string option"
  se_read :: bool
  se_garbage :: string

datatype 'b startup = Exit int | Main_gone 'b | Serving int 'b

definition server_start ::
  "start_env \<Rightarrow> (int \<Rightarrow> (call_end \<times> 'b) option) \<Rightarrow> string list \<Rightarrow> 'b startup option" where
  "server_start V init argv =
     (case argv of
        nb # kind # _ \<Rightarrow>
          if kind \<noteq> ''o'' \<and> kind \<noteq> ''p'' then Some (Exit (-1))
          else if \<not> se_socket V then Some (Exit (-1))
          else do {
            nb \<leftarrow> atoi nb;
            (rc, b) \<leftarrow> init nb;
            case rc of
              Thread_exit \<Rightarrow> Some (Main_gone b)
            | Returned rc \<Rightarrow>
                if rc \<noteq> 0 then Some (Exit (-1))
                else if \<not> se_malloc V then Some (Exit (-1))
                else case se_srv V of
                    None \<Rightarrow> Some (Exit (-1))
                  | Some file \<Rightarrow>
                      if \<not> se_read V then Some (Exit (-1))
                      else do {
                        let bytes = take max_id_size file;
                        l \<leftarrow> buffer_line (bytes @ take (max_id_size - length bytes) (se_garbage V));
                        n \<leftarrow> number_of_line l;
                        Some (Serving n b)
                      }
          }
      | _ \<Rightarrow> Some (Exit (-1)))"


section \<open>The line with the number\<close>

lemma length_dec_nat: "n < 10 ^ Suc k \<Longrightarrow> length (dec_nat n) \<le> Suc k"
proof (induction k arbitrary: n)
  case 0
  then show ?case by (simp add: dec_nat.simps [of n])
next
  case (Suc k)
  have "n div 10 < 10 ^ Suc k" using Suc.prems by (simp add: less_mult_imp_div_less)
  from Suc.IH [OF this] show ?case by (subst dec_nat.simps) simp
qed

lemma length_dec: "0 \<le> n \<Longrightarrow> n \<le> INT_MAX \<Longrightarrow> length (dec n) \<le> 10"
proof -
  assume "0 \<le> n" "n \<le> INT_MAX"
  then have "nat n < 10 ^ Suc 9" by (simp add: INT_MAX_def nat_less_iff)
  then show ?thesis using length_dec_nat [of "nat n" 9] \<open>0 \<le> n\<close> by (simp add: dec_def)
qed

lemma dec_plain: "0 \<le> n \<Longrightarrow> c \<in> set (dec n) \<Longrightarrow> c \<noteq> newline \<and> c \<noteq> CHR 0x00"
  using dec_nat_digits [of c "nat n"] digit_plain [of c] by (simp add: dec_def)

definition own_line :: "int \<Rightarrow> string" where
  "own_line n = ''ID='' @ dec n"

lemma own_line:
  assumes n: "0 \<le> n" "n \<le> INT_MAX"
  shows "number_of_line (own_line n) = Some n" and "newline \<notin> set (own_line n)" and "c_string (own_line n)"
    and "length (own_line n) \<le> 13"
proof -
  show "number_of_line (own_line n) = Some n"
    using atoi_dec [OF n, of "[]"] by (simp add: number_of_line_def own_line_def strchr_def)
  show "newline \<notin> set (own_line n)" "c_string (own_line n)"
    using dec_plain [OF n(1)] by (auto simp: own_line_def c_string_def)
  show "length (own_line n) \<le> 13" using length_dec [OF n] by (simp add: own_line_def)
qed

lemma read_own_id_ok:
  assumes n: "0 \<le> n" "n \<le> INT_MAX" and V: "ie_malloc_id V" "ie_srv V = Some (text_file (own_line n # ls))"
  shows "read_own_id V = Some (Inr n)"
proof -
  note l = own_line [OF n]
  have "fgets max_id_size (own_line n @ newline # text_file ls) = Some (own_line n @ [newline], text_file ls)"
    by (rule fgets_line) (use l in \<open>simp_all add: max_id_size_def\<close>)
  moreover have "up_to_nul (own_line n @ [newline]) = own_line n @ [newline]"
    using l(3) by (auto simp: up_to_nul_def c_string_def takeWhile_eq_all_conv)
  ultimately show ?thesis using V l(1,2) by (simp add: read_own_id_def)
qed

lemma buffer_line_ok:
  assumes n: "0 \<le> n" "n \<le> INT_MAX"
  shows "buffer_line (take max_id_size (own_line n @ newline # s) @ t) = Some (own_line n)"
proof -
  note l = own_line [OF n]
  have "\<exists>u. take max_id_size (own_line n @ newline # s) @ t = own_line n @ newline # u"
    using l(4) by (simp add: max_id_size_def take_Cons split: nat.splits)
  then obtain u where u: "take max_id_size (own_line n @ newline # s) @ t = own_line n @ newline # u" ..
  have "takeWhile (\<lambda>c. c \<noteq> newline \<and> c \<noteq> CHR 0x00) (own_line n @ newline # u) = own_line n"
    using l(2,3) by (subst takeWhile_append2) (auto simp: c_string_def)
  then show ?thesis unfolding u by (simp add: buffer_line_def)
qed

section \<open>A server that starts\<close>

lemma init_lists_ok:
  assumes "\<forall>i < N. ie_lock V i = 0"
  shows "init_lists V N = Some (Next (replicate N None))"
proof -
  have "\<exists>md. init_lists V N = Some (Next md) \<and> length md = N \<and> (\<forall>i < N. md ! i = None)"
    unfolding init_lists_def
  proof (rule forE_upt_rule [where P = "\<lambda>i md. length md = N \<and> (\<forall>j < i. md ! j = None)"])
    fix i and md :: "md_ptr list"
    assume "i < N" "length md = N \<and> (\<forall>j < i. md ! j = None)"
    then show "\<exists>md'. (do { md \<leftarrow> wr md i None; Some (if - ie_lock V i \<noteq> 0 then Leave md else Next md) }) = Some (Next md') \<and>
        length md' = N \<and> (\<forall>j < Suc i. md' ! j = None)"
      using assms by (auto simp: wr_in nth_list_update less_Suc_eq)
  qed simp
  then obtain md where "init_lists V N = Some (Next md)" "length md = N" "\<forall>i < N. md ! i = None" by blast
  moreover from this have "md = replicate N None" by (intro nth_equalityI) simp_all
  ultimately show ?thesis by simp
qed

text \<open>The access lists of the three methods as they are created.\<close>

lemma eacl_init_dh_ok: "0 < N \<Longrightarrow> int N \<le> INT_MAX \<Longrightarrow>
    \<exists>e. eacl_init_dh True True True (int N) = (0, Some e) \<and> eacl_wf e \<and> eacl_len e = N"
  and eacl_init_indedh_ok: "0 < N \<Longrightarrow> int N \<le> INT_MAX \<Longrightarrow>
    \<exists>e. eacl_init_indedh True True True (int N) = (0, Some e) \<and> eacl_wf e \<and> eacl_len e = N"
  by (simp_all add: eacl_init_dh_def eacl_init_indedh_def eacl_wf_def eacl_len_def unat_u32_of_int
      uint_u32_of_int int_ok_def INT_MIN_def)

lemma new_queues:
  assumes "\<forall>i < n. fst (qm i) \<and> (\<exists>vs. snd (qm i) = Some vs \<and> length vs = WINDOW_SIZE)"
  shows "\<exists>qs. forM [0..<n] (\<lambda>i qs. map_option (\<lambda>q. qs @ [q]) (queue_new (fst (qm i)) (snd (qm i)) WINDOW_SIZE)) [] = Some qs \<and>
    length qs = n \<and> (\<forall>q \<in> set qs. q_wf q \<and> q_count q = WINDOW_SIZE \<and> q_list q = [])"
proof (rule forM_upt_rule)
  fix i and qs :: "queue list"
  assume i: "i < n" and qs: "length qs = i \<and> (\<forall>q \<in> set qs. q_wf q \<and> q_count q = WINDOW_SIZE \<and> q_list q = [])"
  obtain vs where vs: "fst (qm i)" "snd (qm i) = Some vs" "length vs = WINDOW_SIZE" using assms i by blast
  from queue_new_wf [OF vs(3)] obtain q where "queue_new True (Some vs) WINDOW_SIZE = Some q" "q_wf q" "q_count q = WINDOW_SIZE" "q_list q = []"
    by (auto simp: WINDOW_SIZE_def)
  then show "\<exists>t'. map_option (\<lambda>q. qs @ [q]) (queue_new (fst (qm i)) (snd (qm i)) WINDOW_SIZE) = Some t' \<and>
      length t' = Suc i \<and> (\<forall>q \<in> set t'. q_wf q \<and> q_count q = WINDOW_SIZE \<and> q_list q = [])" using vs qs by simp
qed simp

text \<open>An access list in which nothing has been counted: no access, no SAI, no load, and no step in the windows.\<close>

definition nothing_counted :: "nat \<Rightarrow> eacl_windowed \<Rightarrow> bool" where
  "nothing_counted N e \<longleftrightarrow> access_count e = replicate N 0 \<and> sai e = replicate N 0 \<and> load_lvl e = 0 \<and>
     length (old_accesses e) = N \<and> (\<forall>q \<in> set (old_accesses e). q_list q = [])"

lemma eacl_init_windowed_ok:
  assumes N: "0 < N" "int N \<le> INT_MAX"
    and qm: "\<forall>i < N. fst (qm i) \<and> (\<exists>vs. snd (qm i) = Some vs \<and> length vs = WINDOW_SIZE)"
  shows "\<exists>e. eacl_init_windowed True True True qm True (int N) = (0, Some e) \<and> eacl_wf_windowed e \<and> eacl_len e = N \<and> nothing_counted N e"
  using new_queues [OF qm] N
  by (auto simp: nothing_counted_def eacl_init_windowed_def eacl_wf_windowed_def eacl_wf_def eacl_len_def unat_u32_of_int
      uint_u32_of_int int_ok_def INT_MIN_def)

definition init_fine :: "init_env \<Rightarrow> nat \<Rightarrow> bool" where
  "init_fine V N \<longleftrightarrow> ie_malloc_id V \<and> ie_malloc_md V \<and> (\<forall>i < N. ie_lock V i = 0) \<and> ie_push V \<and> ie_thread V = 0"

definition booted :: "'e boot \<Rightarrow> 'e server option" where
  "booted b = do {
     t \<leftarrow> bt_table b; e \<leftarrow> bt_list b; md \<leftarrow> bt_md b;
     Some \<lparr>sv_table = t, sv_list = e, sv_md = md, sv_heap = (\<lambda>_. None), sv_self = bt_self b\<rparr>
   }"

lemma distribution_init_ok:
  assumes V: "init_fine V N" "read_own_id V = Some (Inr n)"
    and t: "mlt_wf t" "mlt_len t = N" and e: "good e" "len e = N"
  shows "\<exists>b sv. distribution_init V N (0, Some t) (0, Some e) = Some (Returned 0, b) \<and> booted b = Some sv \<and>
    bt_push b \<and> bt_listener b \<and> sv_table sv = t \<and> sv_list sv = e \<and> sv_self sv = n \<and> server_ok good len N sv (replicate N [])"
  using assms init_lists_ok [of N V] holds_empty [of N]
  by (simp add: distribution_init_def init_fine_def booted_def server_ok_def)


section \<open>Emptying the lists\<close>

lemma free_list_ok: "is_list h p as \<Longrightarrow> free_list h p = Some (h |` (- set as))"
proof (induction as arbitrary: h p)
  case Nil
  then have "p = None" by (simp add: is_list_def)
  moreover have "h |` UNIV = h" by (rule ext) simp
  ultimately show ?case by (simp add: free_list.simps [of h None])
next
  case (Cons a as)
  obtain c where c: "p = Some a" "h a = Some c" "chain h (md_next c) as" "distinct (a # as)"
    using Cons.prems by (auto simp: is_list_def)
  have "is_list (h(a := None)) (md_next c) as"
  proof -
    have "chain (h(a := None)) (md_next c) as = chain h (md_next c) as" by (rule chain_cong) (use c(4) in auto)
    then show ?thesis using c(3,4) by (simp add: is_list_def)
  qed
  from Cons.IH [OF this] have "free_list (h(a := None)) (md_next c) = Some ((h(a := None)) |` (- set as))" .
  moreover have "(h(a := None)) |` (- set as) = h |` (- set (a # as))"
    by (rule ext) (simp add: restrict_map_def)
  ultimately show ?case using c by (simp add: free_list.simps [of h "Some a"] md_entry_pop_def)
qed

lemma is_list_rest:
  assumes "is_list h p as" and "set as \<inter> B = {}"
  shows "is_list (h |` (- B)) p as"
proof -
  have "chain (h |` (- B)) p as = chain h p as" by (rule chain_cong) (use assms(2) in \<open>auto simp: restrict_map_def\<close>)
  then show ?thesis using assms(1) by (simp add: is_list_def)
qed

lemma free_lists_ok:
  assumes s: "separate h md ass" and n: "length md = N"
  shows "forM [0..<N] (\<lambda>i h. do { head \<leftarrow> rd md i; free_list h head }) h = Some (h |` (- (\<Union>as \<in> set ass. set as)))"
proof -
  note s' = s [unfolded separate_def]
  let ?B = "\<lambda>i. \<Union>j < i. set (ass ! j)"
  have "\<exists>g. forM [0..<N] (\<lambda>i h. do { head \<leftarrow> rd md i; free_list h head }) h = Some g \<and> g = h |` (- ?B N)"
  proof (rule forM_upt_rule [where P = "\<lambda>i g. g = h |` (- ?B i)"])
    show "h = h |` (- ?B 0)" by (rule ext) simp
  next
    fix i g assume i: "i < N" and g: "g = h |` (- ?B i)"
    have "set (ass ! i) \<inter> set (ass ! j) = {}" if "j < i" for j using s' i n that by simp
    then have "set (ass ! i) \<inter> ?B i = {}" by blast
    then have "is_list g (md ! i) (ass ! i)" unfolding g by (rule is_list_rest [rotated]) (use s' i n in simp)
    from free_list_ok [OF this] have "free_list g (md ! i) = Some (g |` (- set (ass ! i)))" .
    moreover have "g |` (- set (ass ! i)) = h |` (- ?B (Suc i))"
      unfolding g by (rule ext) (auto simp: restrict_map_def less_Suc_eq)
    ultimately show "\<exists>t'. (do { head \<leftarrow> rd md i; free_list g head }) = Some t' \<and> t' = h |` (- ?B (Suc i))"
      using i n by (simp add: rd_in)
  qed
  moreover have "?B N = (\<Union>as \<in> set ass. set as)" using s' n by (simp add: set_conv_nth [of ass]) blast
  ultimately show ?thesis by simp
qed

section \<open>Properties\<close>

text \<open>
  C37: a server of the windowed method that gets what it asks the system for starts: from the line
  \<open>ID=n\<close> of \<open>server.cfg\<close> both \<open>main\<close> and \<open>distribution_init\<close> read the number n, the table
  places entry i on server i modulo the number of servers in the argument, no access has been counted: every counter and
  every SAI is 0, so is the load, and the windows are empty; the socket and the thread to the manager are there, and the state
  satisfies the invariant on which the handling of requests rests, with no names in charge.
\<close>

theorem server_starts:
  assumes "0 < N" "int N \<le> INT_MAX" and "0 < nb" "nb \<le> INT_MAX" and "0 \<le> n" "n \<le> INT_MAX"
    and "init_fine V N" "ie_srv V = Some (text_file (own_line n # ls))"
    and "\<forall>i < N. fst (qm i) \<and> (\<exists>vs. snd (qm i) = Some vs \<and> length vs = WINDOW_SIZE)"
    and "se_socket W" "se_malloc W" "se_read W" "se_srv W = ie_srv V" and "kind = ''o'' \<or> kind = ''p''"
  shows "\<exists>b sv. server_start W (\<lambda>nb. distribution_init_windowed V N (mlt_init True True True 0 True (int N) nb)
        (eacl_init_windowed True True True qm True (int N))) [dec nb, kind] = Some (Serving n b) \<and>
    booted b = Some sv \<and> sv_self sv = n \<and> server_ok eacl_wf_windowed eacl_len N sv (replicate N []) \<and>
    access_count (sv_list sv) = replicate N 0 \<and> sai (sv_list sv) = replicate N 0 \<and> load_lvl (sv_list sv) = 0 \<and>
    length (old_accesses (sv_list sv)) = N \<and> (\<forall>q \<in> set (old_accesses (sv_list sv)). q_list q = []) \<and>
    bt_push b \<and> bt_listener b \<and> (\<forall>i < N. mlt_row (sv_table sv) i = (int i mod nb, 0, 0))"
proof -
  obtain t where t: "mlt_init True True True 0 True (int N) nb = (0, Some t)" "mlt_wf t" "mlt_len t = N"
    "\<forall>i < N. mlt_row t i = (int i mod nb, 0, 0)"
    using mlt_init_ok [of "int N" nb] mlt_row_of_init [of "int N" _ nb] assms(1-3)
    by (auto simp: mlt_row_def int_of_u32_def)
  obtain e where e: "eacl_init_windowed True True True qm True (int N) = (0, Some e)" "eacl_wf_windowed e" "eacl_len e = N"
    "nothing_counted N e"
    using eacl_init_windowed_ok [OF assms(1,2,9)] by blast
  have "read_own_id V = Some (Inr n)"
    by (rule read_own_id_ok [OF assms(5,6)]) (use assms(7,8) in \<open>simp_all add: init_fine_def\<close>)
  from distribution_init_ok [where good = eacl_wf_windowed and len = eacl_len, OF assms(7) this t(2,3) e(2,3)] obtain b sv where b:
    "distribution_init V N (0, Some t) (0, Some e) = Some (Returned 0, b)" "booted b = Some sv"
    "bt_push b" "bt_listener b" "sv_table sv = t" "sv_list sv = e" "sv_self sv = n" "server_ok eacl_wf_windowed eacl_len N sv (replicate N [])" by blast
  have "buffer_line (take max_id_size (text_file (own_line n # ls)) @ u) = Some (own_line n)" for u
    using buffer_line_ok [OF assms(5,6)] by simp
  then show ?thesis
    using assms(8,10-14) b t(1,4) e(1,4) own_line(1) [OF assms(5,6)] atoi_dec [of nb "[]"] assms(3,4)
    by (auto simp: server_start_def distribution_init_windowed_def nothing_counted_def)
qed

definition init_demo :: init_env where
  "init_demo = \<lparr>ie_malloc_id = True, ie_srv = Some (text_file [own_line 7]), ie_malloc_md = True,
     ie_garbage = (\<lambda>_. Some 9), ie_lock = (\<lambda>_. 0), ie_push = True, ie_thread = 0\<rparr>"

definition start_demo :: start_env where
  "start_demo = \<lparr>se_socket = True, se_malloc = True, se_srv = Some (text_file [own_line 7]), se_read = True,
     se_garbage = ''garbage''\<rparr>"

theorem server_starts_witness:
  "\<exists>b sv. server_start start_demo (\<lambda>nb. distribution_init_windowed init_demo 3 (mlt_init True True True 0 True (int 3) nb)
        (eacl_init_windowed True True True (\<lambda>_. (True, Some (replicate 12 5))) True (int 3))) [dec 2, ''p''] = Some (Serving 7 b) \<and>
     booted b = Some sv \<and> sv_self sv = 7 \<and> access_count (sv_list sv) = [0, 0, 0] \<and> mlt_row (sv_table sv) 2 = (0, 0, 0)"
proof -
  have "init_fine init_demo 3" "ie_srv init_demo = Some (text_file [own_line 7])"
    by (simp_all add: init_fine_def init_demo_def)
  moreover have "\<forall>i < (3 :: nat). fst (True, Some (replicate 12 5 :: u32 list)) \<and>
      (\<exists>vs. snd (True, Some (replicate 12 5 :: u32 list)) = Some vs \<and> length vs = WINDOW_SIZE)" by (simp add: WINDOW_SIZE_def)
  moreover have "se_socket start_demo" "se_malloc start_demo" "se_read start_demo" "se_srv start_demo = ie_srv init_demo"
    by (simp_all add: start_demo_def init_demo_def)
  moreover have "0 < (3 :: nat)" "int 3 \<le> INT_MAX" "0 < (2 :: int)" "(2 :: int) \<le> INT_MAX" "0 \<le> (7 :: int)" "(7 :: int) \<le> INT_MAX"
    "''p'' = ''o'' \<or> ''p'' = ''p''" by (simp_all add: INT_MAX_def)
  ultimately obtain b sv where b: "server_start start_demo (\<lambda>nb. distribution_init_windowed init_demo 3 (mlt_init True True True 0 True (int 3) nb)
        (eacl_init_windowed True True True (\<lambda>_. (True, Some (replicate 12 5))) True (int 3))) [dec 2, ''p''] = Some (Serving 7 b)"
     "booted b = Some sv" "sv_self sv = 7" "access_count (sv_list sv) = replicate 3 0" "\<forall>i < 3. mlt_row (sv_table sv) i = (int i mod 2, 0, 0)"
    using server_starts [of 3 2 7 init_demo "[]" "\<lambda>_. (True, Some (replicate 12 5))" start_demo "''p''"] by blast
  from b(4,5) have "access_count (sv_list sv) = [0, 0, 0]" "mlt_row (sv_table sv) 2 = (0, 0, 0)"
    by (simp_all add: numeral_3_eq_3)
  with b(1-3) show ?thesis by blast
qed

text \<open>
  An initialisation that reports success without having happened: when the memory for the line
  of \<open>server.cfg\<close> is refused, \<open>distribution_init\<close> returns 0, the value of success, with neither
  the lists of names nor the thread that listens to the manager; \<open>main\<close> goes on and serves.
\<close>

theorem init_without_memory_succeeds:
  assumes "\<not> ie_malloc_id V" and "0 \<le> n" "n \<le> INT_MAX" and "0 \<le> nb" "nb \<le> INT_MAX"
    and "se_socket W" "se_malloc W" "se_read W" "se_srv W = Some (text_file (own_line n # ls))" and "kind = ''o'' \<or> kind = ''p''"
  shows "\<exists>b. server_start W (\<lambda>nb. distribution_init_windowed V N (0, Some t) (0, Some e)) [dec nb, kind] = Some (Serving n b) \<and>
    bt_md b = None \<and> \<not> bt_push b \<and> \<not> bt_listener b"
proof -
  have "buffer_line (take max_id_size (text_file (own_line n # ls)) @ u) = Some (own_line n)" for u
    using buffer_line_ok [OF assms(2,3)] by simp
  moreover have "atoi (dec nb) = Some nb" using atoi_dec [of nb "[]"] assms(4,5) by simp
  ultimately show ?thesis using assms own_line(1) [OF assms(2,3)]
    by (auto simp: server_start_def distribution_init_windowed_def distribution_init_def read_own_id_def boot_static_def)
qed

theorem init_without_memory_succeeds_witness:
  "\<exists>b. server_start start_demo (\<lambda>nb. distribution_init_windowed (init_demo\<lparr>ie_malloc_id := False\<rparr>) 1
        (0, Some \<lparr>id_srv = [0], n_ver = [0], mlt_state = [0], mlt_size = 1\<rparr>)
        (0, Some \<lparr>access_count = [0], sai = [0], eacl_size = 1, load_lvl = 0, old_accesses = []\<rparr>))
      [dec 2, ''o''] = Some (Serving 7 b) \<and> bt_md b = None"
  using init_without_memory_succeeds [of "init_demo\<lparr>ie_malloc_id := False\<rparr>" 7 2 start_demo "[]" "''o''" 1
      "\<lparr>id_srv = [0], n_ver = [0], mlt_state = [0], mlt_size = 1\<rparr>"
      "\<lparr>access_count = [0], sai = [0], eacl_size = 1, load_lvl = 0, old_accesses = []\<rparr>"]
  by (auto simp: start_demo_def INT_MAX_def)

text \<open>
  \<open>distribution_finalize\<close> ends, returns 0 and gives back exactly the cells of the lists, in a
  server of any of the three methods whose lists are well-formed.
\<close>

theorem finalize_frees_the_lists:
  assumes "separate (sv_heap sv) (sv_md sv) ass" and "length (sv_md sv) = N"
  shows "distribution_finalize N sv = Some (0, sv_heap sv |` (- (\<Union>as \<in> set ass. set as)))"
  using free_lists_ok [OF assms] by (simp add: distribution_finalize_def)

definition final_demo :: "eacl server" where
  "final_demo = \<lparr>sv_table = \<lparr>id_srv = [0], n_ver = [0], mlt_state = [0], mlt_size = 1\<rparr>,
     sv_list = \<lparr>access_count = [0], sai = [0], eacl_size = 1\<rparr>, sv_md = [Some 4],
     sv_heap = [4 \<mapsto> \<lparr>md_ent = 0, md_name = ''a'', md_next = Some 2\<rparr>, 2 \<mapsto> \<lparr>md_ent = 0, md_name = ''b'', md_next = None\<rparr>],
     sv_self = 0\<rparr>"

theorem finalize_frees_the_lists_witness:
  "\<exists>h. distribution_finalize 1 final_demo = Some (0, h) \<and> h 4 = None \<and> h 2 = None"
proof -
  have "separate (sv_heap final_demo) (sv_md final_demo) [[4, 2]]"
    by (simp add: separate_def is_list_def final_demo_def)
  from finalize_frees_the_lists [OF this, of 1] show ?thesis
    by (simp add: final_demo_def)
qed

end
