(* ===== verification/Spec2Isabelle.thy ===== *)
theory Spec2Isabelle
  imports Manager_Start Cluster_Moves Cluster_Methods Same_Text Gen_Timestep Epoch_Round Cluster_Epochs Server_Init Tools
begin

text \<open>
  MeDiE, a distributed metadata service: a verification development.

  \<^bold>\<open>The program.\<close> A key is hashed (\<open>src/murmur3.c\<close>) to one of \<open>N_entry\<close> entries, and a table (\<open>src/mlt.c\<close>) gives for
  every entry the server in charge, a version and a flag that the entry is being transferred. Clients (\<open>src/client.c\<close>,
  \<open>src/client_api.c\<close>, \<open>src/request.c\<close>, \<open>src/distribution_*_c.c\<close>) address a request with their own copy of the table. A
  server (\<open>src/server.c\<close>, \<open>src/distribution_*_s.c\<close>) compares the version of the request with its copy: it serves the
  request from its storage (\<open>src/generic_storage.c\<close>), counts the access (\<open>src/eacl_*.c\<close>, \<open>src/queue.c\<close>) and keeps the names
  of each entry in lists (\<open>src/md_entry.c\<close>), or it sends the row it has back, so that the client tries again. A signal
  ends a step: the counters become workload indicators (SAI), which the manager (\<open>src/manager_*.c\<close>) collects to
  move entries from overloaded to idle servers. It publishes the new table, and the servers send each other the names of the
  entries that move. Which of four methods is used, static hashing (\<open>sh\<close>), dynamic hashing (\<open>dh\<close>), the independent
  method (\<open>indedh\<close>) or the windowed one (\<open>windowed\<close>), is chosen when the program is compiled; the text of the files that
  belong to different methods is largely the same.

  \<^bold>\<open>How C is modelled\<close> (\<open>Prelude\<close>). A C \<open>int\<close> is an \<open>int\<close> within \<open>INT_MIN\<close> and \<open>INT_MAX\<close>, an operation on it is checked;
  a \<open>uint32_t\<close> is a word of 32 bits and wraps; the implicit conversions between them are written out (\<open>u32_of_int\<close>,
  \<open>int_of_u32\<close>). Arrays are lists with checked accesses. The result \<open>None\<close> stands for undefined behaviour (an
  access outside an array, a signed overflow, a division by 0, a null pointer, an uninitialised variable), never for an error:
  error codes are values. In a \<open>partial_function (option)\<close> it is also the value of a loop that does not end, so that a
  theorem that gives \<open>Some\<close> shows both. What the system answers (memory, locks, sockets, files) is an argument of the
  definitions (\<open>lock_env\<close>, \<open>io\<close>, \<open>manager_env\<close>, \<open>xfer_env\<close>, \<open>init_env\<close>, \<open>start_env\<close>, \<open>context_env\<close>). The number of
  entries is the argument \<open>N\<close>. The json-c library is a record of operations with the laws it documents (\<open>Json\<close>); the
  sockets of ZeroMQ are the messages that go through them, in order.

  \<^bold>\<open>Theories and code.\<close>

  \<^item> \<open>Prelude\<close>, \<open>C_Strings\<close>: integers, arrays, counted loops with early exit, and the functions of the C library the program
    reads its files with (\<open>fgets\<close>, \<open>strtok\<close>, \<open>strstr\<close>, \<open>strchr\<close>, \<open>atoi\<close>, the format \<open>%d\<close>).
  \<^item> \<open>Interfaces\<close>: the locales \<open>entry_table\<close>, \<open>window_buffer\<close> and \<open>access_list\<close>, each interpreted by its provider,
    and \<open>scheduler\<close>, threads that take turns in any order.
  \<^item> \<open>Mlt\<close>: \<open>mlt.c\<close>. \<open>Queue\<close>: \<open>queue.c\<close>. \<open>Eacl\<close>: \<open>eacl_dh.c\<close>, \<open>eacl_indedh.c\<close>, \<open>eacl_windowed.c\<close>. \<open>Murmur3\<close>:
    \<open>murmur3.c\<close>. \<open>Md_Entry\<close>: \<open>md_entry.c\<close>, over an explicit heap. \<open>Generic_Storage\<close>: \<open>generic_storage.c\<close>. Each has a
    well-formedness predicate that the operations keep, and a description of every operation on every branch.
  \<^item> \<open>Load_Sort\<close>: the quicksort of the lists of transfers, the same in three server files. \<open>Balance\<close>: \<open>manager_sort_subset\<close> and
    the two versions of \<open>manager_balance_load\<close>, shown to be one greedy choice.
  \<^item> \<open>Manager_Common\<close>, \<open>Manager_Protocol\<close>: merge of the answers, loads, and the main loop of the managers with epochs as
    steps over arrivals, turns and signals, over the locale \<open>rebalancer\<close>. \<open>Manager_Windowed\<close>: \<open>manager_windowed.c\<close> and
    \<open>manager_v2_indedh.c\<close>. \<open>Relab_Loads\<close>, \<open>Manager_Indedh\<close>, \<open>Manager_Dh\<close>: \<open>manager_indedh.c\<close> and \<open>manager_dh.c\<close>.
    \<open>Manager_Dh_Main\<close>: the loop of \<open>manager_dh.c\<close> as steps. \<open>Manager_Start\<close>: the four managers from their command line on.
  \<^item> \<open>Json\<close>, \<open>Server_Dist\<close>, \<open>Server_Main\<close>: what \<open>distribution_*_s.c\<close> and \<open>server.c\<close> do for one request, over the
    locale \<open>served_list\<close> of the access lists.
  \<^item> \<open>Transfer_Lists\<close>, \<open>Load_Transfer\<close>, \<open>Load_Sender\<close>, \<open>Redistribution\<close>: how a server takes over a published table: the loop
    that compares the two tables, the sender and the receiver thread, and all three together (\<open>install_table\<close>, which runs the
    sender, then the receiver). \<open>Placement\<close>: where the keys of a cluster are. \<open>Transfer_Threads\<close>: the same threads of all servers
    as turns of one entry or one packet each (\<open>snd_turn\<close>, \<open>rcv_turn\<close>), which interleave in any order and share the tables, lists and
    storage of their server; locale \<open>scheduler\<close> of \<open>Interfaces\<close>.
  \<^item> \<open>Server_Signals\<close>: the actions of both signals of the four methods and the listener of the manager, with the step
    function of a server over messages, turns and signals; locale \<open>stepped_list\<close>. \<open>Server_Init\<close>: start and end of a server.
  \<^item> \<open>Client\<close>, \<open>Client_Main\<close>, \<open>Tools\<close>: the client side of the distribution, the API, the client program with its trace, and
    \<open>check_index.c\<close>. \<open>Gen_Timestep\<close>: \<open>gen_timestep.c\<close>. \<open>Same_Text\<close>: by name, the functions whose text is the same in several files.
  \<^item> \<open>Main_Thread\<close>: the main thread of a server as three turns (check, storage, reply) next to the transfer threads, with the
    lemma that the turns of one request make \<open>server_handle\<close>. \<open>Request_Races\<close>: what a redistribution between these turns does.
  \<^item> Compositions: \<open>Cluster\<close> (API and servers), \<open>Moves\<close> (windowed manager and the tables of all servers),
    \<open>Cluster_Moves\<close> (a redistribution by all servers, with the packets in any order), \<open>Cluster_Threads\<close> (the same for
    every schedule of the threads), \<open>Cluster_Methods\<close> (the same for the managers of the other two methods), \<open>Epoch_Round\<close>
    (manager and listeners in one round), \<open>Cluster_Epochs\<close> (manager and servers as a step relation with any interleaving,
    locale \<open>epoch_server\<close>), and the last part of \<open>Client_Main\<close> (program, API and servers).

  \<^bold>\<open>What is proved.\<close> For the components: type and well-formedness invariants, results on all branches, refinement of maps,
  lists and windows. For the managers: no access outside the arrays, moves only from overloaded to idle servers with the
  next version, an accounting of the loads that keeps its sum, and a main loop that is safe for any interleaving. For a
  redistribution: manager and servers agree on every move, both threads end, every entry is delivered once, the names
  arrive, and over the whole cluster every key stays on the server in charge of its entry and nowhere else. For the threads
  of all servers: no schedule deadlocks, loses a key or has it twice, and a schedule that lets every thread have its turn ends.
  Whole read requests may go on between the turns of the transfers and are answered. The check of a request does not hold
  until the request is executed, however: a creation that is overtaken by a transfer is lost, a read ends the server, a deletion
  ends the sender.
  For requests: a served creation is stored, listed and counted; a refused request changes nothing;
  a client with an old row is redirected and succeeds at the second attempt. The client program makes the calls of its trace and
  no other, which \<open>Client_Main\<close> states in terms of the calls and their answers only (\<open>session\<close>, \<open>performs\<close>). Where the code does not do what it means to, a theorem
  exhibits it: an epoch that is lost, a server that is skipped, a cluster that is blocked, a buffer that overflows.

  \<^bold>\<open>Bounds and loops.\<close> Loops over a counter are \<open>forM\<close> and \<open>forE\<close> over the list of its values. Loops over a list, a
  file or the marked part of an array recurse on a measure. The loops that end only for well-formed data (\<open>pack_names\<close>,
  \<open>send_group\<close>, \<open>send_all\<close>, \<open>free_list\<close>, \<open>md_entry_search_loop\<close>, \<open>load_args_sort\<close>, \<open>run_requests\<close>, \<open>gen_keys\<close>) are \<open>partial_function (option)\<close>, and the
  properties show when they return. No fuel is used. The infinite loops of the manager, the listener and the server are step
  functions of which each turn is total.

  \<^bold>\<open>Not modelled.\<close> The arithmetic of \<open>float\<close> (what the two comparisons of \<open>gen_timestep.c\<close> give is an argument); the test drivers
  under \<open>test\<close>; the printed messages and measured times; the destructors, which only free memory; a receive that a signal interrupts.
  A turn of a transfer thread is one entry or one packet, a turn of the main thread one of the three parts of a request: the
  interleaving of the single statements within a turn, which share the lists under the lock of the entry and the access list without a lock, is not modelled,
  nor is a creation, update or deletion between the turns of a transfer except for those shown to go wrong. Of the windowed and the independent method the access to
  one access list by the handler of a signal in the middle of a turn of the listener is not modelled.
\<close>

end
